(* ===== verification/Prelude.thy ===== *)
theory Prelude
  imports Main "HOL-Library.AList" "HOL-Library.Multiset"
begin

text \<open>
  Shared vocabulary of the development: the outcome type of code that may panic or not
  return, the hash containers of the compiler (\<open>FxHashMap\<close>, \<open>FxHashSet\<close>) with an explicit
  iteration order, and loops over them. The contract of a hash map is also stated as a locale,
  interpreted on the list model the components use.
\<close>

named_theorems res_simps \<open>elimination of the outcome monad\<close>
named_theorems fx_simps \<open>hash containers seen as maps and sets\<close>

section \<open>Outcomes\<close>

text \<open>
  A Rust function returns, panics (\<open>unwrap\<close> on \<open>None\<close>, an index out of bounds, a failed
  assertion, an explicit \<open>panic!\<close>) or does not return. \<open>Diverge\<close> is the value of a bounded
  run that used up its bound.
\<close>

datatype panic = Unwrap_None | Index_Out_Of_Bounds | Assert_Failed | Explicit_Panic string

datatype 'a res = Ok 'a | Panic panic | Diverge

fun res_bind :: "'a res \<Rightarrow> ('a \<Rightarrow> 'b res) \<Rightarrow> 'b res" where
  "res_bind (Ok x) f = f x"
| "res_bind (Panic e) f = Panic e"
| "res_bind Diverge f = Diverge"

lemma res_bind_Ok_iff [res_simps]:
  "res_bind r f = Ok y \<longleftrightarrow> (\<exists>x. r = Ok x \<and> f x = Ok y)"
  by (cases r) auto

lemma res_bind_cong [fundef_cong]:
  "r = r' \<Longrightarrow> (\<And>x. r' = Ok x \<Longrightarrow> f x = g x) \<Longrightarrow> res_bind r f = res_bind r' g"
  by (cases r') auto

lemma res_bind_assoc [res_simps]:
  "res_bind (res_bind r f) g = res_bind r (\<lambda>x. res_bind (f x) g)"
  by (cases r) auto

text \<open>The three ways in which a value is demanded.\<close>

definition unwrap :: "'a option \<Rightarrow> 'a res" where
  "unwrap x = (case x of None \<Rightarrow> Panic Unwrap_None | Some v \<Rightarrow> Ok v)"

definition index_vec :: "'a list \<Rightarrow> nat \<Rightarrow> 'a res" where
  "index_vec xs i = (if i < length xs then Ok (xs ! i) else Panic Index_Out_Of_Bounds)"

definition assert_that :: "bool \<Rightarrow> unit res" where
  "assert_that b = (if b then Ok () else Panic Assert_Failed)"

lemma unwrap_simps [simp]: "unwrap None = Panic Unwrap_None" "unwrap (Some v) = Ok v"
  by (simp_all add: unwrap_def)

lemma unwrap_Ok_iff [res_simps]: "unwrap x = Ok v \<longleftrightarrow> x = Some v"
  by (cases x) auto

lemma index_vec_Ok_iff [res_simps]: "index_vec xs i = Ok v \<longleftrightarrow> i < length xs \<and> xs ! i = v"
  by (auto simp: index_vec_def)

lemma index_vec_in [simp]: "i < length xs \<Longrightarrow> index_vec xs i = Ok (xs ! i)"
  by (simp add: index_vec_def)

lemma assert_that_Ok_iff [res_simps]: "assert_that b = Ok u \<longleftrightarrow> b"
  by (auto simp: assert_that_def)

lemma assert_that_True [simp]: "assert_that True = Ok ()"
  by (simp add: assert_that_def)

text \<open>A \<open>for\<close> loop whose body may panic.\<close>

fun res_for :: "'a list \<Rightarrow> ('a \<Rightarrow> 's \<Rightarrow> 's res) \<Rightarrow> 's \<Rightarrow> 's res" where
  "res_for [] f s = Ok s"
| "res_for (x # xs) f s = res_bind (f x s) (res_for xs f)"

lemma res_for_cong [fundef_cong]:
  "xs = ys \<Longrightarrow> s = t \<Longrightarrow> (\<And>x u. x \<in> set ys \<Longrightarrow> f x u = g x u) \<Longrightarrow>
     res_for xs f s = res_for ys g t"
proof (induction ys arbitrary: xs s t)
  case Nil
  then show ?case by simp
next
  case (Cons y ys)
  then show ?case by (cases "g y t") auto
qed

lemma res_for_append:
  "res_for (xs @ ys) f s = res_bind (res_for xs f s) (res_for ys f)"
proof (induction xs arbitrary: s)
  case (Cons x xs)
  then show ?case by (cases "f x s") auto
qed simp

lemma res_for_concat: "res_for (concat (map g xs)) f = res_for xs (\<lambda>x. res_for (g x) f)"
proof (induction xs)
  case (Cons x xs)
  show ?case by (rule ext) (simp add: res_for_append Cons.IH)
qed (simp add: fun_eq_iff)

lemma res_for_map: "res_for (map h xs) f = res_for xs (\<lambda>x. f (h x))"
proof (induction xs)
  case (Cons x xs)
  show ?case by (rule ext) (simp add: Cons.IH)
qed (simp add: fun_eq_iff)

text \<open>A loop that rewrites the elements of a vector in place.\<close>

definition res_map :: "('a \<Rightarrow> 'b res) \<Rightarrow> 'a list \<Rightarrow> 'b list res" where
  "res_map f xs = res_for xs (\<lambda>x ys. res_bind (f x) (\<lambda>y. Ok (ys @ [y]))) []"

lemma res_for_collect:
  assumes "\<And>x. x \<in> set xs \<Longrightarrow> f x = Ok (g x)"
  shows "res_for xs (\<lambda>x ys. res_bind (f x) (\<lambda>y. Ok (ys @ [y]))) ys = Ok (ys @ map g xs)"
  using assms by (induction xs arbitrary: ys) simp_all

lemma res_map_ok: "(\<And>x. x \<in> set xs \<Longrightarrow> f x = Ok (g x)) \<Longrightarrow> res_map f xs = Ok (map g xs)"
  using res_for_collect [of xs f g "[]"] by (simp add: res_map_def)

text \<open>\<open>Iterator::all\<close> with a predicate that may panic.\<close>

fun res_all :: "('a \<Rightarrow> bool res) \<Rightarrow> 'a list \<Rightarrow> bool res" where
  "res_all f [] = Ok True"
| "res_all f (x # xs) = res_bind (f x) (\<lambda>b. if b then res_all f xs else Ok False)"

lemma res_all_ok: "(\<And>x. x \<in> set xs \<Longrightarrow> f x = Ok (p x)) \<Longrightarrow> res_all f xs = Ok (list_all p xs)"
  by (induction xs) simp_all

text \<open>An invariant of the body is an invariant of the loop.\<close>

lemma res_for_invariant:
  assumes "res_for xs f s = Ok t" and "I s"
    and "\<And>x u v. x \<in> set xs \<Longrightarrow> I u \<Longrightarrow> f x u = Ok v \<Longrightarrow> I v"
  shows "I t"
  using assms
proof (induction xs arbitrary: s)
  case (Cons x xs)
  then obtain u where u: "f x s = Ok u" "res_for xs f u = Ok t"
    by (auto simp: res_simps)
  with Cons.prems have "I u" by (meson list.set_intros(1))
  with u Cons.prems Cons.IH show ?case by (meson list.set_intros(2))
qed simp

text \<open>A reflexive and transitive relation that each turn of the body respects relates the
  first and the last state of the loop.\<close>

lemma res_for_relation:
  assumes "res_for xs f s = Ok t" and "\<And>u. R u u" and "\<And>u v w. R u v \<Longrightarrow> R v w \<Longrightarrow> R u w"
    and "\<And>x u v. x \<in> set xs \<Longrightarrow> f x u = Ok v \<Longrightarrow> R u v"
  shows "R s t"
  by (rule res_for_invariant [where I = "R s", OF assms(1)]) (use assms in blast)+

text \<open>If every turn returns and keeps the invariant, the loop returns.\<close>

lemma res_for_total:
  assumes "I s" and "\<And>x u. x \<in> set xs \<Longrightarrow> I u \<Longrightarrow> \<exists>v. f x u = Ok v \<and> I v"
  shows "\<exists>t. res_for xs f s = Ok t \<and> I t"
  using assms
proof (induction xs arbitrary: s)
  case (Cons x xs)
  then obtain u where "f x s = Ok u" "I u" by (meson list.set_intros(1))
  with Cons.IH [of u] Cons.prems(2) show ?case by (simp add: list.set_intros(2))
qed simp

text \<open>The order of approximation by bounded runs: a run that has not exceeded its bound is
  final.\<close>

definition res_le :: "'a res \<Rightarrow> 'a res \<Rightarrow> bool" where
  "res_le r r' \<longleftrightarrow> r = Diverge \<or> r = r'"

named_theorems res_mono \<open>monotonicity in the bound\<close>

lemma res_le_refl [res_mono]: "res_le r r"
  by (simp add: res_le_def)

lemma res_le_trans: "res_le r s \<Longrightarrow> res_le s t \<Longrightarrow> res_le r t"
  by (auto simp: res_le_def)

lemma res_le_bind [res_mono]:
  "res_le r r' \<Longrightarrow> (\<And>x. res_le (f x) (g x)) \<Longrightarrow> res_le (res_bind r f) (res_bind r' g)"
  by (cases r; cases r') (simp_all add: res_le_def)

lemma res_le_for [res_mono]:
  "(\<And>x s. res_le (f x s) (g x s)) \<Longrightarrow> res_le (res_for xs f s) (res_for xs g s)"
  by (induction xs arbitrary: s) (simp_all add: res_le_refl res_le_bind)

lemma res_le_if [res_mono]:
  "(b \<Longrightarrow> res_le r r') \<Longrightarrow> (\<not> b \<Longrightarrow> res_le s s') \<Longrightarrow> res_le (if b then r else s) (if b then r' else s')"
  by simp

lemma res_le_option [res_mono]:
  "res_le r r' \<Longrightarrow> (\<And>x. res_le (f x) (f' x)) \<Longrightarrow> res_le (case_option r f x) (case_option r' f' x)"
  by (cases x) simp_all

lemma res_le_final: "res_le r r' \<Longrightarrow> r \<noteq> Diverge \<Longrightarrow> r' = r"
  by (auto simp: res_le_def)

text \<open>A family of runs that grows with every step of the bound grows with the bound.\<close>

lemma res_le_chain: "(\<And>n. res_le (r n) (r (Suc n))) \<Longrightarrow> n \<le> m \<Longrightarrow> res_le (r n) (r m)"
proof (induction m)
  case 0
  then show ?case by (simp add: res_le_refl)
next
  case (Suc m)
  then show ?case by (metis le_Suc_eq res_le_refl res_le_trans)
qed

section \<open>Hash containers\<close>

text \<open>
  A \<open>FxHashSet\<close> is the list of its elements in the order of their first insertion, a
  \<open>FxHashMap\<close> the list of its entries. What the compiler relies on is that iterating visits
  every element once; in which order is not specified, so each iteration of the model goes
  through an order function that is a parameter.
\<close>

type_synonym 'a fxset = "'a list"
type_synonym ('k, 'v) fxmap = "('k \<times> 'v) list"

definition fx_insert :: "'a \<Rightarrow> 'a fxset \<Rightarrow> 'a fxset" where
  "fx_insert x s = (if x \<in> set s then s else s @ [x])"

definition fx_extend :: "'a fxset \<Rightarrow> 'a list \<Rightarrow> 'a fxset" where
  "fx_extend s xs = fold fx_insert xs s"

definition fx_get :: "('k, 'v) fxmap \<Rightarrow> 'k \<Rightarrow> 'v option" where
  "fx_get m k = map_of m k"

definition fx_put :: "'k \<Rightarrow> 'v \<Rightarrow> ('k, 'v) fxmap \<Rightarrow> ('k, 'v) fxmap" where
  "fx_put k v m = AList.update k v m"

definition fx_keys :: "('k, 'v) fxmap \<Rightarrow> 'k list" where
  "fx_keys m = map fst m"

text \<open>\<open>m.entry(k).or_insert(d)\<close> followed by an update in place.\<close>

definition fx_entry :: "'k \<Rightarrow> 'v \<Rightarrow> ('v \<Rightarrow> 'v) \<Rightarrow> ('k, 'v) fxmap \<Rightarrow> ('k, 'v) fxmap" where
  "fx_entry k d f m = fx_put k (f (case fx_get m k of None \<Rightarrow> d | Some v \<Rightarrow> v)) m"

definition fx_map_ok :: "('k, 'v) fxmap \<Rightarrow> bool" where
  "fx_map_ok m = distinct (fx_keys m)"

lemma set_fx_insert [simp, fx_simps]: "set (fx_insert x s) = insert x (set s)"
  by (auto simp: fx_insert_def)

lemma distinct_fx_insert [simp]: "distinct s \<Longrightarrow> distinct (fx_insert x s)"
  by (simp add: fx_insert_def)

lemma set_fx_extend [simp, fx_simps]: "set (fx_extend s xs) = set s \<union> set xs"
  unfolding fx_extend_def by (induction xs arbitrary: s) auto

lemma distinct_fx_extend [simp]: "distinct s \<Longrightarrow> distinct (fx_extend s xs)"
  unfolding fx_extend_def by (induction xs arbitrary: s) auto

lemma fx_get_put [simp, fx_simps]: "fx_get (fx_put k v m) k' = (if k' = k then Some v else fx_get m k')"
  by (simp add: fx_get_def fx_put_def update_conv')

lemma fx_get_Nil [simp]: "fx_get [] k = None"
  by (simp add: fx_get_def)

lemma set_fx_keys [fx_simps]: "set (fx_keys m) = {k. fx_get m k \<noteq> None}"
  by (auto simp: fx_keys_def fx_get_def map_of_eq_None_iff image_iff)

lemma fx_get_Some_key: "fx_get m k = Some v \<Longrightarrow> k \<in> set (fx_keys m)"
  by (simp add: set_fx_keys)

lemma fx_map_ok_Nil [simp]: "fx_map_ok []"
  by (simp add: fx_map_ok_def fx_keys_def)

lemma fx_map_ok_put [simp]: "fx_map_ok m \<Longrightarrow> fx_map_ok (fx_put k v m)"
  by (simp add: fx_map_ok_def fx_keys_def fx_put_def distinct_update)

lemma fx_map_ok_entry [simp]: "fx_map_ok m \<Longrightarrow> fx_map_ok (fx_entry k d f m)"
  by (simp add: fx_entry_def)

lemma fx_get_iff_mem: "fx_map_ok m \<Longrightarrow> fx_get m k = Some v \<longleftrightarrow> (k, v) \<in> set m"
  by (simp add: fx_map_ok_def fx_keys_def fx_get_def)

text \<open>The contract of a hash map as its clients use it, and what follows from the contract for
  the entry idiom. It is interpreted on the list model below.\<close>

locale hash_map =
  fixes get :: "'m \<Rightarrow> 'k \<Rightarrow> 'v option"
    and put :: "'k \<Rightarrow> 'v \<Rightarrow> 'm \<Rightarrow> 'm"
    and keys :: "'m \<Rightarrow> 'k list"
    and ok :: "'m \<Rightarrow> bool"
    and empty :: 'm
  assumes get_put: "get (put k v m) k' = (if k' = k then Some v else get m k')"
    and get_empty: "get empty k = None"
    and keys_get: "set (keys m) = {k. get m k \<noteq> None}"
    and ok_empty: "ok empty"
    and ok_put: "ok m \<Longrightarrow> ok (put k v m)"
    and ok_distinct: "ok m \<Longrightarrow> distinct (keys m)"
begin

lemma entry_same:
  "get (put k (f (case get m k of None \<Rightarrow> d | Some v \<Rightarrow> v)) m) k =
     Some (f (case get m k of None \<Rightarrow> d | Some v \<Rightarrow> v))"
  by (simp add: get_put)

lemma entry_other:
  "k' \<noteq> k \<Longrightarrow> get (put k (f (case get m k of None \<Rightarrow> d | Some v \<Rightarrow> v)) m) k' = get m k'"
  by (simp add: get_put)

lemma keys_put: "set (keys (put k v m)) = insert k (set (keys m))"
  by (auto simp: keys_get get_put)

lemma keys_empty: "set (keys empty) = {}"
  by (simp add: keys_get get_empty)

lemma ok_fold_put: "ok m \<Longrightarrow> ok (fold (\<lambda>x. put (kf x) (vf x)) xs m)"
  by (induction xs arbitrary: m) (simp_all add: ok_put)

end

interpretation fx: hash_map fx_get fx_put fx_keys fx_map_ok "[]"
  by unfold_locales (simp_all add: set_fx_keys, simp add: fx_map_ok_def)

lemma fx_get_entry [simp, fx_simps]:
  "fx_get (fx_entry k d f m) k' =
     (if k' = k then Some (f (case fx_get m k of None \<Rightarrow> d | Some v \<Rightarrow> v)) else fx_get m k')"
  using fx.entry_same fx.entry_other by (simp add: fx_entry_def)

lemma set_fx_keys_entry [simp]: "set (fx_keys (fx_entry k d f m)) = insert k (set (fx_keys m))"
  by (simp add: fx_entry_def fx.keys_put)

text \<open>A map whose values are sets, as a relation between keys and elements.\<close>

definition fx_rel :: "('k, 'v fxset) fxmap \<Rightarrow> ('k \<times> 'v) set" where
  "fx_rel m = {(k, v). \<exists>s. fx_get m k = Some s \<and> v \<in> set s}"

lemma fx_rel_Nil [simp]: "fx_rel [] = {}"
  by (simp add: fx_rel_def)

lemma fx_rel_entry_insert [simp]:
  "fx_rel (fx_entry k [] (fx_insert v) m) = insert (k, v) (fx_rel m)"
  by (auto simp: fx_rel_def split: option.splits if_splits)

lemma fx_rel_entry_extend:
  "fx_rel (fx_entry k [] (\<lambda>s. fx_extend s vs) m) = {k} \<times> set vs \<union> fx_rel m"
  by (auto simp: fx_rel_def split: option.splits if_splits)

text \<open>Maps whose values are never empty sets: what \<open>entry(..).insert(..)\<close> builds.\<close>

definition fx_nonempty :: "('k, 'v fxset) fxmap \<Rightarrow> bool" where
  "fx_nonempty m \<longleftrightarrow> (\<forall>k. fx_get m k \<noteq> Some [])"

lemma fx_nonempty_Nil [simp]: "fx_nonempty []"
  by (simp add: fx_nonempty_def)

lemma fx_nonempty_entry [simp]: "fx_nonempty m \<Longrightarrow> fx_nonempty (fx_entry k [] (fx_insert v) m)"
  by (auto simp: fx_nonempty_def fx_insert_def split: option.splits)

lemma fx_nonempty_keys: "fx_nonempty m \<Longrightarrow> set (fx_keys m) = Domain (fx_rel m)"
  unfolding fx_nonempty_def fx_rel_def set_fx_keys
  by (auto simp: Domain_iff) (metis list.exhaust list.set_intros(1))

text \<open>Iteration orders.\<close>

definition iter_order :: "('a list \<Rightarrow> 'a list) \<Rightarrow> bool" where
  "iter_order ord \<longleftrightarrow> (\<forall>xs. mset (ord xs) = mset xs)"

lemma iter_order_set: "iter_order ord \<Longrightarrow> set (ord xs) = set xs"
  by (metis iter_order_def mset_eq_setD)

lemma iter_order_distinct: "iter_order ord \<Longrightarrow> distinct (ord xs) = distinct xs"
  by (metis iter_order_def mset_eq_imp_distinct_iff)

lemma iter_order_length: "iter_order ord \<Longrightarrow> length (ord xs) = length xs"
  by (metis iter_order_def mset_eq_length)

lemma iter_order_id: "iter_order (\<lambda>xs. xs)"
  by (simp add: iter_order_def)

lemma iter_order_rev: "iter_order rev"
  by (simp add: iter_order_def)

lemma fx_get_rel: "fx_get m k = Some s \<Longrightarrow> fx_rel m `` {k} = set s"
  by (auto simp: fx_rel_def)

lemma fx_rel_get_default: "fx_rel m = {(k, v). v \<in> set (case fx_get m k of None \<Rightarrow> [] | Some s \<Rightarrow> s)}"
  by (auto simp: fx_rel_def split: option.splits dest: sym)

text \<open>An element that occurs once splits a list in one way.\<close>

lemma split_unique:
  "xs @ x # ys = xs' @ x # ys' \<Longrightarrow> x \<notin> set xs \<Longrightarrow> x \<notin> set ys \<Longrightarrow> xs = xs' \<and> ys = ys'"
  using append_Cons_eq_iff [of x xs ys xs' ys'] by blast

text \<open>The entries of a map in another order are the same map.\<close>

lemma iter_order_entries:
  assumes "iter_order ord" and "fx_map_ok m"
  shows "distinct (map fst (ord m))" and "map_of (ord m) k = fx_get m k"
proof -
  have "mset (map fst (ord m)) = mset (map fst m)"
    using assms(1) by (simp add: iter_order_def)
  from mset_eq_imp_distinct_iff [OF this] show dist: "distinct (map fst (ord m))"
    using assms(2) by (simp add: fx_map_ok_def fx_keys_def)
  have "map_of (ord m) k = Some v \<longleftrightarrow> fx_get m k = Some v" for v
    using dist assms by (simp add: fx_get_iff_mem iter_order_set)
  then show "map_of (ord m) k = fx_get m k" by (metis option.exhaust)
qed

text \<open>Indexed traversals of a list.\<close>

lemma enumerate_of_map: "enumerate n (map f xs) = map (apsnd f) (enumerate n xs)"
  by (induction xs arbitrary: n) simp_all

lemma set_enumerate_nth: "set (enumerate 0 ds) = (\<lambda>n. (n, ds ! n)) ` {..<length ds}"
proof (rule set_eqI)
  fix p :: "nat \<times> 'a"
  show "p \<in> set (enumerate 0 ds) \<longleftrightarrow> p \<in> (\<lambda>n. (n, ds ! n)) ` {..<length ds}"
    by (cases p) (auto simp: in_set_enumerate_eq)
qed

lemma concat_enumerate_mem:
  "x \<in> set (concat (map (\<lambda>(n, d). g n d) (enumerate 0 ds))) \<longleftrightarrow>
     (\<exists>n < length ds. x \<in> set (g n (ds ! n)))"
  by (simp add: set_enumerate_nth Bex_def)

text \<open>Properties of all entries of a map.\<close>

definition fx_all :: "('k \<Rightarrow> 'v \<Rightarrow> bool) \<Rightarrow> ('k, 'v) fxmap \<Rightarrow> bool" where
  "fx_all P m \<longleftrightarrow> (\<forall>e \<in> set m. P (fst e) (snd e))"

lemma fx_all_Nil [simp]: "fx_all P []"
  by (simp add: fx_all_def)

lemma fx_all_get: "fx_all P m \<Longrightarrow> fx_get m k = Some v \<Longrightarrow> P k v"
  unfolding fx_all_def fx_get_def by (auto dest!: map_of_SomeD)

lemma set_fx_put: "set (fx_put k v m) \<subseteq> insert (k, v) (set m)"
  unfolding fx_put_def by (induction m) auto

lemma fx_all_put: "fx_all P m \<Longrightarrow> P k v \<Longrightarrow> fx_all P (fx_put k v m)"
  unfolding fx_all_def using set_fx_put [of k v m] by fastforce

lemma fx_all_entry:
  "fx_all P m \<Longrightarrow> P k (f d) \<Longrightarrow> (\<And>v. P k v \<Longrightarrow> P k (f v)) \<Longrightarrow> fx_all P (fx_entry k d f m)"
  unfolding fx_entry_def by (rule fx_all_put) (auto split: option.split dest: fx_all_get)

lemma fx_all_fold:
  "fx_all P m \<Longrightarrow> (\<And>e m. e \<in> set es \<Longrightarrow> fx_all P m \<Longrightarrow> fx_all P (g e m)) \<Longrightarrow> fx_all P (fold g es m)"
  by (induction es arbitrary: m) simp_all

section \<open>Vectors\<close>

text \<open>\<open>swap\<close> of a vector, for indices inside it.\<close>

definition swap :: "nat \<Rightarrow> nat \<Rightarrow> 'a list \<Rightarrow> 'a list" where
  "swap i j xs = xs[i := xs ! j, j := xs ! i]"

lemma length_swap [simp]: "length (swap i j xs) = length xs"
  by (simp add: swap_def)

lemma nth_swap:
  "i < length xs \<Longrightarrow> j < length xs \<Longrightarrow> swap i j xs ! k = (if k = i then xs ! j else if k = j then xs ! i else xs ! k)"
  by (simp add: swap_def nth_list_update)

end
