(* ===== verification/Graph_Search.thy ===== *)
theory Graph_Search
  imports Prelude
begin

text \<open>
  Facts about searching a finite graph that the control-flow graph and the conflict graph share:
  the locale \<open>list_graph\<close> for graphs given by successor lists, the effect of a depth-first search
  that collects labels, and the sweep over all vertices that yields the connected components of a
  symmetric graph.
\<close>

section \<open>Finite graphs given by successor lists\<close>

text \<open>
  A graph whose vertices with outgoing edges form a finite set. Closed sets contain what can be
  reached, and what can be reached is finite.
\<close>

locale list_graph =
  fixes succs :: "'n \<Rightarrow> 'n list"
    and nodes :: "'n set"
  assumes finite_nodes: "finite nodes"
    and outside: "n \<notin> nodes \<Longrightarrow> succs n = []"
begin

definition edge :: "('n \<times> 'n) set" where
  "edge = {(u, v). v \<in> set (succs u)}"

lemma edge_iff: "(u, v) \<in> edge \<longleftrightarrow> v \<in> set (succs u)"
  by (simp add: edge_def)

lemma edge_image: "edge `` {u} = set (succs u)"
  by (auto simp: edge_def)

lemma edge_nodes: "(u, v) \<in> edge \<Longrightarrow> u \<in> nodes"
  using outside by (force simp: edge_def)

lemma finite_edge: "finite edge"
proof -
  have "edge \<subseteq> (\<Union>u \<in> nodes. Pair u ` set (succs u))"
    by (auto simp: edge_def dest: edge_nodes [unfolded edge_iff])
  then show ?thesis
    by (rule finite_subset) (simp add: finite_nodes)
qed

lemma finite_reach: "finite (edge\<^sup>* `` {u})"
proof -
  have "edge\<^sup>* `` {u} \<subseteq> insert u (Range edge)"
    by (auto elim: rtranclE)
  then show ?thesis
    using finite_edge by (meson finite_Range finite_insert finite_subset)
qed

lemma closed_reach:
  assumes "edge `` S \<subseteq> S" and "u \<in> S"
  shows "edge\<^sup>* `` {u} \<subseteq> S"
proof
  fix v assume "v \<in> edge\<^sup>* `` {u}"
  then have "(u, v) \<in> edge\<^sup>*" by simp
  then show "v \<in> S" by induction (use assms in auto)
qed

lemma closed_reach_succs:
  "(\<And>x. x \<in> S \<Longrightarrow> set (succs x) \<subseteq> S) \<Longrightarrow> u \<in> S \<Longrightarrow> edge\<^sup>* `` {u} \<subseteq> S"
  by (rule closed_reach) (auto simp: edge_def)


end

text \<open>
  The effect of a depth-first search that collects labels: the roots are visited, nothing outside
  what they reach is, every neighbour of a newly visited vertex is visited, and the labels
  collected are those of the newly visited vertices. A state is the list of visited vertices and
  the list of collected labels.
\<close>

definition search_effect ::
    "('n \<times> 'n) set \<Rightarrow> ('n \<times> 'l) set \<Rightarrow> 'n set \<Rightarrow> 'n list \<times> 'l list \<Rightarrow> 'n list \<times> 'l list \<Rightarrow> bool" where
  "search_effect E L roots s s' \<longleftrightarrow>
     roots \<subseteq> set (fst s') \<and> set (fst s) \<subseteq> set (fst s') \<and>
     set (fst s') \<subseteq> set (fst s) \<union> E\<^sup>* `` roots \<and>
     E `` (set (fst s') - set (fst s)) \<subseteq> set (fst s') \<and>
     set (snd s') = set (snd s) \<union> L `` (set (fst s') - set (fst s))"

lemma search_effect_refl: "roots \<subseteq> set (fst s) \<Longrightarrow> search_effect E L roots s s"
  by (auto simp: search_effect_def)

lemma search_effect_trans:
  assumes "search_effect E L A s t" and "search_effect E L B t u"
  shows "search_effect E L (A \<union> B) s u"
proof -
  let ?new = "\<lambda>x y. set (fst y) - set (fst x)"
  from assms have sub: "set (fst s) \<subseteq> set (fst t)" "set (fst t) \<subseteq> set (fst u)"
    and st: "A \<subseteq> set (fst t)" "set (fst t) \<subseteq> set (fst s) \<union> E\<^sup>* `` A" "E `` ?new s t \<subseteq> set (fst t)"
      "set (snd t) = set (snd s) \<union> L `` ?new s t"
    and tu: "B \<subseteq> set (fst u)" "set (fst u) \<subseteq> set (fst t) \<union> E\<^sup>* `` B" "E `` ?new t u \<subseteq> set (fst u)"
      "set (snd u) = set (snd t) \<union> L `` ?new t u"
    by (simp_all add: search_effect_def)
  from sub have new: "?new s u = ?new s t \<union> ?new t u" by blast
  have "E `` ?new s u \<subseteq> set (fst u)"
    unfolding new Image_Un using st(3) tu(3) sub(2) by blast
  moreover have "set (snd u) = set (snd s) \<union> L `` ?new s u"
    by (simp only: new Image_Un st(4) tu(4) Un_assoc)
  moreover have "A \<union> B \<subseteq> set (fst u)" using st(1) tu(1) sub(2) by blast
  moreover have "set (fst u) \<subseteq> set (fst s) \<union> E\<^sup>* `` (A \<union> B)"
    unfolding Image_Un using st(2) tu(2) by blast
  ultimately show ?thesis using sub by (simp add: search_effect_def)
qed

lemma search_effect_root:
  assumes "search_effect E L (E `` {u}) (fx_insert u vis, cs') s'" and "u \<notin> set vis"
    and "set cs' = set cs \<union> L `` {u}"
  shows "search_effect E L {u} (vis, cs) s'"
proof -
  let ?vis' = "set (fst s')"
  let ?new = "?vis' - insert u (set vis)"
  from assms(1) have sub: "insert u (set vis) \<subseteq> ?vis'" and succs: "E `` {u} \<subseteq> ?vis'"
    and reach: "?vis' \<subseteq> insert u (set vis) \<union> E\<^sup>* `` (E `` {u})"
    and closed: "E `` ?new \<subseteq> ?vis'" and txs: "set (snd s') = set cs' \<union> L `` ?new"
    by (simp_all add: search_effect_def)
  have new: "?vis' - set vis = {u} \<union> ?new"
    using sub assms(2) by blast
  have "E\<^sup>* `` (E `` {u}) \<subseteq> E\<^sup>* `` {u}"
    by (auto intro: converse_rtrancl_into_rtrancl)
  with reach have "?vis' \<subseteq> set vis \<union> E\<^sup>* `` {u}" by blast
  moreover have "E `` (?vis' - set vis) \<subseteq> ?vis'"
    using closed succs by (simp only: new Image_Un Un_least)
  moreover have "set (snd s') = set cs \<union> L `` (?vis' - set vis)"
    by (simp only: new Image_Un txs assms(3) Un_assoc)
  ultimately show ?thesis using sub by (simp add: search_effect_def)
qed

text \<open>In a symmetric graph a search from an unvisited root over a closed visited set adds exactly
  the component of the root.\<close>

lemma sym_rtrancl_avoids:
  assumes "sym E" and "E `` S \<subseteq> S" and "u \<notin> S"
  shows "E\<^sup>* `` {u} \<inter> S = {}"
proof -
  have "u \<in> S" if "(u, v) \<in> E\<^sup>*" "v \<in> S" for v
    using that by induction (use assms(1,2) in \<open>auto dest: symD\<close>)
  with assms(3) show ?thesis by auto
qed

lemma search_effect_component:
  assumes "search_effect E L {u} (vis, []) (vis', cs)" and "sym E"
    and "E `` set vis \<subseteq> set vis" and "u \<notin> set vis"
  shows "set vis' = set vis \<union> E\<^sup>* `` {u}" and "E `` set vis' \<subseteq> set vis'"
    and "set cs = L `` (E\<^sup>* `` {u})"
proof -
  from assms(1) have sub: "set vis \<subseteq> set vis'" "u \<in> set vis'"
    and le: "set vis' \<subseteq> set vis \<union> E\<^sup>* `` {u}" and new: "E `` (set vis' - set vis) \<subseteq> set vis'"
    and cs: "set cs = L `` (set vis' - set vis)"
    by (auto simp: search_effect_def)
  show closed: "E `` set vis' \<subseteq> set vis'"
    using new assms(3) sub(1) by blast
  have "v \<in> set vis'" if "(u, v) \<in> E\<^sup>*" for v
    using that by induction (use sub(2) closed in auto)
  with le sub(1) show eq: "set vis' = set vis \<union> E\<^sup>* `` {u}" by auto
  have "set vis' - set vis = E\<^sup>* `` {u}"
    using sym_rtrancl_avoids [OF assms(2-4)] eq by blast
  with cs show "set cs = L `` (E\<^sup>* `` {u})" by simp
qed

section \<open>Sweeping all components\<close>

text \<open>
  The state of a sweep: the visited vertices and the label sets found so far. The roots of the
  searches lie in different components, the visited vertices are what the roots reach, and each
  label set belongs to the component of its root.
\<close>

definition sweep_inv ::
    "('n \<times> 'n) set \<Rightarrow> ('n \<times> 'l) set \<Rightarrow> 'n set \<Rightarrow> 'n list \<times> 'l list list \<Rightarrow> bool" where
  "sweep_inv E L V s \<longleftrightarrow>
     (\<exists>rs. set (fst s) = E\<^sup>* `` set rs \<and> set rs \<subseteq> V \<and>
        map set (snd s) = map (\<lambda>r. L `` (E\<^sup>* `` {r})) rs \<and>
        sorted_wrt (\<lambda>r r'. (r, r') \<notin> E\<^sup>*) rs)"

lemma sweep_inv_Nil: "sweep_inv E L V ([], [])"
  by (auto simp: sweep_inv_def intro: exI [of _ "[]"])

lemma sweep_inv_closed:
  assumes "sweep_inv E L V s"
  shows "E `` set (fst s) \<subseteq> set (fst s)"
proof -
  obtain rs where "set (fst s) = E\<^sup>* `` set rs"
    using assms by (auto simp: sweep_inv_def)
  then show ?thesis by (auto intro: rtrancl_into_rtrancl)
qed

lemma sweep_inv_step:
  assumes inv: "sweep_inv E L V (vis, css)" and sym: "sym E"
    and eff: "search_effect E L {u} (vis, []) (vis', cs)" and u: "u \<notin> set vis" "u \<in> V"
  shows "sweep_inv E L V (vis', css @ [cs])"
proof -
  from inv obtain rs where rs: "set vis = E\<^sup>* `` set rs" "set rs \<subseteq> V"
    "map set css = map (\<lambda>r. L `` (E\<^sup>* `` {r})) rs" "sorted_wrt (\<lambda>r r'. (r, r') \<notin> E\<^sup>*) rs"
    by (auto simp: sweep_inv_def)
  have closed: "E `` set vis \<subseteq> set vis"
    using sweep_inv_closed [OF inv] by simp
  note comp = search_effect_component [OF eff sym closed u(1)]
  have "sorted_wrt (\<lambda>r r'. (r, r') \<notin> E\<^sup>*) (rs @ [u])"
    using rs(1,4) u(1) by (auto simp: sorted_wrt_append)
  then show ?thesis
    unfolding sweep_inv_def
    by (intro exI [of _ "rs @ [u]"]) (use rs u(2) comp(1,3) in \<open>simp add: Image_Un [symmetric]\<close>)
qed

text \<open>Labels linked through shared vertices, and the graph in which the vertices of one label are
  pairwise joined.\<close>

definition shared_edge :: "('n \<times> 'l) set \<Rightarrow> ('n \<times> 'n) set" where
  "shared_edge U = {(u, v). u \<noteq> v \<and> (\<exists>t. (u, t) \<in> U \<and> (v, t) \<in> U)}"

definition linked :: "('n \<times> 'l) set \<Rightarrow> ('l \<times> 'l) set" where
  "linked U = {(t, t'). \<exists>u. (u, t) \<in> U \<and> (u, t') \<in> U}"

lemma sym_shared_edge: "sym (shared_edge U)"
  by (auto simp: sym_def shared_edge_def)

lemma shared_edge_connected:
  "(u, t) \<in> U \<Longrightarrow> (v, t) \<in> U \<Longrightarrow> (u, v) \<in> (shared_edge U)\<^sup>*"
  by (cases "u = v") (auto simp: shared_edge_def)

lemma component_linked:
  assumes "(u, t) \<in> U"
  shows "U `` ((shared_edge U)\<^sup>* `` {u}) = (linked U)\<^sup>* `` {t}"
proof -
  have "(t, t') \<in> (linked U)\<^sup>*" if "(u, v) \<in> (shared_edge U)\<^sup>*" "(v, t') \<in> U" for v t'
    using that
  proof (induction arbitrary: t')
    case base
    with assms have "(t, t') \<in> linked U" by (auto simp: linked_def)
    then show ?case by (rule r_into_rtrancl)
  next
    case (step v w)
    then obtain s where s: "(v, s) \<in> U" "(w, s) \<in> U" by (auto simp: shared_edge_def)
    with step.prems have "(s, t') \<in> linked U" by (auto simp: linked_def)
    with step.IH [OF s(1)] show ?case by (rule rtrancl_into_rtrancl)
  qed
  moreover have "\<exists>v. (u, v) \<in> (shared_edge U)\<^sup>* \<and> (v, t') \<in> U" if "(t, t') \<in> (linked U)\<^sup>*" for t'
    using that
  proof induction
    case base
    with assms show ?case by blast
  next
    case (step s t')
    then obtain v w where "(u, v) \<in> (shared_edge U)\<^sup>*" "(v, s) \<in> U" "(w, s) \<in> U" "(w, t') \<in> U"
      by (auto simp: linked_def)
    then show ?case by (meson rtrancl_trans shared_edge_connected)
  qed
  ultimately show ?thesis by blast
qed

lemma sym_rtrancl_component:
  assumes "sym E" and "(u, v) \<in> E\<^sup>*"
  shows "E\<^sup>* `` {u} = E\<^sup>* `` {v}"
proof -
  have "(v, u) \<in> E\<^sup>*" using assms by (meson symE sym_rtrancl)
  with assms(2) show ?thesis by (auto intro: rtrancl_trans)
qed

text \<open>When the sweep has visited every vertex, it has found exactly the classes of linked labels,
  each once.\<close>

lemma sweep_inv_classes:
  assumes inv: "sweep_inv (shared_edge U) U (Domain U) (vis, css)" and all: "Domain U \<subseteq> set vis"
  shows "set ` set css = Range U // (linked U)\<^sup>*" and "distinct (map set css)"
proof -
  let ?E = "shared_edge U"
  from inv obtain rs where rs: "set vis = ?E\<^sup>* `` set rs" "set rs \<subseteq> Domain U"
    "map set css = map (\<lambda>r. U `` (?E\<^sup>* `` {r})) rs" "sorted_wrt (\<lambda>r r'. (r, r') \<notin> ?E\<^sup>*) rs"
    by (auto simp: sweep_inv_def)
  have sets: "set ` set css = (\<lambda>r. U `` (?E\<^sup>* `` {r})) ` set rs"
    using rs(3) by (metis list.set_map)
  show "set ` set css = Range U // (linked U)\<^sup>*"
  proof (rule set_eqI)
    fix C
    show "C \<in> set ` set css \<longleftrightarrow> C \<in> Range U // (linked U)\<^sup>*"
    proof
      assume "C \<in> set ` set css"
      then obtain r where r: "r \<in> set rs" "C = U `` (?E\<^sup>* `` {r})" using sets by auto
      then obtain t where t: "(r, t) \<in> U" using rs(2) by auto
      with r(2) have "C = (linked U)\<^sup>* `` {t}" by (simp add: component_linked)
      with t show "C \<in> Range U // (linked U)\<^sup>*" by (auto intro: quotientI)
    next
      assume "C \<in> Range U // (linked U)\<^sup>*"
      then obtain t u where t: "C = (linked U)\<^sup>* `` {t}" "(u, t) \<in> U" by (auto elim: quotientE)
      then obtain r where r: "r \<in> set rs" "(r, u) \<in> ?E\<^sup>*" using all rs(1) by auto
      have "C = U `` (?E\<^sup>* `` {r})"
        using t component_linked [OF t(2)] sym_rtrancl_component [OF sym_shared_edge r(2)] by simp
      with r(1) show "C \<in> set ` set css" using sets by blast
    qed
  qed
  have apart: "(r, r') \<in> ?E\<^sup>*"
    if eq: "U `` (?E\<^sup>* `` {r}) = U `` (?E\<^sup>* `` {r'})" and r': "r' \<in> set rs" for r r'
  proof -
    obtain t where t: "(r', t) \<in> U" using r' rs(2) by auto
    then have "t \<in> U `` (?E\<^sup>* `` {r})" unfolding eq by auto
    then obtain v where "(r, v) \<in> ?E\<^sup>*" "(v, t) \<in> U" by auto
    with t show ?thesis by (meson rtrancl_trans shared_edge_connected)
  qed
  show "distinct (map set css)"
    unfolding rs(3) distinct_conv_nth
  proof (intro allI impI)
    fix i j
    assume ij: "i < length (map (\<lambda>r. U `` (?E\<^sup>* `` {r})) rs)"
      "j < length (map (\<lambda>r. U `` (?E\<^sup>* `` {r})) rs)" "i \<noteq> j"
    have "(rs ! min i j, rs ! max i j) \<notin> ?E\<^sup>*"
      using sorted_wrt_nth_less [OF rs(4), of "min i j" "max i j"] ij by (auto simp: min_def max_def)
    then have "U `` (?E\<^sup>* `` {rs ! min i j}) \<noteq> U `` (?E\<^sup>* `` {rs ! max i j})"
      using apart [of "rs ! min i j" "rs ! max i j"] ij by (auto simp: max_def)
    then show "map (\<lambda>r. U `` (?E\<^sup>* `` {r})) rs ! i \<noteq> map (\<lambda>r. U `` (?E\<^sup>* `` {r})) rs ! j"
      using ij by (auto simp: min_def max_def split: if_splits)
  qed
qed

lemma equiv_linked: "equiv UNIV ((linked U)\<^sup>*)"
proof -
  have "sym (linked U)" by (auto simp: sym_def linked_def)
  then show ?thesis
    by (simp add: equiv_def refl_rtrancl sym_rtrancl trans_rtrancl)
qed

text \<open>In a list of sets that are the classes of an equivalence, each once, related elements occur
  at one and the same index.\<close>

lemma class_index:
  assumes "set ` set css = A // R" and "distinct (map set css)" and "equiv UNIV R" and "t \<in> A"
  shows "\<exists>i < length css. \<forall>j < length css. \<forall>t'. (t, t') \<in> R \<longrightarrow> (t' \<in> set (css ! j) \<longleftrightarrow> j = i)"
proof -
  have "R `` {t} \<in> set ` set css"
    using assms(1,4) by (simp add: quotientI)
  then obtain i where i: "i < length css" "set (css ! i) = R `` {t}"
    by (metis image_iff in_set_conv_nth)
  have "j = i" if j: "j < length css" "t' \<in> set (css ! j)" "(t, t') \<in> R" for j t'
  proof -
    have "set (css ! j) \<in> A // R" using assms(1) j(1) by (metis imageI nth_mem)
    then obtain x where x: "set (css ! j) = R `` {x}" by (auto elim: quotientE)
    then have "(x, t') \<in> R" using j(2) by simp
    with j(3) have "(t, x) \<in> R"
      using assms(3) by (meson equivE symE transE)
    then have "set (css ! j) = set (css ! i)"
      using x i(2) assms(3) by (metis equiv_class_eq)
    then show ?thesis
      using assms(2) i(1) j(1) by (metis length_map nth_eq_iff_index_eq nth_map)
  qed
  with i show ?thesis by auto
qed

end
