(* ===== verification/Mir.thy ===== *)
theory Mir
  imports Graph_Search
begin

text \<open>
  The intermediate representation the transaction passes work on
  (\<open>src/librustc/mir/mod.rs\<close>): places, operands, statements, terminators, bodies, the
  identifiers of the transaction analysis, and the accessors of these types. Indices
  (\<open>Local\<close>, \<open>BasicBlock\<close>, \<open>Field\<close>) are natural numbers. What the passes never look into
  (spans, regions, interned constants and definitions) is represented by a number.
\<close>

section \<open>Identifiers and types\<close>

record def_id =
  krate :: nat
  def_index :: nat

definition LOCAL_CRATE :: nat where
  "LOCAL_CRATE = 0"

datatype ty =
    Bool_ty | Char_ty | Int_ty nat | Uint_ty nat | Float_ty nat
  | Adt def_id "generic_arg list"
  | Foreign def_id
  | Str_ty
  | Array_ty ty nat
  | Slice ty
  | RawPtr ty bool
  | Ref_ty nat ty bool
  | FnDef def_id "generic_arg list"
  | FnPtr "ty list" ty
  | Dynamic nat nat
  | Closure def_id "generic_arg list"
  | Generator def_id "generic_arg list" nat
  | GeneratorWitness "ty list"
  | Never
  | Tuple_ty "generic_arg list"
  | Projection def_id "generic_arg list"
  | UnnormalizedProjection def_id "generic_arg list"
  | Opaque def_id "generic_arg list"
  | Param nat
  | Bound_ty nat nat
  | Placeholder nat
  | Infer nat
  | Error_ty
and generic_arg = Lifetime nat | Type ty | Const_arg nat

text \<open>A constant: its type and its value; \<open>Other_val\<close> is the number of any other interned
  value.\<close>

datatype const_val = Scalar_usize nat | Zero_sized | Other_val nat

record const_lit =
  lit_ty :: ty
  lit_val :: const_val

record mir_constant =
  const_span :: nat
  const_user_ty :: "nat option"
  const_literal :: const_lit

section \<open>Places, operands, right-hand sides\<close>

datatype place_elem =
    Deref
  | Field nat ty
  | Index nat
  | ConstantIndex nat nat bool
  | Subslice nat nat
  | Downcast "nat option" nat

datatype place_base = Local nat | Static ty def_id

record place =
  place_base :: place_base
  place_projection :: "place_elem list"

datatype operand = Copy place | Move place | Constant mir_constant

datatype borrow_kind = Shared | Shallow | Unique | Mut bool

datatype bin_op =
    Add | Sub | Mul | Div | Rem | BitXor | BitAnd | BitOr | Shl | Shr
  | Eq_op | Lt_op | Le_op | Ne_op | Ge_op | Gt_op | Offset

datatype null_op = SizeOf | Box_op

datatype un_op = Not_op | Neg_op

datatype cast_kind = Misc | Pointer nat

datatype aggregate_kind =
    Agg_Array ty
  | Agg_Tuple
  | Agg_Adt def_id nat "generic_arg list" "nat option" "nat option"
  | Agg_Closure def_id "generic_arg list"
  | Agg_Generator def_id "generic_arg list" nat

datatype rvalue =
    Use operand
  | Repeat operand nat
  | Ref nat borrow_kind place
  | Len place
  | Cast cast_kind operand ty
  | BinaryOp bin_op operand operand
  | CheckedBinaryOp bin_op operand operand
  | NullaryOp null_op ty
  | UnaryOp un_op operand
  | Discriminant place
  | Aggregate aggregate_kind "operand list"

definition is_checkable :: "bin_op \<Rightarrow> bool" where
  "is_checkable op = (op \<in> {Add, Sub, Mul, Shl, Shr})"

fun elem_is_indirect :: "place_elem \<Rightarrow> bool" where
  "elem_is_indirect Deref = True"
| "elem_is_indirect _ = False"

definition is_indirect :: "place \<Rightarrow> bool" where
  "is_indirect p = list_ex elem_is_indirect (place_projection p)"

definition local_or_deref_local :: "place \<Rightarrow> nat option" where
  "local_or_deref_local p =
     (case (place_base p, place_projection p) of
        (Local l, []) \<Rightarrow> Some l
      | (Local l, [Deref]) \<Rightarrow> Some l
      | _ \<Rightarrow> None)"

definition as_local :: "place \<Rightarrow> nat option" where
  "as_local p =
     (case (place_base p, place_projection p) of (Local l, []) \<Rightarrow> Some l | _ \<Rightarrow> None)"

definition place_from_local :: "nat \<Rightarrow> place" where
  "place_from_local l = \<lparr>place_base = Local l, place_projection = []\<rparr>"

fun to_copy :: "operand \<Rightarrow> operand" where
  "to_copy (Move p) = Copy p"
| "to_copy op = op"

section \<open>Statements and terminators\<close>

record source_info =
  si_span :: nat
  si_scope :: nat

datatype statement_kind =
    Assign place rvalue
  | FakeRead nat place
  | SetDiscriminant place nat
  | StorageLive nat
  | StorageDead nat
  | InlineAsm nat "place list" "(nat \<times> operand) list"
  | Retag nat place
  | AscribeUserType place nat nat
  | Nop

record statement =
  stmt_source_info :: source_info
  stmt_kind :: statement_kind

definition make_nop :: "statement \<Rightarrow> statement" where
  "make_nop s = s\<lparr>stmt_kind := Nop\<rparr>"

datatype panic_info =
    Panic_msg nat nat nat nat
  | BoundsCheck operand operand
  | Overflow bin_op
  | OverflowNeg
  | DivisionByZero
  | RemainderByZero
  | GeneratorResumedAfterReturn
  | GeneratorResumedAfterPanic

datatype terminator_kind =
    Goto nat
  | SwitchInt operand ty "nat list" "nat list"
  | Resume
  | Abort
  | Return
  | Unreachable
  | Drop place nat "nat option"
  | DropAndReplace place operand nat "nat option"
  | Call operand "operand list" "(place \<times> nat) option" "nat option" bool
  | Assert operand bool panic_info nat "nat option"
  | Yield operand nat "nat option"
  | GeneratorDrop
  | FalseEdges nat nat
  | FalseUnwind nat "nat option"

record terminator =
  term_source_info :: source_info
  term_kind :: terminator_kind

record basic_block_data =
  statements :: "statement list"
  terminator :: "terminator option"
  is_cleanup :: bool

fun successors :: "terminator_kind \<Rightarrow> nat list" where
  "successors Resume = []"
| "successors Abort = []"
| "successors GeneratorDrop = []"
| "successors Return = []"
| "successors Unreachable = []"
| "successors (Call _ _ None None _) = []"
| "successors (Goto t) = [t]"
| "successors (Call _ _ None (Some t) _) = [t]"
| "successors (Call _ _ (Some (_, t)) None _) = [t]"
| "successors (Yield _ t None) = [t]"
| "successors (DropAndReplace _ _ t None) = [t]"
| "successors (Drop _ t None) = [t]"
| "successors (Assert _ _ _ t None) = [t]"
| "successors (FalseUnwind t None) = [t]"
| "successors (Call _ _ (Some (_, t)) (Some u) _) = [t, u]"
| "successors (Yield _ t (Some u)) = [t, u]"
| "successors (DropAndReplace _ _ t (Some u)) = [t, u]"
| "successors (Drop _ t (Some u)) = [t, u]"
| "successors (Assert _ _ _ t (Some u)) = [t, u]"
| "successors (FalseUnwind t (Some u)) = [t, u]"
| "successors (SwitchInt _ _ _ targets) = targets"
| "successors (FalseEdges t u) = [t, u]"

text \<open>\<open>successors_mut\<close> hands out references to the targets; the model applies what the caller
  writes through them.\<close>

fun successors_mut :: "(nat \<Rightarrow> nat) \<Rightarrow> terminator_kind \<Rightarrow> terminator_kind" where
  "successors_mut f Resume = Resume"
| "successors_mut f Abort = Abort"
| "successors_mut f GeneratorDrop = GeneratorDrop"
| "successors_mut f Return = Return"
| "successors_mut f Unreachable = Unreachable"
| "successors_mut f (Goto t) = Goto (f t)"
| "successors_mut f (Call op args dest cleanup h) =
     Call op args (map_option (map_prod id f) dest) (map_option f cleanup) h"
| "successors_mut f (Yield v t d) = Yield v (f t) (map_option f d)"
| "successors_mut f (DropAndReplace p v t u) = DropAndReplace p v (f t) (map_option f u)"
| "successors_mut f (Drop p t u) = Drop p (f t) (map_option f u)"
| "successors_mut f (Assert c e m t u) = Assert c e m (f t) (map_option f u)"
| "successors_mut f (FalseUnwind t u) = FalseUnwind (f t) (map_option f u)"
| "successors_mut f (SwitchInt d sty vs targets) = SwitchInt d sty vs (map f targets)"
| "successors_mut f (FalseEdges t u) = FalseEdges (f t) (f u)"

fun unwind :: "terminator_kind \<Rightarrow> nat option option" where
  "unwind (Call _ _ _ u _) = Some u"
| "unwind (Assert _ _ _ _ u) = Some u"
| "unwind (DropAndReplace _ _ _ u) = Some u"
| "unwind (Drop _ _ u) = Some u"
| "unwind (FalseUnwind _ u) = Some u"
| "unwind _ = None"

text \<open>\<open>unwind_mut\<close>, as the update a caller makes through the reference it returns.\<close>

fun unwind_mut :: "(nat option \<Rightarrow> nat option) \<Rightarrow> terminator_kind \<Rightarrow> terminator_kind" where
  "unwind_mut f (Call op args dest u h) = Call op args dest (f u) h"
| "unwind_mut f (Assert c e m t u) = Assert c e m t (f u)"
| "unwind_mut f (DropAndReplace p v t u) = DropAndReplace p v t (f u)"
| "unwind_mut f (Drop p t u) = Drop p t (f u)"
| "unwind_mut f (FalseUnwind t u) = FalseUnwind t (f u)"
| "unwind_mut f k = k"

lemma successors_successors_mut [simp]:
  "successors (successors_mut f k) = map f (successors k)"
  by (cases k rule: successors.cases) auto

lemma unwind_unwind_mut [simp]: "unwind (unwind_mut f k) = map_option f (unwind k)"
  by (cases k) auto

text \<open>The unwind edge is a successor.\<close>

lemma unwind_in_successors: "unwind k = Some (Some u) \<Longrightarrow> u \<in> set (successors k)"
  by (cases k rule: successors.cases) auto

definition terminator_if :: "ty \<Rightarrow> operand \<Rightarrow> nat \<Rightarrow> nat \<Rightarrow> terminator_kind" where
  "terminator_if bool_ty cond t f = SwitchInt cond bool_ty [0] [f, t]"

definition block_terminator :: "basic_block_data \<Rightarrow> terminator res" where
  "block_terminator d =
     (case terminator d of
        None \<Rightarrow> Panic (Explicit_Panic ''invalid terminator state'')
      | Some t \<Rightarrow> Ok t)"

text \<open>The closure of \<open>retain_statements\<close> gets a mutable reference: it returns the statement it
  leaves behind and whether to keep it.\<close>

definition retain_statements ::
    "(statement \<Rightarrow> statement \<times> bool) \<Rightarrow> basic_block_data \<Rightarrow> basic_block_data" where
  "retain_statements f d =
     d\<lparr>statements := map (\<lambda>s. case f s of (s', keep) \<Rightarrow> if keep then s' else make_nop s')
        (statements d)\<rparr>"

section \<open>Bodies and locations\<close>

datatype mir_phase = Build | Const | Validated | Optimized

fun phase_index :: "mir_phase \<Rightarrow> nat" where
  "phase_index Build = 0"
| "phase_index Const = 1"
| "phase_index Validated = 2"
| "phase_index Optimized = 3"

datatype mutability = Mutable | Immutable

record local_decl =
  ld_mutability :: mutability
  ld_is_user_variable :: "nat option"
  ld_internal :: bool
  ld_is_block_tail :: "bool option"
  ld_ty :: ty
  ld_user_ty :: "nat list"
  ld_name :: "nat option"
  ld_source_info :: source_info
  ld_visibility_scope :: nat

definition OUTERMOST_SOURCE_SCOPE :: nat where
  "OUTERMOST_SOURCE_SCOPE = 0"

definition new_local :: "ty \<Rightarrow> mutability \<Rightarrow> bool \<Rightarrow> nat \<Rightarrow> local_decl" where
  "new_local t m internal span =
     \<lparr>ld_mutability = m, ld_is_user_variable = None, ld_internal = internal,
      ld_is_block_tail = None, ld_ty = t, ld_user_ty = [], ld_name = None,
      ld_source_info = \<lparr>si_span = span, si_scope = OUTERMOST_SOURCE_SCOPE\<rparr>,
      ld_visibility_scope = OUTERMOST_SOURCE_SCOPE\<rparr>"

definition ld_new_temp :: "ty \<Rightarrow> nat \<Rightarrow> local_decl" where
  "ld_new_temp t span = new_local t Mutable False span"

definition ld_new_internal :: "ty \<Rightarrow> nat \<Rightarrow> local_decl" where
  "ld_new_internal t span = new_local t Mutable True span"

record source_scope_data =
  ss_span :: nat
  ss_parent :: "nat option"

text \<open>Generator drop glue, generator layouts, the crate-local scope data, the user type
  annotations, the debug names of captured variables and the destroyed control flow are numbered;
  the predecessor cache is not part of the state, \<open>calculate_predecessors\<close> below is what it
  holds.\<close>

record body =
  basic_blocks :: "basic_block_data list"
  phase :: mir_phase
  source_scopes :: "source_scope_data list"
  source_scope_local_data :: nat
  yield_ty :: "ty option"
  generator_drop :: "nat option"
  generator_layout :: "nat option"
  local_decls :: "local_decl list"
  user_type_annotations :: nat
  arg_count :: nat
  spread_arg :: "nat option"
  upvar_debuginfo :: "nat list"
  control_flow_destroyed :: "(nat \<times> string) list"
  body_span :: nat

definition body_new ::
    "basic_block_data list \<Rightarrow> source_scope_data list \<Rightarrow> nat \<Rightarrow> ty option \<Rightarrow> local_decl list \<Rightarrow> nat \<Rightarrow> nat
     \<Rightarrow> nat list \<Rightarrow> nat \<Rightarrow> (nat \<times> string) list \<Rightarrow> body res" where
  "body_new blocks scopes scope_data yield_type decls annotations args upvars span destroyed =
     res_bind (assert_that (length decls \<ge> args + 1)) (\<lambda>_.
       Ok \<lparr>basic_blocks = blocks, phase = Build, source_scopes = scopes,
           source_scope_local_data = scope_data, yield_ty = yield_type, generator_drop = None,
           generator_layout = None, local_decls = decls, user_type_annotations = annotations,
           arg_count = args, spread_arg = None, upvar_debuginfo = upvars,
           control_flow_destroyed = destroyed, body_span = span\<rparr>)"

definition START_BLOCK :: nat where
  "START_BLOCK = 0"

record location =
  loc_block :: nat
  loc_statement_index :: nat

text \<open>Locations are compared block first, as the derived \<open>Ord\<close> does.\<close>

definition location_key :: "location \<Rightarrow> nat \<times> nat" where
  "location_key l = (loc_block l, loc_statement_index l)"

datatype local_kind = Var | Temp | Arg | ReturnPointer

definition local_kind :: "body \<Rightarrow> nat \<Rightarrow> local_kind res" where
  "local_kind b l =
     (if l = 0 then Ok ReturnPointer
      else if l < arg_count b + 1 then Ok Arg
      else res_bind (index_vec (local_decls b) l)
        (\<lambda>d. Ok (if ld_name d \<noteq> None then Var else Temp)))"

definition temps_iter :: "body \<Rightarrow> nat list" where
  "temps_iter b =
     filter (\<lambda>i. ld_is_user_variable (local_decls b ! i) = None)
       [arg_count b + 1 ..< length (local_decls b)]"

definition vars_iter :: "body \<Rightarrow> nat list" where
  "vars_iter b =
     filter (\<lambda>i. ld_is_user_variable (local_decls b ! i) \<noteq> None)
       [arg_count b + 1 ..< length (local_decls b)]"

definition mut_vars_iter :: "body \<Rightarrow> nat list" where
  "mut_vars_iter b =
     filter (\<lambda>i. ld_is_user_variable (local_decls b ! i) \<noteq> None
                \<and> ld_mutability (local_decls b ! i) = Mutable)
       [arg_count b + 1 ..< length (local_decls b)]"

definition mut_vars_and_args_iter :: "body \<Rightarrow> nat list" where
  "mut_vars_and_args_iter b =
     filter (\<lambda>i. (ld_is_user_variable (local_decls b ! i) \<noteq> None \<or> i < arg_count b + 1)
                \<and> ld_mutability (local_decls b ! i) = Mutable)
       [1 ..< length (local_decls b)]"

definition args_iter :: "body \<Rightarrow> nat list" where
  "args_iter b = [1 ..< arg_count b + 1]"

definition vars_and_temps_iter :: "body \<Rightarrow> nat list" where
  "vars_and_temps_iter b = [arg_count b + 1 ..< length (local_decls b)]"

definition make_statement_nop :: "body \<Rightarrow> location \<Rightarrow> body res" where
  "make_statement_nop b l =
     res_bind (index_vec (basic_blocks b) (loc_block l)) (\<lambda>d.
     res_bind (index_vec (statements d) (loc_statement_index l)) (\<lambda>s.
       Ok (b\<lparr>basic_blocks := (basic_blocks b)[loc_block l :=
             d\<lparr>statements := (statements d)[loc_statement_index l := make_nop s]\<rparr>]\<rparr>)))"

definition source_info_of :: "body \<Rightarrow> location \<Rightarrow> source_info res" where
  "source_info_of b l =
     res_bind (index_vec (basic_blocks b) (loc_block l)) (\<lambda>d.
       if loc_statement_index l < length (statements d)
       then Ok (stmt_source_info (statements d ! loc_statement_index l))
       else res_bind (assert_that (loc_statement_index l = length (statements d))) (\<lambda>_.
            res_bind (block_terminator d) (\<lambda>t. Ok (term_source_info t))))"

definition terminator_loc :: "body \<Rightarrow> nat \<Rightarrow> location res" where
  "terminator_loc b bb =
     res_bind (index_vec (basic_blocks b) bb)
       (\<lambda>d. Ok \<lparr>loc_block = bb, loc_statement_index = length (statements d)\<rparr>)"

definition successor_within_block :: "location \<Rightarrow> location" where
  "successor_within_block l = l\<lparr>loc_statement_index := loc_statement_index l + 1\<rparr>"

section \<open>The control-flow graph\<close>

definition block_successors :: "body \<Rightarrow> nat \<Rightarrow> nat list" where
  "block_successors b n =
     (if n < length (basic_blocks b)
      then case terminator (basic_blocks b ! n) of
             None \<Rightarrow> []
           | Some t \<Rightarrow> successors (term_kind t)
      else [])"

interpretation cfg: list_graph "block_successors b" "{..<length (basic_blocks b)}" for b
  by unfold_locales (auto simp: block_successors_def)

text \<open>Every jump of a body stays inside it.\<close>

definition wf_targets :: "body \<Rightarrow> bool" where
  "wf_targets b =
     list_all (\<lambda>n. list_all (\<lambda>t. t < length (basic_blocks b)) (block_successors b n))
       [0 ..< length (basic_blocks b)]"

lemma wf_targetsD:
  "wf_targets b \<Longrightarrow> t \<in> set (block_successors b n) \<Longrightarrow> t < length (basic_blocks b)"
  by (metis atLeastLessThan_iff cfg.outside empty_iff empty_set lessThan_iff list.pred_set
      set_upt wf_targets_def zero_le)

text \<open>Every block of a finished body also has its terminator.\<close>

definition wf_body :: "body \<Rightarrow> bool" where
  "wf_body b \<longleftrightarrow> wf_targets b \<and> list_all (\<lambda>d. terminator d \<noteq> None) (basic_blocks b)"

lemma wf_body_terminator:
  assumes "wf_body b" and "n < length (basic_blocks b)"
  shows "\<exists>t. terminator (basic_blocks b ! n) = Some t \<and> block_successors b n = successors (term_kind t)"
  using assms by (auto simp: wf_body_def block_successors_def list_all_length)

lemma wf_body_closed:
  assumes "wf_body b" and "n < length (basic_blocks b)"
  shows "(cfg.edge b)\<^sup>* `` {n} \<subseteq> {..<length (basic_blocks b)}"
  using assms by (intro cfg.closed_reach) (auto simp: wf_body_def cfg.edge_iff dest: wf_targetsD)

text \<open>\<open>calculate_predecessors\<close>: one pass over the blocks, pushing each block to the lists of its
  targets. A target outside the body makes the indexing panic.\<close>

definition push_pred :: "nat \<Rightarrow> nat \<Rightarrow> nat list list \<Rightarrow> nat list list res" where
  "push_pred bb tgt ps =
     res_bind (index_vec ps tgt) (\<lambda>p. Ok (ps[tgt := p @ [bb]]))"

definition calculate_predecessors :: "body \<Rightarrow> nat list list res" where
  "calculate_predecessors b =
     res_for [0 ..< length (basic_blocks b)]
       (\<lambda>bb. res_for (block_successors b bb) (push_pred bb))
       (replicate (length (basic_blocks b)) [])"

lemma push_preds_ok:
  assumes "\<forall>t \<in> set ts. t < length ps"
  shows "\<exists>qs. res_for ts (push_pred bb) ps = Ok qs \<and> length qs = length ps \<and>
    (\<forall>n < length ps. set (qs ! n) = set (ps ! n) \<union> (if n \<in> set ts then {bb} else {}))"
  using assms
proof (induction ts arbitrary: ps)
  case (Cons t ts)
  let ?ps = "ps[t := ps ! t @ [bb]]"
  from Cons.prems have t: "push_pred bb t ps = Ok ?ps"
    by (simp add: push_pred_def)
  from Cons obtain qs where qs: "res_for ts (push_pred bb) ?ps = Ok qs" "length qs = length ps"
    "\<forall>n < length ps. set (qs ! n) = set (?ps ! n) \<union> (if n \<in> set ts then {bb} else {})"
    by (metis length_list_update list.set_intros(2))
  have "set (qs ! n) = set (ps ! n) \<union> (if n \<in> set (t # ts) then {bb} else {})"
    if "n < length ps" for n
    using qs(3) that by (cases "n = t") auto
  with t qs(1,2) show ?case by (metis res_bind.simps(1) res_for.simps(2))
qed simp

text \<open>The predecessor table lists, for every block of a well-formed body, exactly the sources of
  the edges into it.\<close>

lemma calculate_predecessors_upto:
  assumes "wf_targets b" and "k \<le> length (basic_blocks b)"
  shows "\<exists>ps. res_for [0 ..< k] (\<lambda>bb. res_for (block_successors b bb) (push_pred bb))
       (replicate (length (basic_blocks b)) []) = Ok ps \<and> length ps = length (basic_blocks b) \<and>
    (\<forall>n < length ps. set (ps ! n) = {m. m < k \<and> n \<in> set (block_successors b m)})"
  using assms(2)
proof (induction k)
  case (Suc k)
  then obtain ps where ps: "res_for [0 ..< k]
      (\<lambda>bb. res_for (block_successors b bb) (push_pred bb))
      (replicate (length (basic_blocks b)) []) = Ok ps" "length ps = length (basic_blocks b)"
    "\<forall>n < length ps. set (ps ! n) = {m. m < k \<and> n \<in> set (block_successors b m)}"
    by auto
  have "\<forall>t \<in> set (block_successors b k). t < length ps"
    using wf_targetsD [OF assms(1)] ps(2) by simp
  from push_preds_ok [OF this, of k] obtain qs where
    qs: "res_for (block_successors b k) (push_pred k) ps = Ok qs" "length qs = length ps"
    "\<forall>n < length ps. set (qs ! n) = set (ps ! n)
       \<union> (if n \<in> set (block_successors b k) then {k} else {})"
    by blast
  have "set (qs ! n) = {m. m < Suc k \<and> n \<in> set (block_successors b m)}"
    if "n < length qs" for n
    using qs(2,3) ps(3) that by (auto simp: less_Suc_eq)
  with qs(1,2) ps(1,2) show ?case by (simp add: res_for_append)
qed simp

lemma calculate_predecessors_edges:
  assumes "wf_targets b"
  shows "\<exists>ps. calculate_predecessors b = Ok ps \<and> length ps = length (basic_blocks b) \<and>
    (\<forall>n < length ps. set (ps ! n) = {m. n \<in> set (block_successors b m)})"
proof -
  obtain ps where ps: "calculate_predecessors b = Ok ps" "length ps = length (basic_blocks b)"
    "\<forall>n < length ps. set (ps ! n) =
       {m. m < length (basic_blocks b) \<and> n \<in> set (block_successors b m)}"
    using calculate_predecessors_upto [OF assms, of "length (basic_blocks b)"]
    unfolding calculate_predecessors_def by auto
  moreover have "m < length (basic_blocks b)" if "n \<in> set (block_successors b m)" for n m
    using that cfg.outside [of m b] by (cases "m < length (basic_blocks b)") simp_all
  ultimately show ?thesis by blast
qed

section \<open>Transactions\<close>

record unique_id =
  uid_def_id :: def_id
  uid_local :: nat
  uid_location :: location
  uid_field :: "nat option"

record transaction_use =
  tu_shared_object :: unique_id
  tu_is_write :: bool

record allocation_set =
  as_lock :: unique_id
  as_unlock :: unique_id
  as_allocations :: "transaction_use list"

record transaction =
  tx_lock :: unique_id
  tx_unlock :: unique_id
  tx_is_write :: bool

section \<open>Small bodies for examples\<close>

definition sample_info :: "nat \<Rightarrow> source_info" where
  "sample_info n = \<lparr>si_span = n, si_scope = 0\<rparr>"

definition sample_block :: "nat list \<Rightarrow> terminator_kind \<Rightarrow> basic_block_data" where
  "sample_block ls k =
     \<lparr>statements = map (\<lambda>l. \<lparr>stmt_source_info = sample_info l, stmt_kind = StorageLive l\<rparr>) ls,
      terminator = Some \<lparr>term_source_info = sample_info 0, term_kind = k\<rparr>, is_cleanup = False\<rparr>"

definition body_of_blocks :: "basic_block_data list \<Rightarrow> body" where
  "body_of_blocks ds =
     \<lparr>basic_blocks = ds, phase = Build,
      source_scopes = [], source_scope_local_data = 0, yield_ty = None, generator_drop = None,
      generator_layout = None, local_decls = [], user_type_annotations = 0, arg_count = 0,
      spread_arg = None, upvar_debuginfo = [], control_flow_destroyed = [], body_span = 0\<rparr>"

section \<open>Predecessors\<close>

text \<open>(C38) The predecessor lists of a body whose jumps stay inside it are computed without a panic,
  one list for every block, and hold exactly the blocks that have an edge to it.\<close>

theorem predecessors_invert_successors:
  assumes "wf_targets b"
  shows "\<exists>ps. calculate_predecessors b = Ok ps \<and> length ps = length (basic_blocks b) \<and>
    (\<forall>n < length ps. set (ps ! n) = {m. n \<in> set (block_successors b m)})"
  using assms by (rule calculate_predecessors_edges)

theorem predecessors_invert_successors_witness:
  "\<exists>ps. calculate_predecessors (body_of_blocks [sample_block [] (Goto 1), sample_block [] Return]) = Ok ps \<and>
     set (ps ! 1) = {m. 1 \<in> set (block_successors (body_of_blocks [sample_block [] (Goto 1), sample_block [] Return]) m)}"
proof -
  have "wf_targets (body_of_blocks [sample_block [] (Goto 1), sample_block [] Return])" by code_simp
  from predecessors_invert_successors [OF this] show ?thesis
    by (auto simp: body_of_blocks_def)
qed

end
