(* ===== verification/Mir_Exec.thy ===== *)
theory Mir_Exec
  imports Mir
begin

text \<open>
  Runs of a body. What single statements and terminators do is left open: a record of type
  \<open>mir_sem\<close> gives their effect on a state of any type, where terminators are seen without their
  targets. On top of it, blocks run one after the other along the edges of the graph. The lemmas say
  which changes of the blocks do not change the outcome of runs: redirecting edges along blocks that
  only jump, merging a block into its only predecessor, and renumbering blocks. The passes of the
  compiler over the control-flow graph consist of such changes.
\<close>

section \<open>Blocks and runs\<close>

text \<open>A terminator goes on with one of its targets, starts to unwind, or ends the run.\<close>

datatype choice = Target nat | Unwinding | Stop

record 'st mir_sem =
  exec_statement :: "statement_kind \<Rightarrow> 'st \<Rightarrow> 'st"
  exec_terminator :: "terminator_kind \<Rightarrow> 'st \<Rightarrow> choice \<times> 'st"

datatype 'st outcome = Unwinds 'st | Ends terminator_kind 'st | Stuck

text \<open>A terminator without its targets and its unwind edge.\<close>

definition shape :: "terminator_kind \<Rightarrow> terminator_kind" where
  "shape k = unwind_mut (\<lambda>_. None) (successors_mut (\<lambda>_. 0) k)"

definition has_unwind :: "terminator_kind \<Rightarrow> bool" where
  "has_unwind k = (case unwind k of Some (Some _) \<Rightarrow> True | _ \<Rightarrow> False)"

definition num_targets :: "terminator_kind \<Rightarrow> nat" where
  "num_targets k = length (successors k) - (if has_unwind k then 1 else 0)"

text \<open>The position, among the successors, of the edge that is taken. The unwind edge is the last
  successor.\<close>

definition pick_successor ::
    "'st mir_sem \<Rightarrow> terminator_kind \<Rightarrow> 'st \<Rightarrow> (nat \<times> 'st) + 'st outcome" where
  "pick_successor sem k s =
     (case exec_terminator sem (shape k) s of
        (Target i, s') \<Rightarrow> if i < num_targets k then Inl (i, s') else Inr (Ends (shape k) s')
      | (Unwinding, s') \<Rightarrow> if has_unwind k then Inl (num_targets k, s') else Inr (Unwinds s')
      | (Stop, s') \<Rightarrow> Inr (Ends (shape k) s'))"

definition exec_statements :: "'st mir_sem \<Rightarrow> statement list \<Rightarrow> 'st \<Rightarrow> 'st" where
  "exec_statements sem = fold (\<lambda>st. exec_statement sem (stmt_kind st))"

definition exec_block :: "'st mir_sem \<Rightarrow> basic_block_data \<Rightarrow> 'st \<Rightarrow> (nat \<times> 'st) + 'st outcome" where
  "exec_block sem d s =
     (case terminator d of
        None \<Rightarrow> Inr Stuck
      | Some t \<Rightarrow>
          map_sum (map_prod ((!) (successors (term_kind t))) id) id
            (pick_successor sem (term_kind t) (exec_statements sem (statements d) s)))"

definition block_step ::
    "'st mir_sem \<Rightarrow> basic_block_data list \<Rightarrow> nat \<Rightarrow> 'st \<Rightarrow> (nat \<times> 'st) + 'st outcome" where
  "block_step sem bs n s = (if n < length bs then exec_block sem (bs ! n) s else Inr Stuck)"

inductive runs :: "'st mir_sem \<Rightarrow> basic_block_data list \<Rightarrow> nat \<Rightarrow> 'st \<Rightarrow> 'st outcome \<Rightarrow> bool"
  for sem bs where
  run_exit: "block_step sem bs n s = Inr out \<Longrightarrow> runs sem bs n s out"
| run_step: "block_step sem bs n s = Inl (m, s') \<Longrightarrow> runs sem bs m s' out \<Longrightarrow> runs sem bs n s out"

inductive_cases runs_elim: "runs sem bs n s out"

lemma runs_unfold:
  "runs sem bs n s out \<longleftrightarrow>
     (case block_step sem bs n s of Inl (m, s') \<Rightarrow> runs sem bs m s' out | Inr o' \<Rightarrow> o' = out)"
  by (subst runs.simps) (auto split: sum.splits)

text \<open>Bodies that have the same runs from their start blocks.\<close>

definition same_runs :: "'st mir_sem \<Rightarrow> body \<Rightarrow> body \<Rightarrow> bool" where
  "same_runs sem b b' =
     (\<forall>s out. runs sem (basic_blocks b) START_BLOCK s out \<longleftrightarrow>
        runs sem (basic_blocks b') START_BLOCK s out)"

lemma same_runs_refl [simp]: "same_runs sem b b"
  by (simp add: same_runs_def)

lemma same_runs_trans: "same_runs sem b c \<Longrightarrow> same_runs sem c d \<Longrightarrow> same_runs sem b d"
  by (simp add: same_runs_def)

text \<open>What the passes rely on: a no-op does nothing, a jump goes to its target, a switch goes to one
  of its targets without changing the state, false edges are never taken, and resuming goes on
  unwinding.\<close>

definition sem_ok :: "'st mir_sem \<Rightarrow> bool" where
  "sem_ok sem \<longleftrightarrow>
     (\<forall>s. exec_statement sem Nop s = s) \<and>
     (\<forall>t s. exec_terminator sem (Goto t) s = (Target 0, s)) \<and>
     (\<forall>d sty vs ts s. ts \<noteq> [] \<longrightarrow>
        (\<exists>i<length ts. exec_terminator sem (SwitchInt d sty vs ts) s = (Target i, s))) \<and>
     (\<forall>t u s. exec_terminator sem (FalseEdges t u) s = (Target 0, s)) \<and>
     (\<forall>t u s. exec_terminator sem (FalseUnwind t u) s = (Target 0, s)) \<and>
     (\<forall>s. exec_terminator sem Resume s = (Unwinding, s))"

section \<open>Terminators with other targets\<close>

text \<open>The terminator with the given successors written back in order. The unwind edge is the last
  successor.\<close>

fun with_successors :: "terminator_kind \<Rightarrow> nat list \<Rightarrow> terminator_kind" where
  "with_successors (Goto _) ts = Goto (hd ts)"
| "with_successors (SwitchInt d sty vs _) ts = SwitchInt d sty vs ts"
| "with_successors (Drop p _ u) ts = Drop p (hd ts) (map_option (\<lambda>_. last ts) u)"
| "with_successors (DropAndReplace p v _ u) ts = DropAndReplace p v (hd ts) (map_option (\<lambda>_. last ts) u)"
| "with_successors (Call f a dest u h) ts =
     Call f a (map_option (\<lambda>(p, _). (p, hd ts)) dest) (map_option (\<lambda>_. last ts) u) h"
| "with_successors (Assert c e m _ u) ts = Assert c e m (hd ts) (map_option (\<lambda>_. last ts) u)"
| "with_successors (Yield v _ u) ts = Yield v (hd ts) (map_option (\<lambda>_. last ts) u)"
| "with_successors (FalseEdges _ _) ts = FalseEdges (hd ts) (last ts)"
| "with_successors (FalseUnwind _ u) ts = FalseUnwind (hd ts) (map_option (\<lambda>_. last ts) u)"
| "with_successors k _ = k"

text \<open>Two terminators are alike if they differ at most in their targets.\<close>

definition alike :: "terminator_kind \<Rightarrow> terminator_kind \<Rightarrow> bool" where
  "alike k k' \<longleftrightarrow> shape k = shape k' \<and> has_unwind k = has_unwind k'"

lemma num_targets_shape: "num_targets (shape k) = num_targets k"
  by (cases k rule: successors.cases) (auto simp: num_targets_def shape_def has_unwind_def)

lemma alike_num_targets: "alike k k' \<Longrightarrow> num_targets k = num_targets k'"
  using num_targets_shape [of k] num_targets_shape [of k'] by (simp add: alike_def)

lemma alike_pick: "alike k k' \<Longrightarrow> pick_successor sem k s = pick_successor sem k' s"
  using alike_num_targets [of k k'] by (simp add: alike_def pick_successor_def split: prod.split choice.split)

lemma length_successors: "length (successors k) = num_targets k + (if has_unwind k then 1 else 0)"
  by (cases k rule: successors.cases) (auto simp: num_targets_def has_unwind_def)

lemma alike_length: "alike k k' \<Longrightarrow> length (successors k) = length (successors k')"
  using alike_num_targets [of k k'] by (simp add: length_successors alike_def)

lemma alike_refl [simp]: "alike k k"
  by (simp add: alike_def)

lemma alike_successors_mut [simp]: "alike (successors_mut f k) k"
  by (cases k rule: successors.cases) (auto simp: alike_def shape_def has_unwind_def)

lemma alike_with_successors [simp]: "length ts = length (successors k) \<Longrightarrow> alike (with_successors k ts) k"
  by (cases k rule: successors.cases)
    (auto simp: alike_def shape_def has_unwind_def map_replicate_const)

lemma successors_with_successors [simp]:
  "length ts = length (successors k) \<Longrightarrow> successors (with_successors k ts) = ts"
  by (cases k rule: successors.cases) (auto simp: length_Suc_conv)

lemma with_successors_self [simp]: "with_successors k (successors k) = k"
  by (cases k rule: successors.cases) auto

lemma successors_mut_with_successors: "successors_mut f k = with_successors k (map f (successors k))"
  by (cases k rule: successors.cases) auto

text \<open>Which edge is taken is a valid position.\<close>

lemma pick_successor_less: "pick_successor sem k s = Inl (i, s') \<Longrightarrow> i < length (successors k)"
  by (cases k rule: successors.cases)
    (auto simp: pick_successor_def num_targets_def has_unwind_def split: prod.splits choice.splits if_splits)

lemma exec_block_successor:
  "exec_block sem d s = Inl (m, s') \<Longrightarrow> \<exists>t. terminator d = Some t \<and> m \<in> set (successors (term_kind t))"
  by (auto simp: exec_block_def map_sum_def split: option.splits sum.splits dest!: pick_successor_less)

lemma block_step_successor: "block_step sem bs n s = Inl (m, s') \<Longrightarrow>
    n < length bs \<and> (\<exists>t. terminator (bs ! n) = Some t \<and> m \<in> set (successors (term_kind t)))"
  by (auto simp: block_step_def split: if_splits dest: exec_block_successor)

section \<open>Changes that keep the runs\<close>

text \<open>A set of blocks that runs do not leave.\<close>

definition closed_blocks :: "basic_block_data list \<Rightarrow> nat set \<Rightarrow> bool" where
  "closed_blocks bs L \<longleftrightarrow>
     (\<forall>n\<in>L. n < length bs \<longrightarrow>
        (\<forall>t. terminator (bs ! n) = Some t \<longrightarrow> set (successors (term_kind t)) \<subseteq> L))"

lemma closed_blocks_step:
  "closed_blocks bs L \<Longrightarrow> n \<in> L \<Longrightarrow> block_step sem bs n s = Inl (m, s') \<Longrightarrow> m \<in> L"
  unfolding closed_blocks_def by (blast dest: block_step_successor)

text \<open>Renumbering: the blocks of \<open>L\<close> are found under their image by \<open>f\<close>.\<close>

lemma runs_renumbered:
  assumes step: "\<And>n s. n \<in> L \<Longrightarrow>
      block_step sem bs' (f n) s = map_sum (map_prod f id) id (block_step sem bs n s)"
    and closed: "closed_blocks bs L" and "n \<in> L"
  shows "runs sem bs' (f n) s out \<longleftrightarrow> runs sem bs n s out"
proof
  assume "runs sem bs' (f n) s out"
  then show "runs sem bs n s out"
    using \<open>n \<in> L\<close>
  proof (induction "f n" s out arbitrary: n rule: runs.induct)
    case (run_exit s out)
    then show ?case using step [of n s] by (auto simp: map_sum_def intro: runs.run_exit split: sum.splits)
  next
    case (run_step s m' s' out)
    then obtain m where m: "block_step sem bs n s = Inl (m, s')" "m' = f m"
      using step [of n s] by (auto simp: map_sum_def split: sum.splits)
    then have "m \<in> L" using closed_blocks_step [OF closed run_step.prems m(1)] by blast
    with run_step m(2) have "runs sem bs m s' out" by blast
    with m(1) show ?case by (rule runs.run_step)
  qed
next
  assume "runs sem bs n s out"
  then show "runs sem bs' (f n) s out"
    using \<open>n \<in> L\<close>
  proof (induction n s out rule: runs.induct)
    case (run_exit n s out)
    then show ?case using step [of n s] by (simp add: runs.run_exit)
  next
    case (run_step n s m s' out)
    then have "runs sem bs' (f m) s' out" using closed_blocks_step [OF closed run_step.prems run_step.hyps(1)] by blast
    moreover have "block_step sem bs' (f n) s = Inl (f m, s')" using run_step step [of n s] by simp
    ultimately show ?case by (rule runs.run_step [rotated])
  qed
qed

lemma runs_same_steps:
  assumes "\<And>n s. n \<in> L \<Longrightarrow> block_step sem bs' n s = block_step sem bs n s"
    and "closed_blocks bs L" and "n \<in> L"
  shows "runs sem bs' n s out \<longleftrightarrow> runs sem bs n s out"
proof -
  have "block_step sem bs' (id n) s = map_sum (map_prod id id) id (block_step sem bs n s)" if "n \<in> L" for n s
    using assms(1) [OF that] by (simp add: sum.map_id0 prod.map_id0)
  from runs_renumbered [of L sem bs' id, OF this assms(2,3)] show ?thesis by simp
qed

text \<open>Blocks that do nothing but jump.\<close>

definition jumps :: "basic_block_data list \<Rightarrow> nat \<Rightarrow> nat \<Rightarrow> bool" where
  "jumps bs n m \<longleftrightarrow> n < length bs \<and> statements (bs ! n) = [] \<and>
     (\<exists>t. terminator (bs ! n) = Some t \<and> term_kind t = Goto m)"

lemma pick_goto: "sem_ok sem \<Longrightarrow> pick_successor sem (Goto m) s = Inl (0, s)"
  by (simp add: pick_successor_def sem_ok_def shape_def num_targets_def has_unwind_def)

lemma jumps_step: "sem_ok sem \<Longrightarrow> jumps bs n m \<Longrightarrow> block_step sem bs n s = Inl (m, s)"
  by (auto simp: jumps_def block_step_def exec_block_def exec_statements_def pick_goto)

lemma jumps_runs:
  assumes "sem_ok sem" "(jumps bs)\<^sup>*\<^sup>* n m" "runs sem bs m s out"
  shows "runs sem bs n s out"
  using assms(2,3)
proof (induction rule: converse_rtranclp_induct)
  case (step n m')
  then show ?case using jumps_step [OF assms(1)] by (blast intro: run_step)
qed

text \<open>A block is redirected if its edges are moved along jumps.\<close>

definition redirected :: "basic_block_data list \<Rightarrow> basic_block_data \<Rightarrow> basic_block_data \<Rightarrow> bool" where
  "redirected bs d d' \<longleftrightarrow> statements d' = statements d \<and>
     rel_option (\<lambda>t t'. alike (term_kind t) (term_kind t') \<and>
       list_all2 (jumps bs)\<^sup>*\<^sup>* (successors (term_kind t)) (successors (term_kind t')))
     (terminator d) (terminator d')"

lemma redirected_refl [simp]: "redirected bs d d"
  by (auto simp: redirected_def option.rel_refl list_all2_same)

lemma redirected_exec:
  assumes "redirected bs d d'"
  shows "rel_sum (rel_prod (jumps bs)\<^sup>*\<^sup>* (=)) (=) (exec_block sem d s) (exec_block sem d' s)"
proof (cases "terminator d")
  case None
  with assms show ?thesis by (simp add: redirected_def exec_block_def)
next
  case (Some t)
  with assms obtain t' where t': "terminator d' = Some t'" "alike (term_kind t) (term_kind t')"
    "statements d' = statements d"
    "list_all2 (jumps bs)\<^sup>*\<^sup>* (successors (term_kind t)) (successors (term_kind t'))"
    by (auto simp: redirected_def option_rel_Some1)
  show ?thesis
  proof (cases "pick_successor sem (term_kind t) (exec_statements sem (statements d) s)")
    case (Inl r)
    obtain i s' where r: "r = (i, s')" by fastforce
    from Inl r have "i < length (successors (term_kind t))" by (auto dest: pick_successor_less)
    then show ?thesis using Inl Some t' r alike_pick [OF t'(2), of sem "exec_statements sem (statements d) s"]
      by (simp add: exec_block_def list_all2_nthD)
  next
    case (Inr out)
    then show ?thesis using Some t' alike_pick [OF t'(2), of sem "exec_statements sem (statements d) s"]
      by (simp add: exec_block_def)
  qed
qed

lemma runs_redirected:
  assumes ok: "sem_ok sem" and len: "length bs' = length bs"
    and red: "\<And>n. n < length bs \<Longrightarrow> redirected bs (bs ! n) (bs' ! n)"
  shows "runs sem bs' n s out \<longleftrightarrow> runs sem bs n s out"
proof
  have step: "rel_sum (rel_prod (jumps bs)\<^sup>*\<^sup>* (=)) (=) (block_step sem bs n s) (block_step sem bs' n s)" for n s
    using red [of n] len by (simp add: block_step_def redirected_exec)
  {
    assume "runs sem bs' n s out"
    then show "runs sem bs n s out"
    proof (induction n s out rule: runs.induct)
      case (run_exit n s out)
      then show ?case using step [of n s] by (auto simp: rel_sum_simps elim!: rel_sum.cases intro: runs.run_exit)
    next
      case (run_step n s m' s' out)
      then obtain m where "block_step sem bs n s = Inl (m, s')" "(jumps bs)\<^sup>*\<^sup>* m m'"
        using step [of n s] by (auto elim!: rel_sum.cases)
      with run_step.IH ok show ?case by (blast intro: runs.run_step jumps_runs)
    qed
  next
    have "\<forall>n'. (jumps bs)\<^sup>*\<^sup>* n n' \<longrightarrow> runs sem bs' n' s out" if "runs sem bs n s out" for n s out
      using that
    proof (induction n s out rule: runs.induct)
      case (run_exit n s out)
      then have "\<not> jumps bs n q" for q using jumps_step [OF ok, of bs n q s] by auto
      then have "n' = n" if "(jumps bs)\<^sup>*\<^sup>* n n'" for n'
        using that by (blast elim: converse_rtranclpE)
      moreover have "runs sem bs' n s out"
        using step [of n s] run_exit by (auto elim!: rel_sum.cases intro: runs.run_exit)
      ultimately show ?case by blast
    next
      case (run_step n s m s' out)
      obtain m' where "block_step sem bs' n s = Inl (m', s')" "(jumps bs)\<^sup>*\<^sup>* m m'"
        using step [of n s] run_step by (auto elim!: rel_sum.cases)
      then have "runs sem bs' n s out" using run_step.IH by (blast intro: runs.run_step)
      moreover have "runs sem bs' n' s out" if j: "jumps bs n q" "(jumps bs)\<^sup>*\<^sup>* q n'" for n' q
        using jumps_step [OF ok j(1), of s] run_step j(2) by auto
      ultimately show ?case by (blast elim: converse_rtranclpE)
    qed
    then show "runs sem bs n s out \<Longrightarrow> runs sem bs' n s out" by blast
  }
qed

text \<open>Merging: block \<open>x\<close> takes over the work of block \<open>t\<close> that only \<open>x\<close> leads to.\<close>

lemma runs_merged:
  assumes other: "\<And>n s. n \<in> L \<Longrightarrow> n \<noteq> x \<Longrightarrow> block_step sem bs' n s = block_step sem bs n s"
    and at_x: "\<And>s. \<exists>s'. block_step sem bs x s = Inl (t, s') \<and> block_step sem bs t s' = block_step sem bs' x s"
    and closed: "closed_blocks bs' L" and "x \<in> L" "n \<in> L"
  shows "runs sem bs' n s out \<longleftrightarrow> runs sem bs n s out"
proof
  assume "runs sem bs' n s out"
  then show "runs sem bs n s out"
    using \<open>n \<in> L\<close>
  proof (induction n s out rule: runs.induct)
    case (run_exit n s out)
    then show ?case using other [of n s] at_x [of s] by (metis runs.run_exit runs.run_step)
  next
    case (run_step n s m s' out)
    then have "runs sem bs m s' out" using closed_blocks_step [OF closed run_step.prems run_step.hyps(1)] by blast
    with run_step show ?case using other [of n s] at_x [of s] by (metis runs.run_step)
  qed
next
  have "(n \<in> L \<longrightarrow> runs sem bs' n s out) \<and>
      (\<forall>s0. block_step sem bs x s0 = Inl (t, s) \<longrightarrow> n = t \<longrightarrow> runs sem bs' x s0 out)"
    if "runs sem bs n s out" for n s out
    using that
  proof (induction n s out rule: runs.induct)
    case (run_exit n s out)
    then show ?case using other [of n s] at_x [of s] at_x
      by (metis Inl_Inr_False Inl_inject prod.inject runs.run_exit)
  next
    case (run_step n s m s' out)
    have 1: "runs sem bs' n s out" if "n \<in> L"
    proof (cases "n = x")
      case True
      then show ?thesis using run_step at_x [of s] by auto
    next
      case False
      then have b: "block_step sem bs' n s = Inl (m, s')" using other that run_step by simp
      have "m \<in> L" by (rule closed_blocks_step [OF closed that b])
      with b run_step show ?thesis by (blast intro: runs.run_step)
    qed
    have 2: "runs sem bs' x s0 out" if "block_step sem bs x s0 = Inl (t, s)" "n = t" for s0
    proof -
      have b: "block_step sem bs' x s0 = Inl (m, s')" using that at_x [of s0] run_step by auto
      have "m \<in> L" by (rule closed_blocks_step [OF closed \<open>x \<in> L\<close> b])
      with b run_step show ?thesis by (blast intro: runs.run_step)
    qed
    from 1 2 show ?case by blast
  qed
  then show "runs sem bs n s out \<Longrightarrow> runs sem bs' n s out" using \<open>n \<in> L\<close> by blast
qed

text \<open>A block with its targets renamed.\<close>

definition rename_targets :: "(nat \<Rightarrow> nat) \<Rightarrow> basic_block_data \<Rightarrow> basic_block_data" where
  "rename_targets f d =
     d\<lparr>terminator := map_option (\<lambda>t. t\<lparr>term_kind := successors_mut f (term_kind t)\<rparr>) (terminator d)\<rparr>"

lemma rename_targets_simps [simp]:
  "statements (rename_targets f d) = statements d"
  "terminator (rename_targets f d) = map_option (\<lambda>t. t\<lparr>term_kind := successors_mut f (term_kind t)\<rparr>) (terminator d)"
  by (simp_all add: rename_targets_def)

lemma exec_rename_targets:
  "exec_block sem (rename_targets f d) s = map_sum (map_prod f id) id (exec_block sem d s)"
proof (cases "terminator d")
  case None
  then show ?thesis by (simp add: exec_block_def)
next
  case (Some t)
  let ?s = "exec_statements sem (statements d) s"
  have "pick_successor sem (successors_mut f (term_kind t)) ?s = pick_successor sem (term_kind t) ?s"
    by (rule alike_pick) simp
  then show ?thesis using Some
    by (auto simp: exec_block_def map_sum_def dest: pick_successor_less split: sum.split)
qed

lemma rename_targets_same:
  assumes "\<And>t x. terminator d = Some t \<Longrightarrow> x \<in> set (successors (term_kind t)) \<Longrightarrow> f x = x"
  shows "rename_targets f d = d"
proof (cases "terminator d")
  case None
  then show ?thesis by (simp add: rename_targets_def)
next
  case (Some t)
  then have "map f (successors (term_kind t)) = successors (term_kind t)"
    using assms by (auto intro: map_idI)
  then have "successors_mut f (term_kind t) = term_kind t" by (simp add: successors_mut_with_successors)
  then show ?thesis using Some by (simp add: rename_targets_def)
qed

section \<open>An example\<close>

text \<open>States are logs of the statements and terminators that were passed; calls and drops go on with
  their targets.\<close>

fun log_terminator :: "terminator_kind \<Rightarrow> nat list \<Rightarrow> choice \<times> nat list" where
  "log_terminator (Goto _) s = (Target 0, s)"
| "log_terminator (SwitchInt _ _ _ _) s = (Target 0, s)"
| "log_terminator (FalseEdges _ _) s = (Target 0, s)"
| "log_terminator (FalseUnwind _ _) s = (Target 0, s)"
| "log_terminator Resume s = (Unwinding, s)"
| "log_terminator (Call _ _ _ _ _) s = (Target 0, 1 # s)"
| "log_terminator (Drop _ _ _) s = (Target 0, 2 # s)"
| "log_terminator _ s = (Stop, s)"

fun log_statement :: "statement_kind \<Rightarrow> nat list \<Rightarrow> nat list" where
  "log_statement (Assign p (Ref _ Shallow _)) s = s"
| "log_statement (Assign p (Use _)) s = (if as_local p \<noteq> None then 0 # s else 3 # s)"
| "log_statement (Assign _ _) s = 3 # s"
| "log_statement (SetDiscriminant _ _) s = 3 # s"
| "log_statement (InlineAsm _ _ _) s = 3 # s"
| "log_statement (Retag _ _) s = 3 # s"
| "log_statement _ s = s"

definition log_sem :: "nat list mir_sem" where
  "log_sem = \<lparr>exec_statement = log_statement, exec_terminator = log_terminator\<rparr>"

text \<open>What remains of the log without the writes to locals.\<close>

definition log_visible :: "nat list \<Rightarrow> nat list" where
  "log_visible = filter (\<lambda>x. x \<noteq> 0)"

lemma log_sem_ok: "sem_ok log_sem"
  by (auto simp: sem_ok_def log_sem_def)

end
