(* ===== verification/Bit_Set.thy ===== *)
theory Bit_Set
  imports Prelude "HOL-Library.Word"
begin

text \<open>
  The dense bit set of the compiler (\<open>BitSet\<close> and \<open>BitIter\<close> of
  \<open>src/librustc_index/bit_set.rs\<close>) over 64-bit words, with its abstraction to a set of natural
  numbers. Every operation is shown to implement the set operation it is named after, to keep the
  representation invariant, and to report changes exactly.
\<close>

unbundle bit_operations_syntax

named_theorems bitset_simps \<open>the set a bit set stands for\<close>

section \<open>Words\<close>

type_synonym word64 = "64 word"

definition WORD_BITS :: nat where
  "WORD_BITS = 64"

definition num_words :: "nat \<Rightarrow> nat" where
  "num_words domain = (domain + WORD_BITS - 1) div WORD_BITS"

text \<open>\<open>1 << k\<close> on words.\<close>

definition one_shl :: "nat \<Rightarrow> word64" where
  "one_shl k = push_bit k 1"

definition word_index_and_mask :: "nat \<Rightarrow> nat \<times> word64" where
  "word_index_and_mask elem = (elem div WORD_BITS, one_shl (elem mod WORD_BITS))"

text \<open>\<open>count_ones\<close> and \<open>trailing_zeros\<close> of the standard library.\<close>

definition count_ones :: "word64 \<Rightarrow> nat" where
  "count_ones w = length (filter (bit w) [0 ..< 64])"

definition trailing_zeros :: "word64 \<Rightarrow> nat" where
  "trailing_zeros w = length (takeWhile (\<lambda>n. \<not> bit w n) [0 ..< 64])"

lemma bit_word64_lt: "bit (w :: word64) n \<Longrightarrow> n < 64"
  using bit_imp_le_length by force

lemma bit_one_shl: "k < 64 \<Longrightarrow> bit (one_shl k) n \<longleftrightarrow> n = k"
  by (auto simp: one_shl_def bit_simps)

lemma word64_eq_iff: "(v :: word64) = w \<longleftrightarrow> (\<forall>n < 64. bit v n = bit w n)"
  by (metis bit_eq_iff bit_word64_lt)

lemma word64_zero_iff: "(w :: word64) = 0 \<longleftrightarrow> (\<forall>n < 64. \<not> bit w n)"
  by (simp add: word64_eq_iff)

lemma count_ones_card: "count_ones w = card {n. bit w n}"
proof -
  have "{n. bit w n} = set (filter (bit w) [0 ..< 64])"
    by (auto dest: bit_word64_lt)
  then show ?thesis
    by (simp only: count_ones_def distinct_card distinct_filter distinct_upt)
qed

lemma trailing_zeros_least:
  assumes "w \<noteq> 0"
  shows "trailing_zeros w < 64" and "bit w (trailing_zeros w)"
    and "\<And>n. n < trailing_zeros w \<Longrightarrow> \<not> bit w n"
proof -
  let ?P = "\<lambda>n. \<not> bit w n"
  obtain m where m: "m < 64" "bit w m"
    using assms by (auto simp: word64_zero_iff)
  have le: "trailing_zeros w \<le> m"
  proof (rule ccontr)
    assume "\<not> trailing_zeros w \<le> m"
    then have "takeWhile ?P [0 ..< 64] ! m \<in> set (takeWhile ?P [0 ..< 64])"
      by (intro nth_mem) (simp add: trailing_zeros_def)
    moreover have "takeWhile ?P [0 ..< 64] ! m = m"
      using \<open>\<not> trailing_zeros w \<le> m\<close> m(1) by (subst takeWhile_nth) (auto simp: trailing_zeros_def)
    ultimately show False
      using m(2) by (auto dest: set_takeWhileD)
  qed
  with m(1) show lt: "trailing_zeros w < 64" by simp
  show "bit w (trailing_zeros w)"
    using nth_length_takeWhile [of ?P "[0 ..< 64]"] lt by (simp add: trailing_zeros_def)
  show "\<not> bit w n" if "n < trailing_zeros w" for n
  proof -
    have "takeWhile ?P [0 ..< 64] ! n \<in> set (takeWhile ?P [0 ..< 64])"
      using that by (intro nth_mem) (simp add: trailing_zeros_def)
    moreover have "takeWhile ?P [0 ..< 64] ! n = n"
      using that lt by (subst takeWhile_nth) (auto simp: trailing_zeros_def)
    ultimately show ?thesis by (auto dest: set_takeWhileD)
  qed
qed

section \<open>The set\<close>

record bit_set =
  domain_size :: nat
  words :: "word64 list"

definition word_bits :: "word64 list \<Rightarrow> nat set" where
  "word_bits ws = {n. n div 64 < length ws \<and> bit (ws ! (n div 64)) (n mod 64)}"

abbreviation bits :: "bit_set \<Rightarrow> nat set" where
  "bits s \<equiv> word_bits (words s)"

definition bs_ok :: "bit_set \<Rightarrow> bool" where
  "bs_ok s \<longleftrightarrow> length (words s) = num_words (domain_size s) \<and> bits s \<subseteq> {..<domain_size s}"

definition bs_new_empty :: "nat \<Rightarrow> bit_set" where
  "bs_new_empty domain = \<lparr>domain_size = domain, words = replicate (num_words domain) 0\<rparr>"

definition clear_excess_bits :: "bit_set \<Rightarrow> bit_set" where
  "clear_excess_bits s =
     (let num_bits_in_final_word = domain_size s mod WORD_BITS in
      if num_bits_in_final_word > 0
      then let mask' = one_shl num_bits_in_final_word - 1;
               final_word_idx = length (words s) - 1
           in s\<lparr>words := (words s)[final_word_idx := words s ! final_word_idx AND mask']\<rparr>
      else s)"

definition bs_new_filled :: "nat \<Rightarrow> bit_set" where
  "bs_new_filled domain =
     clear_excess_bits \<lparr>domain_size = domain, words = replicate (num_words domain) (NOT 0)\<rparr>"

definition bs_clear :: "bit_set \<Rightarrow> bit_set" where
  "bs_clear s = s\<lparr>words := map (\<lambda>_. 0) (words s)\<rparr>"

definition bs_overwrite :: "bit_set \<Rightarrow> bit_set \<Rightarrow> bit_set res" where
  "bs_overwrite s other =
     res_bind (assert_that (domain_size s = domain_size other)) (\<lambda>_.
     res_bind (assert_that (length (words s) = length (words other))) (\<lambda>_.
       Ok (s\<lparr>words := words other\<rparr>)))"

definition bs_count :: "bit_set \<Rightarrow> nat" where
  "bs_count s = sum_list (map count_ones (words s))"

definition bs_contains :: "bit_set \<Rightarrow> nat \<Rightarrow> bool res" where
  "bs_contains s elem =
     res_bind (assert_that (elem < domain_size s)) (\<lambda>_.
       let (word_index, mask') = word_index_and_mask elem in
       res_bind (index_vec (words s) word_index) (\<lambda>w. Ok (w AND mask' \<noteq> 0)))"

definition bs_superset :: "bit_set \<Rightarrow> bit_set \<Rightarrow> bool res" where
  "bs_superset s other =
     res_bind (assert_that (domain_size s = domain_size other)) (\<lambda>_.
       Ok (list_all (\<lambda>(a, b). a AND b = b) (zip (words s) (words other))))"

definition bs_is_empty :: "bit_set \<Rightarrow> bool" where
  "bs_is_empty s = list_all (\<lambda>w. w = 0) (words s)"

definition bs_insert :: "bit_set \<Rightarrow> nat \<Rightarrow> (bit_set \<times> bool) res" where
  "bs_insert s elem =
     res_bind (assert_that (elem < domain_size s)) (\<lambda>_.
       let (word_index, mask') = word_index_and_mask elem in
       res_bind (index_vec (words s) word_index) (\<lambda>w.
         let new_word = w OR mask' in
         Ok (s\<lparr>words := (words s)[word_index := new_word]\<rparr>, new_word \<noteq> w)))"

definition bs_insert_all :: "bit_set \<Rightarrow> bit_set" where
  "bs_insert_all s = clear_excess_bits (s\<lparr>words := map (\<lambda>_. NOT 0) (words s)\<rparr>)"

definition bs_remove :: "bit_set \<Rightarrow> nat \<Rightarrow> (bit_set \<times> bool) res" where
  "bs_remove s elem =
     res_bind (assert_that (elem < domain_size s)) (\<lambda>_.
       let (word_index, mask') = word_index_and_mask elem in
       res_bind (index_vec (words s) word_index) (\<lambda>w.
         let new_word = w AND NOT mask' in
         Ok (s\<lparr>words := (words s)[word_index := new_word]\<rparr>, new_word \<noteq> w)))"

definition bitwise ::
    "word64 list \<Rightarrow> word64 list \<Rightarrow> (word64 \<Rightarrow> word64 \<Rightarrow> word64) \<Rightarrow> (word64 list \<times> bool) res" where
  "bitwise out_vec in_vec op =
     res_bind (assert_that (length out_vec = length in_vec)) (\<lambda>_.
       Ok (fold (\<lambda>(old_val, in_elem) (out, changed).
             let new_val = op old_val in_elem in (out @ [new_val], changed \<or> old_val \<noteq> new_val))
           (zip out_vec in_vec) ([], False)))"

definition bs_bitwise ::
    "bit_set \<Rightarrow> bit_set \<Rightarrow> (word64 \<Rightarrow> word64 \<Rightarrow> word64) \<Rightarrow> (bit_set \<times> bool) res" where
  "bs_bitwise s other op =
     res_bind (assert_that (domain_size s = domain_size other)) (\<lambda>_.
     res_bind (bitwise (words s) (words other) op) (\<lambda>(ws, changed).
       Ok (s\<lparr>words := ws\<rparr>, changed)))"

definition bs_union :: "bit_set \<Rightarrow> bit_set \<Rightarrow> (bit_set \<times> bool) res" where
  "bs_union s other = bs_bitwise s other (\<lambda>a b. a OR b)"

definition bs_subtract :: "bit_set \<Rightarrow> bit_set \<Rightarrow> (bit_set \<times> bool) res" where
  "bs_subtract s other = bs_bitwise s other (\<lambda>a b. a AND NOT b)"

definition bs_intersect :: "bit_set \<Rightarrow> bit_set \<Rightarrow> (bit_set \<times> bool) res" where
  "bs_intersect s other = bs_bitwise s other (\<lambda>a b. a AND b)"

section \<open>Element operations\<close>

lemma num_words_iff: "n div 64 < num_words d \<longleftrightarrow> n < 64 * num_words d"
  by (simp add: div_less_iff_less_mult mult.commute)

lemma domain_lt_num_words: "n < d \<Longrightarrow> n div 64 < num_words d"
  unfolding num_words_def WORD_BITS_def by linarith

lemma word_bits_update:
  assumes "e div 64 < length ws"
  shows "word_bits (ws[e div 64 := w]) =
    {n. n div 64 < length ws \<and> (if n div 64 = e div 64 then bit w (n mod 64) else n \<in> word_bits ws)}"
  using assms by (auto simp: word_bits_def nth_list_update split: if_splits)

lemma eq_by_div_mod: "(n :: nat) div 64 = e div 64 \<Longrightarrow> n mod 64 = e mod 64 \<longleftrightarrow> n = e"
  by (metis div_mult_mod_eq)

lemma less_by_div_mod:
  "(m :: nat) < d \<longleftrightarrow> m div 64 < d div 64 \<or> (m div 64 = d div 64 \<and> m mod 64 < d mod 64)"
proof -
  have eq: "m = 64 * (m div 64) + m mod 64" "d = 64 * (d div 64) + d mod 64" by simp_all
  have lt: "m mod 64 < 64" "d mod 64 < 64" by simp_all
  consider "m div 64 < d div 64" | "m div 64 = d div 64" | "d div 64 < m div 64" by linarith
  then show ?thesis
  proof cases
    case 1
    then have "64 * (m div 64) + 64 \<le> 64 * (d div 64)" by simp
    then have "m < d" using eq lt by linarith
    with 1 show ?thesis by simp
  next
    case 2
    then have "m < d \<longleftrightarrow> m mod 64 < d mod 64" using eq by linarith
    with 2 show ?thesis by simp
  next
    case 3
    then have "64 * (d div 64) + 64 \<le> 64 * (m div 64)" by simp
    then have "d < m" using eq lt by linarith
    with 3 show ?thesis by simp
  qed
qed

lemma word_bits_set:
  assumes "e div 64 < length ws"
  shows "word_bits (ws[e div 64 := ws ! (e div 64) OR one_shl (e mod 64)]) =
    insert e (word_bits ws)"
  unfolding word_bits_update [OF assms]
  using assms by (auto simp: bit_or_iff bit_one_shl eq_by_div_mod word_bits_def)

lemma word_bits_reset:
  assumes "e div 64 < length ws"
  shows "word_bits (ws[e div 64 := ws ! (e div 64) AND NOT (one_shl (e mod 64))]) =
    word_bits ws - {e}"
  unfolding word_bits_update [OF assms]
  using assms
  by (auto simp: bit_and_iff bit_not_iff bit_one_shl eq_by_div_mod word_bits_def dest: bit_word64_lt)

lemma or_mask_changed:
  assumes "e div 64 < length ws"
  shows "ws ! (e div 64) OR one_shl (e mod 64) \<noteq> ws ! (e div 64) \<longleftrightarrow> e \<notin> word_bits ws"
  using assms
  by (auto simp: word64_eq_iff word_bits_def bit_or_iff bit_one_shl intro!: exI [of _ "e mod 64"])

lemma reset_mask_changed:
  assumes "e div 64 < length ws"
  shows "ws ! (e div 64) AND NOT (one_shl (e mod 64)) \<noteq> ws ! (e div 64) \<longleftrightarrow> e \<in> word_bits ws"
  using assms
  by (auto simp: word64_eq_iff word_bits_def bit_and_iff bit_not_iff bit_one_shl
      intro!: exI [of _ "e mod 64"])

lemma bs_index: "bs_ok s \<Longrightarrow> e < domain_size s \<Longrightarrow> e div 64 < length (words s)"
  by (simp add: bs_ok_def domain_lt_num_words)

lemma bs_insert_ok:
  assumes "bs_ok s" and "e < domain_size s"
  shows "\<exists>s'. bs_insert s e = Ok (s', e \<notin> bits s) \<and> bs_ok s' \<and> bits s' = insert e (bits s) \<and>
    domain_size s' = domain_size s"
  using assms bs_index [OF assms]
  by (simp add: bs_insert_def word_index_and_mask_def WORD_BITS_def word_bits_set or_mask_changed
      bs_ok_def)

lemma bs_remove_ok:
  assumes "bs_ok s" and "e < domain_size s"
  shows "\<exists>s'. bs_remove s e = Ok (s', e \<in> bits s) \<and> bs_ok s' \<and> bits s' = bits s - {e} \<and>
    domain_size s' = domain_size s"
  using assms bs_index [OF assms]
  by (auto simp add: bs_remove_def word_index_and_mask_def WORD_BITS_def word_bits_reset
      reset_mask_changed bs_ok_def)

lemma bs_contains_ok:
  assumes "bs_ok s" and "e < domain_size s"
  shows "bs_contains s e = Ok (e \<in> bits s)"
  using assms bs_index [OF assms]
  by (simp add: bs_contains_def word_index_and_mask_def WORD_BITS_def word64_zero_iff bit_and_iff
      bit_one_shl word_bits_def)

lemma bs_out_of_domain:
  assumes "\<not> e < domain_size s"
  shows "bs_insert s e = Panic Assert_Failed" "bs_remove s e = Panic Assert_Failed"
    "bs_contains s e = Panic Assert_Failed"
  using assms by (simp_all add: bs_insert_def bs_remove_def bs_contains_def assert_that_def)

section \<open>Whole-set operations\<close>

lemma word_bits_Nil [simp]: "word_bits [] = {}"
  by (simp add: word_bits_def)

lemma word_bits_Cons: "word_bits (w # ws) = {n. bit w n} \<union> (\<lambda>n. n + 64) ` word_bits ws"
proof (rule set_eqI)
  fix n
  show "n \<in> word_bits (w # ws) \<longleftrightarrow> n \<in> {n. bit w n} \<union> (\<lambda>n. n + 64) ` word_bits ws"
  proof (cases "n < 64")
    case True
    then show ?thesis by (auto simp: word_bits_def)
  next
    case False
    then obtain m where m: "n = m + 64" by (metis add.commute le_Suc_ex not_less)
    have "\<not> bit w n" using False bit_word64_lt by blast
    moreover have "(m + 64) div 64 = Suc (m div 64)" by simp
    ultimately show ?thesis by (auto simp: m word_bits_def)
  qed
qed

lemma word_bits_inject: "length ws = length vs \<Longrightarrow> word_bits ws = word_bits vs \<longleftrightarrow> ws = vs"
proof
  assume len: "length ws = length vs" and eq: "word_bits ws = word_bits vs"
  show "ws = vs"
  proof (rule nth_equalityI [OF len])
    fix i assume i: "i < length ws"
    have "bit (ws ! i) n = bit (vs ! i) n" if "n < 64" for n
    proof -
      have "i * 64 + n \<in> word_bits ws \<longleftrightarrow> i * 64 + n \<in> word_bits vs" by (simp add: eq)
      with that i len show ?thesis by (simp add: word_bits_def)
    qed
    then show "ws ! i = vs ! i" by (simp add: word64_eq_iff)
  qed
qed simp

lemma finite_word_bits: "finite (word_bits ws)"
  by (induction ws) (auto simp: word_bits_Cons intro: finite_subset [of _ "{..<64}"] dest: bit_word64_lt)

lemma card_word_bits: "card (word_bits ws) = sum_list (map count_ones ws)"
proof (induction ws)
  case (Cons w ws)
  have "{n. bit w n} \<inter> (\<lambda>n. n + 64) ` word_bits ws = {}"
    by (auto dest: bit_word64_lt)
  moreover have "finite {n. bit w n}"
    by (rule finite_subset [of _ "{..<64}"]) (auto dest: bit_word64_lt)
  ultimately show ?case
    by (simp add: word_bits_Cons card_Un_disjoint finite_word_bits card_image count_ones_card Cons)
qed simp

lemma bs_count_ok: "bs_count s = card (bits s)"
  by (simp add: bs_count_def card_word_bits)

lemma word64_zero_bits: "(w :: word64) = 0 \<longleftrightarrow> {n. bit w n} = {}"
  by (metis bit_0_eq bit_eqI bot_apply empty_Collect_eq bot_bool_def)

lemma word_bits_zeros: "list_all (\<lambda>w. w = 0) ws \<longleftrightarrow> word_bits ws = {}"
proof (induction ws)
  case (Cons w ws)
  then show ?case by (simp add: word_bits_Cons word64_zero_bits)
qed simp

lemma bs_is_empty_ok: "bs_is_empty s \<longleftrightarrow> bits s = {}"
  by (simp add: bs_is_empty_def word_bits_zeros)

lemma word_bits_const_zero [simp]: "word_bits (replicate n 0) = {}" "word_bits (map (\<lambda>_. 0) ws) = {}"
  by (simp_all add: word_bits_zeros [symmetric] list_all_iff)

lemma bs_new_empty_ok: "bs_ok (bs_new_empty d)" "bits (bs_new_empty d) = {}"
  by (simp_all add: bs_ok_def bs_new_empty_def)

lemma bs_clear_ok: "bs_ok s \<Longrightarrow> bs_ok (bs_clear s)" "bits (bs_clear s) = {}"
  by (simp_all add: bs_ok_def bs_clear_def)

lemma bit_low_mask: "k < 64 \<Longrightarrow> bit (one_shl k - 1) n \<longleftrightarrow> n < k"
  by (auto simp: one_shl_def mask_eq_exp_minus_1 [symmetric] bit_mask_iff)

lemma num_words_Suc:
  assumes "d mod 64 \<noteq> 0"
  shows "num_words d = Suc (d div 64)"
proof -
  define q r where "q = d div 64" and "r = d mod 64"
  then have "d = 64 * q + r" "0 < r" "r < 64" using assms by simp_all
  then show ?thesis
    unfolding num_words_def WORD_BITS_def q_def [symmetric]
    by (intro div_nat_eqI) simp_all
qed

lemma clear_excess_bits_ok:
  assumes "length (words s) = num_words (domain_size s)"
  shows "bits (clear_excess_bits s) = bits s \<inter> {..<domain_size s}"
    and "length (words (clear_excess_bits s)) = num_words (domain_size s)"
    and "domain_size (clear_excess_bits s) = domain_size s"
proof -
  let ?d = "domain_size s" and ?ws = "words s"
  show "length (words (clear_excess_bits s)) = num_words ?d" "domain_size (clear_excess_bits s) = ?d"
    using assms by (simp_all add: clear_excess_bits_def Let_def)
  show "bits (clear_excess_bits s) = bits s \<inter> {..<?d}"
  proof (cases "?d mod 64 = 0")
    case True
    then obtain k where k: "?d = 64 * k" by (metis dvdE mod_0_imp_dvd)
    have "64 * num_words ?d = ?d"
      unfolding k by (simp add: num_words_def WORD_BITS_def)
    then have "bits s \<subseteq> {..<?d}"
      using assms num_words_iff [of _ ?d] by (auto simp: word_bits_def)
    with True show ?thesis by (auto simp: clear_excess_bits_def WORD_BITS_def)
  next
    case False
    let ?i = "?d div 64" and ?k = "?d mod 64"
    have n: "num_words ?d = Suc ?i"
      using False by (rule num_words_Suc)
    then have i: "?d div 64 < length ?ws" using assms by simp
    have eq: "words (clear_excess_bits s) = ?ws[?i := ?ws ! ?i AND (one_shl ?k - 1)]"
      using False assms n by (simp add: clear_excess_bits_def WORD_BITS_def Let_def)
    have below: "m < ?d \<longleftrightarrow> m div 64 < ?i \<or> (m div 64 = ?i \<and> m mod 64 < ?k)" for m
      by (rule less_by_div_mod)
    show ?thesis
      unfolding eq word_bits_update [OF i]
      using assms n by (auto simp: bit_and_iff bit_low_mask below word_bits_def)
  qed
qed

lemma bs_new_filled_ok: "bs_ok (bs_new_filled d)" "bits (bs_new_filled d) = {..<d}"
proof -
  let ?s = "\<lparr>domain_size = d, words = replicate (num_words d) (NOT 0)\<rparr>"
  have "{..<d} \<subseteq> bits ?s"
    using domain_lt_num_words [of _ d] by (auto simp: word_bits_def bit_not_iff)
  then show "bits (bs_new_filled d) = {..<d}" "bs_ok (bs_new_filled d)"
    using clear_excess_bits_ok [of ?s] by (auto simp: bs_new_filled_def bs_ok_def)
qed

lemma bs_insert_all_ok:
  assumes "bs_ok s"
  shows "bs_ok (bs_insert_all s)" "bits (bs_insert_all s) = {..<domain_size s}"
    "domain_size (bs_insert_all s) = domain_size s"
proof -
  have "bs_insert_all s = bs_new_filled (domain_size s)"
    using assms
    by (cases s) (simp add: bs_insert_all_def bs_new_filled_def bs_ok_def map_replicate_const)
  then show "bs_ok (bs_insert_all s)" "bits (bs_insert_all s) = {..<domain_size s}"
    "domain_size (bs_insert_all s) = domain_size s"
    using bs_new_filled_ok [of "domain_size s"]
    by (simp_all add: bs_new_filled_def clear_excess_bits_ok)
qed

lemma bitwise_fold:
  "fold (\<lambda>(a, b) (out, changed). let c = op a b in (out @ [c], changed \<or> a \<noteq> c)) (zip ws vs) (acc, ch) =
     (acc @ map2 op ws vs, ch \<or> map2 op ws vs \<noteq> take (length vs) ws)"
proof (induction ws arbitrary: vs acc ch)
  case (Cons w ws)
  show ?case
  proof (cases vs)
    case (Cons v vs')
    then show ?thesis using Cons.IH by (auto simp: Let_def)
  qed simp
qed simp

lemma bitwise_ok:
  "length ws = length vs \<Longrightarrow> bitwise ws vs op = Ok (map2 op ws vs, map2 op ws vs \<noteq> ws)"
  by (simp add: bitwise_def bitwise_fold)

lemma bs_bitwise_ok:
  assumes "bs_ok s" "bs_ok t" "domain_size s = domain_size t"
    and op: "\<And>a b n. n < 64 \<Longrightarrow> bit (op a b) n = f (bit a n) (bit b n)" and "\<not> f False False"
  shows "\<exists>s'. bs_bitwise s t op = Ok (s', bits s' \<noteq> bits s) \<and> bs_ok s' \<and>
    bits s' = {n. f (n \<in> bits s) (n \<in> bits t)} \<and> domain_size s' = domain_size s"
proof -
  have len: "length (words s) = length (words t)"
    using assms(1-3) by (simp add: bs_ok_def)
  let ?ws = "map2 op (words s) (words t)"
  have "n \<in> word_bits ?ws \<longleftrightarrow> f (n \<in> bits s) (n \<in> bits t)" for n
    using assms(5) len by (cases "n div 64 < length (words t)") (simp_all add: word_bits_def op)
  then have b: "word_bits ?ws = {n. f (n \<in> bits s) (n \<in> bits t)}" by blast
  have "?ws \<noteq> words s \<longleftrightarrow> word_bits ?ws \<noteq> bits s"
    using word_bits_inject [of ?ws "words s"] len by simp
  moreover have "word_bits ?ws \<subseteq> {..<domain_size s}"
  proof
    fix n assume "n \<in> word_bits ?ws"
    then have "f (n \<in> bits s) (n \<in> bits t)" by (simp add: b)
    with assms(5) have "n \<in> bits s \<or> n \<in> bits t" by metis
    with assms(1-3) show "n \<in> {..<domain_size s}" by (auto simp: bs_ok_def)
  qed
  ultimately show ?thesis
    using assms(1,3) len b by (simp add: bs_bitwise_def bitwise_ok bs_ok_def)
qed

lemma bs_union_ok:
  assumes "bs_ok s" "bs_ok t" "domain_size s = domain_size t"
  shows "\<exists>s'. bs_union s t = Ok (s', \<not> bits t \<subseteq> bits s) \<and> bs_ok s' \<and> bits s' = bits s \<union> bits t \<and>
    domain_size s' = domain_size s"
proof -
  obtain s' where "bs_union s t = Ok (s', bits s' \<noteq> bits s)" "bs_ok s'"
    "bits s' = {n. n \<in> bits s \<or> n \<in> bits t}" "domain_size s' = domain_size s"
    using bs_bitwise_ok [OF assms, of "(OR)" "(\<or>)"] by (auto simp: bs_union_def bit_or_iff)
  moreover from this(3) have "bits s' \<noteq> bits s \<longleftrightarrow> \<not> bits t \<subseteq> bits s" by auto
  ultimately show ?thesis by auto
qed

lemma bs_subtract_ok:
  assumes "bs_ok s" "bs_ok t" "domain_size s = domain_size t"
  shows "\<exists>s'. bs_subtract s t = Ok (s', bits s \<inter> bits t \<noteq> {}) \<and> bs_ok s' \<and> bits s' = bits s - bits t \<and>
    domain_size s' = domain_size s"
proof -
  obtain s' where "bs_subtract s t = Ok (s', bits s' \<noteq> bits s)" "bs_ok s'"
    "bits s' = {n. n \<in> bits s \<and> n \<notin> bits t}" "domain_size s' = domain_size s"
    using bs_bitwise_ok [OF assms, of "\<lambda>a b. a AND NOT b" "\<lambda>a b. a \<and> \<not> b"]
    by (auto simp: bs_subtract_def bit_and_iff bit_not_iff)
  moreover from this(3) have "bits s' \<noteq> bits s \<longleftrightarrow> bits s \<inter> bits t \<noteq> {}" by auto
  ultimately show ?thesis by auto
qed

lemma bs_intersect_ok:
  assumes "bs_ok s" "bs_ok t" "domain_size s = domain_size t"
  shows "\<exists>s'. bs_intersect s t = Ok (s', \<not> bits s \<subseteq> bits t) \<and> bs_ok s' \<and> bits s' = bits s \<inter> bits t \<and>
    domain_size s' = domain_size s"
proof -
  obtain s' where "bs_intersect s t = Ok (s', bits s' \<noteq> bits s)" "bs_ok s'"
    "bits s' = {n. n \<in> bits s \<and> n \<in> bits t}" "domain_size s' = domain_size s"
    using bs_bitwise_ok [OF assms, of "(AND)" "(\<and>)"] by (auto simp: bs_intersect_def bit_and_iff)
  moreover from this(3) have "bits s' \<noteq> bits s \<longleftrightarrow> \<not> bits s \<subseteq> bits t" by auto
  ultimately show ?thesis by auto
qed

lemma and_eq_right: "(a :: word64) AND b = b \<longleftrightarrow> {n. bit b n} \<subseteq> {n. bit a n}"
  by (auto simp: bit_eq_iff bit_and_iff dest: bit_word64_lt)

lemma superset_words:
  "length ws = length vs \<Longrightarrow>
     list_all (\<lambda>(a, b). a AND b = b) (zip ws vs) \<longleftrightarrow> word_bits vs \<subseteq> word_bits ws"
proof (induction ws vs rule: list_induct2)
  case (Cons w ws v vs)
  have "word_bits (v # vs) \<subseteq> word_bits (w # ws) \<longleftrightarrow>
      {n. bit v n} \<subseteq> {n. bit w n} \<and> word_bits vs \<subseteq> word_bits ws"
    unfolding word_bits_Cons by (auto dest: bit_word64_lt)
  with Cons show ?case by (simp add: and_eq_right)
qed simp

lemma bs_superset_ok:
  "bs_ok s \<Longrightarrow> bs_ok t \<Longrightarrow> domain_size s = domain_size t \<Longrightarrow> bs_superset s t = Ok (bits t \<subseteq> bits s)"
  by (simp add: bs_superset_def superset_words bs_ok_def)

section \<open>Iteration\<close>

text \<open>The iterator: the current word with the visited bits cleared, its offset (a machine word, so
  that the start value \<open>usize::MAX - 63\<close> wraps to 0 at the first word), the words to come.\<close>

type_synonym bit_iter = "word64 \<times> word64 \<times> word64 list"

definition bi_new :: "word64 list \<Rightarrow> bit_iter" where
  "bi_new ws = (0, - 1 - (of_nat WORD_BITS - 1), ws)"

fun bi_next :: "word64 \<Rightarrow> word64 \<Rightarrow> word64 list \<Rightarrow> (nat \<times> bit_iter) option" where
  "bi_next w offset ws =
     (if w \<noteq> 0
      then let bit_pos = trailing_zeros w in
           Some (unat (of_nat bit_pos + offset), (w XOR one_shl bit_pos, offset, ws))
      else (case ws of
              [] \<Rightarrow> None
            | v # vs \<Rightarrow> bi_next v (offset + of_nat WORD_BITS) vs))"

declare bi_next.simps [simp del]

lemma xor_lowest_bit:
  assumes "w \<noteq> 0"
  shows "bit (w XOR one_shl (trailing_zeros w)) n \<longleftrightarrow> bit w n \<and> n \<noteq> trailing_zeros w"
  using trailing_zeros_least [OF assms] by (auto simp: bit_xor_iff bit_one_shl)

lemma filter_lowest_bit:
  assumes "w \<noteq> 0"
  shows "filter (bit w) [0 ..< 64] =
    trailing_zeros w # filter (bit (w XOR one_shl (trailing_zeros w))) [0 ..< 64]"
proof -
  let ?p = "trailing_zeros w"
  note p = trailing_zeros_least [OF assms]
  have split: "[0 ..< 64] = [0 ..< ?p] @ ?p # [Suc ?p ..< 64]"
    using p(1) by (metis le_add1 less_imp_le_nat plus_nat.add_0 upt_add_eq_append upt_conv_Cons
        le_add_diff_inverse)
  have 1: "filter (bit w) [0 ..< ?p] = []" using p(3) by (auto simp: filter_empty_conv)
  have 2: "filter (bit (w XOR one_shl ?p)) [0 ..< ?p] = []"
    using p(3) by (auto simp: filter_empty_conv xor_lowest_bit [OF assms])
  have 3: "filter (bit (w XOR one_shl ?p)) [Suc ?p ..< 64] = filter (bit w) [Suc ?p ..< 64]"
    by (rule filter_cong) (auto simp: xor_lowest_bit [OF assms])
  show ?thesis
    unfolding split filter_append 1 2 by (simp add: p(2) 3 xor_lowest_bit [OF assms])
qed

lemma bi_next_decreases:
  "bi_next w offset ws = Some (x, w', offset', ws') \<Longrightarrow>
     sum_list (map count_ones (w' # ws')) < sum_list (map count_ones (w # ws))"
proof (induction w offset ws rule: bi_next.induct)
  case (1 w offset ws)
  show ?case
  proof (cases "w = 0")
    case True
    then show ?thesis
      using 1 by (subst (asm) (2) bi_next.simps) (auto split: list.splits)
  next
    case False
    then show ?thesis
      using 1(2) filter_lowest_bit [OF False]
      by (subst (asm) bi_next.simps) (auto simp: Let_def count_ones_def)
  qed
qed

text \<open>All values an iterator yields.\<close>

function bi_list :: "bit_iter \<Rightarrow> nat list" where
  "bi_list (w, offset, ws) =
     (case bi_next w offset ws of None \<Rightarrow> [] | Some (x, it) \<Rightarrow> x # bi_list it)"
  by pat_completeness auto
termination
  by (relation "measure (\<lambda>(w, _, ws). sum_list (map count_ones (w # ws)))")
     (auto dest: bi_next_decreases)

declare bi_list.simps [simp del]

definition bs_iter :: "bit_set \<Rightarrow> nat list" where
  "bs_iter s = bi_list (bi_new (words s))"

text \<open>The positions of the ones of a word, in ascending order.\<close>

definition word_ones :: "word64 \<Rightarrow> nat list" where
  "word_ones w = filter (bit w) [0 ..< 64]"

lemma word_ones_zero [simp]: "word_ones 0 = []"
  by (simp add: word_ones_def)

lemma count_ones_ones: "count_ones w = length (word_ones w)"
  by (simp add: count_ones_def word_ones_def)

lemma word_ones_step:
  "w \<noteq> 0 \<Longrightarrow> word_ones w = trailing_zeros w # word_ones (w XOR one_shl (trailing_zeros w))"
  unfolding word_ones_def by (rule filter_lowest_bit)

lemma bi_list_word:
  assumes "unat offset + 64 \<le> 2 ^ 64"
  shows "bi_list (w, offset, ws) =
    map (\<lambda>n. n + unat offset) (word_ones w) @ bi_list (0, offset, ws)"
proof (induction "count_ones w" arbitrary: w rule: less_induct)
  case less
  show ?case
  proof (cases "w = 0")
    case True
    then show ?thesis by simp
  next
    case False
    let ?p = "trailing_zeros w" and ?w = "w XOR one_shl (trailing_zeros w)"
    note p = trailing_zeros_least [OF False]
    have "count_ones ?w < count_ones w"
      using word_ones_step [OF False] by (simp add: count_ones_ones)
    note IH = less [OF this]
    have "unat (of_nat ?p + offset) = ?p + unat offset"
      using assms p(1) by (simp add: unat_word_ariths unat_of_nat)
    then have "bi_list (w, offset, ws) = (?p + unat offset) # bi_list (?w, offset, ws)"
      using False by (subst bi_list.simps) (simp add: bi_next.simps Let_def)
    then show ?thesis
      unfolding IH word_ones_step [OF False] by simp
  qed
qed

lemma bi_list_zero:
  "bi_list (0, offset, []) = []"
  "bi_list (0, offset, v # vs) = bi_list (v, offset + 64, vs)"
  by (simp_all add: bi_list.simps bi_next.simps [of 0] WORD_BITS_def)

lemma bi_list_words:
  assumes "64 * (k + length ws) < 2 ^ 64" and "offset = of_nat (64 * k) - 64"
  shows "bi_list (0, offset, ws) =
    concat (map (\<lambda>i. map (\<lambda>n. n + 64 * (k + i)) (word_ones (ws ! i))) [0 ..< length ws])"
  using assms
proof (induction ws arbitrary: k offset)
  case (Cons v vs)
  let ?off = "of_nat (64 * k) :: word64"
  have u: "unat ?off = 64 * k"
    unfolding unat_of_nat by (rule mod_less) (use Cons.prems(1) in simp)
  have "bi_list (0, offset, v # vs) = bi_list (v, ?off, vs)"
    by (simp add: bi_list_zero Cons.prems(2))
  also have "\<dots> = map (\<lambda>n. n + 64 * k) (word_ones v) @ bi_list (0, ?off, vs)"
    using bi_list_word [of ?off v vs] Cons.prems(1) unfolding u by simp
  also have "bi_list (0, ?off, vs) = concat (map (\<lambda>i. map (\<lambda>n. n + 64 * (Suc k + i))
      (word_ones (vs ! i))) [0 ..< length vs])"
    using Cons.prems(1) by (intro Cons.IH) (simp_all add: algebra_simps)
  finally show ?case
    by (simp only: list.size upt_conv_Cons [OF zero_less_Suc] map_Suc_upt [symmetric] list.map map_map
        comp_def concat.simps nth_Cons_0 nth_Cons_Suc add_0_right add_Suc add_Suc_right)
qed (simp add: bi_list_zero(1))

lemma filter_upt_shift:
  "filter P [a ..< a + n] = map (\<lambda>i. i + a) (filter (\<lambda>i. P (i + a)) [0 ..< n])"
proof (induction n)
  case (Suc n)
  then show ?case by (simp add: add.commute)
qed simp

lemma filter_upt_blocks:
  "filter P [0 ..< 64 * n] =
     concat (map (\<lambda>i. map (\<lambda>m. m + 64 * i) (filter (\<lambda>m. P (m + 64 * i)) [0 ..< 64])) [0 ..< n])"
proof (induction n)
  case (Suc n)
  have "[0 ..< 64 * Suc n] = [0 ..< 64 * n] @ [64 * n ..< 64 * n + 64]"
    using upt_add_eq_append [of 0 "64 * n" 64] by (simp only: mult_Suc_right add.commute [of 64] le0)
  then have "filter P [0 ..< 64 * Suc n] =
      filter P [0 ..< 64 * n] @ filter P [64 * n ..< 64 * n + 64]" by simp
  then show ?case
    unfolding filter_upt_shift [of P "64 * n" 64] Suc by (simp del: upt_rec_numeral)
qed simp

lemma bs_iter_filter:
  assumes "64 * length (words s) < 2 ^ 64"
  shows "bs_iter s = filter (\<lambda>n. n \<in> bits s) [0 ..< 64 * length (words s)]"
proof -
  have "bs_iter s = bi_list (0, of_nat (64 * 0) - 64, words s)"
    by (simp add: bs_iter_def bi_new_def WORD_BITS_def)
  also have "\<dots> = concat (map (\<lambda>i. map (\<lambda>n. n + 64 * i) (word_ones (words s ! i)))
      [0 ..< length (words s)])"
    using assms by (subst bi_list_words [where k = 0]) auto
  also have "\<dots> = filter (\<lambda>n. n \<in> bits s) [0 ..< 64 * length (words s)]"
    unfolding filter_upt_blocks word_ones_def
    by (intro arg_cong [where f = concat] map_cong filter_cong refl)
       (auto simp: word_bits_def)
  finally show ?thesis .
qed

lemma bs_iter_sorted:
  assumes "64 * length (words s) < 2 ^ 64"
  shows "bs_iter s = sorted_list_of_set (bits s)"
proof -
  have "set (bs_iter s) = bits s"
    using bs_iter_filter [OF assms] by (auto simp: word_bits_def)
  moreover have "sorted (bs_iter s)" "distinct (bs_iter s)"
    unfolding bs_iter_filter [OF assms] by (rule sorted_wrt_filter, simp_all)
  ultimately show ?thesis
    by (metis sorted_list_of_set.idem_if_sorted_distinct)
qed

section \<open>Bit sets as sets\<close>

text \<open>(C29) The element operations of a well-formed bit set are those of the set it stands for, also
  across word boundaries: inserting and removing an element of the domain keep the set well formed,
  tell whether the set changed, and an element outside the domain makes each of them panic.\<close>

theorem bit_set_elements:
  assumes "bs_ok s"
  shows "if e < domain_size s
    then bs_contains s e = Ok (e \<in> bits s) \<and>
      (\<exists>s'. bs_insert s e = Ok (s', e \<notin> bits s) \<and> bs_ok s' \<and> bits s' = insert e (bits s) \<and>
        domain_size s' = domain_size s) \<and>
      (\<exists>s'. bs_remove s e = Ok (s', e \<in> bits s) \<and> bs_ok s' \<and> bits s' = bits s - {e} \<and>
        domain_size s' = domain_size s)
    else bs_contains s e = Panic Assert_Failed \<and> bs_insert s e = Panic Assert_Failed \<and>
      bs_remove s e = Panic Assert_Failed"
  using bs_contains_ok [OF assms] bs_insert_ok [OF assms] bs_remove_ok [OF assms] bs_out_of_domain by simp

text \<open>(C30) Union, difference, intersection and the subset test of two well-formed bit sets over one
  domain are those of the sets they stand for, and the returned flag says exactly whether the first
  set changed.\<close>

theorem bit_set_algebra:
  assumes "bs_ok s" and "bs_ok t" and "domain_size s = domain_size t"
  shows "(\<exists>s'. bs_union s t = Ok (s', \<not> bits t \<subseteq> bits s) \<and> bs_ok s' \<and> bits s' = bits s \<union> bits t) \<and>
    (\<exists>s'. bs_subtract s t = Ok (s', bits s \<inter> bits t \<noteq> {}) \<and> bs_ok s' \<and> bits s' = bits s - bits t) \<and>
    (\<exists>s'. bs_intersect s t = Ok (s', \<not> bits s \<subseteq> bits t) \<and> bs_ok s' \<and> bits s' = bits s \<inter> bits t) \<and>
    bs_superset s t = Ok (bits t \<subseteq> bits s) \<and> bs_count s = card (bits s) \<and>
    (bs_is_empty s \<longleftrightarrow> bits s = {})"
  using bs_union_ok [OF assms] bs_subtract_ok [OF assms] bs_intersect_ok [OF assms] bs_superset_ok [OF assms]
    bs_count_ok bs_is_empty_ok by blast

text \<open>(C31) Iteration over a bit set yields its elements in ascending order, each once. The iterator
  keeps its offset in a machine word that starts below zero and wraps around; the theorem needs only
  that the set has fewer than 2^64 bits.\<close>

theorem bit_iter_ascending:
  assumes "64 * length (words s) < 2 ^ 64"
  shows "bs_iter s = sorted_list_of_set (bits s)"
  using assms by (rule bs_iter_sorted)

text \<open>Two words, the second one partly used.\<close>

definition sample_bits :: bit_set where
  "sample_bits = \<lparr>domain_size = 70, words = [5, 2]\<rparr>"

lemma sample_bits_ok: "bs_ok sample_bits"
proof -
  have "length (words sample_bits) = num_words (domain_size sample_bits)" by code_simp
  moreover have "n < 70" if "n div 64 < 2" "bit ([5, 2 :: word64] ! (n div 64)) (n mod 64)" for n
  proof (rule ccontr)
    assume "\<not> n < 70"
    then have d: "n div 64 = 1" using that(1) by linarith
    moreover have "n mod 64 \<ge> 6" using d \<open>\<not> n < 70\<close> mult_div_mod_eq [of 64 n] by linarith
    ultimately show False using that(2) by (simp add: bit_2_iff)
  qed
  ultimately show ?thesis
    unfolding bs_ok_def word_bits_def by (auto simp: sample_bits_def)
qed

theorem bit_set_elements_witness:
  "\<exists>s'. bs_insert sample_bits 66 = Ok (s', True) \<and> bs_ok s' \<and> bits s' = insert 66 (bits sample_bits)"
proof -
  have "66 \<notin> bits sample_bits" by (simp add: word_bits_def sample_bits_def)
  then show ?thesis using bit_set_elements [OF sample_bits_ok, of 66] by (auto simp: sample_bits_def)
qed

theorem bit_set_algebra_witness:
  "\<exists>s'. bs_union sample_bits sample_bits = Ok (s', False) \<and> bits s' = bits sample_bits"
  using bit_set_algebra [OF sample_bits_ok sample_bits_ok refl] by auto

theorem bit_iter_ascending_witness:
  "64 * length (words sample_bits) < 2 ^ 64 \<and> bs_iter sample_bits = [0, 2, 65] \<and>
   sorted_list_of_set (bits sample_bits) = bs_iter sample_bits"
proof -
  have "bs_iter sample_bits = [0, 2, 65]" by code_simp
  moreover have small: "64 * length (words sample_bits) < 2 ^ 64" by (simp add: sample_bits_def)
  ultimately show ?thesis using bit_iter_ascending [OF small] by simp
qed

end
