(* ===== verification/Traversal.thy ===== *)
theory Traversal
  imports Mir Bit_Set
begin

text \<open>
  Traversals of the control-flow graph (\<open>src/librustc/mir/traversal.rs\<close>) over the dense bit set
  of visited blocks. The stacks of the code are lists with the top first. Preorder and postorder
  are shown to end, to yield every reachable block exactly once, and postorder to put every block
  behind its successors up to back edges; reverse postorder starts at the root and lists, on an
  acyclic graph, the blocks in topological order.
\<close>

section \<open>Room in a bit set\<close>

text \<open>The number of bits that are still zero: it shrinks with every insertion that reports a
  change, which is what ends the traversals.\<close>

definition bs_room :: "bit_set \<Rightarrow> nat" where
  "bs_room s = 64 * length (words s) - card (bits s)"

lemma word_bits_bound: "word_bits ws \<subseteq> {..<64 * length ws}"
  unfolding word_bits_def by auto

lemma bs_insert_effect:
  assumes "bs_insert s e = Ok (s', changed)"
  shows "bits s' = insert e (bits s)" and "changed \<longleftrightarrow> e \<notin> bits s"
    and "length (words s') = length (words s)"
proof -
  let ?w = "words s ! (e div 64) OR one_shl (e mod 64)"
  from assms have e: "e div 64 < length (words s)" and s': "s' = s\<lparr>words := (words s)[e div 64 := ?w]\<rparr>"
    and ch: "changed \<longleftrightarrow> ?w \<noteq> words s ! (e div 64)"
    by (simp_all add: bs_insert_def res_simps word_index_and_mask_def WORD_BITS_def Let_def)
  show "bits s' = insert e (bits s)" "changed \<longleftrightarrow> e \<notin> bits s" "length (words s') = length (words s)"
    unfolding s' ch using word_bits_set [OF e] or_mask_changed [OF e] by simp_all
qed

lemma bs_insert_room:
  assumes "bs_insert s e = Ok (s', changed)"
  shows "changed \<Longrightarrow> bs_room s' < bs_room s" and "\<not> changed \<Longrightarrow> bs_room s' = bs_room s"
proof -
  note eff = bs_insert_effect [OF assms]
  have le: "card (bits s') \<le> 64 * length (words s')"
    using card_mono [OF _ word_bits_bound [of "words s'"]] by simp
  show "bs_room s' < bs_room s" if changed
    using that eff le finite_word_bits [of "words s"] by (simp add: bs_room_def)
  show "bs_room s' = bs_room s" if "\<not> changed"
    using that eff by (simp add: bs_room_def insert_absorb)
qed

section \<open>Preorder\<close>

record preorder =
  pre_visited :: bit_set
  pre_worklist :: "nat list"
  pre_root_is_start_block :: bool

definition preorder_new :: "body \<Rightarrow> nat \<Rightarrow> preorder" where
  "preorder_new b root =
     \<lparr>pre_visited = bs_new_empty (length (basic_blocks b)), pre_worklist = [root],
      pre_root_is_start_block = (root = START_BLOCK)\<rparr>"

fun preorder_pop :: "body \<Rightarrow> bit_set \<Rightarrow> nat list \<Rightarrow> (nat option \<times> bit_set \<times> nat list) res" where
  "preorder_pop b visited [] = Ok (None, visited, [])"
| "preorder_pop b visited (idx # worklist) =
     res_bind (bs_insert visited idx) (\<lambda>(visited', new).
       if \<not> new then preorder_pop b visited' worklist
       else res_bind (index_vec (basic_blocks b) idx) (\<lambda>data.
         Ok (Some idx, visited',
             (case terminator data of
                None \<Rightarrow> worklist
              | Some term \<Rightarrow> rev (successors (term_kind term)) @ worklist))))"

definition preorder_next :: "body \<Rightarrow> preorder \<Rightarrow> (nat option \<times> preorder) res" where
  "preorder_next b p =
     res_bind (preorder_pop b (pre_visited p) (pre_worklist p)) (\<lambda>(r, visited, worklist).
       Ok (r, p\<lparr>pre_visited := visited, pre_worklist := worklist\<rparr>))"

definition preorder_size_hint :: "body \<Rightarrow> preorder \<Rightarrow> nat \<times> nat" where
  "preorder_size_hint b p =
     (let upper = length (basic_blocks b) - bs_count (pre_visited p);
          lower = (if pre_root_is_start_block p then upper else length (pre_worklist p))
      in (lower, upper))"

lemma preorder_pop_room:
  "preorder_pop b vis wl = Ok (Some x, vis', wl') \<Longrightarrow> bs_room vis' < bs_room vis"
proof (induction b vis wl rule: preorder_pop.induct)
  case (2 b vis idx wl)
  from "2.prems" obtain s new where s: "bs_insert vis idx = Ok (s, new)"
    by (auto simp: res_simps)
  note room = bs_insert_room [OF s]
  show ?case
  proof (cases new)
    case True
    with "2.prems" s room show ?thesis by (auto simp: res_simps)
  next
    case False
    with "2.prems" s have "preorder_pop b s wl = Ok (Some x, vis', wl')" by simp
    with "2.IH" [of "(s, new)" s new] s False room show ?thesis by simp
  qed
qed simp

text \<open>Everything a preorder iterator yields.\<close>

function preorder_list :: "body \<Rightarrow> preorder \<Rightarrow> nat list res" where
  "preorder_list b p =
     res_bind (preorder_next b p) (\<lambda>(r, p').
       case r of
         None \<Rightarrow> Ok []
       | Some x \<Rightarrow> res_bind (preorder_list b p') (\<lambda>xs. Ok (x # xs)))"
  by pat_completeness auto
termination
  by (relation "measure (\<lambda>(b, p). bs_room (pre_visited p))")
     (auto simp: preorder_next_def res_simps dest: preorder_pop_room)

declare preorder_list.simps [simp del]

section \<open>Postorder\<close>

type_synonym visit_stack = "(nat \<times> nat list) list"

record postorder =
  post_visited :: bit_set
  post_visit_stack :: visit_stack
  post_root_is_start_block :: bool

function traverse_successor :: "body \<Rightarrow> bit_set \<Rightarrow> visit_stack \<Rightarrow> (bit_set \<times> visit_stack) res" where
  "traverse_successor b visited [] = Ok (visited, [])"
| "traverse_successor b visited ((x, []) # stack) = Ok (visited, (x, []) # stack)"
| "traverse_successor b visited ((x, bb # iter) # stack) =
     res_bind (bs_insert visited bb) (\<lambda>(visited', new).
       if new
       then res_bind (index_vec (basic_blocks b) bb) (\<lambda>data.
         case terminator data of
           None \<Rightarrow> traverse_successor b visited' ((x, iter) # stack)
         | Some term \<Rightarrow>
             traverse_successor b visited' ((bb, successors (term_kind term)) # (x, iter) # stack))
       else traverse_successor b visited' ((x, iter) # stack))"
  by pat_completeness auto
termination
proof (relation "measures [\<lambda>(b, v, st). bs_room v, \<lambda>(b, v, st). length (snd (hd st))]")
qed (auto dest: bs_insert_room)

definition postorder_new :: "body \<Rightarrow> nat \<Rightarrow> postorder res" where
  "postorder_new b root =
     res_bind (index_vec (basic_blocks b) root) (\<lambda>data.
       case terminator data of
         None \<Rightarrow> Ok \<lparr>post_visited = bs_new_empty (length (basic_blocks b)), post_visit_stack = [],
                    post_root_is_start_block = (root = START_BLOCK)\<rparr>
       | Some term \<Rightarrow>
           res_bind (bs_insert (bs_new_empty (length (basic_blocks b))) root) (\<lambda>(visited, _).
           res_bind (traverse_successor b visited [(root, successors (term_kind term))])
             (\<lambda>(visited', stack).
               Ok \<lparr>post_visited = visited', post_visit_stack = stack,
                   post_root_is_start_block = (root = START_BLOCK)\<rparr>)))"

definition postorder_next :: "body \<Rightarrow> postorder \<Rightarrow> (nat option \<times> postorder) res" where
  "postorder_next b p =
     (case post_visit_stack p of
        [] \<Rightarrow> Ok (None, p)
      | (bb, _) # stack \<Rightarrow>
          res_bind (traverse_successor b (post_visited p) stack) (\<lambda>(visited, stack').
          res_bind (index_vec (basic_blocks b) bb) (\<lambda>_.
            Ok (Some bb, p\<lparr>post_visited := visited, post_visit_stack := stack'\<rparr>))))"

definition postorder_size_hint :: "body \<Rightarrow> postorder \<Rightarrow> nat \<times> nat" where
  "postorder_size_hint b p =
     (let upper = length (basic_blocks b) - bs_count (post_visited p);
          lower = (if post_root_is_start_block p then upper else length (post_visit_stack p))
      in (lower, upper))"

lemma traverse_successor_room:
  "traverse_successor b vis st = Ok (vis', st') \<Longrightarrow>
     bs_room vis' + length st' \<le> bs_room vis + length st"
proof (induction b vis st rule: traverse_successor.induct)
  case (3 b vis x bb iter st)
  from "3.prems" obtain s new where s: "bs_insert vis bb = Ok (s, new)"
    by (auto simp: res_simps)
  note room = bs_insert_room [OF s]
  show ?case
  proof (cases new)
    case True
    with "3.prems" s obtain d where d: "index_vec (basic_blocks b) bb = Ok d"
      by (auto simp: res_simps)
    show ?thesis
    proof (cases "terminator d")
      case None
      with "3.prems" s True d "3.IH"(1) [of "(s, new)" s new d] room show ?thesis by simp
    next
      case (Some t)
      with "3.prems" s True d "3.IH"(2) [of "(s, new)" s new d t] room show ?thesis by simp
    qed
  next
    case False
    with "3.prems" s "3.IH"(3) [of "(s, new)" s new] room show ?thesis by simp
  qed
qed auto

function postorder_list :: "body \<Rightarrow> postorder \<Rightarrow> nat list res" where
  "postorder_list b p =
     res_bind (postorder_next b p) (\<lambda>(r, p').
       case r of
         None \<Rightarrow> Ok []
       | Some x \<Rightarrow> res_bind (postorder_list b p') (\<lambda>xs. Ok (x # xs)))"
  by pat_completeness auto
termination
proof (relation "measure (\<lambda>(b, p). bs_room (post_visited p) + length (post_visit_stack p))")
  fix b :: body and p q :: postorder and x r s
  assume "postorder_next b p = Ok s" "(r, q) = s" "r = Some x"
  then show "((b, q), b, p) \<in> measure (\<lambda>(b, p). bs_room (post_visited p) + length (post_visit_stack p))"
    by (auto simp: postorder_next_def res_simps less_Suc_eq_le dest!: traverse_successor_room
        split: list.splits)
qed simp

declare postorder_list.simps [simp del]

section \<open>Reverse postorder\<close>

record reverse_postorder =
  rpo_blocks :: "nat list"
  rpo_idx :: nat

definition rpo_new :: "body \<Rightarrow> nat \<Rightarrow> reverse_postorder res" where
  "rpo_new b root =
     res_bind (postorder_new b root) (\<lambda>p.
     res_bind (postorder_list b p) (\<lambda>blocks.
       Ok \<lparr>rpo_blocks = blocks, rpo_idx = length blocks\<rparr>))"

definition rpo_reset :: "reverse_postorder \<Rightarrow> reverse_postorder" where
  "rpo_reset r = r\<lparr>rpo_idx := length (rpo_blocks r)\<rparr>"

definition rpo_next :: "reverse_postorder \<Rightarrow> nat option \<times> reverse_postorder" where
  "rpo_next r =
     (if rpo_idx r = 0 then (None, r)
      else let i = rpo_idx r - 1 in
           (if i < length (rpo_blocks r) then Some (rpo_blocks r ! i) else None, r\<lparr>rpo_idx := i\<rparr>))"

definition rpo_size_hint :: "reverse_postorder \<Rightarrow> nat \<times> nat option" where
  "rpo_size_hint r = (rpo_idx r, Some (rpo_idx r))"

function rpo_list :: "reverse_postorder \<Rightarrow> nat list" where
  "rpo_list r =
     (case rpo_next r of (None, _) \<Rightarrow> [] | (Some x, r') \<Rightarrow> x # rpo_list r')"
  by pat_completeness auto
termination
  by (relation "measure rpo_idx") (auto simp: rpo_next_def Let_def split: if_splits)

declare rpo_list.simps [simp del]

definition reverse_postorder_of :: "body \<Rightarrow> nat list res" where
  "reverse_postorder_of b = res_bind (rpo_new b START_BLOCK) (\<lambda>r. Ok (rpo_list r))"

section \<open>Postorder is correct\<close>

text \<open>Every successor of an element stands before it, or reaches it.\<close>

definition postordered :: "body \<Rightarrow> nat list \<Rightarrow> bool" where
  "postordered b L \<longleftrightarrow>
     (\<forall>xs x ys. L = xs @ x # ys \<longrightarrow>
        (\<forall>v \<in> set (block_successors b x). v \<in> set xs \<or> (v, x) \<in> (cfg.edge b)\<^sup>*))"

lemma postordered_Nil [simp]: "postordered b []"
  by (simp add: postordered_def)

lemma postordered_snoc:
  "postordered b L \<Longrightarrow> \<forall>v \<in> set (block_successors b x). v \<in> set L \<or> (v, x) \<in> (cfg.edge b)\<^sup>* \<Longrightarrow>
     postordered b (L @ [x])"
  unfolding postordered_def by (auto simp: append_eq_append_conv2 Cons_eq_append_conv append_eq_Cons_conv)

text \<open>The invariant of the traversal: \<open>L\<close> is what has been yielded, \<open>vis\<close> the visited set and
  \<open>st\<close> the stack. The blocks on the stack reach those above them, and each has its successors
  visited up to the ones its iterator still holds.\<close>

definition stack_ok :: "body \<Rightarrow> nat set \<Rightarrow> visit_stack \<Rightarrow> bool" where
  "stack_ok b V st \<longleftrightarrow>
     sorted_wrt (\<lambda>x y. (y, x) \<in> (cfg.edge b)\<^sup>*) (map fst st) \<and>
     (\<forall>e \<in> set st. set (snd e) \<subseteq> set (block_successors b (fst e)) \<and>
        set (block_successors b (fst e)) \<subseteq> V \<union> set (snd e))"

definition post_inv :: "body \<Rightarrow> nat \<Rightarrow> nat list \<Rightarrow> bit_set \<Rightarrow> visit_stack \<Rightarrow> bool" where
  "post_inv b root L vis st \<longleftrightarrow>
     bs_ok vis \<and> domain_size vis = length (basic_blocks b) \<and> distinct (L @ map fst st) \<and>
     bits vis = set L \<union> fst ` set st \<and> bits vis \<subseteq> (cfg.edge b)\<^sup>* `` {root} \<and>
     stack_ok b (bits vis) st \<and> postordered b L \<and> (\<forall>x \<in> set L. set (block_successors b x) \<subseteq> bits vis)"

lemma stack_ok_mono:
  assumes "stack_ok b V st" and "V \<subseteq> W"
  shows "stack_ok b W st"
  using assms unfolding stack_ok_def by blast

lemma stack_ok_advance:
  assumes "stack_ok b V ((x, bb # iter) # st)"
  shows "stack_ok b (insert bb V) ((x, iter) # st)" and "(x, bb) \<in> cfg.edge b"
proof -
  show "(x, bb) \<in> cfg.edge b" using assms by (simp add: stack_ok_def cfg.edge_iff)
  have "stack_ok b (insert bb V) ((x, bb # iter) # st)"
    using assms by (rule stack_ok_mono) blast
  then show "stack_ok b (insert bb V) ((x, iter) # st)"
    by (simp add: stack_ok_def)
qed

lemma stack_ok_push:
  assumes "stack_ok b V ((x, iter) # st)" and "(x, bb) \<in> cfg.edge b"
  shows "stack_ok b V ((bb, block_successors b bb) # (x, iter) # st)"
proof -
  have "(y, bb) \<in> (cfg.edge b)\<^sup>*" if "(y, x) \<in> (cfg.edge b)\<^sup>*" for y
    using that assms(2) by (rule rtrancl_into_rtrancl)
  then show ?thesis
    using assms unfolding stack_ok_def by auto
qed

lemma post_invD:
  assumes "post_inv b root L vis st"
  shows "bs_ok vis" "domain_size vis = length (basic_blocks b)" "distinct (L @ map fst st)"
    "bits vis = set L \<union> fst ` set st" "bits vis \<subseteq> (cfg.edge b)\<^sup>* `` {root}"
    "stack_ok b (bits vis) st" "postordered b L"
    "\<And>x. x \<in> set L \<Longrightarrow> set (block_successors b x) \<subseteq> bits vis"
  using assms unfolding post_inv_def by blast+

lemma post_invI:
  assumes "bs_ok vis" "domain_size vis = length (basic_blocks b)" "distinct (L @ map fst st)"
    "bits vis = set L \<union> fst ` set st" "bits vis \<subseteq> (cfg.edge b)\<^sup>* `` {root}"
    "stack_ok b (bits vis) st" "postordered b L"
    "\<And>x. x \<in> set L \<Longrightarrow> set (block_successors b x) \<subseteq> bits vis"
  shows "post_inv b root L vis st"
  using assms unfolding post_inv_def by blast

lemma post_inv_step_old:
  assumes inv: "post_inv b root L vis ((x, bb # iter) # st)" and "bb \<in> bits vis"
    and vis': "bits vis' = bits vis" "bs_ok vis'" "domain_size vis' = domain_size vis"
  shows "post_inv b root L vis' ((x, iter) # st)"
proof (rule post_invI)
  note inv = post_invD [OF inv]
  show "stack_ok b (bits vis') ((x, iter) # st)"
    using stack_ok_advance(1) [OF inv(6)] assms(2) vis'(1) by (simp add: insert_absorb)
  show "distinct (L @ map fst ((x, iter) # st))" using inv(3) by simp
  show "bits vis' = set L \<union> fst ` set ((x, iter) # st)" using vis'(1) inv(4) by simp
  show "bits vis' \<subseteq> (cfg.edge b)\<^sup>* `` {root}" using vis'(1) inv(5) by simp
  show "set (block_successors b y) \<subseteq> bits vis'" if "y \<in> set L" for y
    using inv(8) [OF that] vis'(1) by simp
qed (use vis' post_invD [OF inv] in simp_all)

lemma post_inv_step_new:
  assumes inv: "post_inv b root L vis ((x, bb # iter) # st)" and new: "bb \<notin> bits vis"
    and vis': "bits vis' = insert bb (bits vis)" "bs_ok vis'" "domain_size vis' = domain_size vis"
  shows "post_inv b root L vis' ((bb, block_successors b bb) # (x, iter) # st)"
proof (rule post_invI)
  note inv = post_invD [OF inv]
  note adv = stack_ok_advance [OF inv(6)]
  show "stack_ok b (bits vis') ((bb, block_successors b bb) # (x, iter) # st)"
    using stack_ok_push [OF adv] by (simp add: vis'(1))
  have "(root, x) \<in> (cfg.edge b)\<^sup>*" using inv(4,5) by auto
  then have "(root, bb) \<in> (cfg.edge b)\<^sup>*" using adv(2) by (rule rtrancl_into_rtrancl)
  then show "bits vis' \<subseteq> (cfg.edge b)\<^sup>* `` {root}" using inv(5) vis'(1) by simp
  show "distinct (L @ map fst ((bb, block_successors b bb) # (x, iter) # st))"
    using inv(3) new unfolding inv(4) by simp
  show "bits vis' = set L \<union> fst ` set ((bb, block_successors b bb) # (x, iter) # st)"
    unfolding vis'(1) inv(4) by auto
  show "set (block_successors b y) \<subseteq> bits vis'" if "y \<in> set L" for y
    using inv(8) [OF that] vis'(1) by blast
qed (use vis' post_invD [OF inv] in simp_all)

text \<open>Yielding the top of the stack when its iterator is exhausted.\<close>

lemma post_inv_pop:
  assumes inv: "post_inv b root L vis ((x, []) # st)"
  shows "post_inv b root (L @ [x]) vis st"
proof (rule post_invI)
  note inv = post_invD [OF inv]
  have closed: "set (block_successors b x) \<subseteq> bits vis" using inv(6) by (simp add: stack_ok_def)
  have "(v, x) \<in> (cfg.edge b)\<^sup>*" if "v \<in> insert x (fst ` set st)" for v
    using inv(6) that by (auto simp: stack_ok_def)
  with closed show "postordered b (L @ [x])"
    using inv(4) by (intro postordered_snoc [OF inv(7)]) auto
  show "stack_ok b (bits vis) st" using inv(6) by (simp add: stack_ok_def)
  show "set (block_successors b y) \<subseteq> bits vis" if "y \<in> set (L @ [x])" for y
    using that closed inv(8) by auto
qed (use post_invD [OF inv] in auto)

lemma post_inv_in_range:
  assumes "wf_body b" "post_inv b root L vis ((x, bb # iter) # st)"
  shows "bb < length (basic_blocks b)"
proof -
  have "(x, bb) \<in> cfg.edge b"
    by (rule stack_ok_advance(2) [OF post_invD(6) [OF assms(2)]])
  then show ?thesis using assms(1) by (auto simp: wf_body_def cfg.edge_iff dest: wf_targetsD)
qed

lemma traverse_successor_inv:
  assumes "wf_body b" and "post_inv b root L vis st"
  shows "\<exists>vis' st' pushed. traverse_successor b vis st = Ok (vis', st') \<and>
    post_inv b root L vis' st' \<and> map fst st' = pushed @ map fst st \<and>
    (st' = [] \<or> snd (hd st') = [])"
  using assms
proof (induction b vis st rule: traverse_successor.induct)
  case (3 b vis x bb iter st)
  note bb = post_inv_in_range [OF "3.prems"]
  have vis: "bs_ok vis" "domain_size vis = length (basic_blocks b)"
    using "3.prems"(2) by (simp_all add: post_inv_def)
  then obtain s where s: "bs_insert vis bb = Ok (s, bb \<notin> bits vis)" "bs_ok s"
    "bits s = insert bb (bits vis)" "domain_size s = domain_size vis"
    using bs_insert_ok [of vis bb] bb by auto
  from wf_body_terminator [OF "3.prems"(1) bb] obtain t where
    t: "terminator (basic_blocks b ! bb) = Some t" "block_successors b bb = successors (term_kind t)"
    by blast
  show ?case
  proof (cases "bb \<in> bits vis")
    case True
    have "post_inv b root L s ((x, iter) # st)"
      by (rule post_inv_step_old [OF "3.prems"(2) True]) (use s True in auto)
    with "3.IH"(3) [OF s(1) refl _ "3.prems"(1)] True show ?thesis by (simp add: s(1))
  next
    case False
    have "post_inv b root L s ((bb, successors (term_kind t)) # (x, iter) # st)"
      using post_inv_step_new [OF "3.prems"(2) False] s t(2) by simp
    with "3.IH"(2) [OF s(1) refl _ _ t(1) "3.prems"(1)] False bb
    obtain vis' st' pushed where
      "traverse_successor b s ((bb, successors (term_kind t)) # (x, iter) # st) = Ok (vis', st')"
      "post_inv b root L vis' st'" "map fst st' = pushed @ bb # x # map fst st"
      "st' = [] \<or> snd (hd st') = []"
      by auto
    moreover from this(3) have "map fst st' = (pushed @ [bb]) @ x # map fst st" by simp
    ultimately show ?thesis
      using False bb t(1) by (simp add: s(1))
  qed
qed auto

lemma postorder_list_inv:
  assumes "wf_body b" and "post_inv b root L (post_visited p) (post_visit_stack p)"
    and "post_visit_stack p = [] \<or> snd (hd (post_visit_stack p)) = []"
  shows "\<exists>M vis. postorder_list b p = Ok M \<and> post_inv b root (L @ M) vis [] \<and>
    (post_visit_stack p \<noteq> [] \<longrightarrow> M \<noteq> [] \<and> last M = fst (last (post_visit_stack p)))"
  using assms
proof (induction "length (post_visit_stack p) + bs_room (post_visited p)" arbitrary: p L rule: less_induct)
  case less
  show ?case
  proof (cases "post_visit_stack p")
    case Nil
    then show ?thesis
      using less.prems(2) by (subst postorder_list.simps) (auto simp: postorder_next_def)
  next
    case (Cons e st)
    obtain x where e: "e = (x, [])" using less.prems(3) Cons by (cases e) auto
    have pop: "post_inv b root (L @ [x]) (post_visited p) st"
      using post_inv_pop less.prems(2) Cons e by simp
    then obtain vis st' pushed where st': "traverse_successor b (post_visited p) st = Ok (vis, st')"
      "post_inv b root (L @ [x]) vis st'" "map fst st' = pushed @ map fst st" "st' = [] \<or> snd (hd st') = []"
      using traverse_successor_inv [OF less.prems(1)] by blast
    have x: "x < length (basic_blocks b)"
      using post_invD(1,2,4) [OF less.prems(2)] Cons e by (auto simp: bs_ok_def)
    let ?p = "p\<lparr>post_visited := vis, post_visit_stack := st'\<rparr>"
    have next': "postorder_next b p = Ok (Some x, ?p)"
      using Cons e st'(1) x by (simp add: postorder_next_def)
    have "length st' + bs_room vis < length (post_visit_stack p) + bs_room (post_visited p)"
      using traverse_successor_room [OF st'(1)] Cons by simp
    from less.hyps [of ?p "L @ [x]"] this less.prems(1) st'(2,4) obtain M w where
      M: "postorder_list b ?p = Ok M" "post_inv b root (L @ x # M) w []"
        "st' \<noteq> [] \<longrightarrow> M \<noteq> [] \<and> last M = fst (last st')"
      by auto
    have "st = [] \<longleftrightarrow> st' = []" using st'(1,3) by auto
    moreover have "fst (last st') = fst (last st)" if "st \<noteq> []"
      using st'(3) that by (metis last_appendR last_map list.map_disc_iff append_is_Nil_conv)
    moreover have "M = []" if "st' = []"
      using M(1) that by (subst (asm) postorder_list.simps) (simp add: postorder_next_def)
    ultimately have "last (x # M) = fst (last (post_visit_stack p))"
      using M(3) Cons e by (cases "st = []") simp_all
    then show ?thesis
      using M(1,2) next' by (subst postorder_list.simps) auto
  qed
qed

text \<open>The facts of a complete postorder.\<close>

lemma postorder_complete:
  assumes "wf_body b" and "root < length (basic_blocks b)"
  shows "\<exists>p L. postorder_new b root = Ok p \<and> postorder_list b p = Ok L \<and> distinct L \<and>
    set L = (cfg.edge b)\<^sup>* `` {root} \<and> L \<noteq> [] \<and> last L = root \<and> postordered b L \<and>
    root \<in> bits (post_visited p)"
proof -
  let ?n = "length (basic_blocks b)"
  from wf_body_terminator [OF assms] obtain t where
    t: "terminator (basic_blocks b ! root) = Some t" "block_successors b root = successors (term_kind t)"
    by blast
  obtain s where s: "bs_insert (bs_new_empty ?n) root = Ok (s, True)" "bs_ok s" "bits s = {root}"
    "domain_size s = ?n"
    using bs_insert_ok [of "bs_new_empty ?n" root] bs_new_empty_ok [of ?n] assms(2)
    by (auto simp: bs_new_empty_def)
  have "post_inv b root [] s [(root, successors (term_kind t))]"
    by (rule post_invI) (use s t in \<open>auto simp: stack_ok_def\<close>)
  from traverse_successor_inv [OF assms(1) this] obtain vis st pushed where
    st: "traverse_successor b s [(root, successors (term_kind t))] = Ok (vis, st)"
    "post_inv b root [] vis st" "map fst st = pushed @ [root]" "st = [] \<or> snd (hd st) = []"
    unfolding list.map fst_conv by blast
  let ?p = "\<lparr>post_visited = vis, post_visit_stack = st, post_root_is_start_block = (root = START_BLOCK)\<rparr>"
  have new: "postorder_new b root = Ok ?p"
    using assms(2) t(1) s(1) st(1) by (simp add: postorder_new_def)
  have "st \<noteq> []" using st(3) by auto
  with postorder_list_inv [OF assms(1), of root "[]" ?p] st(2,4)
  have "\<exists>M vis. postorder_list b ?p = Ok M \<and> post_inv b root M vis [] \<and> M \<noteq> [] \<and> last M = fst (last st)"
    by simp
  then obtain L w where L: "postorder_list b ?p = Ok L" "post_inv b root L w []"
    "L \<noteq> []" "last L = fst (last st)" by blast
  have "last L = root" using L(4) st(3) by (metis Nil_is_append_conv last_map last_snoc list.map_disc_iff not_Cons_self2)
  note inv = post_invD [OF L(2)]
  have "(cfg.edge b)\<^sup>* `` {root} \<subseteq> set L"
    by (rule cfg.closed_reach_succs) (use inv(4,8) \<open>last L = root\<close> L(3) last_in_set [of L] in simp_all)
  then have "set L = (cfg.edge b)\<^sup>* `` {root}" using inv(4,5) by auto
  moreover have "root \<in> bits vis"
    using post_invD(4) [OF st(2)] st(3) by (metis Un_iff in_set_conv_decomp list.set_map)
  ultimately show ?thesis
    using new L(1,3) \<open>last L = root\<close> inv(3,7)
    by (intro exI [of _ ?p] exI [of _ L]) simp
qed

section \<open>Reverse postorder is correct\<close>

lemma rpo_list_take:
  "rpo_idx r \<le> length (rpo_blocks r) \<Longrightarrow> rpo_list r = rev (take (rpo_idx r) (rpo_blocks r))"
proof (induction "rpo_idx r" arbitrary: r)
  case 0
  then show ?case by (subst rpo_list.simps) (simp add: rpo_next_def)
next
  case (Suc n)
  let ?r = "r\<lparr>rpo_idx := n\<rparr>"
  from Suc.prems Suc.hyps(2) [symmetric]
  have "rpo_next r = (Some (rpo_blocks r ! n), ?r)" by (simp add: rpo_next_def Let_def)
  moreover have "rpo_list ?r = rev (take n (rpo_blocks r))"
    using Suc.hyps(1) [of ?r] Suc.hyps(2) [symmetric] Suc.prems by simp
  ultimately show ?case
    using Suc.prems Suc.hyps(2) [symmetric]
    by (subst rpo_list.simps) (simp add: take_Suc_conv_app_nth)
qed

lemma reverse_postorder_facts:
  assumes "wf_body b" and "basic_blocks b \<noteq> []"
  shows "\<exists>R. reverse_postorder_of b = Ok R \<and> distinct R \<and>
    set R = (cfg.edge b)\<^sup>* `` {START_BLOCK} \<and> R \<noteq> [] \<and> hd R = START_BLOCK \<and>
    (\<forall>xs x ys. R = xs @ x # ys \<longrightarrow>
      (\<forall>v \<in> set (block_successors b x). v \<in> set ys \<or> (v, x) \<in> (cfg.edge b)\<^sup>*))"
proof -
  obtain p L where L: "postorder_new b START_BLOCK = Ok p" "postorder_list b p = Ok L" "distinct L"
    "set L = (cfg.edge b)\<^sup>* `` {START_BLOCK}" "L \<noteq> []" "last L = START_BLOCK" "postordered b L"
    using postorder_complete [OF assms(1), of START_BLOCK] assms(2) by (auto simp: START_BLOCK_def)
  have "reverse_postorder_of b = Ok (rev L)"
    using L(1,2) by (simp add: reverse_postorder_of_def rpo_new_def rpo_list_take)
  moreover have "\<forall>v \<in> set (block_successors b x). v \<in> set ys \<or> (v, x) \<in> (cfg.edge b)\<^sup>*"
    if "rev L = xs @ x # ys" for xs x ys
  proof -
    have "L = rev ys @ x # rev xs" using that by (simp add: rev_swap)
    then show ?thesis using L(7) unfolding postordered_def by (metis set_rev)
  qed
  ultimately show ?thesis using L(3-6) by (intro exI [of _ "rev L"]) (simp add: hd_rev)
qed

section \<open>Preorder is correct\<close>

definition pre_inv :: "body \<Rightarrow> nat \<Rightarrow> nat list \<Rightarrow> bit_set \<Rightarrow> nat list \<Rightarrow> bool" where
  "pre_inv b root L vis wl \<longleftrightarrow>
     bs_ok vis \<and> domain_size vis = length (basic_blocks b) \<and> distinct L \<and> bits vis = set L \<and>
     set L \<union> set wl \<subseteq> (cfg.edge b)\<^sup>* `` {root} \<and> root \<in> set L \<union> set wl \<and>
     (\<forall>x \<in> set L. set (block_successors b x) \<subseteq> set L \<union> set wl)"

lemma pre_invD:
  assumes "pre_inv b root L vis wl"
  shows "bs_ok vis" "domain_size vis = length (basic_blocks b)" "distinct L" "bits vis = set L"
    "set L \<union> set wl \<subseteq> (cfg.edge b)\<^sup>* `` {root}" "root \<in> set L \<union> set wl"
    "\<And>x. x \<in> set L \<Longrightarrow> set (block_successors b x) \<subseteq> set L \<union> set wl"
  using assms unfolding pre_inv_def by blast+

lemma pre_inv_skip:
  assumes "pre_inv b root L vis (x # wl)" "x \<in> set L" "bits vis' = bits vis" "bs_ok vis'"
    "domain_size vis' = domain_size vis"
  shows "pre_inv b root L vis' wl"
  using assms unfolding pre_inv_def by auto

lemma pre_inv_visit:
  assumes inv: "pre_inv b root L vis (x # wl)" and "x \<notin> set L" and vis': "bits vis' = insert x (bits vis)"
    "bs_ok vis'" "domain_size vis' = domain_size vis"
  shows "pre_inv b root (L @ [x]) vis' (rev (block_successors b x) @ wl)"
proof -
  note D = pre_invD [OF inv]
  have "(root, x) \<in> (cfg.edge b)\<^sup>*" using D(5) by auto
  then have "set (block_successors b x) \<subseteq> (cfg.edge b)\<^sup>* `` {root}"
    by (auto simp: cfg.edge_iff intro: rtrancl_into_rtrancl)
  with D assms(2) vis' show ?thesis unfolding pre_inv_def by auto
qed

lemma preorder_pop_inv:
  assumes "(cfg.edge b)\<^sup>* `` {root} \<subseteq> {..<length (basic_blocks b)}" and "pre_inv b root L vis wl"
  shows "(\<exists>vis'. preorder_pop b vis wl = Ok (None, vis', []) \<and> pre_inv b root L vis' []) \<or>
    (\<exists>x vis' wl'. preorder_pop b vis wl = Ok (Some x, vis', wl') \<and> pre_inv b root (L @ [x]) vis' wl' \<and>
      (L = [] \<longrightarrow> x = hd wl))"
  using assms
proof (induction b vis wl rule: preorder_pop.induct)
  case (2 b vis x wl)
  note D = pre_invD [OF "2.prems"(2)]
  have x: "x < length (basic_blocks b)"
    using D(5) "2.prems"(1) by auto
  obtain s where s: "bs_insert vis x = Ok (s, x \<notin> bits vis)" "bs_ok s"
    "bits s = insert x (bits vis)" "domain_size s = domain_size vis"
    using bs_insert_ok [of vis x] x D(1,2) by auto
  show ?case
  proof (cases "x \<in> set L")
    case True
    then have "pre_inv b root L s wl"
      using pre_inv_skip [OF "2.prems"(2) True] s D(4) by (simp add: insert_absorb)
    moreover have "preorder_pop b vis (x # wl) = preorder_pop b s wl"
      using s(1) True D(4) by simp
    ultimately show ?thesis
      using "2.IH" [OF s(1) refl] True D(4) "2.prems"(1) by auto
  next
    case False
    have "pre_inv b root (L @ [x]) s (rev (block_successors b x) @ wl)"
      by (rule pre_inv_visit [OF "2.prems"(2) False]) (use s in simp_all)
    moreover have "preorder_pop b vis (x # wl) = Ok (Some x, s, rev (block_successors b x) @ wl)"
      using s(1) False D(4) x by (simp add: block_successors_def split: option.split)
    ultimately show ?thesis by simp
  qed
qed simp

lemma preorder_list_inv:
  assumes "(cfg.edge b)\<^sup>* `` {root} \<subseteq> {..<length (basic_blocks b)}"
    and "pre_inv b root L (pre_visited p) (pre_worklist p)"
  shows "\<exists>M vis. preorder_list b p = Ok M \<and> pre_inv b root (L @ M) vis [] \<and>
    (L = [] \<longrightarrow> M = [] \<or> hd M = hd (pre_worklist p))"
  using assms(2)
proof (induction "bs_room (pre_visited p)" arbitrary: p L rule: less_induct)
  case less
  from preorder_pop_inv [OF assms(1) less.prems] consider
    vis where "preorder_pop b (pre_visited p) (pre_worklist p) = Ok (None, vis, [])"
      "pre_inv b root L vis []"
    | x vis wl where "preorder_pop b (pre_visited p) (pre_worklist p) = Ok (Some x, vis, wl)"
      "pre_inv b root (L @ [x]) vis wl" "L = [] \<longrightarrow> x = hd (pre_worklist p)"
    by blast
  then show ?case
  proof cases
    case 1
    then have "preorder_list b p = Ok []"
      by (subst preorder_list.simps) (simp add: preorder_next_def)
    with 1(2) show ?thesis by (metis append_Nil2)
  next
    case (2 x vis wl)
    let ?p = "p\<lparr>pre_visited := vis, pre_worklist := wl\<rparr>"
    have "bs_room (pre_visited ?p) < bs_room (pre_visited p)"
      using preorder_pop_room [OF 2(1)] by simp
    from less.hyps [OF this, of "L @ [x]"] 2(2) obtain M v where
      M: "preorder_list b ?p = Ok M" "pre_inv b root ((L @ [x]) @ M) v []" by auto
    have "preorder_list b p = Ok (x # M)"
      using 2(1) M(1) by (subst preorder_list.simps) (simp add: preorder_next_def)
    with M(2) 2(3) show ?thesis
      by (intro exI [of _ "x # M"] exI [of _ v]) simp
  qed
qed

lemma preorder_reach:
  assumes "(cfg.edge b)\<^sup>* `` {root} \<subseteq> {..<length (basic_blocks b)}"
  shows "\<exists>L. preorder_list b (preorder_new b root) = Ok L \<and> distinct L \<and>
    set L = (cfg.edge b)\<^sup>* `` {root} \<and> L \<noteq> [] \<and> hd L = root"
proof -
  let ?p = "preorder_new b root"
  have "pre_inv b root [] (pre_visited ?p) (pre_worklist ?p)"
    using bs_new_empty_ok [of "length (basic_blocks b)"]
    by (simp add: pre_inv_def preorder_new_def bs_new_empty_def)
  from preorder_list_inv [OF assms this] obtain M vis where
    M: "preorder_list b ?p = Ok M" "pre_inv b root M vis []" "M = [] \<or> hd M = root"
    by (auto simp: preorder_new_def)
  note D = pre_invD [OF M(2)]
  have "(cfg.edge b)\<^sup>* `` {root} \<subseteq> set M"
    by (rule cfg.closed_reach_succs) (use D(6,7) in simp_all)
  then have "set M = (cfg.edge b)\<^sup>* `` {root}" using D(5) by simp
  moreover have "M \<noteq> []" using D(6) by auto
  ultimately show ?thesis using M(1,3) D(3) by (intro exI [of _ M]) simp
qed

lemma preorder_complete:
  assumes "wf_body b" and "root < length (basic_blocks b)"
  shows "\<exists>L. preorder_list b (preorder_new b root) = Ok L \<and> distinct L \<and>
    set L = (cfg.edge b)\<^sup>* `` {root} \<and> L \<noteq> [] \<and> hd L = root"
  using wf_body_closed [OF assms] by (rule preorder_reach)

section \<open>The traversals as the passes see them\<close>

text \<open>(C24) Reverse postorder of a well-formed body returns, starts at the start block, yields
  exactly the blocks reachable from it, each once, and puts every block before its successors
  except for successors from which the block can be reached again; on an acyclic graph it is a
  topological order.\<close>

theorem reverse_postorder_linearizes:
  assumes "wf_body b" and "basic_blocks b \<noteq> []"
  shows "\<exists>R. reverse_postorder_of b = Ok R \<and> distinct R \<and>
    set R = (cfg.edge b)\<^sup>* `` {START_BLOCK} \<and> hd R = START_BLOCK \<and>
    (\<forall>xs x ys. R = xs @ x # ys \<longrightarrow>
      (\<forall>v \<in> set (block_successors b x). v \<in> set ys \<or> (v, x) \<in> (cfg.edge b)\<^sup>*)) \<and>
    (acyclic (cfg.edge b) \<longrightarrow> (\<forall>xs x ys. R = xs @ x # ys \<longrightarrow> set (block_successors b x) \<subseteq> set ys))"
proof -
  have cycle: "\<not> acyclic (cfg.edge b)" if "v \<in> set (block_successors b x)" "(v, x) \<in> (cfg.edge b)\<^sup>*" for v x
    using that by (meson acyclic_def cfg.edge_iff rtrancl_into_trancl2)
  obtain R where R: "reverse_postorder_of b = Ok R" "distinct R" "hd R = START_BLOCK"
    "set R = (cfg.edge b)\<^sup>* `` {START_BLOCK}"
    and ord: "\<forall>xs x ys. R = xs @ x # ys \<longrightarrow>
      (\<forall>v \<in> set (block_successors b x). v \<in> set ys \<or> (v, x) \<in> (cfg.edge b)\<^sup>*)"
    using reverse_postorder_facts [OF assms] by blast
  from ord cycle have "acyclic (cfg.edge b) \<longrightarrow>
      (\<forall>xs x ys. R = xs @ x # ys \<longrightarrow> set (block_successors b x) \<subseteq> set ys)"
    by blast
  with R ord show ?thesis by blast
qed

text \<open>(C25) Preorder and postorder from any block of a well-formed body return, and both yield
  exactly the blocks reachable from the root, each once; preorder starts and postorder ends with
  the root, and postorder puts every block behind its successors up to back edges.\<close>

theorem traversals_visit_reachable:
  assumes "wf_body b" and "root < length (basic_blocks b)"
  shows "\<exists>L p M. preorder_list b (preorder_new b root) = Ok L \<and>
    postorder_new b root = Ok p \<and> postorder_list b p = Ok M \<and>
    distinct L \<and> distinct M \<and> set L = (cfg.edge b)\<^sup>* `` {root} \<and> set M = (cfg.edge b)\<^sup>* `` {root} \<and>
    hd L = root \<and> last M = root \<and> postordered b M"
  using preorder_complete [OF assms] postorder_complete [OF assms] by blast

text \<open>(C26) The size hint of a fresh postorder iterator over a body all of whose blocks are reachable
  is too small: it counts the blocks on the stack as yielded already, so its upper bound is below
  the number of blocks the iterator goes on to yield.\<close>

theorem postorder_size_hint_too_small:
  assumes "wf_body b" and "basic_blocks b \<noteq> []"
    and "(cfg.edge b)\<^sup>* `` {START_BLOCK} = {..<length (basic_blocks b)}"
  shows "\<exists>p L. postorder_new b START_BLOCK = Ok p \<and> postorder_list b p = Ok L \<and>
    snd (postorder_size_hint b p) < length L"
proof -
  obtain p L where L: "postorder_new b START_BLOCK = Ok p" "postorder_list b p = Ok L" "distinct L"
    "set L = (cfg.edge b)\<^sup>* `` {START_BLOCK}" "START_BLOCK \<in> bits (post_visited p)" "L \<noteq> []"
    using postorder_complete [OF assms(1), of START_BLOCK] assms(2) by (auto simp: START_BLOCK_def)
  have "length L = length (basic_blocks b)"
    using distinct_card [OF L(3)] L(4) assms(3) by simp
  moreover have "0 < bs_count (post_visited p)"
    using L(5) finite_word_bits by (auto simp: bs_count_ok card_gt_0_iff)
  ultimately show ?thesis
    using L(1,2) assms(2) by (intro exI [of _ p] exI [of _ L]) (simp add: postorder_size_hint_def Let_def)
qed

definition diamond :: body where
  "diamond =
     body_of_blocks [sample_block [] (FalseEdges 1 2), sample_block [1] (Goto 3),
       sample_block [] (Goto 3), sample_block [] Return]"

definition single_block :: body where
  "single_block = body_of_blocks [sample_block [] Return]"

theorem reverse_postorder_linearizes_witness:
  "wf_body diamond \<and> basic_blocks diamond \<noteq> [] \<and> reverse_postorder_of diamond = Ok [0, 2, 1, 3] \<and>
   (cfg.edge diamond)\<^sup>* `` {START_BLOCK} = {0, 1, 2, 3}"
proof -
  have wf: "wf_body diamond" "basic_blocks diamond \<noteq> []" by code_simp+
  have run: "reverse_postorder_of diamond = Ok [0, 2, 1, 3]" by code_simp
  with reverse_postorder_linearizes [OF wf]
  have "(cfg.edge diamond)\<^sup>* `` {START_BLOCK} = set [0, 2, 1, 3]" by auto
  then show ?thesis using wf run by auto
qed

theorem traversals_visit_reachable_witness:
  "wf_body diamond \<and> 1 < length (basic_blocks diamond) \<and>
   (\<exists>L p M. preorder_list diamond (preorder_new diamond 1) = Ok L \<and>
    postorder_new diamond 1 = Ok p \<and> postorder_list diamond p = Ok M \<and>
    distinct L \<and> distinct M \<and> set L = (cfg.edge diamond)\<^sup>* `` {1} \<and> set M = (cfg.edge diamond)\<^sup>* `` {1} \<and>
    hd L = 1 \<and> last M = 1 \<and> postordered diamond M)"
proof -
  have "wf_body diamond" "1 < length (basic_blocks diamond)" by code_simp+
  then show ?thesis using traversals_visit_reachable [of diamond 1] by blast
qed

theorem postorder_size_hint_too_small_witness:
  "wf_body single_block \<and> basic_blocks single_block \<noteq> [] \<and>
   (\<exists>p L. postorder_new single_block START_BLOCK = Ok p \<and> postorder_list single_block p = Ok L \<and>
    snd (postorder_size_hint single_block p) < length L)"
proof -
  have wf: "wf_body single_block" "basic_blocks single_block \<noteq> []" by code_simp+
  have n: "length (basic_blocks single_block) = 1" by code_simp
  have "block_successors single_block START_BLOCK = []" by code_simp
  then have "(cfg.edge single_block)\<^sup>* `` {START_BLOCK} \<subseteq> {START_BLOCK}"
    by (intro cfg.closed_reach_succs) simp_all
  then have "(cfg.edge single_block)\<^sup>* `` {START_BLOCK} = {..<length (basic_blocks single_block)}"
    by (auto simp: START_BLOCK_def n)
  then show ?thesis using wf postorder_size_hint_too_small [of single_block] by blast
qed

end
