(* ===== verification/Simplify_Cfg.thy ===== *)
theory Simplify_Cfg
  imports Mir_Exec Traversal
begin

text \<open>
  Simplification of the control-flow graph (\<open>CfgSimplifier\<close> of
  \<open>src/librustc_mir/transform/simplify.rs\<close>): chains of blocks that only jump are collapsed, branches
  with equal targets become jumps, and a block with one predecessor that jumps to it is merged into
  the predecessor. The simplifier works in place: it takes terminators out of their blocks while it
  works on them, and decides by counts of predecessors it keeps up to date. The theorems say that the
  counts stay exact and never overflow, that the simplifier returns, and that the runs of the body
  stay the same.
\<close>

section \<open>The simplifier\<close>

record cfg_simplifier =
  cs_blocks :: "basic_block_data list"
  cs_pred_count :: "nat list"

text \<open>Counts are 32 bits wide; the arithmetic panics on overflow.\<close>

definition add_count :: "nat \<Rightarrow> nat \<Rightarrow> nat list \<Rightarrow> nat list res" where
  "add_count k n pc =
     res_bind (index_vec pc n) (\<lambda>c.
       if c + k < 2 ^ 32 then Ok (pc[n := c + k])
       else Panic (Explicit_Panic ''attempt to add with overflow''))"

definition sub_count :: "nat \<Rightarrow> nat \<Rightarrow> nat list \<Rightarrow> nat list res" where
  "sub_count k n pc =
     res_bind (index_vec pc n) (\<lambda>c.
       if k \<le> c then Ok (pc[n := c - k])
       else Panic (Explicit_Panic ''attempt to subtract with overflow''))"

definition cs_new :: "body \<Rightarrow> cfg_simplifier res" where
  "cs_new b =
     res_bind (index_vec (basic_blocks b) START_BLOCK) (\<lambda>_.
     res_bind (preorder_list b (preorder_new b START_BLOCK)) (\<lambda>order.
     res_bind (res_for order (\<lambda>bb. res_for (block_successors b bb) (add_count 1))
         ((replicate (length (basic_blocks b)) 0)[START_BLOCK := 1])) (\<lambda>pc.
       Ok \<lparr>cs_blocks = basic_blocks b, cs_pred_count = pc\<rparr>)))"

definition is_nop :: "statement \<Rightarrow> bool" where
  "is_nop st \<longleftrightarrow> stmt_kind st = Nop"

definition strip_nops :: "basic_block_data list \<Rightarrow> basic_block_data list" where
  "strip_nops = map (\<lambda>d. d\<lparr>statements := filter (\<lambda>st. \<not> is_nop st) (statements d)\<rparr>)"

definition set_terminator ::
    "nat \<Rightarrow> Mir.terminator option \<Rightarrow> basic_block_data list \<Rightarrow> basic_block_data list" where
  "set_terminator n t bs = bs[n := (bs ! n)\<lparr>terminator := t\<rparr>]"

definition present :: "basic_block_data list \<Rightarrow> nat" where
  "present bs = length (filter (\<lambda>d. terminator d \<noteq> None) bs)"

lemma present_update:
  assumes "n < length bs" "terminator (bs ! n) \<noteq> None" "terminator d = None"
  shows "present (bs[n := d]) < present bs"
proof -
  have "present bs = present (take n bs @ bs ! n # drop (Suc n) bs)"
    using assms(1) by (simp add: id_take_nth_drop [symmetric])
  moreover have "present (bs[n := d]) = present (take n bs @ d # drop (Suc n) bs)"
    using assms(1) by (simp add: upd_conv_take_nth_drop)
  ultimately show ?thesis using assms(2,3) by (simp add: present_def)
qed

text \<open>The reference to the chain moves from its first block to its end.\<close>

definition move_count :: "nat \<Rightarrow> nat \<Rightarrow> nat list \<Rightarrow> nat list res" where
  "move_count start target pc =
     res_bind (index_vec pc start) (\<lambda>c.
       if c = 1 then Ok (pc[start := 0])
       else res_bind (add_count 1 target pc) (sub_count 1 start))"

definition goto_target :: "basic_block_data \<Rightarrow> nat option" where
  "goto_target d =
     (case terminator d of
        Some t \<Rightarrow> (case term_kind t of Goto m \<Rightarrow> if statements d = [] then Some m else None | _ \<Rightarrow> None)
      | None \<Rightarrow> None)"

lemma goto_target_Some: "goto_target d = Some m \<longleftrightarrow>
    statements d = [] \<and> (\<exists>t. terminator d = Some t \<and> term_kind t = Goto m)"
  by (auto simp: goto_target_def split: option.splits terminator_kind.splits)

function collapse_goto_chain ::
    "basic_block_data list \<Rightarrow> nat list \<Rightarrow> nat \<Rightarrow> bool \<Rightarrow> (basic_block_data list \<times> nat list \<times> nat \<times> bool) res" where
  "collapse_goto_chain bs pc start changed =
     res_bind (index_vec bs start) (\<lambda>d.
       case goto_target d of
         None \<Rightarrow> Ok (bs, pc, start, changed)
       | Some m \<Rightarrow>
           res_bind (collapse_goto_chain (set_terminator start None bs) pc m changed)
             (\<lambda>(bs1, pc1, target, changed1).
               let t = the (terminator d);
                   bs2 = set_terminator start (Some (t\<lparr>term_kind := Goto target\<rparr>)) bs1
               in res_bind (move_count start target pc1) (\<lambda>pc2.
                    Ok (bs2, pc2, target, changed1 \<or> start \<noteq> target))))"
  by pat_completeness auto
termination
  by (relation "measure (\<lambda>(bs, pc, start, changed). present bs)")
    (auto simp: index_vec_Ok_iff goto_target_Some set_terminator_def intro!: present_update)

declare collapse_goto_chain.simps [simp del]

definition simplify_branch :: "nat list \<Rightarrow> Mir.terminator \<Rightarrow> (nat list \<times> Mir.terminator \<times> bool) res" where
  "simplify_branch pc t =
     (case term_kind t of
        SwitchInt _ _ _ _ \<Rightarrow>
          (case successors (term_kind t) of
             [] \<Rightarrow> Ok (pc, t, False)
           | first_succ # _ \<Rightarrow>
               if list_all (\<lambda>s. s = first_succ) (successors (term_kind t))
               then res_bind (sub_count ((length (successors (term_kind t)) - 1) mod 2 ^ 32) first_succ pc)
                 (\<lambda>pc'. Ok (pc', t\<lparr>term_kind := Goto first_succ\<rparr>, True))
               else Ok (pc, t, False))
      | _ \<Rightarrow> Ok (pc, t, False))"

type_synonym merge_result = "basic_block_data list \<times> nat list \<times> statement list \<times> Mir.terminator \<times> bool"

definition merge_successor ::
    "basic_block_data list \<Rightarrow> nat list \<Rightarrow> statement list \<Rightarrow> Mir.terminator \<Rightarrow> merge_result res" where
  "merge_successor bs pc new_stmts t =
     (case term_kind t of
        Goto target \<Rightarrow>
          res_bind (index_vec pc target) (\<lambda>c.
            if c = 1
            then res_bind (index_vec bs target) (\<lambda>d.
              case terminator d of
                None \<Rightarrow> Ok (bs, pc, new_stmts, t, False)
              | Some t' \<Rightarrow>
                  Ok (bs[target := d\<lparr>statements := [], terminator := None\<rparr>], pc[target := 0],
                      new_stmts @ statements d, t', True))
            else Ok (bs, pc, new_stmts, t, False))
      | _ \<Rightarrow> Ok (bs, pc, new_stmts, t, False))"

lemma merge_successor_present:
  "merge_successor bs pc new_stmts t = Ok (bs', pc', stmts', t', True) \<Longrightarrow> present bs' < present bs"
  by (auto simp: merge_successor_def index_vec_Ok_iff res_simps intro!: present_update
    split: terminator_kind.splits if_splits option.splits)

text \<open>The inner loop, for one block whose terminator has been taken out.\<close>

function simplify_inner ::
    "basic_block_data list \<Rightarrow> nat list \<Rightarrow> statement list \<Rightarrow> Mir.terminator \<Rightarrow> bool \<Rightarrow> merge_result res" where
  "simplify_inner bs pc new_stmts t changed =
     res_bind (simplify_branch pc t) (\<lambda>(pc1, t1, branch_changed).
     res_bind (merge_successor bs pc1 new_stmts t1) (\<lambda>(bs2, pc2, new_stmts2, t2, merged).
       if branch_changed \<or> merged then simplify_inner bs2 pc2 new_stmts2 t2 True
       else Ok (bs2, pc2, new_stmts2, t2, changed)))"
  by pat_completeness auto

definition is_switch :: "terminator_kind \<Rightarrow> bool" where
  "is_switch k = (case k of SwitchInt _ _ _ _ \<Rightarrow> True | _ \<Rightarrow> False)"

lemma simplify_branch_switch:
  "simplify_branch pc t = Ok (pc', t', True) \<Longrightarrow> is_switch (term_kind t) \<and> (\<exists>m. term_kind t' = Goto m)"
  by (auto simp: simplify_branch_def is_switch_def res_simps split: terminator_kind.splits list.splits if_splits)

lemma merge_successor_False:
  "merge_successor bs pc new_stmts t = Ok (bs', pc', stmts', t', False) \<Longrightarrow>
    bs' = bs \<and> pc' = pc \<and> stmts' = new_stmts \<and> t' = t"
  by (auto simp: merge_successor_def res_simps split: terminator_kind.splits if_splits option.splits)

lemma merge_successor_smaller:
  "merge_successor bs pc new_stmts t = Ok (bs', pc', stmts', t', merged) \<Longrightarrow>
    present bs' < present bs \<or> bs' = bs \<and> t' = t \<and> \<not> merged"
  by (cases merged) (auto dest: merge_successor_present merge_successor_False)

termination simplify_inner
  by (relation "measures [\<lambda>(bs, pc, stmts, t, changed). present bs,
      \<lambda>(bs, pc, stmts, t, changed). if is_switch (term_kind t) then 1 else 0]")
    (auto dest!: simplify_branch_switch merge_successor_smaller simp: is_switch_def)

declare simplify_inner.simps [simp del]

text \<open>The successors of a terminator are collapsed one after the other.\<close>

definition collapse_successor ::
    "nat \<Rightarrow> basic_block_data list \<times> nat list \<times> nat list \<times> bool
     \<Rightarrow> (basic_block_data list \<times> nat list \<times> nat list \<times> bool) res" where
  "collapse_successor succ = (\<lambda>(bs, pc, done_succs, changed).
     res_bind (collapse_goto_chain bs pc succ changed) (\<lambda>(bs', pc', target, changed').
       Ok (bs', pc', done_succs @ [target], changed')))"

definition simplify_block :: "nat \<Rightarrow> cfg_simplifier \<times> bool \<Rightarrow> (cfg_simplifier \<times> bool) res" where
  "simplify_block bb = (\<lambda>(cs, changed).
     res_bind (index_vec (cs_pred_count cs) bb) (\<lambda>c.
       if c = 0 then Ok (cs, changed)
       else res_bind (index_vec (cs_blocks cs) bb) (\<lambda>d.
         res_bind (block_terminator d) (\<lambda>t.
         res_bind (res_for (successors (term_kind t)) collapse_successor
             (set_terminator bb None (cs_blocks cs), cs_pred_count cs, [], changed))
           (\<lambda>(bs1, pc1, succs, changed1).
         res_bind (simplify_inner bs1 pc1 [] (t\<lparr>term_kind := with_successors (term_kind t) succs\<rparr>) changed1)
           (\<lambda>(bs2, pc2, new_stmts, t2, changed2).
             Ok (\<lparr>cs_blocks = bs2[bb := (bs2 ! bb)\<lparr>statements := statements (bs2 ! bb) @ new_stmts,
                    terminator := Some t2\<rparr>], cs_pred_count = pc2\<rparr>, changed2)))))))"

definition simplify_round :: "cfg_simplifier \<Rightarrow> nat \<Rightarrow> (cfg_simplifier \<times> nat \<times> bool) res" where
  "simplify_round cs start =
     res_bind (collapse_goto_chain (cs_blocks cs) (cs_pred_count cs) start False)
       (\<lambda>(bs, pc, start', changed).
     res_bind (res_for [0 ..< length bs] simplify_block
         (\<lparr>cs_blocks = bs, cs_pred_count = pc\<rparr>, changed)) (\<lambda>(cs', changed').
       Ok (cs', start', changed')))"

text \<open>The loop runs until a round changes nothing; the model bounds the number of rounds.\<close>

primrec simplify_loop :: "nat \<Rightarrow> cfg_simplifier \<Rightarrow> nat \<Rightarrow> (cfg_simplifier \<times> nat) res" where
  "simplify_loop 0 cs start = Diverge"
| "simplify_loop (Suc n) cs start =
     res_bind (simplify_round cs start) (\<lambda>(cs', start', changed).
       if changed then simplify_loop n cs' start' else Ok (cs', start'))"

text \<open>If the start block was collapsed, the block it led to becomes the start block.\<close>

definition rename_start ::
    "nat \<Rightarrow> nat list \<Rightarrow> nat \<Rightarrow> basic_block_data list \<Rightarrow> basic_block_data list res" where
  "rename_start start pc bb bs =
     res_bind (index_vec pc bb) (\<lambda>c.
       if c = 0 then Ok bs
       else res_bind (index_vec bs bb) (\<lambda>d.
         res_bind (block_terminator d) (\<lambda>t.
           Ok (set_terminator bb (Some (t\<lparr>term_kind :=
             successors_mut (\<lambda>target. if target = start then START_BLOCK else target) (term_kind t)\<rparr>)) bs))))"

definition move_start :: "cfg_simplifier \<Rightarrow> nat \<Rightarrow> basic_block_data list res" where
  "move_start cs start =
     (if start = START_BLOCK then Ok (cs_blocks cs)
      else res_bind (index_vec (cs_pred_count cs) START_BLOCK) (\<lambda>c.
        res_bind (assert_that (c = 0)) (\<lambda>_.
        res_bind (index_vec (cs_blocks cs) start) (\<lambda>_.
        let bs = swap START_BLOCK start (cs_blocks cs);
            pc = swap START_BLOCK start (cs_pred_count cs)
        in if pc ! START_BLOCK > 1
           then res_for [0 ..< length bs] (rename_start start pc) bs
           else Ok bs))))"

definition simplify :: "nat \<Rightarrow> cfg_simplifier \<Rightarrow> basic_block_data list res" where
  "simplify n cs =
     res_bind (simplify_loop n (cs\<lparr>cs_blocks := strip_nops (cs_blocks cs)\<rparr>) START_BLOCK)
       (\<lambda>(cs', start). move_start cs' start)"

section \<open>Exact counts\<close>

definition term_succs :: "basic_block_data \<Rightarrow> nat list" where
  "term_succs d = (case terminator d of None \<Rightarrow> [] | Some t \<Rightarrow> successors (term_kind t))"

text \<open>The edges of a block count while the block itself has references.\<close>

definition block_refs :: "basic_block_data list \<Rightarrow> nat list \<Rightarrow> nat \<Rightarrow> nat multiset" where
  "block_refs bs pc n = (if pc ! n > 0 then mset (term_succs (bs ! n)) else {#})"

definition live_refs :: "basic_block_data list \<Rightarrow> nat list \<Rightarrow> nat multiset" where
  "live_refs bs pc = (\<Sum>n<length bs. block_refs bs pc n)"

text \<open>The invariant of the simplifier. \<open>held\<close> are the references held outside the blocks: the start
  block, and the targets of terminators that have been taken out.\<close>

definition counted :: "basic_block_data list \<Rightarrow> nat list \<Rightarrow> nat multiset \<Rightarrow> bool" where
  "counted bs pc held \<longleftrightarrow> length pc = length bs \<and>
     (\<forall>n<length bs. pc ! n = count (held + live_refs bs pc) n) \<and>
     set_mset (held + live_refs bs pc) \<subseteq> {..<length bs} \<and> size (held + live_refs bs pc) + 1 < 2 ^ 32"

lemma countedD:
  assumes "counted bs pc held"
  shows "length pc = length bs" "n < length bs \<Longrightarrow> pc ! n = count (held + live_refs bs pc) n"
    "n \<in># held + live_refs bs pc \<Longrightarrow> n < length bs" "size (held + live_refs bs pc) + 1 < 2 ^ 32"
    "n \<in># held + live_refs bs pc \<Longrightarrow> pc ! n > 0" "n < length bs \<Longrightarrow> pc ! n + 1 < 2 ^ 32"
proof -
  note c = assms [unfolded counted_def]
  show "length pc = length bs" "n < length bs \<Longrightarrow> pc ! n = count (held + live_refs bs pc) n"
    and in_range: "n \<in># held + live_refs bs pc \<Longrightarrow> n < length bs" for n
    using c by auto
  show sz: "size (held + live_refs bs pc) + 1 < 2 ^ 32" using c by blast
  show "n \<in># held + live_refs bs pc \<Longrightarrow> pc ! n > 0"
    using c in_range [of n] by (simp add: count_greater_zero_iff del: count_union)
  assume "n < length bs"
  then have "pc ! n \<le> size (held + live_refs bs pc)"
    using c by (metis count_le_size)
  with sz show "pc ! n + 1 < 2 ^ 32" by linarith
qed

lemma sum_changed_at:
  fixes f g :: "nat \<Rightarrow> 'a::comm_monoid_add"
  assumes "n < k" and "\<And>i. i < k \<Longrightarrow> i \<noteq> n \<Longrightarrow> f i = g i"
  shows "(\<Sum>i<k. f i) + g n = (\<Sum>i<k. g i) + f n"
proof -
  have "(\<Sum>i\<in>{..<k} - {n}. f i) = (\<Sum>i\<in>{..<k} - {n}. g i)"
    using assms(2) by (intro sum.cong) auto
  then show ?thesis
    using assms(1) by (simp add: sum.remove [of "{..<k}" n] add_ac)
qed

lemma live_refs_update:
  "n < length bs \<Longrightarrow> live_refs (bs[n := d]) pc + block_refs bs pc n = live_refs bs pc + block_refs (bs[n := d]) pc n"
  unfolding live_refs_def length_list_update by (rule sum_changed_at) (auto simp: block_refs_def)

lemma live_refs_pos_cong:
  "(\<And>n. n < length bs \<Longrightarrow> (pc' ! n > 0) = (pc ! n > 0)) \<Longrightarrow> live_refs bs pc' = live_refs bs pc"
  unfolding live_refs_def by (intro sum.cong) (auto simp: block_refs_def)

lemma live_refs_kill:
  assumes "n < length bs" "n < length pc" "pc ! n > 0"
  shows "live_refs bs pc = live_refs bs (pc[n := 0]) + mset (term_succs (bs ! n))"
proof -
  have "live_refs bs (pc[n := 0]) + block_refs bs pc n = live_refs bs pc + block_refs bs (pc[n := 0]) n"
    unfolding live_refs_def using assms(1) by (intro sum_changed_at) (auto simp: block_refs_def)
  with assms show ?thesis by (simp add: block_refs_def)
qed

lemma term_succs_simps [simp]:
  "term_succs (d\<lparr>terminator := t\<rparr>) = (case t of None \<Rightarrow> [] | Some t \<Rightarrow> successors (term_kind t))"
  "term_succs (d\<lparr>statements := sts\<rparr>) = term_succs d"
  by (simp_all add: term_succs_def)

lemma length_set_terminator [simp]: "length (set_terminator n t bs) = length bs"
  by (simp add: set_terminator_def)

lemma set_terminator_other [simp]: "i \<noteq> n \<Longrightarrow> set_terminator n t bs ! i = bs ! i"
  by (simp add: set_terminator_def)

lemma set_terminator_at [simp]: "n < length bs \<Longrightarrow> set_terminator n t bs ! n = (bs ! n)\<lparr>terminator := t\<rparr>"
  by (simp add: set_terminator_def)

text \<open>Taking the terminator out of a live block, and putting one in.\<close>

lemma live_refs_set_terminator:
  assumes "n < length bs" "pc ! n > 0"
  shows "live_refs (set_terminator n t bs) pc + mset (term_succs (bs ! n)) =
    live_refs bs pc + mset (case t of None \<Rightarrow> [] | Some t \<Rightarrow> successors (term_kind t))"
  using live_refs_update [OF assms(1), of "(bs ! n)\<lparr>terminator := t\<rparr>" pc] assms
  by (simp add: block_refs_def set_terminator_def term_succs_def)

lemma counted_take:
  assumes "counted bs pc held" "n < length bs" "pc ! n > 0"
  shows "counted (set_terminator n None bs) pc (mset (term_succs (bs ! n)) + held)"
    "mset (term_succs (bs ! n)) + held + live_refs (set_terminator n None bs) pc = held + live_refs bs pc"
proof -
  show E: "mset (term_succs (bs ! n)) + held + live_refs (set_terminator n None bs) pc = held + live_refs bs pc"
    using live_refs_set_terminator [OF assms(2,3), of None] by (simp add: union_ac)
  show "counted (set_terminator n None bs) pc (mset (term_succs (bs ! n)) + held)"
    using assms(1) unfolding counted_def E length_set_terminator .
qed

lemma counted_put:
  assumes "counted bs pc (mset (successors (term_kind t)) + held)" "n < length bs" "pc ! n > 0"
    "terminator (bs ! n) = None"
  shows "counted (set_terminator n (Some t) bs) pc held"
    "held + live_refs (set_terminator n (Some t) bs) pc = mset (successors (term_kind t)) + held + live_refs bs pc"
proof -
  show E: "held + live_refs (set_terminator n (Some t) bs) pc = mset (successors (term_kind t)) + held + live_refs bs pc"
    using live_refs_set_terminator [OF assms(2,3), of "Some t"] assms(4) by (simp add: union_ac term_succs_def)
  show "counted (set_terminator n (Some t) bs) pc held"
    using assms(1) unfolding counted_def E length_set_terminator .
qed

text \<open>The reference to a block that jumps to \<open>target\<close> is replaced by one to \<open>target\<close>.\<close>

lemma counted_move:
  assumes c: "counted bs pc (add_mset start held)" and succ: "term_succs (bs ! start) = [target]"
  obtains pc' where "move_count start target pc = Ok pc'" "counted bs pc' (add_mset target held)"
    "\<And>n. n < length bs \<Longrightarrow> pc ! n = 0 \<Longrightarrow> pc' ! n = 0"
    "add_mset start (add_mset target held + live_refs bs pc') \<subseteq>#
      add_mset target (add_mset start held + live_refs bs pc)"
    "add_mset start held + live_refs bs pc \<subseteq># add_mset start (add_mset target held + live_refs bs pc')"
    "start = target \<Longrightarrow> pc' = pc"
proof -
  note D = countedD [OF c]
  have start: "start < length bs" "pc ! start > 0" by (rule D(3,5), simp)+
  have "block_refs bs pc start \<subseteq># live_refs bs pc"
    unfolding live_refs_def using start(1) by (simp add: sum.remove [of "{..<length bs}" start])
  then have "target \<in># live_refs bs pc"
    using start(2) succ by (auto simp: block_refs_def dest: mset_subset_eqD)
  then have target: "target < length bs" "pc ! target > 0" "target = start \<Longrightarrow> pc ! start > 1"
    using D(3,5) [of target] D(2) [of start] start
    by (auto simp: count_greater_zero_iff [symmetric] simp del: count_greater_zero_iff)
  note D = D(1,2,4,6)
  show thesis
  proof (cases "pc ! start = 1")
    case True
    let ?pc = "pc[start := 0]"
    have live: "live_refs bs pc = add_mset target (live_refs bs ?pc)"
      using live_refs_kill [of start bs pc] start succ D(1) by simp
    have "counted bs ?pc (add_mset target held)"
      unfolding counted_def
    proof (intro conjI allI impI)
      fix n assume "n < length bs"
      then show "?pc ! n = count (add_mset target held + live_refs bs ?pc) n"
        using D(2) [of n] D(2) [of start] True start D(1) live by (cases "n = start") auto
    qed (use D start target countedD(3) [OF c] live in auto)
    then show thesis
      by (rule that [of ?pc, rotated])
        (use True D(1) start live target in \<open>auto simp: move_count_def index_vec_def nth_list_update\<close>)
  next
    case False
    define pc' where "pc' = (pc[target := pc ! target + 1])[start := pc[target := pc ! target + 1] ! start - 1]"
    have ok: "move_count start target pc = Ok pc'"
      using False D(1) D(4) [of target] start target
      by (auto simp: move_count_def add_count_def sub_count_def index_vec_def pc'_def nth_list_update)
    have nth: "pc' ! n = pc ! n + (if n = target then 1 else 0) - (if n = start then 1 else 0)" if "n < length bs" for n
      using that D(1) start target by (auto simp: pc'_def nth_list_update)
    have live: "live_refs bs pc' = live_refs bs pc"
      using nth False start target by (intro live_refs_pos_cong) auto
    have "counted bs pc' (add_mset target held)"
      unfolding counted_def live
    proof (intro conjI allI impI)
      fix n assume n: "n < length bs"
      show "pc' ! n = count (add_mset target held + live_refs bs pc) n"
        unfolding nth [OF n] using D(2) [OF n] by auto
    qed (use D start target countedD(3) [OF c] in \<open>auto simp: pc'_def\<close>)
    moreover have "pc' = pc" if "start = target"
      using nth that D(1) by (auto simp: pc'_def intro!: nth_equalityI)
    moreover have "pc' ! n = 0" if "n < length bs" "pc ! n = 0" for n
      using nth [OF that(1)] that(2) target by auto
    ultimately show thesis using ok live by (intro that [of pc']) (auto simp: subseteq_mset_def)
  qed
qed

section \<open>Collapsing chains\<close>

text \<open>A block is skippable if it only jumps to another block.\<close>

definition skippable :: "basic_block_data list \<Rightarrow> nat \<Rightarrow> bool" where
  "skippable bs n \<longleftrightarrow> n < length bs \<and> (\<exists>m. goto_target (bs ! n) = Some m \<and> m \<noteq> n)"

definition skippable_refs :: "basic_block_data list \<Rightarrow> nat multiset \<Rightarrow> nat" where
  "skippable_refs bs R = size (filter_mset (skippable bs) R)"

lemma jumps_goto_target: "jumps bs n m \<longleftrightarrow> n < length bs \<and> goto_target (bs ! n) = Some m"
  by (auto simp: jumps_def goto_target_Some)

lemma jumps_unique: "jumps bs n m \<Longrightarrow> jumps bs n m' \<Longrightarrow> m' = m"
  by (simp add: jumps_goto_target)

text \<open>The blocks of a chain all jump to its end afterwards, and no other block changes.\<close>

definition chain ::
    "basic_block_data list \<Rightarrow> basic_block_data list \<Rightarrow> nat set \<Rightarrow> nat \<Rightarrow> nat \<Rightarrow> bool" where
  "chain bs bs' C start target \<longleftrightarrow> (start \<in> C \<or> start = target) \<and>
     (\<forall>n\<in>C. jumps bs' n target \<and> (\<exists>m. jumps bs n m \<and> (m \<in> C \<or> m = target))) \<and>
     (\<forall>n. n \<notin> C \<longrightarrow> bs' ! n = bs ! n) \<and> (target \<notin> C \<longrightarrow> \<not> Domainp (jumps bs) target)"

lemma chain_extend:
  assumes "jumps bs start m" and inner: "chain (set_terminator start None bs) bs2 C m target"
    and "length bs3 = length bs2" "\<And>n. n \<noteq> start \<Longrightarrow> bs3 ! n = bs2 ! n" "jumps bs3 start target"
  shows "chain bs bs3 (insert start C) start target"
proof -
  have jump1: "jumps (set_terminator start None bs) n q \<longleftrightarrow> jumps bs n q \<and> n \<noteq> start" for n q
    by (cases "n = start") (auto simp: jumps_def)
  have "jumps bs3 n target" if "jumps bs2 n target" for n
    using that assms(3,4,5) by (cases "n = start") (auto simp: jumps_def)
  moreover have "bs3 ! n = bs ! n" if "n \<notin> insert start C" for n
    using inner that assms(4) by (auto simp: chain_def)
  moreover have "\<not> Domainp (jumps bs) target" if "target \<notin> insert start C"
    using inner that by (auto simp: chain_def jump1)
  ultimately show ?thesis
    using inner assms(1,5) unfolding chain_def jump1 by blast
qed

text \<open>Two blocks are joined if they lead to a common block by jumps alone.\<close>

definition joined :: "basic_block_data list \<Rightarrow> nat \<Rightarrow> nat \<Rightarrow> bool" where
  "joined bs x y \<longleftrightarrow> (\<exists>e. (jumps bs)\<^sup>*\<^sup>* x e \<and> (jumps bs)\<^sup>*\<^sup>* y e)"

lemma chain_path:
  assumes C: "chain bs bs' C start target" and len: "length bs' = length bs" and "(jumps bs)\<^sup>*\<^sup>* x e"
  shows "(jumps bs')\<^sup>*\<^sup>* x e \<or> (jumps bs')\<^sup>*\<^sup>* x target \<and> (e \<in> C \<or> e = target)"
  using assms(3)
proof (induction rule: converse_rtranclp_induct)
  case (step x y)
  show ?case
  proof (cases "x \<in> C")
    case True
    have "e \<in> C \<or> e = target" if "(jumps bs)\<^sup>*\<^sup>* z e" "z \<in> C \<or> z = target" for z
      using that
    proof (induction rule: converse_rtranclp_induct)
      case (step z z')
      then have "z \<in> C" using C by (auto simp: chain_def)
      then have "z' \<in> C \<or> z' = target" using C step.hyps(1) jumps_unique unfolding chain_def by blast
      with step.IH show ?case by blast
    qed
    then have "e \<in> C \<or> e = target" using step.hyps True by (meson converse_rtranclp_into_rtranclp)
    moreover have "jumps bs' x target" using C True by (simp add: chain_def)
    ultimately show ?thesis by blast
  next
    case False
    then have "jumps bs' x y" using C step.hyps(1) len by (simp add: chain_def jumps_def)
    with step.IH show ?thesis by (meson converse_rtranclp_into_rtranclp)
  qed
qed simp

lemma chain_joined:
  assumes C: "chain bs bs' C start target" and len: "length bs' = length bs" and "joined bs x y"
  shows "joined bs' x y"
proof -
  obtain e where "(jumps bs)\<^sup>*\<^sup>* x e" "(jumps bs)\<^sup>*\<^sup>* y e" using assms(3) by (auto simp: joined_def)
  note x = chain_path [OF C len this(1)] and y = chain_path [OF C len this(2)]
  have "(jumps bs')\<^sup>*\<^sup>* e target" if "e \<in> C \<or> e = target"
    using that C by (auto simp: chain_def)
  with x y show ?thesis unfolding joined_def by (meson rtranclp_trans)
qed

text \<open>What collapsing the chain at \<open>start\<close> gives: the counts are exact again with the reference moved
  to \<open>target\<close>, edges only moved along jumps, no dead block came back, and unless nothing changed there
  are fewer references to skippable blocks.\<close>

definition collapses ::
    "basic_block_data list \<Rightarrow> nat list \<Rightarrow> nat multiset \<Rightarrow> nat \<Rightarrow> bool
     \<Rightarrow> basic_block_data list \<Rightarrow> nat list \<Rightarrow> nat \<Rightarrow> bool \<Rightarrow> bool" where
  "collapses bs pc held start ch bs' pc' target ch' \<longleftrightarrow>
     counted bs' pc' (add_mset target held) \<and> length bs' = length bs \<and>
     (\<forall>n<length bs. redirected bs (bs ! n) (bs' ! n)) \<and> (jumps bs)\<^sup>*\<^sup>* start target \<and>
     (\<forall>n<length bs. pc ! n = 0 \<longrightarrow> pc' ! n = 0) \<and>
     (\<forall>n. skippable bs' n \<longrightarrow> skippable bs n \<and> n \<noteq> target) \<and>
     (\<forall>n. n \<noteq> target \<longrightarrow>
        count (add_mset target held + live_refs bs' pc') n \<le> count (add_mset start held + live_refs bs pc) n) \<and>
     (\<forall>n. \<not> Domainp (jumps bs) n \<longrightarrow>
        count (add_mset start held + live_refs bs pc) n \<le> count (add_mset target held + live_refs bs' pc') n) \<and>
     skippable_refs bs' (add_mset target held + live_refs bs' pc') + (if ch' \<and> \<not> ch then 1 else 0)
       \<le> skippable_refs bs (add_mset start held + live_refs bs pc) \<and>
     (ch \<longrightarrow> ch') \<and>
     (\<not> ch' \<longrightarrow> bs' = bs \<and> pc' = pc \<and> target = start \<and> \<not> skippable bs start) \<and>
     (\<exists>C. chain bs bs' C start target)"

lemma collapses_stop:
  "counted bs pc (add_mset start held) \<Longrightarrow> goto_target (bs ! start) = None \<Longrightarrow>
    collapses bs pc held start ch bs pc start ch"
  by (auto simp: collapses_def skippable_def chain_def jumps_goto_target intro!: exI [of _ "{}"])

lemma redirected_mono:
  assumes "redirected bs d d'" and "\<And>n m. jumps bs n m \<Longrightarrow> jumps bs' n m"
  shows "redirected bs' d d'"
proof -
  have "(jumps bs)\<^sup>*\<^sup>* \<le> (jumps bs')\<^sup>*\<^sup>*" using assms(2) by (intro rtranclp_mono) auto
  then have "list_all2 (jumps bs)\<^sup>*\<^sup>* xs ys \<Longrightarrow> list_all2 (jumps bs')\<^sup>*\<^sup>* xs ys" for xs ys
    by (metis (no_types, lifting) list_all2_mono predicate2D)
  with assms(1) show ?thesis unfolding redirected_def by (auto elim!: option.rel_mono_strong)
qed

lemma size_filter_split:
  assumes "\<And>n. P n \<longleftrightarrow> Q n \<or> n = a \<and> c" "\<not> Q a"
  shows "size (filter_mset P R) = size (filter_mset Q R) + (if c then count R a else 0)"
  by (induction R) (use assms in auto)

lemma collapses_step:
  assumes goto: "start < length bs" "goto_target (bs ! start) = Some m" "terminator (bs ! start) = Some t"
    and live: "pc ! start > 0"
    and inner: "collapses (set_terminator start None bs) pc (add_mset start held) m ch bs2 pc2 target ch2"
    and put: "bs3 = set_terminator start (Some (t\<lparr>term_kind := Goto target\<rparr>)) bs2"
    and c: "counted bs pc (add_mset start held)"
  obtains pc3 where "move_count start target pc2 = Ok pc3"
    "collapses bs pc held start ch bs3 pc3 target (ch2 \<or> start \<noteq> target)"
proof -
  let ?bs1 = "set_terminator start None bs"
  have kind: "term_kind t = Goto m" "statements (bs ! start) = []"
    using goto by (auto simp: goto_target_Some)
  have len: "length bs2 = length bs" and red: "\<And>n. n < length bs \<Longrightarrow> redirected ?bs1 (?bs1 ! n) (bs2 ! n)"
    and c2: "counted bs2 pc2 (add_mset target (add_mset start held))"
    and path: "(jumps ?bs1)\<^sup>*\<^sup>* m target"
    using inner by (auto simp: collapses_def)
  have at2: "terminator (bs2 ! start) = None" "statements (bs2 ! start) = []"
    using red [OF goto(1)] goto(1) kind(2) by (auto simp: redirected_def)
  have jump_mono: "jumps bs n q" if "jumps ?bs1 n q" for n q
    using that by (cases "n = start") (auto simp: jumps_def)
  have loop: "target = start" if "m = start"
  proof -
    have "\<not> jumps ?bs1 start q" for q using goto(1) by (simp add: jumps_def)
    with path that show ?thesis by (metis converse_rtranclpE)
  qed
  have "pc2 ! start > 0" by (rule countedD(5) [OF c2]) simp
  then have c3: "counted bs3 pc2 (add_mset start held)"
    and R2: "add_mset start held + live_refs bs3 pc2 = add_mset target (add_mset start held) + live_refs bs2 pc2"
    using counted_put [of bs2 pc2 "t\<lparr>term_kind := Goto target\<rparr>" "add_mset start held" start] c2 at2(1) goto(1) len
    by (simp_all add: put add_mset_commute)
  have "term_succs (bs3 ! start) = [target]" using goto(1) len by (simp add: put)
  from counted_move [OF c3 this] obtain pc3 where pc3: "move_count start target pc2 = Ok pc3"
    "counted bs3 pc3 (add_mset target held)" "\<And>n. n < length bs3 \<Longrightarrow> pc2 ! n = 0 \<Longrightarrow> pc3 ! n = 0"
    "add_mset start (add_mset target held + live_refs bs3 pc3) \<subseteq># add_mset target (add_mset start held + live_refs bs3 pc2)"
    "add_mset start held + live_refs bs3 pc2 \<subseteq># add_mset start (add_mset target held + live_refs bs3 pc3)"
    "start = target \<Longrightarrow> pc3 = pc2" by blast
  have R1: "add_mset m (add_mset start held) + live_refs ?bs1 pc = add_mset start held + live_refs bs pc"
    using counted_take(2) [OF c goto(1) live] goto kind by (simp add: term_succs_def)
  have skip3: "skippable bs3 n \<longleftrightarrow> skippable bs2 n \<or> n = start \<and> start \<noteq> target" for n
    using goto(1) len at2 by (cases "n = start") (auto simp: skippable_def put goto_target_def)
  have skip1: "skippable bs n \<longleftrightarrow> skippable ?bs1 n \<or> n = start \<and> m \<noteq> start" for n
    using goto by (cases "n = start") (auto simp: skippable_def goto_target_def)
  have no_start: "\<not> skippable ?bs1 start" "\<not> skippable bs2 start"
    using goto(1) at2(1) by (auto simp: skippable_def goto_target_def)
  note i = inner [unfolded collapses_def R1]
  let ?R = "add_mset start held + live_refs bs pc" and ?R3 = "add_mset target held + live_refs bs3 pc3"
  let ?R2 = "add_mset start held + live_refs bs3 pc2"
  have skip3_sub: "skippable bs3 n \<longrightarrow> skippable bs n \<and> n \<noteq> target" for n
    using i skip3 [of n] skip1 [of n] loop by blast
  have counts: "count ?R3 n \<le> count ?R n" if "n \<noteq> target" for n
  proof -
    have "count (add_mset start ?R3) n \<le> count (add_mset target ?R2) n"
      using pc3(4) by (rule mset_subset_eq_count)
    then have "count ?R3 n \<le> count ?R2 n" using that by (auto split: if_splits)
    also have "\<dots> \<le> count ?R n" using i that unfolding R2 by blast
    finally show ?thesis .
  qed
  have counts': "count ?R n \<le> count ?R3 n" if "\<not> Domainp (jumps bs) n" for n
  proof -
    have "n \<noteq> start" using that goto by (auto simp: jumps_goto_target)
    have "count ?R n \<le> count ?R2 n" using i that jump_mono unfolding R2 by blast
    also have "\<dots> \<le> count (add_mset start ?R3) n" using pc3(5) by (rule mset_subset_eq_count)
    finally show ?thesis using \<open>n \<noteq> start\<close> by simp
  qed
  show thesis
  proof (rule that [OF pc3(1)])
    have "skippable_refs bs3 ?R3 + (if start \<noteq> target then 1 else 0) \<le> skippable_refs bs3 ?R2"
    proof -
      have "size (filter_mset (skippable bs3) (add_mset start ?R3)) \<le> size (filter_mset (skippable bs3) (add_mset target ?R2))"
        by (intro size_mset_mono multiset_filter_mono pc3(4))
      then show ?thesis using skip3_sub [of target] skip3 [of start] by (auto simp: skippable_refs_def)
    qed
    also have "skippable_refs bs3 ?R2 = skippable_refs bs2 ?R2 + (if start \<noteq> target then count ?R2 start else 0)"
      unfolding skippable_refs_def by (rule size_filter_split) (use skip3 no_start in auto)
    finally have less3: "skippable_refs bs3 ?R3 + (if start \<noteq> target then 1 else 0) \<le>
      skippable_refs bs2 ?R2 + (if start \<noteq> target then count ?R2 start else 0)" .
    have less1: "skippable_refs bs ?R = skippable_refs ?bs1 ?R + (if m \<noteq> start then count ?R start else 0)"
      unfolding skippable_refs_def by (rule size_filter_split) (use skip1 no_start in auto)
    have i8: "skippable_refs bs2 ?R2 + (if ch2 \<and> \<not> ch then 1 else 0) \<le> skippable_refs ?bs1 ?R"
      using i unfolding R2 by blast
    have "(if start \<noteq> target then count ?R2 start else 0) \<le> (if m \<noteq> start then count ?R start else 0)"
      using i loop unfolding R2 by auto
    with less1 less3 i8 have skips:
      "skippable_refs bs3 ?R3 + (if (ch2 \<or> start \<noteq> target) \<and> \<not> ch then 1 else 0) \<le> skippable_refs bs ?R"
      by (auto split: if_splits)
    have red3: "redirected bs (bs ! n) (bs3 ! n)" if "n < length bs" for n
    proof (cases "n = start")
      case True
      have "(jumps bs)\<^sup>*\<^sup>* m target"
        using path rtranclp_mono [of "jumps ?bs1" "jumps bs"] jump_mono by (blast intro: predicate2I)
      then show ?thesis using True goto kind at2 len
        by (simp add: redirected_def put alike_def shape_def has_unwind_def)
    next
      case False
      then show ?thesis using red [OF that] jump_mono by (auto simp: put intro: redirected_mono)
    qed
    have start_path: "(jumps bs)\<^sup>*\<^sup>* start target"
    proof -
      have "jumps bs start m" using goto by (simp add: jumps_goto_target)
      moreover have "(jumps bs)\<^sup>*\<^sup>* m target"
        using path rtranclp_mono [of "jumps ?bs1" "jumps bs"] jump_mono by (blast intro: predicate2I)
      ultimately show ?thesis by (rule converse_rtranclp_into_rtranclp)
    qed
    have same: "bs3 = bs \<and> pc3 = pc \<and> \<not> skippable bs start" if "\<not> ch2" "start = target"
    proof -
      have "bs2 = ?bs1" "pc2 = pc" "m = target" using i that(1) by blast+
      moreover have "t\<lparr>term_kind := Goto m\<rparr> = t" using kind(1) by (cases t) simp
      with calculation(1,3) have "bs3 = bs[start := (bs ! start)\<lparr>terminator := Some t\<rparr>]"
        using goto(1) by (simp add: put set_terminator_def)
      moreover have "(bs ! start)\<lparr>terminator := Some t\<rparr> = bs ! start" using goto(3) by simp
      ultimately show ?thesis using that(2) skip1 [of start] no_start(1) pc3(6) by simp
    qed
    obtain C where "chain ?bs1 bs2 C m target" using i by blast
    moreover have "jumps bs start m" using goto by (simp add: jumps_goto_target)
    moreover have "jumps bs3 start target" using at2 goto(1) len by (simp add: put jumps_def)
    ultimately have chain: "\<exists>C. chain bs bs3 C start target"
      using chain_extend [of bs start m bs2 C target bs3] by (auto simp: put)
    show "collapses bs pc held start ch bs3 pc3 target (ch2 \<or> start \<noteq> target)"
      unfolding collapses_def
      using pc3(2) len red3 start_path skip3_sub counts counts' skips same i pc3(3) chain
      by (intro conjI allI impI) (auto simp: put)
  qed
qed

lemma collapse_goto_chain_ok:
  assumes "counted bs pc (add_mset start held)"
  shows "\<exists>bs' pc' target ch'. collapse_goto_chain bs pc start ch = Ok (bs', pc', target, ch') \<and>
    collapses bs pc held start ch bs' pc' target ch'"
  using assms
proof (induction bs pc start ch arbitrary: held rule: collapse_goto_chain.induct)
  case (1 bs pc start ch)
  note D = countedD [OF "1.prems"]
  have start: "start < length bs" "pc ! start > 0" by (rule D(3,5), simp)+
  show ?case
  proof (cases "goto_target (bs ! start)")
    case None
    with start "1.prems" show ?thesis by (simp add: collapse_goto_chain.simps collapses_stop)
  next
    case (Some m)
    then obtain t where t: "terminator (bs ! start) = Some t" "term_kind t = Goto m"
      by (auto simp: goto_target_Some)
    have "counted (set_terminator start None bs) pc (add_mset m (add_mset start held))"
      using counted_take(1) [OF "1.prems" start] t by (simp add: term_succs_def add_mset_commute)
    from "1.IH" [OF index_vec_in [OF start(1)] Some this] obtain bs2 pc2 target ch2 where
      inner: "collapse_goto_chain (set_terminator start None bs) pc m ch = Ok (bs2, pc2, target, ch2)"
      "collapses (set_terminator start None bs) pc (add_mset start held) m ch bs2 pc2 target ch2" by blast
    from collapses_step [OF start(1) Some t(1) start(2) inner(2) refl "1.prems"] obtain pc3 where
      "move_count start target pc2 = Ok pc3"
      "collapses bs pc held start ch (set_terminator start (Some (t\<lparr>term_kind := Goto target\<rparr>)) bs2) pc3
         target (ch2 \<or> start \<noteq> target)" .
    then show ?thesis using Some start t(1) inner(1) by (subst collapse_goto_chain.simps) simp
  qed
qed

section \<open>The invariant of the loop\<close>

definition block_weight :: "basic_block_data \<Rightarrow> nat" where
  "block_weight d =
     (case terminator d of Some t \<Rightarrow> if is_switch (term_kind t) then 2 else 1 | None \<Rightarrow> 1)"

text \<open>Live blocks count once and switches twice: merging blocks and removing branches decreases the
  weight, and collapsing chains does not increase it.\<close>

definition weight :: "basic_block_data list \<Rightarrow> nat list \<Rightarrow> nat" where
  "weight bs pc = (\<Sum>n<length bs. if pc ! n > 0 then block_weight (bs ! n) else 0)"

text \<open>A block leads to the targets of its terminator. The blocks with a count are those that can be
  reached from the start.\<close>

definition block_edge :: "basic_block_data list \<Rightarrow> nat \<Rightarrow> nat \<Rightarrow> bool" where
  "block_edge bs n m \<longleftrightarrow> n < length bs \<and> m \<in> set (term_succs (bs ! n))"

definition reached :: "basic_block_data list \<Rightarrow> nat list \<Rightarrow> nat \<Rightarrow> bool" where
  "reached bs pc start \<longleftrightarrow> (\<forall>n<length bs. pc ! n > 0 \<longrightarrow> (block_edge bs)\<^sup>*\<^sup>* start n)"

lemma reached_mono:
  assumes "reached bs pc start" "length bs' = length bs" "\<And>n m. block_edge bs n m \<Longrightarrow> block_edge bs' n m"
    "\<And>n. n < length bs \<Longrightarrow> pc' ! n > 0 \<Longrightarrow> pc ! n > 0"
  shows "reached bs' pc' start"
proof -
  have "(block_edge bs)\<^sup>*\<^sup>* \<le> (block_edge bs')\<^sup>*\<^sup>*" using assms(3) by (intro rtranclp_mono) auto
  then show ?thesis using assms(1,2,4) unfolding reached_def by auto
qed

text \<open>Between the steps all counts are exact, live blocks have their terminators and are reached, and
  if another block has become the start, the old start block is dead or joined with it.\<close>

definition simp_inv :: "basic_block_data list \<Rightarrow> nat list \<Rightarrow> nat \<Rightarrow> bool" where
  "simp_inv bs pc start \<longleftrightarrow> counted bs pc {#start#} \<and>
     (\<forall>n<length bs. pc ! n > 0 \<longrightarrow> terminator (bs ! n) \<noteq> None) \<and>
     reached bs pc start \<and>
     (start \<noteq> START_BLOCK \<longrightarrow> pc ! START_BLOCK > 0 \<longrightarrow> joined bs START_BLOCK start)"

definition keeps ::
    "'st mir_sem \<Rightarrow> basic_block_data list \<Rightarrow> nat list \<Rightarrow> basic_block_data list \<Rightarrow> nat list \<Rightarrow> bool" where
  "keeps sem bs pc bs' pc' \<longleftrightarrow> length bs' = length bs \<and> (\<forall>n<length bs. pc' ! n > 0 \<longrightarrow> pc ! n > 0) \<and>
     (\<forall>n s out. n < length bs \<longrightarrow> pc' ! n > 0 \<longrightarrow> runs sem bs' n s out = runs sem bs n s out) \<and>
     weight bs' pc' \<le> weight bs pc"

lemma keeps_refl [simp]: "keeps sem bs pc bs pc"
  by (simp add: keeps_def)

lemma keeps_trans:
  assumes "keeps sem bs pc bs1 pc1" "keeps sem bs1 pc1 bs2 pc2"
  shows "keeps sem bs pc bs2 pc2"
proof -
  have "runs sem bs2 n s out = runs sem bs n s out" if "n < length bs" "pc2 ! n > 0" for n s out
  proof -
    have "pc1 ! n > 0" using assms that unfolding keeps_def by simp
    then show ?thesis using assms that unfolding keeps_def by simp
  qed
  then show ?thesis using assms unfolding keeps_def by auto
qed

lemma live_refs_mem:
  assumes "n < length bs" "pc ! n > 0" "m \<in> set (term_succs (bs ! n))"
  shows "m \<in># live_refs bs pc"
  unfolding live_refs_def using assms
  by (simp add: sum.remove [of "{..<length bs}" n] block_refs_def)

lemma counted_successor:
  assumes "counted bs pc held" "n < length bs" "pc ! n > 0" "m \<in> set (term_succs (bs ! n))"
  shows "m < length bs" "pc ! m > 0"
  using countedD(3,5) [OF assms(1), of m] live_refs_mem [OF assms(2-4)] by auto

abbreviation live_blocks :: "basic_block_data list \<Rightarrow> nat list \<Rightarrow> nat set" where
  "live_blocks bs pc \<equiv> {n. n < length bs \<and> pc ! n > 0}"

lemma counted_closed: "counted bs pc held \<Longrightarrow> closed_blocks bs (live_blocks bs pc)"
  unfolding closed_blocks_def
proof (intro ballI impI allI subsetI)
  fix n t m
  assume c: "counted bs pc held" and "n \<in> live_blocks bs pc" "terminator (bs ! n) = Some t"
    "m \<in> set (successors (term_kind t))"
  then show "m \<in> live_blocks bs pc" using counted_successor [OF c, of n m] by (simp add: term_succs_def)
qed

subsection \<open>Branches\<close>

lemma pick_switch:
  assumes "sem_ok sem" "ts \<noteq> []"
  shows "\<exists>i<length ts. pick_successor sem (SwitchInt d sty vs ts) s = Inl (i, s)"
proof -
  have "map (\<lambda>_. 0) ts \<noteq> ([] :: nat list)" using assms(2) by simp
  then obtain i where "i < length ts" "exec_terminator sem (SwitchInt d sty vs (map (\<lambda>_. 0) ts)) s = (Target i, s)"
    using assms(1) unfolding sem_ok_def by (metis length_map)
  then show ?thesis
    by (auto simp: pick_successor_def shape_def num_targets_def has_unwind_def)
qed

lemma branch_exec:
  assumes "sem_ok sem" "terminator d = Some t" "term_kind t = SwitchInt op sty vs ts"
    "ts \<noteq> []" "\<forall>x\<in>set ts. x = f"
  shows "exec_block sem (d\<lparr>terminator := Some (t\<lparr>term_kind := Goto f\<rparr>)\<rparr>) s = exec_block sem d s"
proof -
  obtain i where "i < length ts" "pick_successor sem (SwitchInt op sty vs ts) (exec_statements sem (statements d) s) =
      Inl (i, exec_statements sem (statements d) s)"
    using pick_switch [OF assms(1,4)] by blast
  moreover from this(1) have "ts ! i = f" using assms(5) nth_mem by blast
  ultimately show ?thesis using assms(1-4) by (simp add: exec_block_def pick_goto)
qed

lemma weight_update:
  assumes "n < length bs" "pc ! n > 0" "block_weight d < block_weight (bs ! n)"
    "\<And>i. i < length bs \<Longrightarrow> (pc' ! i > 0) = (pc ! i > 0)"
  shows "weight (bs[n := d]) pc' < weight bs pc"
proof -
  have "weight (bs[n := d]) pc' + block_weight (bs ! n) = weight bs pc + block_weight d"
    using sum_changed_at [of n "length bs" "\<lambda>i. if pc' ! i > 0 then block_weight (bs[n := d] ! i) else 0"
      "\<lambda>i. if pc ! i > 0 then block_weight (bs ! i) else 0"] assms
    by (simp add: weight_def)
  with assms(3) show ?thesis by simp
qed

lemma joined_mono:
  assumes "joined bs x y" "\<And>n m. jumps bs n m \<Longrightarrow> jumps bs' n m"
  shows "joined bs' x y"
proof -
  have "(jumps bs)\<^sup>*\<^sup>* \<le> (jumps bs')\<^sup>*\<^sup>*" using assms(2) by (intro rtranclp_mono) auto
  with assms(1) show ?thesis unfolding joined_def by blast
qed

lemma branch_full:
  assumes sem: "sem_ok sem" and inv: "simp_inv bs pc start"
    and bb: "bb < length bs" "pc ! bb > 0" "terminator (bs ! bb) = Some t"
    and sw: "term_kind t = SwitchInt op sty vs ts" "ts \<noteq> []" "\<forall>x\<in>set ts. x = f"
    and bs': "bs' = set_terminator bb (Some (t\<lparr>term_kind := Goto f\<rparr>)) bs"
  obtains pc' where "sub_count ((length ts - 1) mod 2 ^ 32) f pc = Ok pc'" "simp_inv bs' pc' start"
    "keeps sem bs pc bs' pc'" "weight bs' pc' < weight bs pc"
    "\<forall>n<length bs. (pc' ! n > 0) = (pc ! n > 0)"
proof -
  let ?k = "length ts - 1"
  have c: "counted bs pc {#start#}" using inv by (simp add: simp_inv_def)
  note D = countedD [OF c]
  have succs: "term_succs (bs ! bb) = ts" using bb sw by (simp add: term_succs_def)
  have "mset ts = replicate_mset (length ts) f" using sw(3) by (induction ts) auto
  also have "\<dots> = add_mset f (replicate_mset ?k f)" using sw(2) by (cases ts) auto
  finally have ts: "mset ts = add_mset f (replicate_mset ?k f)" .
  have refs: "{#start#} + live_refs bs pc = {#start#} + live_refs bs' pc + replicate_mset ?k f"
    using live_refs_set_terminator [OF bb(1,2), of "Some (t\<lparr>term_kind := Goto f\<rparr>)"] succs ts by (simp add: bs')
  have len: "length bs' = length bs" by (simp add: bs')
  have "f \<in># live_refs bs' pc" using live_refs_mem [of bb bs' pc f] bb by (simp add: bs')
  then have f: "f < length bs" "count ({#start#} + live_refs bs' pc) f > 0"
    using D(3) [of f] refs by auto
  have "size ({#start#} + live_refs bs' pc) + ?k + 1 < 2 ^ 32" using D(4) unfolding refs by simp
  then have k: "?k mod 2 ^ 32 = ?k" by simp
  have pcf: "pc ! f = count ({#start#} + live_refs bs' pc) f + ?k" using D(2) [OF f(1)] unfolding refs by simp
  let ?pc = "pc[f := pc ! f - ?k]"
  have pos: "(?pc ! n > 0) = (pc ! n > 0)" if "n < length bs" for n
    using that pcf f(2) D(1) by (cases "n = f") auto
  have live: "live_refs bs' ?pc = live_refs bs' pc" by (rule live_refs_pos_cong) (use pos len in auto)
  have c': "counted bs' ?pc {#start#}"
    unfolding counted_def live
  proof (intro conjI allI impI)
    fix n assume n: "n < length bs'"
    then show "?pc ! n = count ({#start#} + live_refs bs' pc) n"
      using pcf D(1) D(2) [of n] len unfolding refs by (cases "n = f") auto
  qed (use D refs len in auto)
  have present: "terminator (bs' ! n) \<noteq> None" if "n < length bs" "pc ! n > 0" for n
    using inv that by (cases "n = bb") (auto simp: simp_inv_def bs')
  have "\<not> Domainp (jumps bs) bb" using bb sw by (auto simp: jumps_def)
  then have "jumps bs' n m" if "jumps bs n m" for n m
    using that by (cases "n = bb") (auto simp: bs' jumps_def)
  then have join: "joined bs' x y" if "joined bs x y" for x y using that joined_mono by blast
  have zero: "START_BLOCK < length bs" using bb(1) unfolding START_BLOCK_def by linarith
  have "set ts = {f}" using arg_cong [OF ts, of set_mset] by auto
  then have lead: "block_edge bs' n m" if "block_edge bs n m" for n m
    using that succs bb(1) by (cases "n = bb") (auto simp: block_edge_def bs')
  have "reached bs pc start" using inv by (simp add: simp_inv_def)
  then have "reached bs' ?pc start" by (rule reached_mono [OF _ len lead]) (use pos in simp_all)
  then have inv': "simp_inv bs' ?pc start"
    unfolding simp_inv_def len
  proof (intro conjI allI impI)
    show "joined bs' START_BLOCK start" if "start \<noteq> START_BLOCK" "?pc ! START_BLOCK > 0"
      using that pos [OF zero] inv join by (simp add: simp_inv_def)
  qed (use c' present pos in \<open>simp_all only: not_False_eq_True\<close>)
  have step: "block_step sem bs' n s = block_step sem bs n s" for n s
    using branch_exec [OF sem bb(3) sw] bb(1) by (cases "n = bb") (auto simp: block_step_def bs')
  have wt: "weight bs' ?pc < weight bs pc"
    unfolding bs' set_terminator_def using bb sw pos
    by (intro weight_update) (auto simp: block_weight_def is_switch_def)
  moreover have "keeps sem bs pc bs' ?pc"
    using wt pos len runs_same_steps [of UNIV sem bs' bs] step by (auto simp: keeps_def closed_blocks_def)
  moreover have "sub_count (?k mod 2 ^ 32) f pc = Ok ?pc"
    unfolding k using f(1) pcf D(1) by (simp add: sub_count_def)
  ultimately show thesis using inv' pos by (intro that) blast+
qed

subsection \<open>Merging\<close>

lemma merge_exec:
  assumes "sem_ok sem" "terminator d = Some t" "term_kind t = Goto m"
  shows "exec_block sem d s = Inl (m, exec_statements sem (statements d) s)"
    "exec_block sem (d\<lparr>statements := statements d @ statements d', terminator := terminator d'\<rparr>) s =
      exec_block sem d' (exec_statements sem (statements d) s)"
  using assms by (simp_all add: exec_block_def pick_goto exec_statements_def cong: option.case_cong)

lemma only_reference:
  assumes c: "counted bs pc held" and bb: "bb < length bs" "pc ! bb > 0" "T \<in> set (term_succs (bs ! bb))"
    and "pc ! T = 1" and n: "n < length bs" "pc ! n > 0" "T \<in> set (term_succs (bs ! n))"
  shows "n = bb"
proof (rule ccontr)
  assume "n \<noteq> bb"
  have "{#T#} + {#T#} \<subseteq># mset (term_succs (bs ! bb)) + mset (term_succs (bs ! n))"
    using bb(3) n(3) by (intro subset_mset.add_mono) simp_all
  also have "\<dots> = (\<Sum>i\<in>{bb, n}. block_refs bs pc i)"
    using \<open>n \<noteq> bb\<close> bb n by (simp add: block_refs_def)
  also have "\<dots> \<subseteq># live_refs bs pc"
    unfolding live_refs_def using bb(1) n(1) by (simp add: sum.subset_diff [of "{bb, n}" "{..<length bs}"])
  finally have "count (live_refs bs pc) T \<ge> 2" by (auto dest: mset_subset_eq_count [of _ _ T])
  moreover have "T < length bs" using counted_successor(1) [OF c bb] .
  ultimately show False using countedD(2) [OF c, of T] assms(5) by simp
qed

text \<open>What was reached before a block is merged into its only predecessor is reached afterwards.\<close>

lemma merge_reached:
  assumes c: "counted bs pc {#start#}" and bb: "bb < length bs" "pc ! bb > 0" "terminator (bs ! bb) = Some t"
    and T: "term_kind t = Goto T" "pc ! T = 1" "start \<noteq> T"
    and other: "\<And>n. n \<noteq> bb \<Longrightarrow> n \<noteq> T \<Longrightarrow> bs' ! n = bs ! n"
    and at_bb: "term_succs (bs' ! bb) = term_succs (bs ! T)" and len: "length bs' = length bs"
    and path: "(block_edge bs)\<^sup>*\<^sup>* start n"
  shows "n < length bs \<and> pc ! n > 0 \<and> (block_edge bs')\<^sup>*\<^sup>* start (if n = T then bb else n)"
  using path
proof (induction rule: rtranclp_induct)
  case base
  show ?case using countedD(3,5) [OF c, of start] T(3) by simp
next
  case (step n m)
  have succ: "m < length bs" "pc ! m > 0"
    using counted_successor [OF c, of n m] step by (auto simp: block_edge_def)
  have bbT: "term_succs (bs ! bb) = [T]" using bb(3) T(1) by (simp add: term_succs_def)
  consider "n = bb" | "n \<noteq> bb" "n = T" | "n \<noteq> bb" "n \<noteq> T" by blast
  then have "(block_edge bs')\<^sup>*\<^sup>* start (if m = T then bb else m)"
  proof cases
    case 1
    then have "m = T" using step.hyps(2) bbT by (simp add: block_edge_def)
    with 1 step.IH show ?thesis by (simp split: if_splits)
  next
    case 2
    then have "block_edge bs' bb m" using step.hyps(2) bb(1) len at_bb by (simp add: block_edge_def)
    with 2 step.IH show ?thesis by auto
  next
    case 3
    then have "block_edge bs' n m" using step.hyps(2) len other by (simp add: block_edge_def)
    moreover have "m \<noteq> T"
      using only_reference [OF c bb(1,2) _ T(2), of n] step 3 bbT by (auto simp: block_edge_def)
    ultimately show ?thesis using step.IH 3 by auto
  qed
  with succ show ?case by blast
qed

text \<open>Joined live blocks stay joined when a block is merged into its only predecessor.\<close>

lemma merge_joined:
  assumes c: "counted bs pc held" and bb: "bb < length bs" "pc ! bb > 0" "terminator (bs ! bb) = Some t"
    and T: "term_kind t = Goto T" "pc ! T = 1" "T \<noteq> bb"
    and other: "\<And>n. n \<noteq> bb \<Longrightarrow> n \<noteq> T \<Longrightarrow> bs' ! n = bs ! n"
    and len: "length bs' = length bs" and at_bb: "\<And>q. jumps bs bb T \<Longrightarrow> jumps bs T q \<Longrightarrow> jumps bs' bb q"
    and xy: "joined bs x y" "x \<in> live_blocks bs pc" "y \<in> live_blocks bs pc" "x \<noteq> T" "y \<noteq> T"
  shows "joined bs' x y"
proof -
  have only: "n = bb" if "n \<in> live_blocks bs pc" "jumps bs n T" for n
    using only_reference [OF c bb(1,2) _ T(2), of n] bb(3) T(1) that by (auto simp: jumps_def term_succs_def)
  have succ: "y \<in> live_blocks bs pc" if "x \<in> live_blocks bs pc" "jumps bs x y" for x y
    using counted_successor [OF c, of x y] that by (auto simp: jumps_def term_succs_def)
  have path: "x \<in> live_blocks bs pc \<longrightarrow> (x \<noteq> T \<longrightarrow> (jumps bs')\<^sup>*\<^sup>* x (if e = T then bb else e)) \<and>
      (x = T \<longrightarrow> e = T \<or> (\<exists>q. jumps bs T q \<and> (jumps bs')\<^sup>*\<^sup>* q (if e = T then bb else e)))"
    if "(jumps bs)\<^sup>*\<^sup>* x e" for x e
    using that
  proof (induction rule: converse_rtranclp_induct)
    case (step x y)
    show ?case
    proof (intro impI conjI)
      assume x: "x \<in> live_blocks bs pc"
      { assume "x \<noteq> T"
        show "(jumps bs')\<^sup>*\<^sup>* x (if e = T then bb else e)"
        proof (cases "x = bb")
          case True
          then have "y = T" "jumps bs bb T" using step.hyps(1) bb T(1) by (auto simp: jumps_def)
          with step.IH succ [OF x step.hyps(1)] True show ?thesis
            by (auto intro: converse_rtranclp_into_rtranclp at_bb)
        next
          case False
          with only [OF x] step.hyps(1) have "y \<noteq> T" by blast
          moreover have "jumps bs' x y" using step.hyps(1) other [OF False \<open>x \<noteq> T\<close>] len by (simp add: jumps_def)
          ultimately show ?thesis using step.IH succ [OF x step.hyps(1)]
            by (blast intro: converse_rtranclp_into_rtranclp)
        qed
      next
        assume "x = T"
        with only [OF x] step.hyps(1) T(3) have "y \<noteq> T" by blast
        then show "e = T \<or> (\<exists>q. jumps bs T q \<and> (jumps bs')\<^sup>*\<^sup>* q (if e = T then bb else e))"
          using step.IH step.hyps(1) succ [OF x step.hyps(1)] \<open>x = T\<close> by blast
      }
    qed
  qed simp
  from xy show ?thesis unfolding joined_def using path by blast
qed

lemma merge_full:
  assumes sem: "sem_ok sem" and inv: "simp_inv bs pc start"
    and bb: "bb < length bs" "pc ! bb > 0" "terminator (bs ! bb) = Some t"
    and T: "term_kind t = Goto T" "pc ! T = 1" "T \<noteq> bb"
    and bs': "bs' = bs[T := (bs ! T)\<lparr>statements := [], terminator := None\<rparr>,
      bb := (bs ! bb)\<lparr>statements := statements (bs ! bb) @ statements (bs ! T), terminator := terminator (bs ! T)\<rparr>]"
  shows "simp_inv bs' (pc[T := 0]) start" "keeps sem bs pc bs' (pc[T := 0])"
    "weight bs' (pc[T := 0]) < weight bs pc"
proof -
  let ?pc = "pc[T := 0]"
  have c: "counted bs pc {#start#}" using inv by (simp add: simp_inv_def)
  note D = countedD [OF c]
  have T_len: "T < length bs" using counted_successor(1) [OF c bb(1,2)] bb(3) T(1) by (simp add: term_succs_def)
  have len: "length bs' = length bs" by (simp add: bs')
  have other: "bs' ! n = bs ! n" if "n \<noteq> bb" "n \<noteq> T" for n using that by (simp add: bs')
  have at_bb: "bs' ! bb = (bs ! bb)\<lparr>statements := statements (bs ! bb) @ statements (bs ! T),
      terminator := terminator (bs ! T)\<rparr>"
    using bb(1) by (simp add: bs')
  let ?bs1 = "bs[bb := bs' ! bb]"
  have same1: "?bs1 ! n = bs' ! n" if "n \<noteq> T" for n
    using that bb(1) other [of n] by (cases "n = bb") simp_all
  have live: "live_refs bs pc = add_mset T (live_refs bs' ?pc)"
  proof -
    have "live_refs ?bs1 pc + {#T#} = live_refs bs pc + mset (term_succs (bs ! T))"
      using live_refs_update [OF bb(1), of "bs' ! bb" pc] bb T(1)
      by (simp add: block_refs_def at_bb term_succs_def)
    moreover have "live_refs ?bs1 pc = live_refs ?bs1 ?pc + mset (term_succs (bs ! T))"
      using live_refs_kill [of T ?bs1 pc] T_len T(2,3) D(1) by simp
    moreover have "live_refs ?bs1 ?pc = live_refs bs' ?pc"
      unfolding live_refs_def using len
      by (intro sum.cong) (use same1 T_len D(1) in \<open>auto simp: block_refs_def nth_list_update\<close>)
    ultimately show ?thesis by (simp add: union_ac)
  qed
  have c': "counted bs' ?pc {#start#}"
    unfolding counted_def
  proof (intro conjI allI impI)
    fix n assume "n < length bs'"
    then show "?pc ! n = count ({#start#} + live_refs bs' ?pc) n"
      using D(2) [of n] D(2) [OF T_len] T(2) D(1) len unfolding live by (cases "n = T") auto
  qed (use D len live in auto)
  have not_T: "start \<noteq> T" using D(2) [OF T_len] T(2) unfolding live by auto
  moreover have "start \<in> live_blocks bs pc" using D(3,5) [of start] by simp
  moreover have "jumps bs' bb q" if "jumps bs bb T" "jumps bs T q" for q
    using that at_bb len bb(1) by (auto simp: jumps_def)
  ultimately have join: "joined bs' x start" if "joined bs x start" "x \<in> live_blocks bs pc" "x \<noteq> T" for x
    using that merge_joined [OF c bb T other len] by blast
  have present: "terminator (bs' ! n) \<noteq> None" if "n < length bs" "?pc ! n > 0" for n
    using that inv D(1) T_len T(2) other [of n] at_bb by (cases "n = bb"; cases "n = T") (auto simp: simp_inv_def)
  have succs: "term_succs (bs' ! bb) = term_succs (bs ! T)" by (simp add: at_bb term_succs_def)
  have "(block_edge bs')\<^sup>*\<^sup>* start n" if "n < length bs" "?pc ! n > 0" for n
  proof -
    have "n \<noteq> T" "pc ! n > 0" using that D(1) by (cases "n = T"; simp)+
    then have "(block_edge bs)\<^sup>*\<^sup>* start n" using inv that(1) by (simp add: simp_inv_def reached_def)
    with merge_reached [OF c bb T(1,2) not_T, of bs' n] other succs len \<open>n \<noteq> T\<close> show ?thesis by simp
  qed
  then have "reached bs' ?pc start" by (simp add: reached_def len)
  moreover have "START_BLOCK < length bs" using bb(1) unfolding START_BLOCK_def by linarith
  ultimately show "simp_inv bs' ?pc start"
    using c' present join [of START_BLOCK] inv D(1) unfolding simp_inv_def len
    by (cases "START_BLOCK = T") auto
  show wt: "weight bs' ?pc < weight bs pc"
  proof -
    have "weight ?bs1 pc + block_weight (bs ! bb) = weight bs pc + block_weight (bs' ! bb)"
      using sum_changed_at [of bb "length bs" "\<lambda>i. if pc ! i > 0 then block_weight (?bs1 ! i) else 0"
        "\<lambda>i. if pc ! i > 0 then block_weight (bs ! i) else 0"] bb by (simp add: weight_def)
    moreover have "weight ?bs1 pc = weight bs' ?pc + block_weight (bs ! T)"
      using sum_changed_at [of T "length bs" "\<lambda>i. if pc ! i > 0 then block_weight (?bs1 ! i) else 0"
        "\<lambda>i. if ?pc ! i > 0 then block_weight (bs' ! i) else 0"] T_len T(2,3) D(1) len same1
      by (simp add: weight_def)
    moreover have "block_weight (bs' ! bb) = block_weight (bs ! T)" "block_weight (bs ! bb) = 1"
      using at_bb bb(3) T(1) by (simp_all add: block_weight_def is_switch_def)
    ultimately show ?thesis by simp
  qed
  have "runs sem bs' n s out = runs sem bs n s out" if "n < length bs" "?pc ! n > 0" for n s out
  proof (rule runs_merged [where L = "live_blocks bs' ?pc" and x = bb and t = T])
    fix m s assume "m \<in> live_blocks bs' ?pc" "m \<noteq> bb"
    then show "block_step sem bs' m s = block_step sem bs m s"
      using other [of m] len T_len D(1) by (cases "m = T") (auto simp: block_step_def)
  next
    fix s
    show "\<exists>s'. block_step sem bs bb s = Inl (T, s') \<and> block_step sem bs T s' = block_step sem bs' bb s"
      using merge_exec [OF sem bb(3) T(1)] bb(1) len T_len at_bb by (simp add: block_step_def)
  qed (use that len counted_closed [OF c'] bb T(3) D(1) in auto)
  moreover have "pc ! n > 0" if "?pc ! n > 0" for n using that T(2) by (cases "n = T") auto
  ultimately show "keeps sem bs pc bs' ?pc" using wt len by (simp add: keeps_def)
qed

subsection \<open>One block\<close>

text \<open>The blocks as they are when the terminator that has been taken out is put back.\<close>

definition view ::
    "basic_block_data list \<Rightarrow> nat \<Rightarrow> statement list \<Rightarrow> Mir.terminator \<Rightarrow> basic_block_data list" where
  "view bs bb stmts t =
     bs[bb := (bs ! bb)\<lparr>statements := statements (bs ! bb) @ stmts, terminator := Some t\<rparr>]"

lemma length_view [simp]: "length (view bs bb stmts t) = length bs"
  by (simp add: view_def)

lemma view_other [simp]: "n \<noteq> bb \<Longrightarrow> view bs bb stmts t ! n = bs ! n"
  by (simp add: view_def)

lemma view_at [simp]: "bb < length bs \<Longrightarrow> view bs bb stmts t ! bb =
    (bs ! bb)\<lparr>statements := statements (bs ! bb) @ stmts, terminator := Some t\<rparr>"
  by (simp add: view_def)

lemma live_refs_view:
  assumes "bb < length bs" "pc ! bb > 0" "terminator (bs ! bb) = None"
  shows "live_refs (view bs bb stmts t) pc = mset (successors (term_kind t)) + live_refs bs pc"
  using live_refs_update [OF assms(1), of "view bs bb stmts t ! bb" pc] assms
  by (simp add: block_refs_def term_succs_def view_def union_ac)

lemma counted_view:
  assumes "bb < length bs" "pc ! bb > 0" "terminator (bs ! bb) = None"
  shows "counted (view bs bb stmts t) pc held \<longleftrightarrow> counted bs pc (mset (successors (term_kind t)) + held)"
  unfolding counted_def live_refs_view [OF assms] by (simp add: union_ac)

text \<open>Nothing is left to do for a block: its branches differ, and it does not jump to a block with no
  other predecessor.\<close>

definition branch_done :: "terminator_kind \<Rightarrow> bool" where
  "branch_done k \<longleftrightarrow> \<not> (is_switch k \<and> successors k \<noteq> [] \<and> list_all (\<lambda>x. x = hd (successors k)) (successors k))"

definition merge_done :: "nat list \<Rightarrow> nat \<Rightarrow> terminator_kind \<Rightarrow> bool" where
  "merge_done pc bb k \<longleftrightarrow> (\<forall>m. k = Goto m \<longrightarrow> pc ! m = 1 \<longrightarrow> m = bb)"

lemma inner_branch:
  assumes sem: "sem_ok sem" and inv: "simp_inv (view bs bb stmts t) pc start"
    and bb: "bb < length bs" "pc ! bb > 0"
  obtains pc' t' b where "simplify_branch pc t = Ok (pc', t', b)" "simp_inv (view bs bb stmts t') pc' start"
    "keeps sem (view bs bb stmts t) pc (view bs bb stmts t') pc'" "pc' ! bb > 0"
    "b \<Longrightarrow> weight (view bs bb stmts t') pc' < weight (view bs bb stmts t) pc"
    "\<not> b \<Longrightarrow> pc' = pc \<and> t' = t \<and> branch_done (term_kind t)"
proof (cases "branch_done (term_kind t)")
  case True
  then have "simplify_branch pc t = Ok (pc, t, False)"
    by (auto simp: simplify_branch_def branch_done_def is_switch_def split: terminator_kind.splits list.splits)
  then show thesis using that [of pc t False] inv bb(2) True by simp
next
  case False
  then obtain op sty vs f rest where sw: "term_kind t = SwitchInt op sty vs (f # rest)" "\<forall>x\<in>set (f # rest). x = f"
    by (auto simp: branch_done_def is_switch_def neq_Nil_conv list_all_iff split: terminator_kind.splits)
  let ?t = "t\<lparr>term_kind := Goto f\<rparr>"
  have view': "view bs bb stmts ?t = set_terminator bb (Some ?t) (view bs bb stmts t)"
    using bb(1) by (simp add: view_def set_terminator_def)
  have at_bb: "bb < length (view bs bb stmts t)" "terminator (view bs bb stmts t ! bb) = Some t" "f # rest \<noteq> []"
    using bb(1) by simp_all
  obtain pc' where pc': "sub_count ((length (f # rest) - 1) mod 2 ^ 32) f pc = Ok pc'"
    "simp_inv (view bs bb stmts ?t) pc' start" "keeps sem (view bs bb stmts t) pc (view bs bb stmts ?t) pc'"
    "weight (view bs bb stmts ?t) pc' < weight (view bs bb stmts t) pc"
    "\<forall>n<length (view bs bb stmts t). (pc' ! n > 0) = (pc ! n > 0)"
    by (rule branch_full [OF sem inv at_bb(1) bb(2) at_bb(2) sw(1) at_bb(3) sw(2) view'])
  have "pc' ! bb > 0" using pc'(5) at_bb(1) bb(2) by blast
  moreover have "simplify_branch pc t = Ok (pc', ?t, True)"
    using pc'(1) sw by (simp add: simplify_branch_def list_all_iff)
  ultimately show thesis using that pc' by blast
qed

lemma inner_merge:
  assumes sem: "sem_ok sem" and inv: "simp_inv (view bs bb stmts t) pc start"
    and bb: "bb < length bs" "pc ! bb > 0" "terminator (bs ! bb) = None"
  obtains bs' pc' stmts' t' m where "merge_successor bs pc stmts t = Ok (bs', pc', stmts', t', m)"
    "simp_inv (view bs' bb stmts' t') pc' start" "keeps sem (view bs bb stmts t) pc (view bs' bb stmts' t') pc'"
    "pc' ! bb > 0" "terminator (bs' ! bb) = None"
    "m \<Longrightarrow> weight (view bs' bb stmts' t') pc' < weight (view bs bb stmts t) pc"
    "\<not> m \<Longrightarrow> bs' = bs \<and> pc' = pc \<and> stmts' = stmts \<and> t' = t \<and> merge_done pc bb (term_kind t)"
proof (cases "merge_done pc bb (term_kind t)")
  case True
  have c: "counted (view bs bb stmts t) pc {#start#}" using inv by (simp add: simp_inv_def)
  have "m < length bs" if "term_kind t = Goto m" for m
    using counted_successor(1) [OF c, of bb m] bb that by (simp add: term_succs_def)
  then have "merge_successor bs pc stmts t = Ok (bs, pc, stmts, t, False)"
    using True bb countedD(1) [OF c]
    by (auto simp: merge_successor_def merge_done_def split: terminator_kind.splits)
  then show thesis using that [of bs pc stmts t False] inv bb True by simp
next
  case False
  then obtain T where T: "term_kind t = Goto T" "pc ! T = 1" "T \<noteq> bb" by (auto simp: merge_done_def)
  have c: "counted (view bs bb stmts t) pc {#start#}" using inv by (simp add: simp_inv_def)
  have T_len: "T < length bs" using counted_successor(1) [OF c, of bb T] bb T by (simp add: term_succs_def)
  obtain t' where t': "terminator (bs ! T) = Some t'" using inv T T_len by (auto simp: simp_inv_def)
  let ?bs = "bs[T := (bs ! T)\<lparr>statements := [], terminator := None\<rparr>]"
  let ?stmts = "stmts @ statements (bs ! T)"
  let ?v = "view bs bb stmts t"
  have v: "view ?bs bb ?stmts t' = ?v[T := (?v ! T)\<lparr>statements := [], terminator := None\<rparr>,
      bb := (?v ! bb)\<lparr>statements := statements (?v ! bb) @ statements (?v ! T), terminator := terminator (?v ! T)\<rparr>]"
    using T(3) bb(1) t' by (simp add: view_def list_update_swap [of T bb])
  have pos: "pc[T := 0] ! bb > 0" using T(3) bb(2) by simp
  show thesis
    using that [of ?bs "pc[T := 0]" ?stmts t' True] merge_full [OF sem inv _ bb(2) _ T v] bb T T_len t' pos
      countedD(1) [OF c]
    by (simp add: merge_successor_def)
qed

text \<open>The inner loop returns; unless it changed nothing, the weight has decreased.\<close>

lemma simplify_inner_ok:
  assumes "sem_ok sem" "simp_inv (view bs bb stmts t) pc start"
    "bb < length bs" "pc ! bb > 0" "terminator (bs ! bb) = None"
  shows "\<exists>bs' pc' stmts' t' ch'. simplify_inner bs pc stmts t ch = Ok (bs', pc', stmts', t', ch') \<and>
    simp_inv (view bs' bb stmts' t') pc' start \<and>
    keeps sem (view bs bb stmts t) pc (view bs' bb stmts' t') pc' \<and>
    (bs' = bs \<and> pc' = pc \<and> stmts' = stmts \<and> t' = t \<and> ch' = ch \<and>
       branch_done (term_kind t) \<and> merge_done pc bb (term_kind t) \<or>
     ch' \<and> weight (view bs' bb stmts' t') pc' < weight (view bs bb stmts t) pc)"
  using assms(2-5)
proof (induction bs pc stmts t ch rule: simplify_inner.induct)
  case (1 bs pc stmts t ch)
  obtain pc1 t1 b where b: "simplify_branch pc t = Ok (pc1, t1, b)" "simp_inv (view bs bb stmts t1) pc1 start"
    "keeps sem (view bs bb stmts t) pc (view bs bb stmts t1) pc1" "pc1 ! bb > 0"
    "b \<Longrightarrow> weight (view bs bb stmts t1) pc1 < weight (view bs bb stmts t) pc"
    "\<not> b \<Longrightarrow> pc1 = pc \<and> t1 = t \<and> branch_done (term_kind t)"
    using inner_branch [OF assms(1) "1.prems"(1-3)] by blast
  obtain bs2 pc2 stmts2 t2 m where m: "merge_successor bs pc1 stmts t1 = Ok (bs2, pc2, stmts2, t2, m)"
    "simp_inv (view bs2 bb stmts2 t2) pc2 start" "keeps sem (view bs bb stmts t1) pc1 (view bs2 bb stmts2 t2) pc2"
    "pc2 ! bb > 0" "terminator (bs2 ! bb) = None"
    "m \<Longrightarrow> weight (view bs2 bb stmts2 t2) pc2 < weight (view bs bb stmts t1) pc1"
    "\<not> m \<Longrightarrow> bs2 = bs \<and> pc2 = pc1 \<and> stmts2 = stmts \<and> t2 = t1 \<and> merge_done pc1 bb (term_kind t1)"
    using inner_merge [OF assms(1) b(2) "1.prems"(2) b(4) "1.prems"(4)] by blast
  note both = keeps_trans [OF b(3) m(3)]
  show ?case
  proof (cases "b \<or> m")
    case False
    with b m both show ?thesis by (subst simplify_inner.simps) auto
  next
    case True
    have less: "weight (view bs2 bb stmts2 t2) pc2 < weight (view bs bb stmts t) pc"
    proof -
      have "weight (view bs2 bb stmts2 t2) pc2 \<le> weight (view bs bb stmts t1) pc1"
        "weight (view bs bb stmts t1) pc1 \<le> weight (view bs bb stmts t) pc"
        using b(3) m(3) by (simp_all add: keeps_def)
      then show ?thesis using True b(5) m(6) by fastforce
    qed
    have len: "bb < length bs2" using m(3) "1.prems"(2) by (simp add: keeps_def)
    obtain bs3 pc3 stmts3 t3 ch3 where r: "simplify_inner bs2 pc2 stmts2 t2 True = Ok (bs3, pc3, stmts3, t3, ch3)"
      "simp_inv (view bs3 bb stmts3 t3) pc3 start"
      "keeps sem (view bs2 bb stmts2 t2) pc2 (view bs3 bb stmts3 t3) pc3" "ch3"
      using "1.IH" [OF b(1) refl refl m(1) refl refl refl refl True m(2) len m(4,5)] by (elim exE conjE) fastforce
    have "simplify_inner bs pc stmts t ch = Ok (bs3, pc3, stmts3, t3, ch3)"
      using b(1) m(1) True r(1) by (subst simplify_inner.simps) auto
    moreover have "weight (view bs3 bb stmts3 t3) pc3 < weight (view bs bb stmts t) pc"
      using r(3) less by (auto simp: keeps_def)
    ultimately show ?thesis using r keeps_trans [OF both r(3)] by blast
  qed
qed

subsection \<open>The successors of one block\<close>

lemma alike_Goto: "alike k (Goto m) \<Longrightarrow> \<exists>q. k = Goto q"
  by (cases k) (auto simp: alike_def shape_def)

lemma alike_is_switch: "alike k k' \<Longrightarrow> is_switch k = is_switch k'"
  by (cases k; cases k') (auto simp: alike_def shape_def is_switch_def)

text \<open>Blocks redirected one after the other.\<close>

definition all_redirected :: "basic_block_data list \<Rightarrow> basic_block_data list \<Rightarrow> bool" where
  "all_redirected bs bs' \<longleftrightarrow> length bs' = length bs \<and> (\<forall>n<length bs. redirected bs (bs ! n) (bs' ! n))"

lemma redirected_jumps:
  assumes "all_redirected bs bs'" "jumps bs' n m"
  shows "\<exists>q. jumps bs n q \<and> (jumps bs)\<^sup>*\<^sup>* q m"
proof -
  have n: "n < length bs" using assms by (simp add: jumps_def all_redirected_def)
  obtain t' where t': "terminator (bs' ! n) = Some t'" "term_kind t' = Goto m" "statements (bs' ! n) = []"
    using assms(2) by (auto simp: jumps_def)
  moreover have "redirected bs (bs ! n) (bs' ! n)" using assms(1) n by (simp add: all_redirected_def)
  ultimately obtain t where t: "terminator (bs ! n) = Some t" "statements (bs ! n) = []"
    "alike (term_kind t) (Goto m)" "list_all2 (jumps bs)\<^sup>*\<^sup>* (successors (term_kind t)) [m]"
    by (auto simp: redirected_def option_rel_Some2)
  from alike_Goto [OF t(3)] obtain q where q: "term_kind t = Goto q" ..
  with t n have "jumps bs n q" "(jumps bs)\<^sup>*\<^sup>* q m" by (auto simp: jumps_def)
  then show ?thesis by blast
qed

lemma redirected_jumps_star:
  assumes "all_redirected bs bs'" "(jumps bs')\<^sup>*\<^sup>* n m"
  shows "(jumps bs)\<^sup>*\<^sup>* n m"
  using assms(2)
proof (induction rule: rtranclp_induct)
  case (step m m')
  with redirected_jumps [OF assms(1)] show ?case
    by (meson converse_rtranclp_into_rtranclp rtranclp_trans)
qed simp

lemma list_all2_trans_star:
  "list_all2 r\<^sup>*\<^sup>* xs ys \<Longrightarrow> list_all2 r\<^sup>*\<^sup>* ys zs \<Longrightarrow> list_all2 r\<^sup>*\<^sup>* xs zs"
  by (rule list_all2_trans [of "r\<^sup>*\<^sup>*" "r\<^sup>*\<^sup>*"]) auto

lemma redirected_trans:
  assumes "redirected bs d d'" "redirected bs' d' d''" "all_redirected bs bs'"
  shows "redirected bs d d''"
proof -
  have mono: "list_all2 (jumps bs')\<^sup>*\<^sup>* xs ys \<Longrightarrow> list_all2 (jumps bs)\<^sup>*\<^sup>* xs ys" for xs ys
    by (erule list_all2_mono) (rule redirected_jumps_star [OF assms(3)])
  show ?thesis
  proof (cases "terminator d")
    case None
    with assms show ?thesis by (auto simp: redirected_def)
  next
    case (Some t)
    with assms(1) obtain t' where t': "terminator d' = Some t'" "alike (term_kind t) (term_kind t')"
      "list_all2 (jumps bs)\<^sup>*\<^sup>* (successors (term_kind t)) (successors (term_kind t'))"
      by (auto simp: redirected_def option_rel_Some1)
    with assms(2) obtain t'' where t'': "terminator d'' = Some t''" "alike (term_kind t') (term_kind t'')"
      "list_all2 (jumps bs')\<^sup>*\<^sup>* (successors (term_kind t')) (successors (term_kind t''))"
      by (auto simp: redirected_def option_rel_Some1)
    have "alike (term_kind t) (term_kind t'')" using t'(2) t''(2) by (simp add: alike_def)
    with t' t'' Some assms(1,2) show ?thesis
      using list_all2_trans_star [OF t'(3) mono [OF t''(3)]] by (simp add: redirected_def)
  qed
qed

lemma all_redirected_trans:
  "all_redirected bs bs1 \<Longrightarrow> all_redirected bs1 bs2 \<Longrightarrow> all_redirected bs bs2"
  using redirected_trans [of bs _ _ bs1] by (auto simp: all_redirected_def)

text \<open>The effect of collapsing the chains at all successors of a terminator that has been taken out.\<close>

definition collapses_all ::
    "basic_block_data list \<Rightarrow> nat list \<Rightarrow> nat multiset \<Rightarrow> nat list \<Rightarrow> bool
     \<Rightarrow> basic_block_data list \<Rightarrow> nat list \<Rightarrow> nat list \<Rightarrow> bool \<Rightarrow> bool" where
  "collapses_all bs pc held xs ch bs' pc' ys ch' \<longleftrightarrow>
     counted bs' pc' (mset ys + held) \<and> all_redirected bs bs' \<and> list_all2 (jumps bs)\<^sup>*\<^sup>* xs ys \<and>
     (\<forall>n<length bs. pc ! n = 0 \<longrightarrow> pc' ! n = 0) \<and>
     (\<forall>n. n \<notin> set ys \<longrightarrow> count (mset ys + held + live_refs bs' pc') n \<le> count (mset xs + held + live_refs bs pc) n) \<and>
     (\<forall>n. \<not> Domainp (jumps bs) n \<longrightarrow>
        count (mset xs + held + live_refs bs pc) n \<le> count (mset ys + held + live_refs bs' pc') n) \<and>
     skippable_refs bs' (mset ys + held + live_refs bs' pc') + (if ch' \<and> \<not> ch then 1 else 0)
       \<le> skippable_refs bs (mset xs + held + live_refs bs pc) \<and>
     (ch \<longrightarrow> ch') \<and> (\<not> ch' \<longrightarrow> bs' = bs \<and> pc' = pc \<and> ys = xs \<and> (\<forall>x\<in>set xs. \<not> skippable bs x)) \<and>
     (\<forall>x y. joined bs x y \<longrightarrow> joined bs' x y) \<and> (xs = [] \<longrightarrow> bs' = bs) \<and> (\<forall>x. xs = [x] \<longrightarrow> (\<exists>C. chain bs bs' C x (hd ys)))"

lemma collapses_allD:
  assumes "collapses_all bs pc held xs ch bs' pc' ys ch'"
  shows "counted bs' pc' (mset ys + held)" "all_redirected bs bs'" "list_all2 (jumps bs)\<^sup>*\<^sup>* xs ys"
    "n < length bs \<Longrightarrow> pc ! n = 0 \<Longrightarrow> pc' ! n = 0"
    "n \<notin> set ys \<Longrightarrow> count (mset ys + held + live_refs bs' pc') n \<le> count (mset xs + held + live_refs bs pc) n"
    "\<not> Domainp (jumps bs) n \<Longrightarrow>
      count (mset xs + held + live_refs bs pc) n \<le> count (mset ys + held + live_refs bs' pc') n"
    "skippable_refs bs' (mset ys + held + live_refs bs' pc') + (if ch' \<and> \<not> ch then 1 else 0)
       \<le> skippable_refs bs (mset xs + held + live_refs bs pc)"
    "ch \<Longrightarrow> ch'" "\<not> ch' \<Longrightarrow> bs' = bs \<and> pc' = pc \<and> ys = xs \<and> (\<forall>x\<in>set xs. \<not> skippable bs x)"
    "joined bs u v \<Longrightarrow> joined bs' u v" "xs = [] \<Longrightarrow> bs' = bs" "xs = [x] \<Longrightarrow> \<exists>C. chain bs bs' C x (hd ys)"
  using assms unfolding collapses_all_def by blast+

lemma collapsesD:
  assumes "collapses bs pc held start ch bs' pc' target ch'"
  shows "counted bs' pc' (add_mset target held)" "all_redirected bs bs'" "(jumps bs)\<^sup>*\<^sup>* start target"
    "n < length bs \<Longrightarrow> pc ! n = 0 \<Longrightarrow> pc' ! n = 0" "\<not> skippable bs' target"
    "n \<noteq> target \<Longrightarrow>
      count (add_mset target held + live_refs bs' pc') n \<le> count (add_mset start held + live_refs bs pc) n"
    "\<not> Domainp (jumps bs) n \<Longrightarrow>
      count (add_mset start held + live_refs bs pc) n \<le> count (add_mset target held + live_refs bs' pc') n"
    "skippable_refs bs' (add_mset target held + live_refs bs' pc') + (if ch' \<and> \<not> ch then 1 else 0)
       \<le> skippable_refs bs (add_mset start held + live_refs bs pc)"
    "ch \<Longrightarrow> ch'" "\<not> ch' \<Longrightarrow> bs' = bs \<and> pc' = pc \<and> target = start \<and> \<not> skippable bs start"
    "\<exists>C. chain bs bs' C start target"
  using assms unfolding collapses_def all_redirected_def by blast+

lemma collapses_all_Nil: "counted bs pc held \<Longrightarrow> collapses_all bs pc held [] ch bs pc [] ch"
  by (simp add: collapses_all_def all_redirected_def)

lemma collapses_all_Cons:
  assumes first: "collapses bs pc (mset xs + held) x ch bs1 pc1 y ch1"
    and rest: "collapses_all bs1 pc1 (add_mset y held) xs ch1 bs2 pc2 ys ch2"
  shows "collapses_all bs pc held (x # xs) ch bs2 pc2 (y # ys) ch2"
proof -
  have R: "mset (x # xs) + held = add_mset x (mset xs + held)" "mset (y # ys) + held = mset ys + add_mset y held"
    "add_mset y (mset xs + held) = mset xs + add_mset y held" by (simp_all add: union_ac)
  note f = collapsesD [OF first, unfolded R(3)] and r = collapses_allD [OF rest]
  have len: "length bs1 = length bs" using f(2) by (simp add: all_redirected_def)
  have no_jump: "\<not> Domainp (jumps bs1) n" if "\<not> Domainp (jumps bs) n" for n
    using that redirected_jumps [OF f(2)] by blast
  have "list_all2 (jumps bs)\<^sup>*\<^sup>* xs ys"
    using r(3) by (rule list_all2_mono) (rule redirected_jumps_star [OF f(2)])
  with f(3) have "list_all2 (jumps bs)\<^sup>*\<^sup>* (x # xs) (y # ys)" by simp
  moreover have "joined bs2 u v" if "joined bs u v" for u v
    using f(11) r(10) that chain_joined len by blast
  moreover have "\<exists>C. chain bs bs2 C x y" if "xs = []" using f(11) r(11) [OF that] by simp
  moreover have "count (mset ys + add_mset y held + live_refs bs2 pc2) n \<le>
      count (add_mset x (mset xs + held) + live_refs bs pc) n" if "n \<notin> set (y # ys)" for n
    using that by (intro order_trans [OF r(5) f(6)]) auto
  moreover have "count (add_mset x (mset xs + held) + live_refs bs pc) n \<le>
      count (mset ys + add_mset y held + live_refs bs2 pc2) n" if "\<not> Domainp (jumps bs) n" for n
    using that by (intro order_trans [OF f(7) r(6)] no_jump)
  moreover have "skippable_refs bs2 (mset ys + add_mset y held + live_refs bs2 pc2) + (if ch2 \<and> \<not> ch then 1 else 0)
      \<le> skippable_refs bs (add_mset x (mset xs + held) + live_refs bs pc)"
    using f(8) r(7) by (cases ch; cases ch1; cases ch2) simp_all
  moreover have "pc2 ! n = 0" if "n < length bs" "pc ! n = 0" for n
    using r(4) [of n] f(4) [OF that] that(1) len by simp
  moreover have "bs2 = bs \<and> pc2 = pc \<and> y # ys = x # xs \<and> (\<forall>z\<in>set (x # xs). \<not> skippable bs z)" if "\<not> ch2"
    using r(9) [OF that] f(10) r(8) that by auto
  moreover have "ch \<longrightarrow> ch2" "all_redirected bs bs2"
    using f(9) r(8) all_redirected_trans [OF f(2) r(2)] by blast+
  ultimately show ?thesis
    unfolding collapses_all_def R using r(1) by simp
qed

lemma collapse_successors_ok:
  assumes "counted bs pc (mset xs + (mset ds + held))"
  shows "\<exists>bs' pc' ys ch'. res_for xs collapse_successor (bs, pc, ds, ch) = Ok (bs', pc', ds @ ys, ch') \<and>
    collapses_all bs pc (mset ds + held) xs ch bs' pc' ys ch'"
  using assms
proof (induction xs arbitrary: bs pc ds ch)
  case Nil
  then show ?case using collapses_all_Nil by fastforce
next
  case (Cons x xs)
  have "counted bs pc (add_mset x (mset xs + (mset ds + held)))" using Cons.prems by simp
  from collapse_goto_chain_ok [OF this, of ch] obtain bs1 pc1 y ch1 where
    first: "collapse_goto_chain bs pc x ch = Ok (bs1, pc1, y, ch1)"
    "collapses bs pc (mset xs + (mset ds + held)) x ch bs1 pc1 y ch1" by blast
  have "counted bs1 pc1 (mset xs + (mset (ds @ [y]) + held))"
    using first(2) by (simp add: collapses_def union_ac)
  from Cons.IH [OF this, of ch1] obtain bs2 pc2 ys ch2 where
    rest: "res_for xs collapse_successor (bs1, pc1, ds @ [y], ch1) = Ok (bs2, pc2, (ds @ [y]) @ ys, ch2)"
    "collapses_all bs1 pc1 (mset (ds @ [y]) + held) xs ch1 bs2 pc2 ys ch2" by blast
  have "collapses_all bs pc (mset ds + held) (x # xs) ch bs2 pc2 (y # ys) ch2"
    using collapses_all_Cons [OF first(2)] rest(2) by simp
  moreover have "res_for (x # xs) collapse_successor (bs, pc, ds, ch) = Ok (bs2, pc2, ds @ y # ys, ch2)"
    using first(1) rest(1) by (simp add: collapse_successor_def [of x])
  ultimately show ?case by blast
qed

end
