(* ===== verification/Simplify_Cfg_Props.thy ===== *)
theory Simplify_Cfg_Props
  imports Simplify_Cfg
begin

text \<open>
  The simplifier as a whole: every step over a block, a round and the loop keep the invariant and
  the runs, the loop returns because each round that changes something decreases a measure, and the
  start block can be moved back to its place at the end because nothing leads to its old place.
\<close>

section \<open>Steps over one block\<close>

definition skips :: "basic_block_data list \<Rightarrow> nat list \<Rightarrow> nat \<Rightarrow> nat" where
  "skips bs pc start = skippable_refs bs ({#start#} + live_refs bs pc)"

text \<open>A live block has nothing left to simplify.\<close>

definition settled :: "basic_block_data list \<Rightarrow> nat list \<Rightarrow> nat \<Rightarrow> bool" where
  "settled bs pc bb \<longleftrightarrow> (\<exists>t. terminator (bs ! bb) = Some t \<and> branch_done (term_kind t) \<and>
     merge_done pc bb (term_kind t) \<and> (\<forall>x\<in>set (successors (term_kind t)). \<not> skippable bs x))"

lemma weight_redirected:
  assumes red: "all_redirected bs bs'" and dead: "\<And>n. n < length bs \<Longrightarrow> pc ! n = 0 \<Longrightarrow> pc' ! n = 0"
  shows "weight bs' pc' \<le> weight bs pc"
proof -
  have same: "block_weight (bs' ! n) = block_weight (bs ! n)" if "n < length bs" for n
  proof -
    have "redirected bs (bs ! n) (bs' ! n)" using red that by (simp add: all_redirected_def)
    then show ?thesis
      by (auto simp: redirected_def block_weight_def rel_option_iff dest: alike_is_switch split: option.splits)
  qed
  have "(if pc' ! n > 0 then block_weight (bs' ! n) else 0) \<le> (if pc ! n > 0 then block_weight (bs ! n) else 0)"
    if "n < length bs" for n
    using same [OF that] dead [OF that] by auto
  moreover have "length bs' = length bs" using red by (simp add: all_redirected_def)
  ultimately show ?thesis unfolding weight_def by (auto intro!: sum_mono)
qed

lemma redirected_keeps:
  assumes "sem_ok sem" "all_redirected bs bs'" "\<And>n. n < length bs \<Longrightarrow> pc ! n = 0 \<Longrightarrow> pc' ! n = 0"
  shows "keeps sem bs pc bs' pc'"
proof -
  have "pc ! n > 0" if "n < length bs" "pc' ! n > 0" for n using assms(3) [OF that(1)] that(2) by fastforce
  then show ?thesis
    using assms(2) weight_redirected [OF assms(2,3)] runs_redirected [OF assms(1), of bs' bs]
    by (simp add: keeps_def all_redirected_def)
qed

lemma redirected_present: "redirected bs d d' \<Longrightarrow> terminator d' = None \<longleftrightarrow> terminator d = None"
  by (auto simp: redirected_def rel_option_iff split: option.splits)

text \<open>Redirecting edges along jumps keeps what is reached: a reached block leads to a reached one by
  jumps alone, and blocks with references that were no longer reached would be a cycle of jumps that
  is joined with a reached block.\<close>

lemma jumps_leads: "jumps bs n m \<Longrightarrow> block_edge bs n q \<longleftrightarrow> q = m"
  by (auto simp: jumps_def block_edge_def term_succs_def)

lemma jumps_star_leads: "(jumps bs)\<^sup>*\<^sup>* n m \<Longrightarrow> (block_edge bs)\<^sup>*\<^sup>* n m"
proof (induction rule: rtranclp_induct)
  case (step m q)
  then show ?case using jumps_leads [of bs m q q] by auto
qed simp

lemma redirected_path:
  assumes red: "all_redirected bs bs'" and start: "(jumps bs)\<^sup>*\<^sup>* start start'" and path: "(block_edge bs)\<^sup>*\<^sup>* start n"
  shows "\<exists>y. (block_edge bs')\<^sup>*\<^sup>* start' y \<and> (jumps bs)\<^sup>*\<^sup>* n y"
  using path
proof (induction rule: rtranclp_induct)
  case base
  then show ?case using start by blast
next
  case (step n m)
  then obtain y where y: "(block_edge bs')\<^sup>*\<^sup>* start' y" "(jumps bs)\<^sup>*\<^sup>* n y" by blast
  from y(2) show ?case
  proof (cases rule: converse_rtranclpE)
    case base
    have n: "n < length bs" "m \<in> set (term_succs (bs ! n))" using step.hyps(2) by (simp_all add: block_edge_def)
    have "redirected bs (bs ! n) (bs' ! n)" using red n(1) by (simp add: all_redirected_def)
    then have "list_all2 (jumps bs)\<^sup>*\<^sup>* (term_succs (bs ! n)) (term_succs (bs' ! n))"
      by (auto simp: redirected_def term_succs_def rel_option_iff split: option.splits)
    with n(2) obtain i where "i < length (term_succs (bs' ! n))" "(jumps bs)\<^sup>*\<^sup>* m (term_succs (bs' ! n) ! i)"
      by (auto simp: list_all2_conv_all_nth in_set_conv_nth)
    then obtain m' where "m' \<in> set (term_succs (bs' ! n))" "(jumps bs)\<^sup>*\<^sup>* m m'" using nth_mem by blast
    moreover have "block_edge bs' n m'" using calculation(1) n(1) red by (simp add: block_edge_def all_redirected_def)
    ultimately show ?thesis using y(1) base by (meson rtranclp.rtrancl_into_rtrancl)
  next
    case (step q)
    have "m = q" using jumps_leads [OF step(1), of m] \<open>block_edge bs n m\<close> by simp
    with step(2) y(1) show ?thesis by blast
  qed
qed

lemma redirected_reached:
  assumes c: "counted bs' pc' {#start'#}" and red: "all_redirected bs bs'" and start: "(jumps bs)\<^sup>*\<^sup>* start start'"
    and join: "\<And>x y. joined bs x y \<Longrightarrow> joined bs' x y"
    and live: "\<And>n. n < length bs \<Longrightarrow> pc' ! n > 0 \<Longrightarrow> pc ! n > 0" and reach: "reached bs pc start"
  shows "reached bs' pc' start'"
proof -
  define U where "U = {n \<in> live_blocks bs' pc'. \<not> (block_edge bs')\<^sup>*\<^sup>* start' n}"
  have len: "length bs' = length bs" using red by (simp add: all_redirected_def)
  have meet: "\<exists>e. (jumps bs')\<^sup>*\<^sup>* n e \<and> (block_edge bs')\<^sup>*\<^sup>* start' e" if "n \<in> U" for n
  proof -
    have "(block_edge bs)\<^sup>*\<^sup>* start n" using that live reach len by (auto simp: U_def reached_def)
    from redirected_path [OF red start this] obtain y where y: "(block_edge bs')\<^sup>*\<^sup>* start' y" "(jumps bs)\<^sup>*\<^sup>* n y" by blast
    then have "joined bs n y" unfolding joined_def by blast
    then obtain e where "(jumps bs')\<^sup>*\<^sup>* n e" "(jumps bs')\<^sup>*\<^sup>* y e" using join unfolding joined_def by blast
    then show ?thesis using y(1) jumps_star_leads [of bs' y e] by (meson rtranclp_trans)
  qed
  have jump: "\<exists>m. jumps bs' n m" if "n \<in> U" for n
    using meet [OF that] that by (auto simp: U_def elim: converse_rtranclpE)
  let ?f = "\<lambda>n. the (goto_target (bs' ! n))"
  have onto: "U \<subseteq> ?f ` U"
  proof
    fix n assume n: "n \<in> U"
    then have "n \<noteq> start'" "n < length bs'" "pc' ! n > 0" by (auto simp: U_def)
    then have "count (live_refs bs' pc') n > 0" using countedD(2) [OF c, of n] by simp
    then have "n \<in># live_refs bs' pc'" by (simp add: count_greater_zero_iff)
    then obtain q where q: "q < length bs'" "pc' ! q > 0" "n \<in> set (term_succs (bs' ! q))"
      unfolding live_refs_def by (auto simp: block_refs_def set_mset_sum split: if_splits)
    then have lead: "block_edge bs' q n" by (simp add: block_edge_def)
    with n q have U: "q \<in> U" by (auto simp: U_def intro: rtranclp.rtrancl_into_rtrancl)
    with jump obtain m where m: "jumps bs' q m" by blast
    with lead have "jumps bs' q n" using jumps_leads [OF m, of n] by simp
    then have "?f q = n" by (simp add: jumps_goto_target)
    with U show "n \<in> ?f ` U" by blast
  qed
  have fin: "finite U" unfolding U_def by simp
  have "card (?f ` U) \<le> card U" by (rule card_image_le [OF fin])
  with card_seteq [OF finite_imageI [OF fin] onto] have perm: "U = ?f ` U" by blast
  have stay: "e \<in> U" if "(jumps bs')\<^sup>*\<^sup>* n e" "n \<in> U" for n e
    using that
  proof (induction rule: rtranclp_induct)
    case (step m q)
    then have "?f m = q" "m \<in> U" by (simp_all add: jumps_goto_target)
    then have "q \<in> ?f ` U" by blast
    then show ?case using perm by simp
  qed
  have "n \<notin> U" for n
  proof
    assume "n \<in> U"
    from meet [OF this] obtain e where e: "(jumps bs')\<^sup>*\<^sup>* n e" "(block_edge bs')\<^sup>*\<^sup>* start' e" by blast
    with stay [OF e(1) \<open>n \<in> U\<close>] show False by (simp add: U_def)
  qed
  then show ?thesis unfolding reached_def U_def by blast
qed

text \<open>Collapsing the chains behind a block, seen on the blocks with the terminator put back.\<close>

lemma collapsed_block:
  assumes sem: "sem_ok sem" and inv: "simp_inv bs pc start"
    and bb: "bb < length bs" "pc ! bb > 0" "terminator (bs ! bb) = Some t"
    and all: "collapses_all (set_terminator bb None bs) pc {#start#} (successors (term_kind t)) ch bs1 pc1 ys ch1"
    and t1: "t1 = t\<lparr>term_kind := with_successors (term_kind t) ys\<rparr>"
  shows "simp_inv (view bs1 bb [] t1) pc1 start" "keeps sem bs pc (view bs1 bb [] t1) pc1"
    "skips (view bs1 bb [] t1) pc1 start + (if ch1 \<and> \<not> ch then 1 else 0) \<le> skips bs pc start"
    "pc1 ! bb > 0" "terminator (bs1 ! bb) = None" "length bs1 = length bs"
    "\<not> ch1 \<Longrightarrow> view bs1 bb [] t1 = bs \<and> pc1 = pc \<and> t1 = t \<and>
       (\<forall>x\<in>set (successors (term_kind t)). \<not> skippable bs x)"
proof -
  let ?bs0 = "set_terminator bb None bs"
  let ?F = "view bs1 bb [] t1"
  note a = collapses_allD [OF all]
  have c: "counted bs pc {#start#}" using inv by (simp add: simp_inv_def)
  have ys: "length ys = length (successors (term_kind t))" using a(3) by (simp add: list_all2_lengthD)
  then have succ1: "successors (term_kind t1) = ys" by (simp add: t1)
  show len: "length bs1 = length bs" using a(2) by (simp add: all_redirected_def)
  have red: "redirected ?bs0 (?bs0 ! n) (bs1 ! n)" if "n < length bs" for n
    using a(2) that by (simp add: all_redirected_def)
  show hole: "terminator (bs1 ! bb) = None" using red [OF bb(1)] bb(1) by (simp add: redirected_def)
  have R0: "mset (successors (term_kind t)) + {#start#} + live_refs ?bs0 pc = {#start#} + live_refs bs pc"
    using counted_take(2) [OF c bb(1,2)] bb(3) by (simp add: term_succs_def)
  have no_jump: "\<not> Domainp (jumps ?bs0) bb" using bb(1) by (auto simp: jumps_def)
  have jump0: "jumps ?bs0 n m \<Longrightarrow> jumps bs n m" for n m by (cases "n = bb") (auto simp: jumps_def)
  show live: "pc1 ! bb > 0"
    using a(6) [OF no_jump] countedD(2) [OF a(1), of bb] countedD(2) [OF c bb(1)] bb len unfolding R0 by simp
  have R1: "mset ys + {#start#} + live_refs bs1 pc1 = {#start#} + live_refs ?F pc1"
    using live_refs_view [of bb bs1 pc1 "[]" t1] bb(1) len live hole succ1 by (simp add: union_ac)
  have c1: "counted ?F pc1 {#start#}"
    using counted_view [of bb bs1 pc1 "[]" t1] bb(1) len live hole a(1) succ1 by simp
  have "redirected bs (bs ! n) (?F ! n)" if n: "n < length bs" for n
  proof (cases "n = bb")
    case True
    have "list_all2 (jumps bs)\<^sup>*\<^sup>* (successors (term_kind t)) ys"
      using a(3) by (rule list_all2_mono) (meson jump0 mono_rtranclp)
    moreover have "statements (bs1 ! bb) = statements (bs ! bb)"
      using red [OF bb(1)] bb(1) by (simp add: redirected_def)
    moreover have "alike (term_kind t) (term_kind t1)"
      using alike_with_successors [OF ys] by (simp add: t1 alike_def)
    ultimately show ?thesis using True bb succ1 len by (simp add: redirected_def)
  next
    case False
    then show ?thesis using redirected_mono [OF red [OF n] jump0] by simp
  qed
  then have redF: "all_redirected bs ?F" using len by (simp add: all_redirected_def)
  show keeps: "keeps sem bs pc ?F pc1" using redirected_keeps [OF sem redF] a(4) by simp
  have join: "joined ?F x y" if "joined bs x y" for x y
  proof (cases "Domainp (jumps bs) bb")
    case True
    then obtain m where m: "jumps bs bb m" by blast
    then have m': "term_kind t = Goto m" "statements (bs ! bb) = []" using bb(3) by (auto simp: jumps_def)
    then obtain y' where y': "ys = [y']" using ys by (auto simp: length_Suc_conv)
    from a(12) [of m] m' y' obtain C where "chain ?bs0 bs1 C m y'" by auto
    moreover have "jumps ?F bb y'"
      using red [OF bb(1)] bb len m' y' by (simp add: jumps_def t1 redirected_def)
    ultimately have "chain bs ?F (insert bb C) bb y'"
      using chain_extend [OF m, of bs1 C y' ?F] by simp
    then show ?thesis using chain_joined that len by (metis length_view)
  next
    case False
    then have "jumps ?bs0 n m" if "jumps bs n m" for n m
      using that by (cases "n = bb") (auto simp: jumps_def)
    then have "joined ?bs0 x y" using that joined_mono by blast
    then have "joined bs1 x y" by (rule a(10))
    moreover have "jumps ?F n m" if "jumps bs1 n m" for n m
      using that hole len by (cases "n = bb") (auto simp: jumps_def)
    ultimately show ?thesis using joined_mono by blast
  qed
  have "terminator (?F ! n) \<noteq> None" if "n < length bs" "pc1 ! n > 0" for n
  proof -
    have "pc ! n > 0" using a(4) [of n] that by fastforce
    then have present: "terminator (bs ! n) \<noteq> None" using inv that(1) by (simp add: simp_inv_def)
    have red_n: "redirected bs (bs ! n) (?F ! n)" using redF that(1) unfolding all_redirected_def by blast
    show ?thesis using present unfolding redirected_present [OF red_n] .
  qed
  moreover have "START_BLOCK < length bs" using bb(1) unfolding START_BLOCK_def by linarith
  moreover have "reached bs pc start" using inv by (simp add: simp_inv_def)
  then have "reached ?F pc1 start"
    by (rule redirected_reached [OF c1 redF rtranclp.rtrancl_refl join, rotated 2]) (use a(4) in fastforce)+
  ultimately show "simp_inv ?F pc1 start"
    using c1 join inv a(4) [of START_BLOCK] len unfolding simp_inv_def by fastforce
  have skip0: "skippable bs n \<longleftrightarrow> skippable ?bs0 n \<or> n = bb \<and> skippable bs bb" for n
    using bb(1) by (cases "n = bb") (auto simp: skippable_def goto_target_def)
  have skip1: "skippable ?F n \<longleftrightarrow> skippable bs1 n \<or> n = bb \<and> skippable ?F bb" for n
    using bb(1) len hole by (cases "n = bb") (auto simp: skippable_def goto_target_def)
  have holes: "\<not> skippable ?bs0 bb" "\<not> skippable bs1 bb"
    using bb(1) hole by (auto simp: skippable_def goto_target_def)
  have at_bb: "skippable bs bb \<and> count ({#start#} + live_refs ?F pc1) bb \<le> count ({#start#} + live_refs bs pc) bb"
    if skip: "skippable ?F bb"
  proof -
    obtain y where y: "statements (bs1 ! bb) = []" "term_kind t1 = Goto y" "y \<noteq> bb"
      using skip bb(1) len by (auto simp: skippable_def goto_target_Some)
    moreover have "alike (term_kind t) (term_kind t1)" using alike_with_successors [OF ys] by (simp add: t1 alike_def)
    ultimately obtain m where m: "term_kind t = Goto m" using alike_Goto by metis
    have ys': "ys = [y]" using succ1 y(2) by simp
    have "m \<noteq> bb"
      using a(3) m ys' no_jump y(3) by (auto elim: converse_rtranclpE)
    moreover have "statements (bs ! bb) = []" using red [OF bb(1)] bb(1) y(1) by (simp add: redirected_def)
    ultimately have "skippable bs bb" using m bb by (auto simp: skippable_def goto_target_Some)
    moreover have "bb \<notin> set ys" using ys' y(3) by simp
    ultimately show ?thesis using a(5) [of bb] unfolding R0 R1 by blast
  qed
  have "skips bs pc start = skippable_refs ?bs0 ({#start#} + live_refs bs pc) +
      (if skippable bs bb then count ({#start#} + live_refs bs pc) bb else 0)"
    unfolding skips_def skippable_refs_def by (rule size_filter_split [OF skip0 holes(1)])
  moreover have "skips ?F pc1 start = skippable_refs bs1 ({#start#} + live_refs ?F pc1) +
      (if skippable ?F bb then count ({#start#} + live_refs ?F pc1) bb else 0)"
    unfolding skips_def skippable_refs_def by (rule size_filter_split [OF skip1 holes(2)])
  moreover note a(7) [unfolded R0 R1]
  moreover have "(if skippable ?F bb then count ({#start#} + live_refs ?F pc1) bb else 0) \<le>
      (if skippable bs bb then count ({#start#} + live_refs bs pc) bb else 0)"
    using at_bb by (cases "skippable ?F bb") (simp_all del: count_union)
  ultimately show "skips ?F pc1 start + (if ch1 \<and> \<not> ch then 1 else 0) \<le> skips bs pc start"
    by linarith
  show "?F = bs \<and> pc1 = pc \<and> t1 = t \<and> (\<forall>x\<in>set (successors (term_kind t)). \<not> skippable bs x)" if "\<not> ch1"
  proof -
    have same: "bs1 = ?bs0" "pc1 = pc" "ys = successors (term_kind t)"
      "\<forall>x\<in>set (successors (term_kind t)). \<not> skippable ?bs0 x" using a(9) [OF that] by blast+
    have t: "t1 = t" by (simp add: t1 same(3))
    moreover have "(bs ! bb)\<lparr>terminator := Some t\<rparr> = bs ! bb" using bb(3) by simp
    ultimately have "?F = bs" using bb(1) by (simp add: same(1) view_def set_terminator_def)
    moreover have "\<not> skippable bs x" if "x \<in> set (successors (term_kind t))" for x
      using that same(4) skip0 [of x] bb by (auto simp: skippable_def goto_target_Some)
    ultimately show ?thesis using t same(2) by blast
  qed
qed

text \<open>One step of the loop over the blocks. Unless it changed nothing, the weight has decreased, or it
  is the same and there are fewer references to skippable blocks.\<close>

definition improves :: "basic_block_data list \<Rightarrow> nat list \<Rightarrow> nat \<Rightarrow> basic_block_data list \<Rightarrow> nat list \<Rightarrow> nat \<Rightarrow> bool \<Rightarrow> bool" where
  "improves bs pc start bs' pc' start' strict \<longleftrightarrow> weight bs' pc' < weight bs pc \<or>
     weight bs' pc' = weight bs pc \<and> skips bs' pc' start' + (if strict then 1 else 0) \<le> skips bs pc start"

lemma improvesI:
  "weight bs' pc' \<le> weight bs pc \<Longrightarrow> skips bs' pc' start' + (if strict then 1 else 0) \<le> skips bs pc start \<Longrightarrow>
    improves bs pc start bs' pc' start' strict"
  by (auto simp: improves_def)

lemma improves_trans:
  "improves bs pc start bs1 pc1 start1 (ch1 \<and> \<not> ch) \<Longrightarrow> improves bs1 pc1 start1 bs2 pc2 start2 (ch2 \<and> \<not> ch1) \<Longrightarrow>
    improves bs pc start bs2 pc2 start2 (ch2 \<and> \<not> ch)"
  by (cases ch; cases ch1; cases ch2) (auto simp: improves_def)

definition block_done :: "'st mir_sem \<Rightarrow> nat \<Rightarrow> nat set \<Rightarrow> cfg_simplifier \<times> bool \<Rightarrow> cfg_simplifier \<times> bool \<Rightarrow> bool" where
  "block_done sem start B = (\<lambda>(cs, ch) (cs', ch').
     simp_inv (cs_blocks cs') (cs_pred_count cs') start \<and>
     keeps sem (cs_blocks cs) (cs_pred_count cs) (cs_blocks cs') (cs_pred_count cs') \<and>
     improves (cs_blocks cs) (cs_pred_count cs) start (cs_blocks cs') (cs_pred_count cs') start (ch' \<and> \<not> ch) \<and>
     (ch \<longrightarrow> ch') \<and>
     (\<not> ch' \<longrightarrow> cs' = cs \<and>
        (\<forall>bb\<in>B. cs_pred_count cs ! bb > 0 \<longrightarrow> settled (cs_blocks cs) (cs_pred_count cs) bb)))"

lemma simplify_block_ok:
  assumes sem: "sem_ok sem" and inv: "simp_inv (cs_blocks cs) (cs_pred_count cs) start"
    and bb: "bb < length (cs_blocks cs)"
  shows "\<exists>r. simplify_block bb (cs, ch) = Ok r \<and> block_done sem start {bb} (cs, ch) r"
proof -
  let ?bs = "cs_blocks cs" and ?pc = "cs_pred_count cs"
  have c: "counted ?bs ?pc {#start#}" using inv by (simp add: simp_inv_def)
  note D = countedD [OF c]
  show ?thesis
  proof (cases "?pc ! bb = 0")
    case True
    then have "simplify_block bb (cs, ch) = Ok (cs, ch)" using bb D(1) by (simp add: simplify_block_def)
    then show ?thesis using inv True by (auto simp: block_done_def improves_def)
  next
    case False
    then have live: "?pc ! bb > 0" by simp
    with inv bb obtain t where t: "terminator (?bs ! bb) = Some t" by (auto simp: simp_inv_def)
    let ?hole = "set_terminator bb None ?bs"
    have "counted ?hole ?pc (mset (successors (term_kind t)) + (mset [] + {#start#}))"
      using counted_take(1) [OF c bb live] t by (simp add: term_succs_def)
    from collapse_successors_ok [OF this, of ch] obtain bs1 pc1 ys ch1 where
      col: "res_for (successors (term_kind t)) collapse_successor (?hole, ?pc, [], ch) = Ok (bs1, pc1, ys, ch1)"
      "collapses_all ?hole ?pc {#start#} (successors (term_kind t)) ch bs1 pc1 ys ch1" by auto
    let ?t1 = "t\<lparr>term_kind := with_successors (term_kind t) ys\<rparr>"
    note b = collapsed_block [OF sem inv bb live t col(2) refl]
    from simplify_inner_ok [OF sem b(1) bb [folded b(6)] b(4,5), of ch1] obtain bs2 pc2 stmts2 t2 ch2 where
      i: "simplify_inner bs1 pc1 [] ?t1 ch1 = Ok (bs2, pc2, stmts2, t2, ch2)"
      "simp_inv (view bs2 bb stmts2 t2) pc2 start" "keeps sem (view bs1 bb [] ?t1) pc1 (view bs2 bb stmts2 t2) pc2"
      "bs2 = bs1 \<and> pc2 = pc1 \<and> stmts2 = [] \<and> t2 = ?t1 \<and> ch2 = ch1 \<and>
         branch_done (term_kind ?t1) \<and> merge_done pc1 bb (term_kind ?t1) \<or>
       ch2 \<and> weight (view bs2 bb stmts2 t2) pc2 < weight (view bs1 bb [] ?t1) pc1"
      by blast
    let ?cs = "\<lparr>cs_blocks = view bs2 bb stmts2 t2, cs_pred_count = pc2\<rparr>"
    have run: "simplify_block bb (cs, ch) = Ok (?cs, ch2)"
      using live bb D(1) t col(1) i(1)
      by (simp add: simplify_block_def block_terminator_def view_def)
    have ch: "ch \<longrightarrow> ch1" using collapses_allD(8) [OF col(2)] by blast
    from i(4) have "block_done sem start {bb} (cs, ch) (?cs, ch2)"
    proof
      assume same: "bs2 = bs1 \<and> pc2 = pc1 \<and> stmts2 = [] \<and> t2 = ?t1 \<and> ch2 = ch1 \<and>
        branch_done (term_kind ?t1) \<and> merge_done pc1 bb (term_kind ?t1)"
      have "weight (view bs1 bb [] ?t1) pc1 \<le> weight ?bs ?pc" using b(2) by (simp add: keeps_def)
      with b(3) have "improves ?bs ?pc start (view bs1 bb [] ?t1) pc1 start (ch1 \<and> \<not> ch)" by (rule improvesI [rotated])
      moreover have "?cs = cs \<and> (?pc ! bb > 0 \<longrightarrow> settled ?bs ?pc bb)" if "\<not> ch1"
        using b(7) [OF that] same t by (auto simp: settled_def)
      ultimately show ?thesis using b(1,2) ch same by (auto simp: block_done_def)
    next
      assume less: "ch2 \<and> weight (view bs2 bb stmts2 t2) pc2 < weight (view bs1 bb [] ?t1) pc1"
      have "weight (view bs1 bb [] ?t1) pc1 \<le> weight ?bs ?pc" using b(2) by (simp add: keeps_def)
      then show ?thesis using i(2) keeps_trans [OF b(2) i(3)] less by (auto simp: block_done_def improves_def)
    qed
    with run show ?thesis by blast
  qed
qed

section \<open>Rounds\<close>

lemma block_done_trans:
  assumes "block_done sem start B r r1" "block_done sem start B' r1 r2"
  shows "block_done sem start (B \<union> B') r r2"
proof -
  obtain cs ch cs1 ch1 cs2 ch2 where r: "r = (cs, ch)" "r1 = (cs1, ch1)" "r2 = (cs2, ch2)" by (metis surj_pair)
  show ?thesis
    using assms keeps_trans improves_trans [of _ _ start _ _ start ch1 ch _ _ start ch2]
    unfolding r block_done_def by (simp add: Ball_def) blast
qed

lemma simplify_blocks_ok:
  assumes sem: "sem_ok sem" and inv: "simp_inv (cs_blocks cs) (cs_pred_count cs) start"
    and xs: "\<forall>bb\<in>set xs. bb < length (cs_blocks cs)"
  shows "\<exists>r. res_for xs simplify_block (cs, ch) = Ok r \<and> block_done sem start (set xs) (cs, ch) r"
  using inv xs
proof (induction xs arbitrary: cs ch)
  case Nil
  then show ?case by (auto simp: block_done_def improves_def)
next
  case (Cons bb xs)
  from simplify_block_ok [OF sem Cons.prems(1), of bb ch] Cons.prems(2) obtain cs1 ch1 where
    one: "simplify_block bb (cs, ch) = Ok (cs1, ch1)" "block_done sem start {bb} (cs, ch) (cs1, ch1)" by force
  then have "simp_inv (cs_blocks cs1) (cs_pred_count cs1) start" "length (cs_blocks cs1) = length (cs_blocks cs)"
    by (auto simp: block_done_def keeps_def)
  with Cons.IH [of cs1 ch1] Cons.prems(2) obtain r where
    "res_for xs simplify_block (cs1, ch1) = Ok r" "block_done sem start (set xs) (cs1, ch1) r" by auto
  then show ?case using one block_done_trans [OF one(2)] by fastforce
qed

lemma jumps_runs_iff:
  assumes "sem_ok sem" "(jumps bs)\<^sup>*\<^sup>* n m"
  shows "runs sem bs n s out = runs sem bs m s out"
  using assms(2)
proof (induction rule: rtranclp_induct)
  case (step m m')
  then show ?case using jumps_step [OF assms(1) step.hyps(2), of s] runs_unfold [of sem bs m s out] by simp
qed simp

lemma joined_step: "joined bs x y \<Longrightarrow> jumps bs y z \<Longrightarrow> joined bs x z"
proof -
  assume "joined bs x y" and z: "jumps bs y z"
  then obtain e where e: "(jumps bs)\<^sup>*\<^sup>* x e" "(jumps bs)\<^sup>*\<^sup>* y e" by (auto simp: joined_def)
  from e(2) show "joined bs x z"
  proof (cases rule: converse_rtranclpE)
    case base
    with e(1) z show ?thesis unfolding joined_def by (meson rtranclp.rtrancl_into_rtrancl rtranclp.rtrancl_refl)
  next
    case (step q)
    then have "q = z" using jumps_unique [OF z] by simp
    with step e(1) show ?thesis unfolding joined_def by blast
  qed
qed

text \<open>Moving the start along its chain keeps the invariant.\<close>

lemma collapsed_start:
  assumes inv: "simp_inv bs pc start" and col: "collapses bs pc {#} start ch bs1 pc1 start1 ch1"
  shows "simp_inv bs1 pc1 start1"
proof -
  note a = collapsesD [OF col]
  have c: "counted bs pc {#start#}" using inv by (simp add: simp_inv_def)
  have len: "length bs1 = length bs" using a(2) by (simp add: all_redirected_def)
  have start: "start < length bs" using countedD(3) [OF c, of start] by simp
  have zero: "START_BLOCK < length bs" using start unfolding START_BLOCK_def by linarith
  obtain C where C: "chain bs bs1 C start start1" using a(11) by blast
  have "joined bs1 START_BLOCK start1" if "start1 \<noteq> START_BLOCK" "pc1 ! START_BLOCK > 0"
  proof (cases "start = START_BLOCK")
    case True
    then have "jumps bs1 START_BLOCK start1" using C that(1) by (auto simp: chain_def)
    then show ?thesis unfolding joined_def by blast
  next
    case False
    have "pc ! START_BLOCK > 0" using a(4) [OF zero] that(2) by fastforce
    with inv False have "joined bs START_BLOCK start" by (simp add: simp_inv_def)
    then have "joined bs1 START_BLOCK start" by (rule chain_joined [OF C len])
    moreover have "start = start1 \<or> jumps bs1 start start1" using C by (auto simp: chain_def)
    ultimately show ?thesis using joined_step by blast
  qed
  moreover have "terminator (bs1 ! n) \<noteq> None" if n: "n < length bs" "pc1 ! n > 0" for n
  proof -
    have "pc ! n > 0" using a(4) [OF n(1)] n(2) by fastforce
    then have present: "terminator (bs ! n) \<noteq> None" using inv n(1) by (simp add: simp_inv_def)
    have red: "redirected bs (bs ! n) (bs1 ! n)" using a(2) n(1) unfolding all_redirected_def by blast
    show ?thesis using present unfolding redirected_present [OF red] .
  qed
  moreover have "reached bs1 pc1 start1"
  proof (rule redirected_reached [OF _ a(2,3)])
    show "counted bs1 pc1 {#start1#}" using a(1) by simp
    show "joined bs1 x y" if "joined bs x y" for x y using chain_joined [OF C len that] .
    show "pc ! n > 0" if "n < length bs" "pc1 ! n > 0" for n using a(4) [OF that(1)] that(2) by fastforce
    show "reached bs pc start" using inv by (simp add: simp_inv_def)
  qed
  ultimately show ?thesis using a(1) len unfolding simp_inv_def by simp
qed

definition all_settled :: "basic_block_data list \<Rightarrow> nat list \<Rightarrow> nat \<Rightarrow> bool" where
  "all_settled bs pc start \<longleftrightarrow> \<not> skippable bs start \<and> (\<forall>n\<in>live_blocks bs pc. settled bs pc n)"

definition round_done ::
    "'st mir_sem \<Rightarrow> cfg_simplifier \<Rightarrow> nat \<Rightarrow> cfg_simplifier \<Rightarrow> nat \<Rightarrow> bool" where
  "round_done sem cs start cs' start' \<longleftrightarrow>
     simp_inv (cs_blocks cs') (cs_pred_count cs') start' \<and>
     length (cs_blocks cs') = length (cs_blocks cs) \<and>
     (\<forall>s out. runs sem (cs_blocks cs') start' s out = runs sem (cs_blocks cs) start s out)"

lemma simplify_round_ok:
  assumes sem: "sem_ok sem" and inv: "simp_inv (cs_blocks cs) (cs_pred_count cs) start"
  shows "\<exists>cs' start' ch'. simplify_round cs start = Ok (cs', start', ch') \<and> round_done sem cs start cs' start' \<and>
    improves (cs_blocks cs) (cs_pred_count cs) start (cs_blocks cs') (cs_pred_count cs') start' ch' \<and>
    (\<not> ch' \<longrightarrow> cs' = cs \<and> start' = start \<and> all_settled (cs_blocks cs) (cs_pred_count cs) start)"
proof -
  let ?bs = "cs_blocks cs" and ?pc = "cs_pred_count cs"
  have "counted ?bs ?pc (add_mset start {#})" using inv by (simp add: simp_inv_def)
  from collapse_goto_chain_ok [OF this, of False] obtain bs1 pc1 start1 ch1 where
    col: "collapse_goto_chain ?bs ?pc start False = Ok (bs1, pc1, start1, ch1)"
    "collapses ?bs ?pc {#} start False bs1 pc1 start1 ch1" by blast
  note a = collapsesD [OF col(2)]
  have inv1: "simp_inv bs1 pc1 start1" by (rule collapsed_start [OF inv col(2)])
  have keep1: "keeps sem ?bs ?pc bs1 pc1" by (rule redirected_keeps [OF sem a(2)]) (rule a(4))
  have imp1: "improves ?bs ?pc start bs1 pc1 start1 (ch1 \<and> \<not> False)"
    by (rule improvesI) (use keep1 a(8) in \<open>auto simp: keeps_def skips_def\<close>)
  let ?cs1 = "\<lparr>cs_blocks = bs1, cs_pred_count = pc1\<rparr>"
  from simplify_blocks_ok [OF sem, of ?cs1 start1 "[0..<length bs1]" ch1] inv1 obtain cs2 ch2 where
    rest: "res_for [0..<length bs1] simplify_block (?cs1, ch1) = Ok (cs2, ch2)"
    "block_done sem start1 {0..<length bs1} (?cs1, ch1) (cs2, ch2)" by auto
  have keep2: "keeps sem bs1 pc1 (cs_blocks cs2) (cs_pred_count cs2)"
    and inv2: "simp_inv (cs_blocks cs2) (cs_pred_count cs2) start1"
    and imp2: "improves bs1 pc1 start1 (cs_blocks cs2) (cs_pred_count cs2) start1 (ch2 \<and> \<not> ch1)"
    and same2: "ch1 \<Longrightarrow> ch2" "\<not> ch2 \<Longrightarrow> cs2 = ?cs1 \<and> (\<forall>bb\<in>{0..<length bs1}. pc1 ! bb > 0 \<longrightarrow> settled bs1 pc1 bb)"
    using rest(2) by (auto simp: block_done_def)
  have c2: "counted (cs_blocks cs2) (cs_pred_count cs2) {#start1#}" using inv2 by (simp add: simp_inv_def)
  have len: "length bs1 = length ?bs" "length (cs_blocks cs2) = length bs1"
    using keep1 keep2 by (simp_all add: keeps_def)
  have start1: "start1 < length bs1" "cs_pred_count cs2 ! start1 > 0"
    using countedD(3,5) [OF c2, of start1] len by simp_all
  have "runs sem (cs_blocks cs2) start1 s out = runs sem ?bs start s out" for s out
  proof -
    have "runs sem (cs_blocks cs2) start1 s out = runs sem bs1 start1 s out"
      using keep2 start1 by (simp add: keeps_def)
    also have "\<dots> = runs sem ?bs start1 s out"
      using runs_redirected [OF sem, of bs1 ?bs] a(2) by (simp add: all_redirected_def)
    also have "\<dots> = runs sem ?bs start s out" using jumps_runs_iff [OF sem a(3)] by simp
    finally show ?thesis .
  qed
  then have "round_done sem cs start cs2 start1" using inv2 len by (simp add: round_done_def)
  moreover have "simplify_round cs start = Ok (cs2, start1, ch2)"
    using col(1) rest(1) by (simp add: simplify_round_def)
  moreover have "improves ?bs ?pc start (cs_blocks cs2) (cs_pred_count cs2) start1 ch2"
    using improves_trans [OF imp1 imp2] by simp
  moreover have "cs2 = cs \<and> start1 = start \<and> all_settled ?bs ?pc start" if "\<not> ch2"
  proof -
    have "\<not> ch1" using same2(1) that by blast
    then have "bs1 = ?bs" "pc1 = ?pc" "start1 = start" "\<not> skippable ?bs start" using a(10) by blast+
    then show ?thesis using same2(2) [OF that] by (auto simp: all_settled_def)
  qed
  ultimately show ?thesis by blast
qed

section \<open>The loop\<close>

lemma simplify_loop_mono:
  "simplify_loop n cs start = Ok r \<Longrightarrow> n \<le> m \<Longrightarrow> simplify_loop m cs start = Ok r"
proof (induction n arbitrary: m cs start)
  case (Suc n)
  then obtain k where k: "m = Suc k" "n \<le> k" by (cases m) auto
  obtain cs' start' ch where r: "simplify_round cs start = Ok (cs', start', ch)"
    using Suc.prems(1) by (auto simp: res_simps)
  show ?case using Suc.prems(1) Suc.IH [OF _ k(2)] by (cases ch) (simp_all add: k(1) r)
qed simp

lemma simplify_loop_ok:
  assumes sem: "sem_ok sem" and inv: "simp_inv (cs_blocks cs) (cs_pred_count cs) start"
  shows "\<exists>n cs' start'. simplify_loop n cs start = Ok (cs', start') \<and> round_done sem cs start cs' start' \<and>
    all_settled (cs_blocks cs') (cs_pred_count cs') start'"
  using inv
proof (induction "(weight (cs_blocks cs) (cs_pred_count cs), skips (cs_blocks cs) (cs_pred_count cs) start)"
    arbitrary: cs start rule: wf_induct_rule [OF wf_lex_prod [OF wf_less_than wf_less_than]])
  case less: (1 cs start)
  from simplify_round_ok [OF sem less.prems] obtain cs1 start1 ch where
    r: "simplify_round cs start = Ok (cs1, start1, ch)" "round_done sem cs start cs1 start1"
    "improves (cs_blocks cs) (cs_pred_count cs) start (cs_blocks cs1) (cs_pred_count cs1) start1 ch"
    "\<not> ch \<longrightarrow> cs1 = cs \<and> start1 = start \<and> all_settled (cs_blocks cs) (cs_pred_count cs) start" by blast
  show ?case
  proof (cases ch)
    case False
    then have "simplify_loop (Suc 0) cs start = Ok (cs1, start1)" using r(1) by simp
    with False r(2,4) show ?thesis by blast
  next
    case True
    have "simp_inv (cs_blocks cs1) (cs_pred_count cs1) start1" using r(2) by (simp add: round_done_def)
    with less.hyps [of cs1 start1] r(3) True obtain n cs' start' where
      "simplify_loop n cs1 start1 = Ok (cs', start')" "round_done sem cs1 start1 cs' start'"
      "all_settled (cs_blocks cs') (cs_pred_count cs') start'"
      by (auto simp: improves_def)
    moreover from this have "simplify_loop (Suc n) cs start = Ok (cs', start')" using r(1) True by simp
    moreover have "round_done sem cs start cs' start'" using r(2) calculation(2) by (simp add: round_done_def)
    ultimately show ?thesis by blast
  qed
qed

section \<open>The first counts\<close>

definition edge_count :: "body \<Rightarrow> nat" where
  "edge_count b = length (concat (map (block_successors b) [0 ..< length (basic_blocks b)]))"

lemma add_counts_ok:
  assumes "\<forall>x\<in>set xs. x < length pc" "\<forall>n<length pc. pc ! n + length xs < 2 ^ 32"
  shows "\<exists>pc'. res_for xs (add_count 1) pc = Ok pc' \<and> length pc' = length pc \<and>
    (\<forall>n<length pc. pc' ! n = pc ! n + count (mset xs) n)"
  using assms
proof (induction xs arbitrary: pc)
  case (Cons x xs)
  let ?pc = "pc[x := pc ! x + 1]"
  have x: "x < length pc" using Cons.prems(1) by simp
  then have one: "add_count 1 x pc = Ok ?pc" using Cons.prems(2) by (auto simp: add_count_def)
  have "?pc ! n + length xs < 2 ^ 32" if "n < length pc" for n
    using Cons.prems(2) that x by (cases "n = x") auto
  with Cons.IH [of ?pc] Cons.prems(1) obtain pc' where pc': "res_for xs (add_count 1) ?pc = Ok pc'"
    "length pc' = length pc" "\<forall>n<length pc. pc' ! n = ?pc ! n + count (mset xs) n" by auto
  then have "pc' ! n = pc ! n + count (mset (x # xs)) n" if "n < length pc" for n
    using that x by (cases "n = x") auto
  with one pc' show ?case by (intro exI [of _ pc']) simp
qed simp

lemma concat_distinct_length:
  assumes "distinct xs" "set xs \<subseteq> {0..<k}"
  shows "length (concat (map f xs)) \<le> length (concat (map f [0..<k]))"
proof -
  have "length (concat (map f xs)) = (\<Sum>x\<in>set xs. length (f x))"
    using assms(1) by (simp add: length_concat sum_list_distinct_conv_sum_set comp_def)
  also have "\<dots> \<le> (\<Sum>x\<in>{0..<k}. length (f x))"
    using assms(2) by (intro sum_mono2) auto
  also have "\<dots> = length (concat (map f [0..<k]))"
    by (simp add: length_concat sum_list_distinct_conv_sum_set comp_def)
  finally show ?thesis .
qed

lemma cs_new_ok:
  assumes wf: "wf_body b" and ne: "basic_blocks b \<noteq> []" and small: "edge_count b + 2 < 2 ^ 32"
  shows "\<exists>pc. cs_new b = Ok \<lparr>cs_blocks = basic_blocks b, cs_pred_count = pc\<rparr> \<and>
    simp_inv (basic_blocks b) pc START_BLOCK"
proof -
  let ?bs = "basic_blocks b" and ?k = "length (basic_blocks b)"
  have start: "START_BLOCK < ?k" using ne unfolding START_BLOCK_def by simp
  from preorder_complete [OF wf start] obtain L where
    L: "preorder_list b (preorder_new b START_BLOCK) = Ok L" "distinct L"
    "set L = (cfg.edge b)\<^sup>* `` {START_BLOCK}" by blast
  have L_sub: "set L \<subseteq> {0..<?k}" using L(3) wf_body_closed [OF wf start] by auto
  let ?xs = "concat (map (block_successors b) L)"
  let ?pc = "(replicate ?k 0)[START_BLOCK := 1]"
  have xs: "length ?xs \<le> edge_count b" unfolding edge_count_def by (rule concat_distinct_length [OF L(2) L_sub])
  have "\<forall>x\<in>set ?xs. x < length ?pc" using wf_targetsD [of b] wf by (auto simp: wf_body_def)
  moreover have "\<forall>n<length ?pc. ?pc ! n + length ?xs < 2 ^ 32"
    using xs small start by (auto simp: nth_list_update)
  ultimately obtain pc where pc: "res_for ?xs (add_count 1) ?pc = Ok pc" "length pc = ?k"
    "\<And>n. n < ?k \<Longrightarrow> pc ! n = ?pc ! n + count (mset ?xs) n" using add_counts_ok [of ?xs ?pc] by auto
  have reach: "pc ! n > 0 \<longleftrightarrow> n \<in> set L" if n: "n < ?k" for n
  proof -
    have "pc ! n > 0 \<longleftrightarrow> n = START_BLOCK \<or> n \<in> set ?xs"
      using pc(3) [OF n] n start by (auto simp: nth_list_update)
    also have "\<dots> \<longleftrightarrow> n \<in> set L"
      unfolding L(3) by (auto simp: cfg.edge_iff L(3) intro: rtrancl_into_rtrancl elim: rtranclE)
    finally show ?thesis .
  qed
  have succs: "term_succs (?bs ! n) = block_successors b n" if "n < ?k" for n
    using that by (simp add: term_succs_def block_successors_def)
  have live: "live_refs ?bs pc = mset ?xs"
  proof -
    have "live_refs ?bs pc = (\<Sum>n\<in>{..<?k}. if n \<in> set L then mset (block_successors b n) else {#})"
      unfolding live_refs_def block_refs_def using reach succs by (intro sum.cong) auto
    also have "\<dots> = (\<Sum>n\<in>set L. mset (block_successors b n))"
      using L_sub by (intro sum.mono_neutral_cong_right) auto
    also have "\<dots> = mset ?xs" using L(2) by (simp add: mset_concat sum_list_distinct_conv_sum_set comp_def)
    finally show ?thesis .
  qed
  have "counted ?bs pc {#START_BLOCK#}"
    unfolding counted_def live
  proof (intro conjI allI impI)
    fix n assume "n < ?k"
    then show "pc ! n = count ({#START_BLOCK#} + mset ?xs) n"
      using pc(3) start by (auto simp: nth_list_update)
  qed (use pc(2) xs small start wf_targetsD [of b] wf in \<open>auto simp: wf_body_def\<close>)
  moreover have "terminator (?bs ! n) \<noteq> None" if "n < ?k" for n
    using wf that by (auto simp: wf_body_def list_all_length)
  moreover have "(block_edge ?bs)\<^sup>*\<^sup>* START_BLOCK n" if "(START_BLOCK, n) \<in> (cfg.edge b)\<^sup>*" for n
    using that
  proof (induction rule: rtrancl_induct)
    case (step m n)
    then have "block_edge ?bs m n" using L_sub L(3) succs [of m] by (auto simp: block_edge_def cfg.edge_iff)
    with step.IH show ?case by simp
  qed simp
  then have "reached ?bs pc START_BLOCK" using reach L(3) by (auto simp: reached_def)
  ultimately have "simp_inv ?bs pc START_BLOCK" by (simp add: simp_inv_def)
  moreover have "cs_new b = Ok \<lparr>cs_blocks = ?bs, cs_pred_count = pc\<rparr>"
    using start L(1) pc(1) by (simp add: cs_new_def res_for_concat)
  ultimately show ?thesis by blast
qed

section \<open>Stripping no-ops\<close>

lemma exec_strip: "sem_ok sem \<Longrightarrow> exec_statements sem (filter (\<lambda>st. \<not> is_nop st) sts) s = exec_statements sem sts s"
  by (induction sts arbitrary: s) (auto simp: exec_statements_def is_nop_def sem_ok_def)

lemma strip_nops_runs:
  assumes "sem_ok sem"
  shows "runs sem (strip_nops bs) n s out = runs sem bs n s out"
proof (rule runs_same_steps [where L = UNIV])
  fix n s
  show "block_step sem (strip_nops bs) n s = block_step sem bs n s"
    using exec_strip [OF assms] by (simp add: block_step_def strip_nops_def exec_block_def split: option.split)
qed (simp_all add: closed_blocks_def)

lemma strip_nops_inv:
  assumes "simp_inv bs pc START_BLOCK"
  shows "simp_inv (strip_nops bs) pc START_BLOCK"
proof -
  have "live_refs (strip_nops bs) pc = live_refs bs pc"
    unfolding live_refs_def by (intro sum.cong) (auto simp: block_refs_def strip_nops_def)
  moreover have "block_edge (strip_nops bs) = block_edge bs"
    by (intro ext) (auto simp: block_edge_def strip_nops_def)
  ultimately show ?thesis using assms by (auto simp: simp_inv_def counted_def strip_nops_def reached_def)
qed

section \<open>Moving the start block back\<close>

text \<open>At the end nothing leads to the old start block.\<close>

lemma old_start_dead:
  assumes inv: "simp_inv bs pc start" and set: "all_settled bs pc start" and "start \<noteq> START_BLOCK"
    and zero: "START_BLOCK < length bs"
  shows "pc ! START_BLOCK = 0"
proof (rule ccontr)
  assume "pc ! START_BLOCK \<noteq> 0"
  have c: "counted bs pc {#start#}" using inv by (simp add: simp_inv_def)
  have "START_BLOCK \<in># live_refs bs pc"
    using countedD(2) [OF c zero] \<open>pc ! START_BLOCK \<noteq> 0\<close> assms(3) by (auto simp: not_in_iff)
  then obtain n where n: "n < length bs" "pc ! n > 0" "START_BLOCK \<in> set (term_succs (bs ! n))"
    unfolding live_refs_def by (auto simp: block_refs_def set_mset_sum split: if_splits)
  then have "settled bs pc n" using set by (simp add: all_settled_def)
  with n(3) have no_skip: "\<not> skippable bs START_BLOCK" by (auto simp: settled_def term_succs_def)
  obtain e where e: "(jumps bs)\<^sup>*\<^sup>* START_BLOCK e" "(jumps bs)\<^sup>*\<^sup>* start e"
    using inv assms(3) \<open>pc ! START_BLOCK \<noteq> 0\<close> by (auto simp: simp_inv_def joined_def)
  have stay: "y = x" if "\<not> skippable bs x" "(jumps bs)\<^sup>*\<^sup>* x y" for x y
    using that(2)
  proof (induction rule: rtranclp_induct)
    case (step y z)
    then show ?case using that(1) by (auto simp: skippable_def jumps_goto_target)
  qed simp
  have "e = START_BLOCK" "e = start" using stay [OF no_skip e(1)] stay [OF _ e(2)] set by (auto simp: all_settled_def)
  with assms(3) show False by simp
qed

definition to_start :: "nat \<Rightarrow> nat \<Rightarrow> nat" where
  "to_start start n = (if n = start then START_BLOCK else n)"

lemma rename_start_loop:
  assumes "length pc = length bs" "k \<le> length bs"
    "\<And>n. n < length bs \<Longrightarrow> pc ! n > 0 \<Longrightarrow> terminator (bs ! n) \<noteq> None"
  shows "\<exists>bs'. res_for [0..<k] (rename_start start pc) bs = Ok bs' \<and> length bs' = length bs \<and>
    (\<forall>n<length bs. bs' ! n = (if n < k \<and> pc ! n > 0 then rename_targets (to_start start) (bs ! n) else bs ! n))"
  using assms(2)
proof (induction k)
  case (Suc k)
  then obtain bs1 where bs1: "res_for [0..<k] (rename_start start pc) bs = Ok bs1" "length bs1 = length bs"
    "\<And>n. n < length bs \<Longrightarrow> bs1 ! n = (if n < k \<and> pc ! n > 0 then rename_targets (to_start start) (bs ! n) else bs ! n)"
    by auto
  have k: "k < length bs" using Suc.prems by simp
  show ?case
  proof (cases "pc ! k = 0")
    case True
    then have "rename_start start pc k bs1 = Ok bs1" using k assms(1) by (simp add: rename_start_def)
    with bs1 k True show ?thesis
      by (intro exI [of _ bs1]) (auto simp: res_for_append less_Suc_eq)
  next
    case False
    then obtain t where t: "terminator (bs ! k) = Some t" using assms(3) [OF k] by auto
    let ?bs = "bs1[k := rename_targets (to_start start) (bs ! k)]"
    have "bs1 ! k = bs ! k" using bs1(3) [OF k] by simp
    then have "rename_start start pc k bs1 = Ok ?bs"
      using False k assms(1) bs1(2) t
      by (simp add: rename_start_def block_terminator_def set_terminator_def rename_targets_def to_start_def [abs_def])
    with bs1 k False show ?thesis
      by (intro exI [of _ ?bs]) (auto simp: res_for_append nth_list_update less_Suc_eq)
  qed
qed simp

text \<open>Every live block is found renamed at its new place.\<close>

lemma move_start_ok:
  assumes inv: "simp_inv (cs_blocks cs) (cs_pred_count cs) start"
    and set: "all_settled (cs_blocks cs) (cs_pred_count cs) start"
  shows "\<exists>bs. move_start cs start = Ok bs \<and> length bs = length (cs_blocks cs) \<and>
    (\<forall>n\<in>live_blocks (cs_blocks cs) (cs_pred_count cs).
       bs ! to_start start n = rename_targets (to_start start) (cs_blocks cs ! n))"
proof (cases "start = START_BLOCK")
  case True
  have "rename_targets (to_start START_BLOCK) d = d" for d
    by (rule rename_targets_same) (simp add: to_start_def)
  with True show ?thesis by (auto simp: move_start_def to_start_def)
next
  case False
  let ?bs = "cs_blocks cs" and ?pc = "cs_pred_count cs"
  have c: "counted ?bs ?pc {#start#}" using inv by (simp add: simp_inv_def)
  note D = countedD [OF c]
  have start: "start < length ?bs" "?pc ! start > 0" using D(3,5) [of start] by simp_all
  have zero: "START_BLOCK < length ?bs" using start(1) unfolding START_BLOCK_def by linarith
  have dead: "?pc ! START_BLOCK = 0" by (rule old_start_dead [OF inv set False zero])
  define bs1 where "bs1 = swap START_BLOCK start ?bs"
  define pc1 where "pc1 = swap START_BLOCK start ?pc"
  have len: "length bs1 = length ?bs" "length pc1 = length bs1" using D(1) by (simp_all add: bs1_def pc1_def swap_def)
  have at: "bs1 ! to_start start n = ?bs ! n" "pc1 ! to_start start n = ?pc ! n" "to_start start n < length ?bs"
    if "n < length ?bs" "?pc ! n > 0" for n
    using that False start zero dead D(1)
    by (auto simp: bs1_def pc1_def swap_def to_start_def nth_list_update)
  have live1: "\<exists>m<length ?bs. ?pc ! m > 0 \<and> n = to_start start m" if "n < length ?bs" "pc1 ! n > 0" for n
    using that False start zero dead D(1)
    by (cases "n = START_BLOCK"; cases "n = start") (auto simp: pc1_def swap_def to_start_def nth_list_update)
  have present: "terminator (bs1 ! n) \<noteq> None" if "n < length bs1" "pc1 ! n > 0" for n
    using live1 [of n] that len(1) at(1) inv by (auto simp: simp_inv_def)
  have run: "move_start cs start = (if pc1 ! START_BLOCK > 1 then res_for [0..<length bs1] (rename_start start pc1) bs1 else Ok bs1)"
    using False zero dead start D(1) by (simp add: move_start_def Let_def bs1_def pc1_def)
  show ?thesis
  proof (cases "pc1 ! START_BLOCK > 1")
    case True
    from rename_start_loop [OF len(2) order_refl present, of start] obtain bs2 where
      bs2: "res_for [0..<length bs1] (rename_start start pc1) bs1 = Ok bs2" "length bs2 = length bs1"
      "\<And>n. n < length bs1 \<Longrightarrow> bs2 ! n = (if n < length bs1 \<and> pc1 ! n > 0 then rename_targets (to_start start) (bs1 ! n) else bs1 ! n)"
      by blast
    then show ?thesis using run True at len(1) by (intro exI [of _ bs2]) auto
  next
    case no: False
    have "pc1 ! START_BLOCK = ?pc ! start" using at(2) [OF start] by (simp add: to_start_def)
    with no D(2) [OF start(1)] have none: "start \<notin># live_refs ?bs ?pc" by (auto simp: not_in_iff)
    have "rename_targets (to_start start) (?bs ! n) = ?bs ! n" if "n < length ?bs" "?pc ! n > 0" for n
      using none live_refs_mem [OF that] by (intro rename_targets_same) (auto simp: to_start_def term_succs_def)
    then show ?thesis using run no at(1) len(1) by (intro exI [of _ bs1]) simp
  qed
qed

section \<open>The simplifier is correct\<close>

text \<open>The references into a block: the start block has one of its own, and every edge of the blocks
  \<open>L\<close> counts.\<close>

definition references :: "basic_block_data list \<Rightarrow> nat set \<Rightarrow> nat \<Rightarrow> nat multiset" where
  "references bs L start = {#start#} + (\<Sum>n\<in>L. mset (term_succs (bs ! n)))"

text \<open>A set of blocks that runs do not leave, all finished and reached from the start, with nothing
  left to simplify: no branch with equal targets, no edge to a block that only jumps on, and no jump to
  another block that has no other reference, which could be merged.\<close>

definition block_simplified :: "basic_block_data list \<Rightarrow> nat multiset \<Rightarrow> nat \<Rightarrow> terminator_kind \<Rightarrow> bool" where
  "block_simplified bs refs n k \<longleftrightarrow> branch_done k \<and> (\<forall>m\<in>set (successors k). \<not> skippable bs m) \<and>
     (\<forall>m. k = Goto m \<longrightarrow> m \<noteq> n \<longrightarrow> count refs m \<noteq> 1)"

definition simplified :: "basic_block_data list \<Rightarrow> nat set \<Rightarrow> nat \<Rightarrow> bool" where
  "simplified bs L start \<longleftrightarrow> closed_blocks bs L \<and> start \<in> L \<and>
     (\<forall>n\<in>L. n < length bs \<and> (block_edge bs)\<^sup>*\<^sup>* start n \<and>
        (\<exists>t. terminator (bs ! n) = Some t \<and> block_simplified bs (references bs L start) n (term_kind t)))"

lemma simplifiedD:
  assumes "simplified bs L start" "n \<in> L"
  shows "n < length bs" "(block_edge bs)\<^sup>*\<^sup>* start n"
    "\<exists>t. terminator (bs ! n) = Some t \<and> set (successors (term_kind t)) \<subseteq> L \<and>
      block_simplified bs (references bs L start) n (term_kind t)"
  using assms by (force simp: simplified_def closed_blocks_def)+

lemma references_mem:
  assumes "simplified bs L start" "m \<in># references bs L start"
  shows "m \<in> L"
proof -
  have "L \<subseteq> {..<length bs}" using assms(1) by (auto simp: simplified_def)
  then have "finite L" by (rule finite_subset) simp
  with assms(2) consider "m = start" | n where "n \<in> L" "m \<in> set (term_succs (bs ! n))"
    by (auto simp: references_def set_mset_sum)
  then show ?thesis
  proof cases
    case (2 n)
    then show ?thesis using simplifiedD(3) [OF assms(1), of n] by (auto simp: term_succs_def)
  qed (use assms(1) in \<open>simp add: simplified_def\<close>)
qed

lemma count_image_inj_on:
  assumes "inj_on f A" "set_mset M \<subseteq> A" "m \<in> A"
  shows "count (image_mset f M) (f m) = count M m"
proof -
  have "f -` {f m} \<inter> set_mset M = (if m \<in># M then {m} else {})"
    using assms by (auto simp: inj_on_def)
  then show ?thesis by (simp add: count_image_mset not_in_iff)
qed

lemma references_renamed:
  assumes "inj_on f L" "\<And>n. n \<in> L \<Longrightarrow> bs' ! f n = rename_targets f (bs ! n)" "finite L"
  shows "references bs' (f ` L) (f start) = image_mset f (references bs L start)"
proof -
  have "term_succs (rename_targets f d) = map f (term_succs d)" for d
    by (simp add: term_succs_def rename_targets_def split: option.split)
  then have "(\<Sum>n\<in>f ` L. mset (term_succs (bs' ! n))) = (\<Sum>n\<in>L. image_mset f (mset (term_succs (bs ! n))))"
    using assms(2) by (simp add: sum.reindex [OF assms(1)])
  also have "\<dots> = image_mset f (\<Sum>n\<in>L. mset (term_succs (bs ! n)))"
    using assms(3) by (induction L rule: finite_induct) simp_all
  finally show ?thesis by (simp add: references_def)
qed

lemma branch_done_mut:
  assumes "branch_done k" "inj_on f (set (successors k))"
  shows "branch_done (successors_mut f k)"
proof -
  have "is_switch (successors_mut f k) = is_switch k" using alike_is_switch [OF alike_successors_mut] .
  moreover have "list_all (\<lambda>x. x = f (hd xs)) (map f xs) \<longleftrightarrow> list_all (\<lambda>x. x = hd xs) xs"
    if "inj_on f (set xs)" "xs \<noteq> []" for xs
  proof -
    have "f x = f (hd xs) \<longleftrightarrow> x = hd xs" if "x \<in> set xs" for x
      using inj_on_eq_iff [OF \<open>inj_on f (set xs)\<close> that hd_in_set [OF \<open>xs \<noteq> []\<close>]] .
    then show ?thesis by (simp add: list_all_iff)
  qed
  ultimately show ?thesis using assms by (auto simp: branch_done_def hd_map)
qed

lemma renamed_skippable:
  assumes "m < length bs" "bs' ! f m = rename_targets f (bs ! m)" "skippable bs' (f m)"
  shows "skippable bs m"
proof -
  obtain q t where q: "statements (bs ! m) = []" "terminator (bs ! m) = Some t"
    "successors_mut f (term_kind t) = Goto q" "q \<noteq> f m"
    using assms by (auto simp: skippable_def goto_target_Some)
  then obtain q' where "term_kind t = Goto q'" "q = f q'" by (cases "term_kind t") auto
  then show ?thesis using q assms(1) by (auto simp: skippable_def goto_target_Some)
qed

lemma renamed_simplified:
  assumes simp: "simplified bs L start" and inj: "inj_on f L"
    and renamed: "\<And>n. n \<in> L \<Longrightarrow> f n < length bs' \<and> bs' ! f n = rename_targets f (bs ! n)"
  shows "simplified bs' (f ` L) (f start)"
proof -
  have "L \<subseteq> {..<length bs}" using simp by (auto simp: simplified_def)
  then have fin: "finite L" by (rule finite_subset) simp
  note refs = references_renamed [of f L bs' bs start, OF inj _ fin]
  have count: "count (references bs' (f ` L) (f start)) (f m) = count (references bs L start) m" if "m \<in> L" for m
    using references_mem [OF simp] refs renamed that by (subst refs) (auto intro: count_image_inj_on [OF inj])
  have edge: "block_edge bs' (f n) (f m)" if "n \<in> L" "block_edge bs n m" for n m
    using renamed [OF that(1)] that(2)
    by (auto simp: block_edge_def term_succs_def rename_targets_def split: option.splits)
  have path: "n \<in> L \<and> (block_edge bs')\<^sup>*\<^sup>* (f start) (f n)" if "(block_edge bs)\<^sup>*\<^sup>* start n" for n
    using that
  proof (induction rule: rtranclp_induct)
    case (step n m)
    then have "m \<in> L" using simplifiedD(3) [OF simp, of n] by (auto simp: block_edge_def term_succs_def)
    with step edge [of n m] show ?case by auto
  qed (use simp in \<open>simp add: simplified_def\<close>)
  have "\<exists>t. terminator (bs' ! f n) = Some t \<and> set (successors (term_kind t)) \<subseteq> f ` L \<and>
      block_simplified bs' (references bs' (f ` L) (f start)) (f n) (term_kind t)" if n: "n \<in> L" for n
  proof -
    obtain t where t: "terminator (bs ! n) = Some t" "set (successors (term_kind t)) \<subseteq> L"
      "block_simplified bs (references bs L start) n (term_kind t)" using simplifiedD(3) [OF simp n] by blast
    let ?k = "successors_mut f (term_kind t)"
    have "branch_done ?k"
      using t(2,3) inj unfolding block_simplified_def by (blast intro: branch_done_mut inj_on_subset)
    moreover have "\<not> skippable bs' (f m)" if "m \<in> set (successors (term_kind t))" for m
      using that t(2,3) renamed_skippable [of m bs bs' f] renamed [of m] simplifiedD(1) [OF simp, of m]
      by (auto simp: block_simplified_def)
    moreover have "count (references bs' (f ` L) (f start)) m \<noteq> 1" if m: "?k = Goto m" "m \<noteq> f n" for m
    proof -
      obtain q where q: "term_kind t = Goto q" "m = f q" using m(1) by (cases "term_kind t") auto
      then have "q \<in> L" "q \<noteq> n" using t(2) m(2) by auto
      then show ?thesis using count [of q] t(3) q by (simp add: block_simplified_def)
    qed
    ultimately show ?thesis using t(1,2) renamed [OF n] by (auto simp: block_simplified_def)
  qed
  moreover have "(block_edge bs')\<^sup>*\<^sup>* (f start) (f n)" if "n \<in> L" for n using path simplifiedD(2) [OF simp that] by blast
  moreover have "start \<in> L" using simp by (simp add: simplified_def)
  ultimately show ?thesis unfolding simplified_def closed_blocks_def using renamed by force
qed

lemma settled_simplified:
  assumes inv: "simp_inv bs pc start" and set: "all_settled bs pc start"
  shows "simplified bs (live_blocks bs pc) start"
proof -
  let ?L = "live_blocks bs pc"
  have c: "counted bs pc {#start#}" using inv by (simp add: simp_inv_def)
  have "live_refs bs pc = (\<Sum>n\<in>?L. mset (term_succs (bs ! n)))"
    unfolding live_refs_def by (intro sum.mono_neutral_cong_right) (auto simp: block_refs_def)
  then have refs: "references bs ?L start = {#start#} + live_refs bs pc" by (simp add: references_def)
  have "\<exists>t. terminator (bs ! n) = Some t \<and> block_simplified bs (references bs ?L start) n (term_kind t)"
    if n: "n \<in> ?L" for n
  proof -
    obtain t where t: "terminator (bs ! n) = Some t" "branch_done (term_kind t)" "merge_done pc n (term_kind t)"
      "\<forall>x\<in>set (successors (term_kind t)). \<not> skippable bs x"
      using set n by (auto simp: all_settled_def settled_def)
    have "count (references bs ?L start) m \<noteq> 1" if "term_kind t = Goto m" "m \<noteq> n" for m
    proof -
      have "m < length bs" using counted_successor(1) [OF c, of n m] n t(1) that(1) by (simp add: term_succs_def)
      from countedD(2) [OF c this] show ?thesis using t(3) that by (auto simp: refs merge_done_def)
    qed
    then show ?thesis using t by (auto simp: block_simplified_def)
  qed
  moreover have "(block_edge bs)\<^sup>*\<^sup>* start n" if "n \<in> ?L" for n using inv that by (simp add: simp_inv_def reached_def)
  ultimately show ?thesis
    using counted_closed [OF c] countedD(3,5) [OF c, of start] by (simp add: simplified_def)
qed

lemma moved_simplified:
  assumes inv: "simp_inv bs pc start" and set: "all_settled bs pc start"
    and len: "length bs' = length bs"
    and moved: "\<And>n. n \<in> live_blocks bs pc \<Longrightarrow> bs' ! to_start start n = rename_targets (to_start start) (bs ! n)"
  shows "simplified bs' (to_start start ` live_blocks bs pc) START_BLOCK"
proof -
  have c: "counted bs pc {#start#}" using inv by (simp add: simp_inv_def)
  have "start < length bs" using countedD(3) [OF c, of start] by simp
  then have zero: "START_BLOCK < length bs" unfolding START_BLOCK_def by linarith
  have "simplified bs' (to_start start ` live_blocks bs pc) (to_start start start)"
  proof (rule renamed_simplified [OF settled_simplified [OF inv set]])
    show "inj_on (to_start start) (live_blocks bs pc)"
      using old_start_dead [OF inv set _ zero] by (auto simp: inj_on_def to_start_def split: if_splits)
    show "to_start start n < length bs' \<and> bs' ! to_start start n = rename_targets (to_start start) (bs ! n)"
      if "n \<in> live_blocks bs pc" for n
      using that zero moved [OF that] len by (simp add: to_start_def)
  qed
  then show ?thesis by (simp add: to_start_def)
qed

lemma simplify_ok:
  assumes sem: "sem_ok sem" and wf: "wf_body b" "basic_blocks b \<noteq> []" "edge_count b + 2 < 2 ^ 32"
  shows "\<exists>cs N bs L. cs_new b = Ok cs \<and> (\<forall>n\<ge>N. simplify n cs = Ok bs) \<and> length bs = length (basic_blocks b) \<and>
    (\<forall>s out. runs sem bs START_BLOCK s out = runs sem (basic_blocks b) START_BLOCK s out) \<and>
    simplified bs L START_BLOCK"
proof -
  from cs_new_ok [OF wf] obtain pc where new: "cs_new b = Ok \<lparr>cs_blocks = basic_blocks b, cs_pred_count = pc\<rparr>"
    "simp_inv (basic_blocks b) pc START_BLOCK" by blast
  let ?cs = "\<lparr>cs_blocks = strip_nops (basic_blocks b), cs_pred_count = pc\<rparr>"
  from strip_nops_inv [OF new(2)] simplify_loop_ok [OF sem, of ?cs START_BLOCK] obtain N cs start where
    loop: "simplify_loop N ?cs START_BLOCK = Ok (cs, start)" "round_done sem ?cs START_BLOCK cs start"
    "all_settled (cs_blocks cs) (cs_pred_count cs) start" by auto
  have inv: "simp_inv (cs_blocks cs) (cs_pred_count cs) start" using loop(2) by (simp add: round_done_def)
  let ?L = "live_blocks (cs_blocks cs) (cs_pred_count cs)"
  from move_start_ok [OF inv loop(3)] obtain bs where bs: "move_start cs start = Ok bs"
    "length bs = length (cs_blocks cs)"
    "\<And>n. n \<in> ?L \<Longrightarrow> bs ! to_start start n = rename_targets (to_start start) (cs_blocks cs ! n)" by blast
  have c: "counted (cs_blocks cs) (cs_pred_count cs) {#start#}" using inv by (simp add: simp_inv_def)
  have start: "start \<in> ?L" using countedD(3,5) [OF c, of start] by simp
  have simpl: "simplified bs (to_start start ` ?L) START_BLOCK" by (rule moved_simplified [OF inv loop(3) bs(2,3)])
  have "runs sem bs START_BLOCK s out = runs sem (basic_blocks b) START_BLOCK s out" for s out
  proof -
    have "block_step sem bs (to_start start n) s =
        map_sum (map_prod (to_start start) id) id (block_step sem (cs_blocks cs) n s)" if n: "n \<in> ?L" for n s
      using bs(3) [OF n] n simpl exec_rename_targets by (auto simp: block_step_def simplified_def)
    from runs_renumbered [OF this counted_closed [OF c] start]
    have "runs sem bs START_BLOCK s out = runs sem (cs_blocks cs) start s out" by (simp add: to_start_def)
    also have "\<dots> = runs sem (strip_nops (basic_blocks b)) START_BLOCK s out" using loop(2) by (simp add: round_done_def)
    finally show ?thesis by (simp add: strip_nops_runs [OF sem])
  qed
  moreover have "simplify n \<lparr>cs_blocks = basic_blocks b, cs_pred_count = pc\<rparr> = Ok bs" if "n \<ge> N" for n
    using simplify_loop_mono [OF loop(1) that] bs(1) by (simp add: simplify_def)
  moreover have "length bs = length (basic_blocks b)" using bs(2) loop(2) by (simp add: round_done_def strip_nops_def)
  ultimately show ?thesis using new(1) simpl by (intro exI conjI) (auto simp only:)
qed

end
