(* ===== verification/Dead_Blocks.thy ===== *)
theory Dead_Blocks
  imports Simplify_Cfg_Props
begin

text \<open>
  Removal of unreachable blocks and the pass \<open>SimplifyCfg\<close>
  (\<open>src/librustc_mir/transform/simplify.rs\<close>). The blocks that a preorder traversal visits are moved to
  the front of the vector by swaps, the rest is cut off, and all targets are renumbered. The removal of
  unused locals moves their declarations in the same way. The theorems say that the reachable blocks
  are kept in their order, and that the whole pass returns a well-formed body with the same runs in
  which every block is reachable.
\<close>

section \<open>Moving the kept entries to the front\<close>

text \<open>One turn of the loop: entry \<open>alive\<close> moves to place \<open>used\<close>, which is noted in \<open>places\<close>.\<close>

definition compact_step ::
    "(nat \<Rightarrow> 'b) \<Rightarrow> nat \<Rightarrow> 'a list \<times> 'b list \<times> nat \<Rightarrow> ('a list \<times> 'b list \<times> nat) res" where
  "compact_step place alive = (\<lambda>(xs, places, used).
     res_bind (index_vec places alive) (\<lambda>_.
     let places' = places[alive := place used] in
       if alive \<noteq> used
       then res_bind (index_vec xs alive) (\<lambda>_.
            res_bind (index_vec xs used) (\<lambda>_. Ok (swap alive used xs, places', used + 1)))
       else Ok (xs, places', used + 1)))"

lemma sorted_index_le:
  fixes ks :: "nat list"
  assumes "sorted_wrt (<) ks" "k < length ks"
  shows "k \<le> ks ! k"
  using assms(2)
proof (induction k)
  case (Suc k)
  then have "ks ! k < ks ! Suc k" by (intro sorted_wrt_nth_less [OF assms(1)]) simp_all
  with Suc show ?case by simp
qed simp

text \<open>After the first \<open>k\<close> turns the first \<open>k\<close> kept entries are at the front, and what lies behind them
  is where it was.\<close>

lemma compact_prefix:
  assumes "sorted_wrt (<) ks" "\<forall>i\<in>set ks. i < length xs" "length places = length xs" "k \<le> length ks"
  shows "\<exists>xs' places'. res_for (take k ks) (compact_step place) (xs, places, 0) = Ok (xs', places', k) \<and>
    length xs' = length xs \<and> length places' = length xs \<and>
    (\<forall>j<k. xs' ! j = xs ! (ks ! j) \<and> places' ! (ks ! j) = place j) \<and>
    (\<forall>i<length xs. (\<forall>j<k. ks ! j < i) \<longrightarrow> xs' ! i = xs ! i) \<and>
    (\<forall>i<length xs. i \<notin> set (take k ks) \<longrightarrow> places' ! i = places ! i)"
  using assms(4)
proof (induction k)
  case (Suc k)
  then obtain xs1 places1 where IH: "res_for (take k ks) (compact_step place) (xs, places, 0) = Ok (xs1, places1, k)"
    "length xs1 = length xs" "length places1 = length xs"
    "\<And>j. j < k \<Longrightarrow> xs1 ! j = xs ! (ks ! j) \<and> places1 ! (ks ! j) = place j"
    "\<And>i. i < length xs \<Longrightarrow> (\<forall>j<k. ks ! j < i) \<Longrightarrow> xs1 ! i = xs ! i"
    "\<And>i. i < length xs \<Longrightarrow> i \<notin> set (take k ks) \<Longrightarrow> places1 ! i = places ! i" by auto
  have k: "k < length ks" "ks ! k < length xs" using Suc.prems assms(2) by auto
  have le: "k \<le> ks ! k" by (rule sorted_index_le [OF assms(1) k(1)])
  have less: "ks ! j < ks ! k" if "j < k" for j
    using that k(1) by (rule sorted_wrt_nth_less [OF assms(1)])
  have here: "xs1 ! (ks ! k) = xs ! (ks ! k)" using IH(5) [OF k(2)] less by blast
  define xs2 where "xs2 = (if ks ! k \<noteq> k then swap (ks ! k) k xs1 else xs1)"
  let ?places = "places1[ks ! k := place k]"
  have step: "compact_step place (ks ! k) (xs1, places1, k) = Ok (xs2, ?places, Suc k)"
    using k IH(2,3) le by (auto simp: compact_step_def xs2_def)
  have take: "take (Suc k) ks = take k ks @ [ks ! k]" using k(1) by (rule take_Suc_conv_app_nth)
  have nth2: "xs2 ! i = (if i = k then xs ! (ks ! k) else if i = ks ! k then xs1 ! k else xs1 ! i)" for i
    using k(2) le here IH(2) by (auto simp: xs2_def nth_swap)
  have "xs2 ! j = xs ! (ks ! j) \<and> ?places ! (ks ! j) = place j" if "j < Suc k" for j
  proof (cases "j = k")
    case True
    then show ?thesis using nth2 k IH(3) by simp
  next
    case False
    then have "j < k" using that by simp
    then show ?thesis using nth2 [of j] IH(4) less [of j] le by simp
  qed
  moreover have "xs2 ! i = xs ! i" if "i < length xs" "\<forall>j<Suc k. ks ! j < i" for i
    using nth2 [of i] IH(5) that le by (auto simp: less_Suc_eq)
  moreover have "?places ! i = places ! i" if "i < length xs" "i \<notin> set (take (Suc k) ks)" for i
    using IH(6) that by (simp add: take)
  ultimately show ?case
    using IH step by (intro exI [of _ xs2] exI [of _ ?places]) (simp add: take res_for_append xs2_def)
qed (use assms in simp)

lemma compact_ok:
  assumes "sorted_wrt (<) ks" "\<forall>i\<in>set ks. i < length xs" "length places = length xs"
  shows "\<exists>xs' places'. res_for ks (compact_step place) (xs, places, 0) = Ok (xs', places', length ks) \<and>
    take (length ks) xs' = map ((!) xs) ks \<and> length places' = length xs \<and>
    (\<forall>j<length ks. places' ! (ks ! j) = place j) \<and> (\<forall>i<length xs. i \<notin> set ks \<longrightarrow> places' ! i = places ! i)"
proof -
  from compact_prefix [OF assms order_refl, of place] obtain xs' places' where
    p: "res_for ks (compact_step place) (xs, places, 0) = Ok (xs', places', length ks)"
    "length xs' = length xs" "length places' = length xs"
    "\<forall>j<length ks. xs' ! j = xs ! (ks ! j) \<and> places' ! (ks ! j) = place j"
    "\<forall>i<length xs. i \<notin> set ks \<longrightarrow> places' ! i = places ! i" by auto
  have "length ks \<le> length xs"
    using assms(1,2) by (metis card_lessThan card_mono distinct_card finite_lessThan lessThan_iff strict_sorted_iff subsetI)
  then have "take (length ks) xs' = map ((!) xs) ks" using p(2,4) by (intro nth_equalityI) auto
  with p show ?thesis by blast
qed

section \<open>Unreachable blocks\<close>

definition insert_all_of :: "nat list \<Rightarrow> bit_set \<Rightarrow> bit_set res" where
  "insert_all_of xs = res_for xs (\<lambda>x s. res_bind (bs_insert s x) (\<lambda>(s', _). Ok s'))"

text \<open>The targets of one block are replaced in order.\<close>

definition replace_targets :: "nat list \<Rightarrow> basic_block_data \<Rightarrow> basic_block_data res" where
  "replace_targets replacements d =
     res_bind (block_terminator d) (\<lambda>t.
     res_bind (res_map (index_vec replacements) (successors (term_kind t))) (\<lambda>ts.
       Ok (d\<lparr>terminator := Some (t\<lparr>term_kind := with_successors (term_kind t) ts\<rparr>)\<rparr>)))"

text \<open>The replacements are numbers of existing blocks, so the checks of \<open>BasicBlock::new\<close> cannot fail for a
  body that was built by pushing blocks, and are left out.\<close>

definition remove_dead_blocks :: "body \<Rightarrow> body res" where
  "remove_dead_blocks b =
     res_bind (preorder_list b (preorder_new b START_BLOCK)) (\<lambda>order.
     res_bind (insert_all_of order (bs_new_empty (length (basic_blocks b)))) (\<lambda>seen.
     res_bind (res_for (bs_iter seen) (compact_step (\<lambda>used. used))
         (basic_blocks b, [0 ..< length (basic_blocks b)], 0)) (\<lambda>(blocks, replacements, used_blocks).
     res_bind (res_map (replace_targets replacements) (take used_blocks blocks)) (\<lambda>blocks'.
       Ok (b\<lparr>basic_blocks := blocks'\<rparr>)))))"

text \<open>The pass \<open>SimplifyCfg\<close>; the bound is that of the simplifier's loop.\<close>

definition simplify_cfg :: "nat \<Rightarrow> body \<Rightarrow> body res" where
  "simplify_cfg n b =
     res_bind (cs_new b) (\<lambda>cs.
     res_bind (simplify n cs) (\<lambda>bs. remove_dead_blocks (b\<lparr>basic_blocks := bs\<rparr>)))"

lemma insert_all_of_ok:
  assumes "bs_ok s" "\<forall>x\<in>set xs. x < domain_size s"
  shows "\<exists>s'. insert_all_of xs s = Ok s' \<and> bs_ok s' \<and> bits s' = bits s \<union> set xs \<and> domain_size s' = domain_size s"
  using assms
proof (induction xs arbitrary: s)
  case (Cons x xs)
  from bs_insert_ok [OF Cons.prems(1), of x] Cons.prems(2) obtain s1 where
    s1: "bs_insert s x = Ok (s1, x \<notin> bits s)" "bs_ok s1" "bits s1 = insert x (bits s)" "domain_size s1 = domain_size s"
    by auto
  from Cons.IH [OF s1(2)] Cons.prems(2) s1(4) obtain s2 where
    "insert_all_of xs s1 = Ok s2" "bs_ok s2" "bits s2 = bits s1 \<union> set xs" "domain_size s2 = domain_size s1" by auto
  with s1 show ?case by (intro exI [of _ s2]) (simp add: insert_all_of_def)
qed (simp add: insert_all_of_def)

lemma bs_iter_small:
  assumes "bs_ok s" "domain_size s < 2 ^ 32"
  shows "bs_iter s = sorted_list_of_set (bits s)"
proof (rule bs_iter_sorted)
  have "64 * length (words s) \<le> domain_size s + 63"
    using assms(1) by (simp add: bs_ok_def num_words_def WORD_BITS_def)
  with assms(2) show "64 * length (words s) < 2 ^ 64" by simp
qed

lemma replace_targets_ok:
  assumes "terminator d = Some t" "\<forall>x\<in>set (successors (term_kind t)). x < length replacements"
  shows "replace_targets replacements d = Ok (rename_targets ((!) replacements) d)"
proof -
  have "res_map (index_vec replacements) (successors (term_kind t)) =
    Ok (map ((!) replacements) (successors (term_kind t)))"
    by (rule res_map_ok) (use assms(2) in simp)
  then show ?thesis using assms(1)
    by (simp add: replace_targets_def block_terminator_def rename_targets_def successors_mut_with_successors)
qed

text \<open>The blocks that stay, in their order, with renumbered targets.\<close>

lemma remove_dead_blocks_ok:
  assumes reach: "R = (cfg.edge b)\<^sup>* `` {START_BLOCK}" "R \<subseteq> {..<length (basic_blocks b)}"
    and present: "\<And>n. n \<in> R \<Longrightarrow> terminator (basic_blocks b ! n) \<noteq> None"
    and small: "length (basic_blocks b) < 2 ^ 32"
  obtains r where "remove_dead_blocks b =
      Ok (b\<lparr>basic_blocks := map (\<lambda>n. rename_targets r (basic_blocks b ! n)) (sorted_list_of_set R)\<rparr>)"
    "\<And>j. j < card R \<Longrightarrow> r (sorted_list_of_set R ! j) = j"
proof -
  let ?k = "length (basic_blocks b)"
  let ?is = "sorted_list_of_set R"
  from preorder_reach [of b START_BLOCK] reach obtain L where
    L: "preorder_list b (preorder_new b START_BLOCK) = Ok L" "set L = R" by auto
  have "\<forall>x\<in>set L. x < domain_size (bs_new_empty ?k)" using L(2) reach(2) by (auto simp: bs_new_empty_def)
  from insert_all_of_ok [OF bs_new_empty_ok(1) this] obtain seen where
    seen: "insert_all_of L (bs_new_empty ?k) = Ok seen" "bs_ok seen" "bits seen = R" "domain_size seen = ?k"
    using L(2) bs_new_empty_ok(2) by (auto simp: bs_new_empty_def)
  have iter: "bs_iter seen = ?is" using bs_iter_small [OF seen(2)] seen(3,4) small by simp
  have fin: "finite R" using reach(2) finite_subset by blast
  have "sorted_wrt (<) ?is" "\<forall>i\<in>set ?is. i < ?k" using fin reach(2) by auto
  from compact_ok [OF this, of "[0 ..< ?k]" "\<lambda>used. used"] obtain blocks replacements where
    c: "res_for ?is (compact_step (\<lambda>used. used)) (basic_blocks b, [0 ..< ?k], 0) = Ok (blocks, replacements, length ?is)"
    "take (length ?is) blocks = map ((!) (basic_blocks b)) ?is" "length replacements = ?k"
    "\<forall>j<length ?is. replacements ! (?is ! j) = j" by auto
  have ok: "replace_targets replacements d = Ok (rename_targets ((!) replacements) d)"
    if d: "d \<in> set (map ((!) (basic_blocks b)) ?is)" for d
  proof -
    obtain n where n: "n \<in> R" "d = basic_blocks b ! n" using d fin by auto
    then obtain t where t: "terminator d = Some t" using present by blast
    have "x \<in> R" if "x \<in> set (successors (term_kind t))" for x
    proof -
      have "n < ?k" using n(1) reach(2) by blast
      then have "(n, x) \<in> cfg.edge b" using that t n(2) by (simp add: cfg.edge_iff block_successors_def)
      then show ?thesis using n(1) unfolding reach(1) by (blast intro: rtrancl_into_rtrancl)
    qed
    then show ?thesis using t c(3) reach(2) by (intro replace_targets_ok) auto
  qed
  have collect: "res_map (replace_targets replacements) (map ((!) (basic_blocks b)) ?is) =
    Ok (map (rename_targets ((!) replacements)) (map ((!) (basic_blocks b)) ?is))"
    by (rule res_map_ok) (rule ok)
  show thesis
  proof (rule that [of "(!) replacements"])
    show "remove_dead_blocks b =
        Ok (b\<lparr>basic_blocks := map (\<lambda>n. rename_targets ((!) replacements) (basic_blocks b ! n)) ?is\<rparr>)"
      using L(1) seen(1) c(1,2) collect by (simp add: remove_dead_blocks_def iter comp_def)
    show "replacements ! (?is ! j) = j" if "j < card R" for j using c(4) that by simp
  qed
qed

text \<open>The renumbering is a bijection between the blocks that stay and the first numbers, and keeps the
  number of the start block.\<close>

lemma sorted_places:
  fixes R :: "nat set"
  assumes fin: "finite R" and places: "\<forall>j<card R. r (sorted_list_of_set R ! j) = j"
  shows "\<And>n. n \<in> R \<Longrightarrow> r n < card R \<and> sorted_list_of_set R ! r n = n"
    and "inj_on r R" and "r ` R = {..<card R}" and "0 \<in> R \<Longrightarrow> r 0 = 0"
proof -
  let ?is = "sorted_list_of_set R"
  have len: "length ?is = card R" using fin by simp
  show at: "r n < card R \<and> ?is ! r n = n" if n: "n \<in> R" for n
  proof -
    obtain j where j: "j < card R" "?is ! j = n" using n fin by (metis in_set_conv_nth len set_sorted_list_of_set)
    then have "r n = j" using places by blast
    with j show ?thesis by simp
  qed
  show "inj_on r R" by (rule inj_on_inverseI [of _ "(!) ?is"]) (use at in blast)
  show "r ` R = {..<card R}"
  proof
    show "{..<card R} \<subseteq> r ` R"
    proof
      fix j assume "j \<in> {..<card R}"
      then have "j < length ?is" "j = r (?is ! j)" using places len by simp_all
      then show "j \<in> r ` R" using fin nth_mem [of j ?is] by simp
    qed
  qed (use at in auto)
  show "r 0 = 0" if zero: "0 \<in> R"
    using sorted_index_le [of ?is "r 0"] at [OF zero] len by simp
qed

lemma reach_closed_blocks:
  assumes "(cfg.edge b)\<^sup>* `` {START_BLOCK} \<subseteq> {..<length (basic_blocks b)}"
  shows "closed_blocks (basic_blocks b) ((cfg.edge b)\<^sup>* `` {START_BLOCK})"
  unfolding closed_blocks_def
proof (intro ballI impI allI subsetI)
  fix n t m assume n: "n \<in> (cfg.edge b)\<^sup>* `` {START_BLOCK}" "n < length (basic_blocks b)"
    and t: "terminator (basic_blocks b ! n) = Some t" "m \<in> set (successors (term_kind t))"
  then have "(n, m) \<in> cfg.edge b" by (simp add: cfg.edge_iff block_successors_def)
  with n(1) show "m \<in> (cfg.edge b)\<^sup>* `` {START_BLOCK}" by (blast intro: rtrancl_into_rtrancl)
qed

lemma edge_terminator:
  assumes "(n, m) \<in> cfg.edge b"
  shows "n < length (basic_blocks b) \<and>
    (\<exists>t. terminator (basic_blocks b ! n) = Some t \<and> m \<in> set (successors (term_kind t)))"
  using assms unfolding cfg.edge_iff block_successors_def
  by (cases "n < length (basic_blocks b)"; cases "terminator (basic_blocks b ! n)") simp_all

text \<open>What the removal leaves: a well-formed body with the same runs in which all blocks are
  reachable.\<close>

lemma removed_ok:
  assumes reach: "R = (cfg.edge b)\<^sup>* `` {START_BLOCK}" "R \<subseteq> {..<length (basic_blocks b)}"
    and present: "\<And>n. n \<in> R \<Longrightarrow> terminator (basic_blocks b ! n) \<noteq> None"
    and at: "\<And>n. n \<in> R \<Longrightarrow> r n < length bs \<and> bs ! r n = rename_targets r (basic_blocks b ! n)"
    and onto: "r ` R = {..<length bs}" and start: "r START_BLOCK = START_BLOCK"
  shows "wf_body (b\<lparr>basic_blocks := bs\<rparr>)" (is "wf_body ?b")
    and "same_runs sem b (b\<lparr>basic_blocks := bs\<rparr>)"
    and "(cfg.edge (b\<lparr>basic_blocks := bs\<rparr>))\<^sup>* `` {START_BLOCK} = {..<length bs}"
proof -
  have closed: "closed_blocks (basic_blocks b) R" using reach_closed_blocks reach by blast
  have block: "\<exists>t. terminator (bs ! k) = Some t \<and> set (successors (term_kind t)) \<subseteq> {..<length bs}"
    if k: "k < length bs" for k
  proof -
    have "k \<in> r ` R" using k onto by simp
    then obtain n where n: "n \<in> R" "k = r n" by blast
    then obtain t where t: "terminator (basic_blocks b ! n) = Some t" using present by blast
    have "n < length (basic_blocks b)" using n(1) reach(2) by blast
    then have "set (successors (term_kind t)) \<subseteq> R" using closed n(1) t by (simp add: closed_blocks_def)
    then have "r ` set (successors (term_kind t)) \<subseteq> {..<length bs}" using onto by blast
    then show ?thesis using at [OF n(1)] n(2) t by simp
  qed
  then have "list_all (\<lambda>d. terminator d \<noteq> None) bs" by (force simp: list_all_length)
  moreover have "wf_targets ?b" 
    unfolding wf_targets_def list_all_iff
  proof (intro ballI)
    fix k m assume "k \<in> set [0..<length (basic_blocks ?b)]" "m \<in> set (block_successors ?b k)"
    then show "m < length (basic_blocks ?b)" using block [of k] by (force simp: block_successors_def)
  qed
  ultimately show "wf_body ?b" by (simp add: wf_body_def)
  have step: "block_step sem bs (r n) s = map_sum (map_prod r id) id (block_step sem (basic_blocks b) n s)"
    if n: "n \<in> R" for n s
    using at [OF n] n reach(2) exec_rename_targets [of sem r] by (auto simp: block_step_def)
  show "same_runs sem b ?b"
    using runs_renumbered [OF step closed, of START_BLOCK] reach(1) start by (auto simp: same_runs_def)
  have "(START_BLOCK, r n) \<in> (cfg.edge ?b)\<^sup>*" if "(START_BLOCK, n) \<in> (cfg.edge b)\<^sup>*" for n
    using that
  proof (induction rule: rtrancl_induct)
    case (step n m)
    from edge_terminator [OF step(2)] obtain t where t: "terminator (basic_blocks b ! n) = Some t"
      "m \<in> set (successors (term_kind t))" by blast
    have "n \<in> R" using step(1) reach(1) by blast
    from at [OF this] t have "(r n, r m) \<in> cfg.edge ?b" by (simp add: cfg.edge_iff block_successors_def)
    with step.IH show ?case by (rule rtrancl_into_rtrancl)
  qed (simp add: start)
  then have "r ` R \<subseteq> (cfg.edge ?b)\<^sup>* `` {START_BLOCK}" using reach(1) by blast
  moreover have "START_BLOCK \<in> R" using reach(1) by blast
  then have "START_BLOCK < length bs" using at [of START_BLOCK] start by simp
  ultimately show "(cfg.edge ?b)\<^sup>* `` {START_BLOCK} = {..<length bs}"
    using wf_body_closed [OF \<open>wf_body ?b\<close>, of START_BLOCK] onto by auto
qed

text \<open>Nothing happens when all blocks are reachable.\<close>

lemma all_live_same:
  assumes "wf_body b" and all: "(cfg.edge b)\<^sup>* `` {START_BLOCK} = {..<length (basic_blocks b)}"
    and small: "length (basic_blocks b) < 2 ^ 32"
  shows "remove_dead_blocks b = Ok b"
proof -
  let ?k = "length (basic_blocks b)"
  have "terminator (basic_blocks b ! n) \<noteq> None" if "n \<in> {..<?k}" for n
    using wf_body_terminator [OF assms(1), of n] that by auto
  from remove_dead_blocks_ok [OF all [symmetric] order_refl this small] obtain r where
    r: "remove_dead_blocks b = Ok (b\<lparr>basic_blocks :=
        map (\<lambda>n. rename_targets r (basic_blocks b ! n)) (sorted_list_of_set {..<?k})\<rparr>)"
    "\<And>j. j < card {..<?k} \<Longrightarrow> r (sorted_list_of_set {..<?k} ! j) = j" by blast
  have range: "sorted_list_of_set {..<?k} = [0 ..< ?k]" by (simp add: lessThan_atLeast0)
  have same: "rename_targets r (basic_blocks b ! n) = basic_blocks b ! n" if n: "n < ?k" for n
  proof (rule rename_targets_same)
    fix t x assume "terminator (basic_blocks b ! n) = Some t" "x \<in> set (successors (term_kind t))"
    then have "x < ?k" using assms(1) n wf_targetsD [of b x n] by (simp add: wf_body_def block_successors_def)
    then show "r x = x" using r(2) [of x] range by simp
  qed
  have "map (\<lambda>n. rename_targets r (basic_blocks b ! n)) [0 ..< ?k] = map ((!) (basic_blocks b)) [0 ..< ?k]"
    using same by simp
  then have "map (\<lambda>n. rename_targets r (basic_blocks b ! n)) [0 ..< ?k] = basic_blocks b"
    by (simp only: map_nth)
  then show ?thesis using r(1) range by simp
qed

lemma remove_dead_blocks_full:
  assumes reach: "R = (cfg.edge b)\<^sup>* `` {START_BLOCK}" "R \<subseteq> {..<length (basic_blocks b)}"
    and present: "\<And>n. n \<in> R \<Longrightarrow> terminator (basic_blocks b ! n) \<noteq> None"
    and small: "length (basic_blocks b) < 2 ^ 32"
  shows "\<exists>r bs. remove_dead_blocks b = Ok (b\<lparr>basic_blocks := bs\<rparr>) \<and>
    bs = map (\<lambda>n. rename_targets r (basic_blocks b ! n)) (sorted_list_of_set R) \<and>
    (\<forall>n\<in>R. r n < length bs \<and> bs ! r n = rename_targets r (basic_blocks b ! n)) \<and>
    r START_BLOCK = START_BLOCK \<and> inj_on r R \<and> r ` R = {..<length bs} \<and> wf_body (b\<lparr>basic_blocks := bs\<rparr>) \<and>
    (\<forall>sem :: 'st mir_sem. same_runs sem b (b\<lparr>basic_blocks := bs\<rparr>)) \<and>
    (cfg.edge (b\<lparr>basic_blocks := bs\<rparr>))\<^sup>* `` {START_BLOCK} = {..<length bs}"
proof -
  from remove_dead_blocks_ok [OF reach present small] obtain r where
    r: "remove_dead_blocks b =
      Ok (b\<lparr>basic_blocks := map (\<lambda>n. rename_targets r (basic_blocks b ! n)) (sorted_list_of_set R)\<rparr>)"
    "\<forall>j<card R. r (sorted_list_of_set R ! j) = j" by blast
  let ?bs = "map (\<lambda>n. rename_targets r (basic_blocks b ! n)) (sorted_list_of_set R)"
  have fin: "finite R" using reach(2) finite_subset by blast
  note places = sorted_places [OF fin r(2)]
  have at: "r n < length ?bs \<and> ?bs ! r n = rename_targets r (basic_blocks b ! n)" if "n \<in> R" for n
    using places(1) [OF that] by simp
  have "START_BLOCK \<in> R" using reach(1) by blast
  then have start: "r START_BLOCK = START_BLOCK" using places(4) by (simp add: START_BLOCK_def)
  have onto: "r ` R = {..<length ?bs}" using places(3) by simp
  note ok = removed_ok [OF reach present at onto start]
  show ?thesis
    by (intro exI [of _ r] exI [of _ ?bs] conjI r(1) refl ballI at start places(2) onto allI ok)
qed

text \<open>(C21) Removing the dead blocks of a well-formed body returns, keeps exactly the blocks that are
  reachable from the start block, in their order and with their statements, and gives a well-formed
  body with the same runs in which every block is reachable; doing it again changes nothing.\<close>

theorem remove_dead_blocks_correct:
  assumes "wf_body b" and "basic_blocks b \<noteq> []" and "length (basic_blocks b) < 2 ^ 32"
  shows "\<exists>b'. remove_dead_blocks b = Ok b' \<and> wf_body b' \<and> same_runs sem b b' \<and>
    map statements (basic_blocks b') =
      map (\<lambda>n. statements (basic_blocks b ! n)) (sorted_list_of_set ((cfg.edge b)\<^sup>* `` {START_BLOCK})) \<and>
    (cfg.edge b')\<^sup>* `` {START_BLOCK} = {..<length (basic_blocks b')} \<and> remove_dead_blocks b' = Ok b'"
proof -
  let ?R = "(cfg.edge b)\<^sup>* `` {START_BLOCK}"
  have sub: "?R \<subseteq> {..<length (basic_blocks b)}" using assms by (intro wf_body_closed) (simp_all add: START_BLOCK_def)
  have "terminator (basic_blocks b ! n) \<noteq> None" if n: "n \<in> ?R" for n
    using wf_body_terminator [OF assms(1), of n] subsetD [OF sub n] by auto
  from remove_dead_blocks_full [OF refl sub this assms(3), where 'st = 'a] obtain r bs where
    b': "remove_dead_blocks b = Ok (b\<lparr>basic_blocks := bs\<rparr>)" (is "_ = Ok ?b'")
      "bs = map (\<lambda>n. rename_targets r (basic_blocks b ! n)) (sorted_list_of_set ?R)"
      "wf_body (b\<lparr>basic_blocks := bs\<rparr>)" "same_runs sem b (b\<lparr>basic_blocks := bs\<rparr>)"
      "(cfg.edge (b\<lparr>basic_blocks := bs\<rparr>))\<^sup>* `` {START_BLOCK} = {..<length bs}" by auto
  have "length bs \<le> length (basic_blocks b)"
    using b'(2) sub card_mono [OF finite_lessThan sub] by simp
  then have "remove_dead_blocks ?b' = Ok ?b'" using all_live_same [of ?b'] b'(3,5) assms(3) by simp
  with b' show ?thesis by (intro exI [of _ ?b']) (simp add: comp_def)
qed

section \<open>The pass as a whole\<close>

lemma reach_simplified:
  assumes simp: "simplified (basic_blocks b) L START_BLOCK"
  shows "(cfg.edge b)\<^sup>* `` {START_BLOCK} = L"
proof
  have start: "START_BLOCK \<in> L" using simp by (simp add: simplified_def)
  show "(cfg.edge b)\<^sup>* `` {START_BLOCK} \<subseteq> L"
  proof (rule cfg.closed_reach)
    show "cfg.edge b `` L \<subseteq> L"
    proof
      fix m assume "m \<in> cfg.edge b `` L"
      then obtain n where "n \<in> L" "(n, m) \<in> cfg.edge b" by blast
      then show "m \<in> L" using edge_terminator [of n m b] simplifiedD(3) [OF simp, of n] by auto
    qed
  qed (use start in simp)
  have "(START_BLOCK, n) \<in> (cfg.edge b)\<^sup>*" if "(block_edge (basic_blocks b))\<^sup>*\<^sup>* START_BLOCK n" for n
    using that
  proof (induction rule: rtranclp_induct)
    case (step n m)
    then have "(n, m) \<in> cfg.edge b"
      by (auto simp: block_edge_def cfg.edge_iff block_successors_def term_succs_def)
    with step.IH show ?case by simp
  qed simp
  then show "L \<subseteq> (cfg.edge b)\<^sup>* `` {START_BLOCK}" using simplifiedD(2) [OF simp] by blast
qed

lemma simplify_cfg_ok:
  assumes "wf_body b" and "basic_blocks b \<noteq> []"
    and "edge_count b + 2 < 2 ^ 32" and "length (basic_blocks b) < 2 ^ 32" and "sem_ok sem"
  shows "\<exists>N b'. (\<forall>n\<ge>N. simplify_cfg n b = Ok b') \<and> wf_body b' \<and> same_runs sem b b' \<and>
    (cfg.edge b')\<^sup>* `` {START_BLOCK} = {..<length (basic_blocks b')} \<and>
    simplified (basic_blocks b') {..<length (basic_blocks b')} START_BLOCK \<and> length (basic_blocks b') \<le> length (basic_blocks b)"
proof -
  from simplify_ok [OF assms(5,1-3)] obtain cs N bs L where
    s: "cs_new b = Ok cs" "\<forall>n\<ge>N. simplify n cs = Ok bs" "length bs = length (basic_blocks b)"
    "\<forall>s out. runs sem bs START_BLOCK s out = runs sem (basic_blocks b) START_BLOCK s out"
    "simplified bs L START_BLOCK" by blast
  let ?b = "b\<lparr>basic_blocks := bs\<rparr>"
  let ?R = "(cfg.edge ?b)\<^sup>* `` {START_BLOCK}"
  have RL: "?R = L" using reach_simplified [of ?b L] s(5) by simp
  then have sub: "?R \<subseteq> {..<length (basic_blocks ?b)}" using s(5) by (force simp: simplified_def)
  have some: "terminator (basic_blocks ?b ! n) \<noteq> None" if n: "n \<in> ?R" for n
    using simplifiedD(3) [OF s(5), of n] n RL by auto
  have small: "length (basic_blocks ?b) < 2 ^ 32" using assms(4) s(3) by simp
  from remove_dead_blocks_full [OF refl sub some small, where 'st = 'a] obtain r bs' where
    r: "remove_dead_blocks ?b = Ok (b\<lparr>basic_blocks := bs'\<rparr>)"
    "\<forall>n\<in>?R. r n < length bs' \<and> bs' ! r n = rename_targets r (bs ! n)"
    "inj_on r ?R" "r ` ?R = {..<length bs'}" "wf_body (b\<lparr>basic_blocks := bs'\<rparr>)"
    "same_runs sem ?b (b\<lparr>basic_blocks := bs'\<rparr>)"
    "(cfg.edge (b\<lparr>basic_blocks := bs'\<rparr>))\<^sup>* `` {START_BLOCK} = {..<length bs'}"
    and r0: "r START_BLOCK = START_BLOCK" by auto
  have "simplified bs ?R START_BLOCK" using s(5) RL by simp
  from renamed_simplified [OF this r(3), of bs'] r(2,4) r0
  have "simplified bs' {..<length bs'} START_BLOCK" by simp
  moreover have "same_runs sem b ?b" using s(4) by (simp add: same_runs_def)
  then have "same_runs sem b (b\<lparr>basic_blocks := bs'\<rparr>)" using r(6) by (rule same_runs_trans)
  moreover have "\<forall>n\<ge>N. simplify_cfg n b = Ok (b\<lparr>basic_blocks := bs'\<rparr>)"
    using s(1,2) r(1) by (simp add: simplify_cfg_def)
  moreover have "length bs' \<le> length (basic_blocks b)"
    using r(4) card_image_le [OF finite_subset [OF sub finite_lessThan], of r] card_mono [OF finite_lessThan sub] s(3)
    by simp
  ultimately show ?thesis
    using r(5,7) by (intro exI [of _ N] exI [of _ "b\<lparr>basic_blocks := bs'\<rparr>"]) simp
qed

text \<open>(C17) The pass \<open>SimplifyCfg\<close> on a well-formed body: the loop of the simplifier ends, no count
  overflows and no index is out of bounds; the result is well-formed, has the same runs as the body,
  has no unreachable block, no branch whose targets are all equal, no edge to an empty block that
  only jumps on, and no jump to another block that has no other reference (the start block counts one
  reference of its own): nothing is left to collapse or to merge. It has no more blocks than before.\<close>

theorem simplify_cfg_correct:
  assumes "wf_body b" and "basic_blocks b \<noteq> []"
    and "edge_count b + 2 < 2 ^ 32" and "length (basic_blocks b) < 2 ^ 32" and "sem_ok sem"
  shows "\<exists>N b'. (\<forall>n\<ge>N. simplify_cfg n b = Ok b') \<and> wf_body b' \<and> same_runs sem b b' \<and>
    (cfg.edge b')\<^sup>* `` {START_BLOCK} = {..<length (basic_blocks b')} \<and>
    simplified (basic_blocks b') {..<length (basic_blocks b')} START_BLOCK \<and> length (basic_blocks b') \<le> length (basic_blocks b)"
  using assms by (rule simplify_cfg_ok)

section \<open>Examples\<close>

text \<open>A chain of jumps, a branch with equal targets, and a block that nothing leads to.\<close>

definition crooked :: body where
  "crooked =
     body_of_blocks [sample_block [] (Goto 2), sample_block [] (Goto 4),
       sample_block [1] (SwitchInt (Copy (place_from_local 1)) Bool_ty [0] [1, 1]),
       sample_block [] (Goto 3), sample_block [2] Return]"

lemma crooked_ok:
  "wf_body crooked" "basic_blocks crooked \<noteq> []" "edge_count crooked + 2 < 2 ^ 32"
  "length (basic_blocks crooked) < 2 ^ 32"
proof -
  show "wf_body crooked" "basic_blocks crooked \<noteq> []" by code_simp+
  have "edge_count crooked = 5" "length (basic_blocks crooked) = 5" by code_simp+
  then show "edge_count crooked + 2 < 2 ^ 32" "length (basic_blocks crooked) < 2 ^ 32" by simp_all
qed

theorem remove_dead_blocks_correct_witness:
  "wf_body crooked \<and> basic_blocks crooked \<noteq> [] \<and> length (basic_blocks crooked) < 2 ^ 32 \<and>
   preorder_list crooked (preorder_new crooked START_BLOCK) = Ok [0, 2, 1, 4] \<and>
   (\<exists>b'. remove_dead_blocks crooked = Ok b' \<and> same_runs log_sem crooked b' \<and>
      length (basic_blocks b') = 4 \<and> remove_dead_blocks b' = Ok b')"
proof -
  have "START_BLOCK < length (basic_blocks crooked)" by code_simp
  moreover have pre: "preorder_list crooked (preorder_new crooked START_BLOCK) = Ok [0, 2, 1, 4]" by code_simp
  ultimately have "(cfg.edge crooked)\<^sup>* `` {START_BLOCK} = set [0, 2, 1, 4]"
    using preorder_complete [OF crooked_ok(1), of START_BLOCK] by auto
  then have "card ((cfg.edge crooked)\<^sup>* `` {START_BLOCK}) = 4" by simp
  then show ?thesis
    using remove_dead_blocks_correct [OF crooked_ok(1,2,4), of log_sem] crooked_ok pre
    by (auto dest: arg_cong [where f = length])
qed

theorem simplify_cfg_correct_witness:
  "wf_body crooked \<and> basic_blocks crooked \<noteq> [] \<and> edge_count crooked + 2 < 2 ^ 32 \<and>
   length (basic_blocks crooked) < 2 ^ 32 \<and> sem_ok log_sem \<and>
   (\<exists>N b'. simplify_cfg N crooked = Ok b' \<and> wf_body b' \<and> same_runs log_sem crooked b' \<and>
      simplified (basic_blocks b') {..<length (basic_blocks b')} START_BLOCK)"
  using crooked_ok log_sem_ok simplify_cfg_correct [OF crooked_ok log_sem_ok]
  by (blast intro: order_refl)

end
