(* ===== verification/Call_Guards.thy ===== *)
theory Call_Guards
  imports Dead_Blocks
begin

text \<open>
  Breaking critical edges of calls (\<open>src/librustc_mir/transform/add_call_guards.rs\<close>): where a call
  returns to a block with several predecessors, a new block that only jumps is put in between. The
  theorem says that the runs stay the same and that afterwards every call of the wanted kind returns
  to a block with one predecessor.
\<close>

section \<open>The pass\<close>

datatype call_edges = AllCallEdges | CriticalCallEdges

text \<open>Block numbers are 32 bits wide and the last 255 values are reserved.\<close>

definition basic_block_new :: "nat \<Rightarrow> nat res" where
  "basic_block_new i = res_bind (assert_that (i \<le> 0xFFFFFF00)) (\<lambda>_. Ok i)"

text \<open>The turn of the loop for one block: the blocks done, and the new blocks.\<close>

definition guard_block ::
    "call_edges \<Rightarrow> nat list \<Rightarrow> nat \<Rightarrow> basic_block_data
     \<Rightarrow> basic_block_data list \<times> basic_block_data list
     \<Rightarrow> (basic_block_data list \<times> basic_block_data list) res" where
  "guard_block mode pred_count cur_len d = (\<lambda>(blocks, new_blocks).
     case terminator d of
       Some t \<Rightarrow>
         (case term_kind t of
            Call func args (Some (p, destination)) cleanup h \<Rightarrow>
              res_bind (index_vec pred_count destination) (\<lambda>c.
                if c > 1 \<and> (cleanup \<noteq> None \<or> mode = AllCallEdges)
                then res_bind (basic_block_new (cur_len + length new_blocks)) (\<lambda>idx.
                  Ok (blocks @ [d\<lparr>terminator :=
                        Some (t\<lparr>term_kind := Call func args (Some (p, idx)) cleanup h\<rparr>)\<rparr>],
                      new_blocks @ [\<lparr>statements = [],
                        terminator = Some \<lparr>term_source_info = term_source_info t, term_kind = Goto destination\<rparr>,
                        is_cleanup = is_cleanup d\<rparr>]))
                else Ok (blocks @ [d], new_blocks))
          | _ \<Rightarrow> Ok (blocks @ [d], new_blocks))
     | None \<Rightarrow> Ok (blocks @ [d], new_blocks))"

definition add_call_guards :: "call_edges \<Rightarrow> body \<Rightarrow> body res" where
  "add_call_guards mode b =
     res_bind (calculate_predecessors b) (\<lambda>preds.
     let pred_count = map length preds;
         cur_len = length (basic_blocks b)
     in res_bind (res_for (basic_blocks b) (guard_block mode pred_count cur_len) ([], []))
          (\<lambda>(blocks, new_blocks). Ok (b\<lparr>basic_blocks := blocks @ new_blocks\<rparr>)))"

section \<open>Counting edges\<close>

definition edges_of :: "basic_block_data list \<Rightarrow> nat multiset" where
  "edges_of bs = (\<Sum>d\<leftarrow>bs. mset (term_succs d))"

lemma edges_of_simps [simp]:
  "edges_of [] = {#}" "edges_of (d # bs) = mset (term_succs d) + edges_of bs"
  "edges_of (bs @ bs') = edges_of bs + edges_of bs'"
  by (simp_all add: edges_of_def)

lemma edges_of_mem: "m \<in># edges_of bs \<longleftrightarrow> (\<exists>d\<in>set bs. m \<in> set (term_succs d))"
  by (induction bs) auto

lemma size_edges_of: "size (edges_of bs) = (\<Sum>d\<leftarrow>bs. length (term_succs d))"
  by (induction bs) simp_all

lemma edge_count_edges: "edge_count b = size (edges_of (basic_blocks b))"
proof -
  have "map (block_successors b) [0 ..< length (basic_blocks b)] = map term_succs (basic_blocks b)"
    by (intro nth_equalityI) (simp_all add: block_successors_def term_succs_def)
  then show ?thesis by (simp add: edge_count_def size_edges_of length_concat comp_def)
qed

lemma push_preds_length:
  "res_for ts (push_pred bb) ps = Ok qs \<Longrightarrow> length qs = length ps \<and>
     (\<forall>n<length ps. length (qs ! n) = length (ps ! n) + count (mset ts) n)"
proof (induction ts arbitrary: ps)
  case (Cons t ts)
  then obtain ps1 where ps1: "push_pred bb t ps = Ok ps1" "res_for ts (push_pred bb) ps1 = Ok qs"
    by (auto simp: res_simps)
  then have "ps1 = ps[t := ps ! t @ [bb]]" "t < length ps" by (auto simp: push_pred_def res_simps)
  with Cons.IH [OF ps1(2)] show ?case by (auto simp: nth_list_update)
qed simp

lemma predecessor_counts:
  assumes "wf_targets b"
  shows "\<exists>ps. calculate_predecessors b = Ok ps \<and> length ps = length (basic_blocks b) \<and>
    (\<forall>n<length ps. length (ps ! n) = count (edges_of (basic_blocks b)) n)"
proof -
  from calculate_predecessors_edges [OF assms] obtain ps where
    ps: "calculate_predecessors b = Ok ps" "length ps = length (basic_blocks b)" by blast
  have succs: "block_successors b k = term_succs (basic_blocks b ! k)" if "k < length (basic_blocks b)" for k
    using that by (simp add: block_successors_def term_succs_def)
  have "length qs = length ps0 \<and>
      (\<forall>n<length ps0. length (qs ! n) = length (ps0 ! n) + count (edges_of (take k (basic_blocks b))) n)"
    if "res_for [0 ..< k] (\<lambda>bb. res_for (block_successors b bb) (push_pred bb)) ps0 = Ok qs"
      "k \<le> length (basic_blocks b)" for k ps0 qs
    using that
  proof (induction k arbitrary: qs)
    case (Suc k)
    then obtain ps1 where ps1: "res_for [0 ..< k] (\<lambda>bb. res_for (block_successors b bb) (push_pred bb)) ps0 = Ok ps1"
      "res_for (block_successors b k) (push_pred k) ps1 = Ok qs" by (auto simp: res_for_append res_simps)
    have "take (Suc k) (basic_blocks b) = take k (basic_blocks b) @ [basic_blocks b ! k]"
      using Suc.prems(2) by (simp add: take_Suc_conv_app_nth)
    with Suc.IH [OF ps1(1)] push_preds_length [OF ps1(2)] Suc.prems(2) succs [of k] show ?case by simp
  qed simp
  from this [of "length (basic_blocks b)"] ps show ?thesis by (fastforce simp: calculate_predecessors_def)
qed

section \<open>The loop\<close>

fun call_return :: "terminator_kind \<Rightarrow> nat option" where
  "call_return (Call _ _ (Some (_, d)) _ _) = Some d"
| "call_return _ = None"

fun redirect_call :: "nat \<Rightarrow> terminator_kind \<Rightarrow> terminator_kind" where
  "redirect_call i (Call func args (Some (p, _)) cleanup h) = Call func args (Some (p, i)) cleanup h"
| "redirect_call _ k = k"

lemma call_return_succ: "d \<in> set (successors (Call func args (Some (p, d)) cleanup h))"
  by (cases cleanup) simp_all

text \<open>The calls the mode is about.\<close>

fun wanted :: "call_edges \<Rightarrow> terminator_kind \<Rightarrow> bool" where
  "wanted mode (Call _ _ (Some _) cleanup _) = (cleanup \<noteq> None \<or> mode = AllCallEdges)"
| "wanted _ _ = False"

definition breaks :: "call_edges \<Rightarrow> nat list \<Rightarrow> terminator_kind \<Rightarrow> bool" where
  "breaks mode pc k \<longleftrightarrow> wanted mode k \<and> (\<exists>d. call_return k = Some d \<and> pc ! d > 1)"

definition guarded ::
    "call_edges \<Rightarrow> nat list \<Rightarrow> nat \<Rightarrow> basic_block_data list \<Rightarrow> basic_block_data \<Rightarrow> basic_block_data \<Rightarrow> bool" where
  "guarded mode pc L new d d' \<longleftrightarrow>
     d' = d \<and> (\<forall>t. terminator d = Some t \<longrightarrow> \<not> breaks mode pc (term_kind t)) \<or>
     (\<exists>t j dest t'. terminator d = Some t \<and> call_return (term_kind t) = Some dest \<and> j < length new \<and>
        d' = d\<lparr>terminator := Some (t\<lparr>term_kind := redirect_call (L + j) (term_kind t)\<rparr>)\<rparr> \<and>
        statements (new ! j) = [] \<and> terminator (new ! j) = Some t' \<and> term_kind t' = Goto dest)"

lemma guarded_append: "guarded mode pc L new d d' \<Longrightarrow> guarded mode pc L (new @ extra) d d'"
  unfolding guarded_def by (metis length_append nth_append trans_less_add1)

lemma guard_block_ok:
  assumes pc: "set (term_succs d) \<subseteq> {..<length pc}" and room: "L + length new \<le> 0xFFFFFF00"
  shows "\<exists>d' extra. guard_block mode pc L d (blocks, new) = Ok (blocks @ [d'], new @ extra) \<and>
    length extra \<le> 1 \<and> (\<forall>g\<in>set extra. \<exists>t m. terminator g = Some t \<and> term_kind t = Goto m) \<and>
    guarded mode pc L (new @ extra) d d' \<and>
    mset (term_succs d') + edges_of extra =
      mset (term_succs d) + mset [L + length new ..< L + length new + length extra]"
proof (cases "\<exists>t. terminator d = Some t \<and> breaks mode pc (term_kind t)")
  case False
  have small: "index_vec pc m = Ok (pc ! m)" if "terminator d = Some t" "term_kind t = Call func args (Some (p, m)) cl h"
    for t func args p m cl h
    using pc call_return_succ [of m func args p cl h] that by (intro index_vec_in) (auto simp: term_succs_def)
  from False have "guard_block mode pc L d (blocks, new) = Ok (blocks @ [d], new @ [])"
    by (auto simp: guard_block_def breaks_def small split: option.splits terminator_kind.splits)
  moreover have "guarded mode pc L (new @ []) d d" using False by (auto simp: guarded_def)
  ultimately show ?thesis by (intro exI [of _ d] exI [of _ "[]"]) simp
next
  case True
  then obtain t dest where td: "terminator d = Some t" "call_return (term_kind t) = Some dest" "pc ! dest > 1"
    "wanted mode (term_kind t)" by (auto simp: breaks_def)
  then obtain func args p cleanup h where t: "terminator d = Some t"
    "term_kind t = Call func args (Some (p, dest)) cleanup h" "pc ! dest > 1" "wanted mode (term_kind t)"
    by (cases "term_kind t" rule: call_return.cases) auto
  let ?d = "d\<lparr>terminator := Some (t\<lparr>term_kind := redirect_call (L + length new) (term_kind t)\<rparr>)\<rparr>"
  let ?g = "\<lparr>statements = [], terminator = Some \<lparr>term_source_info = term_source_info t, term_kind = Goto dest\<rparr>,
    is_cleanup = is_cleanup d\<rparr>"
  have "dest < length pc" using pc t(1,2) by (cases cleanup) (auto simp: term_succs_def)
  then have "guard_block mode pc L d (blocks, new) = Ok (blocks @ [?d], new @ [?g])"
    using t room by (simp add: guard_block_def basic_block_new_def)
  moreover have "guarded mode pc L (new @ [?g]) d ?d"
    unfolding guarded_def by (rule disjI2, rule exI [of _ t], rule exI [of _ "length new"]) (simp add: t(1,2))
  moreover have "mset (term_succs ?d) + edges_of [?g] = mset (term_succs d) + mset [L + length new ..< L + length new + 1]"
    using t(1,2) by (cases cleanup) (simp_all add: term_succs_def)
  ultimately show ?thesis by (intro exI [of _ ?d] exI [of _ "[?g]"]) simp
qed

lemma guard_blocks_ok:
  assumes "\<forall>d\<in>set ds. set (term_succs d) \<subseteq> {..<length pc}" and "L + length new + length ds \<le> 0xFFFFFF01"
  shows "\<exists>ds' extra. res_for ds (guard_block mode pc L) (blocks, new) = Ok (blocks @ ds', new @ extra) \<and>
    (\<forall>g\<in>set extra. \<exists>t m. terminator g = Some t \<and> term_kind t = Goto m) \<and>
    list_all2 (guarded mode pc L (new @ extra)) ds ds' \<and>
    edges_of ds' + edges_of extra = edges_of ds + mset [L + length new ..< L + length new + length extra]"
  using assms
proof (induction ds arbitrary: blocks new)
  case (Cons d ds)
  then have "set (term_succs d) \<subseteq> {..<length pc}" "L + length new \<le> 0xFFFFFF00" by simp_all
  from guard_block_ok [OF this, of mode blocks] obtain d' extra where
    d: "guard_block mode pc L d (blocks, new) = Ok (blocks @ [d'], new @ extra)" "length extra \<le> 1"
    "\<forall>g\<in>set extra. \<exists>t m. terminator g = Some t \<and> term_kind t = Goto m"
    "guarded mode pc L (new @ extra) d d'"
    "mset (term_succs d') + edges_of extra =
      mset (term_succs d) + mset [L + length new ..< L + length new + length extra]" by blast
  from Cons.IH [of "new @ extra" "blocks @ [d']"] Cons.prems d(2) obtain ds' more where
    ds: "res_for ds (guard_block mode pc L) (blocks @ [d'], new @ extra) = Ok (blocks @ d' # ds', new @ extra @ more)"
    "\<forall>g\<in>set more. \<exists>t m. terminator g = Some t \<and> term_kind t = Goto m"
    "list_all2 (guarded mode pc L (new @ extra @ more)) ds ds'"
    "edges_of ds' + edges_of more = edges_of ds +
      mset [L + length (new @ extra) ..< L + length (new @ extra) + length more]" by auto
  have g: "guarded mode pc L (new @ extra @ more) d d'" using guarded_append [OF d(4), of more] by simp
  have range: "[L + length new ..< L + length new + length (extra @ more)] =
      [L + length new ..< L + length new + length extra] @
      [L + length (new @ extra) ..< L + length (new @ extra) + length more]"
    using upt_add_eq_append [of "L + length new" "L + length new + length extra" "length more"]
    by (simp add: add.assoc)
  have "edges_of (d' # ds') + edges_of (extra @ more) =
      (mset (term_succs d') + edges_of extra) + (edges_of ds' + edges_of more)" by (simp add: ac_simps)
  also have "\<dots> = edges_of (d # ds) + mset [L + length new ..< L + length new + length (extra @ more)]"
    unfolding d(5) ds(4) range by (simp add: ac_simps)
  finally show ?case using d(1,3) ds(1-3) g
    by (intro exI [of _ "d' # ds'"] exI [of _ "extra @ more"]) auto
qed simp

section \<open>The guarded body\<close>

lemma wf_body_edges: "wf_body b \<longleftrightarrow>
    (\<forall>m. m \<in># edges_of (basic_blocks b) \<longrightarrow> m < length (basic_blocks b)) \<and>
    (\<forall>d\<in>set (basic_blocks b). terminator d \<noteq> None)"
proof -
  have "block_successors b k = term_succs (basic_blocks b ! k)" if "k < length (basic_blocks b)" for k
    using that by (simp add: block_successors_def term_succs_def)
  then have "wf_targets b \<longleftrightarrow> (\<forall>d\<in>set (basic_blocks b). \<forall>m\<in>set (term_succs d). m < length (basic_blocks b))"
    unfolding wf_targets_def list_all_iff all_set_conv_all_nth [of "basic_blocks b"] by auto
  then show ?thesis unfolding wf_body_def list_all_iff edges_of_mem by blast
qed

lemma guarded_redirected:
  assumes "guarded mode pc L new d d'" "length bs = L"
  shows "redirected (bs @ new) d' d"
proof (cases "d' = d")
  case False
  then obtain t j dest t' where t: "terminator d = Some t" "call_return (term_kind t) = Some dest" "j < length new"
    "d' = d\<lparr>terminator := Some (t\<lparr>term_kind := redirect_call (L + j) (term_kind t)\<rparr>)\<rparr>"
    "statements (new ! j) = []" "terminator (new ! j) = Some t'" "term_kind t' = Goto dest"
    using assms(1) by (auto simp: guarded_def)
  from t(2) obtain func args p cleanup h where k: "term_kind t = Call func args (Some (p, dest)) cleanup h"
    by (cases "term_kind t" rule: call_return.cases) auto
  have "jumps (bs @ new) (L + j) dest" using t assms(2) by (simp add: jumps_def nth_append)
  then have "list_all2 (jumps (bs @ new))\<^sup>*\<^sup>* (successors (redirect_call (L + j) (term_kind t))) (successors (term_kind t))"
    using k by (cases cleanup) auto
  moreover have "alike (redirect_call (L + j) (term_kind t)) (term_kind t)"
    using k by (simp add: alike_def shape_def has_unwind_def)
  ultimately show ?thesis using t(1,4) by (simp add: redirected_def)
qed simp

lemma guarded_runs:
  assumes sem: "sem_ok sem" and wf: "wf_body b" "basic_blocks b \<noteq> []"
    and g: "list_all2 (guarded mode pc (length (basic_blocks b)) new) (basic_blocks b) bs"
  shows "same_runs sem b (b\<lparr>basic_blocks := bs @ new\<rparr>)"
proof -
  let ?bs = "basic_blocks b"
  have len: "length bs = length ?bs" using g by (simp add: list_all2_lengthD)
  have "redirected (bs @ new) ((bs @ new) ! n) ((?bs @ new) ! n)" for n
    using g guarded_redirected [of mode pc "length ?bs" new _ _ bs] len
    by (cases "n < length ?bs") (auto simp: nth_append list_all2_nthD)
  then have "runs sem (?bs @ new) START_BLOCK s out \<longleftrightarrow> runs sem (bs @ new) START_BLOCK s out" for s out
    using runs_redirected [OF sem, of "?bs @ new" "bs @ new"] len by simp
  moreover have "runs sem (?bs @ new) START_BLOCK s out \<longleftrightarrow> runs sem ?bs START_BLOCK s out" for s out
  proof (rule runs_same_steps [where L = "{..<length ?bs}"])
    show "closed_blocks ?bs {..<length ?bs}"
      using wf(1) unfolding closed_blocks_def wf_body_edges edges_of_mem
      by (force simp: term_succs_def intro: nth_mem)
  qed (use wf(2) in \<open>simp_all add: block_step_def nth_append START_BLOCK_def\<close>)
  ultimately show ?thesis by (simp add: same_runs_def)
qed

lemma guarded_return:
  assumes "guarded mode pc L new d d'" "terminator d' = Some t" "call_return (term_kind t) = Some m"
  shows "d' = d \<and> \<not> breaks mode pc (term_kind t) \<or> (\<exists>j. j < length new \<and> m = L + j)"
  using assms(1) unfolding guarded_def
proof (elim disjE conjE exE)
  fix t0 j dest t' assume "terminator d = Some t0" "call_return (term_kind t0) = Some dest" "j < length new"
    "d' = d\<lparr>terminator := Some (t0\<lparr>term_kind := redirect_call (L + j) (term_kind t0)\<rparr>)\<rparr>"
  then show ?thesis using assms(2,3) by (cases "term_kind t0" rule: call_return.cases) auto
qed (use assms(2) in simp)

lemma guarded_single:
  assumes counts: "\<forall>n<length bs. pc ! n = count (edges_of bs) n" and small: "\<forall>m. m \<in># edges_of bs \<longrightarrow> m < length bs"
    and g: "list_all2 (guarded mode pc (length bs) new) bs bs'"
    and new: "\<forall>g\<in>set new. \<exists>t m. terminator g = Some t \<and> term_kind t = Goto m"
    and edges: "edges_of (bs' @ new) = edges_of bs + mset [length bs ..< length bs + length new]"
    and n: "d \<in> set (bs' @ new)" "terminator d = Some t" "wanted mode (term_kind t)" "call_return (term_kind t) = Some m"
  shows "count (edges_of (bs' @ new)) m = 1"
proof -
  have "term_kind t \<noteq> Goto x" for x using n(3) by auto
  then have "d \<in> set bs'" using n(1,2) new by auto
  then obtain i where i: "i < length bs'" "d = bs' ! i" by (auto simp: in_set_conv_nth)
  have len: "length bs' = length bs" using g by (simp add: list_all2_lengthD)
  then have gi: "guarded mode pc (length bs) new (bs ! i) d" using g i by (simp add: list_all2_nthD)
  have cnt: "count (edges_of (bs' @ new)) k =
      count (edges_of bs) k + (if k \<in> {length bs ..< length bs + length new} then 1 else 0)" for k
    unfolding edges using distinct_count_atmost_1 [of "[length bs ..< length bs + length new]"] by simp
  from guarded_return [OF gi n(2,4)] show ?thesis
  proof (elim disjE conjE exE)
    assume d: "d = bs ! i" and nb: "\<not> breaks mode pc (term_kind t)"
    then have "m \<in> set (term_succs (bs ! i))" using n(2,4)
      by (cases "term_kind t" rule: call_return.cases) (simp_all add: term_succs_def call_return_succ)
    then have m: "m \<in># edges_of bs" using i len by (auto simp: edges_of_mem)
    then have ml: "m < length bs" using small by blast
    have "count (edges_of bs) m \<le> 1" using nb n(3,4) counts ml by (simp add: breaks_def)
    moreover have "count (edges_of bs) m \<noteq> 0" using m by (simp only: count_eq_zero_iff not_not)
    ultimately have "count (edges_of bs) m = 1" by linarith
    then show ?thesis using cnt [of m] ml by simp
  next
    fix j assume j: "j < length new" "m = length bs + j"
    then have "count (edges_of bs) m = 0" using small by (auto simp: count_eq_zero_iff)
    then show ?thesis using cnt [of m] j by simp
  qed
qed

lemma guarded_wf:
  assumes "\<forall>m. m \<in># edges_of bs \<longrightarrow> m < length bs" "\<forall>d\<in>set bs. terminator d \<noteq> None"
    "\<forall>g\<in>set new. \<exists>t m. terminator g = Some t \<and> term_kind t = Goto m"
    "list_all2 (guarded mode pc (length bs) new) bs bs'"
    "edges_of (bs' @ new) = edges_of bs + mset [length bs ..< length bs + length new]"
  shows "(\<forall>m. m \<in># edges_of (bs' @ new) \<longrightarrow> m < length (bs' @ new)) \<and>
    (\<forall>d\<in>set (bs' @ new). terminator d \<noteq> None)"
proof
  have len: "length bs' = length bs" using assms(4) by (simp add: list_all2_lengthD)
  show "\<forall>m. m \<in># edges_of (bs' @ new) \<longrightarrow> m < length (bs' @ new)"
  proof (intro allI impI)
    fix m assume "m \<in># edges_of (bs' @ new)"
    then have "m \<in># edges_of bs \<or> m < length bs + length new" unfolding assms(5) by auto
    then show "m < length (bs' @ new)" using assms(1) len by force
  qed
  have "terminator (bs' ! i) \<noteq> None" if "i < length bs'" for i
    using that len assms(2) list_all2_nthD [OF assms(4), of i] by (auto simp: guarded_def)
  then show "\<forall>d\<in>set (bs' @ new). terminator d \<noteq> None"
    using assms(3) by (force simp: in_set_conv_nth [of _ bs'])
qed

lemma add_call_guards_ok:
  assumes "wf_body b" and "basic_blocks b \<noteq> []" and "2 * length (basic_blocks b) \<le> 0xFFFFFF01" and "sem_ok sem"
  shows "\<exists>b' preds. add_call_guards mode b = Ok b' \<and> wf_body b' \<and> same_runs sem b b' \<and>
    calculate_predecessors b' = Ok preds \<and>
    (\<forall>d\<in>set (basic_blocks b'). \<forall>t m. terminator d = Some t \<longrightarrow> wanted mode (term_kind t) \<longrightarrow>
       call_return (term_kind t) = Some m \<longrightarrow> length (preds ! m) = 1)"
proof -
  let ?bs = "basic_blocks b"
  have wf: "\<forall>m. m \<in># edges_of ?bs \<longrightarrow> m < length ?bs" "\<forall>d\<in>set ?bs. terminator d \<noteq> None"
    using assms(1) by (simp_all add: wf_body_edges)
  from predecessor_counts [of b] assms(1) obtain ps where ps: "calculate_predecessors b = Ok ps"
    "length ps = length ?bs" "\<forall>n<length ?bs. length (ps ! n) = count (edges_of ?bs) n" by (auto simp: wf_body_def)
  let ?pc = "map length ps"
  have counts: "\<forall>n<length ?bs. ?pc ! n = count (edges_of ?bs) n" using ps by simp
  have "\<forall>d\<in>set ?bs. set (term_succs d) \<subseteq> {..<length ?pc}" using wf(1) ps(2) by (auto simp: edges_of_mem)
  from guard_blocks_ok [OF this, of "length ?bs" "[]" mode "[]"] assms(3) obtain bs' new where
    g: "res_for ?bs (guard_block mode ?pc (length ?bs)) ([], []) = Ok (bs', new)"
    "\<forall>g\<in>set new. \<exists>t m. terminator g = Some t \<and> term_kind t = Goto m"
    "list_all2 (guarded mode ?pc (length ?bs) new) ?bs bs'"
    "edges_of (bs' @ new) = edges_of ?bs + mset [length ?bs ..< length ?bs + length new]" by auto
  let ?b = "b\<lparr>basic_blocks := bs' @ new\<rparr>"
  have run: "add_call_guards mode b = Ok ?b" using ps(1) g(1) by (simp add: add_call_guards_def)
  have wf': "wf_body ?b" using guarded_wf [OF wf g(2-4)] by (simp add: wf_body_edges)
  then obtain preds where preds: "calculate_predecessors ?b = Ok preds" "length preds = length (bs' @ new)"
    "\<forall>n<length preds. length (preds ! n) = count (edges_of (bs' @ new)) n"
    using predecessor_counts [of ?b] by (auto simp: wf_body_def)
  have "length (preds ! m) = 1" if d: "d \<in> set (bs' @ new)" "terminator d = Some t" "wanted mode (term_kind t)"
    "call_return (term_kind t) = Some m" for d t m
  proof -
    have c: "count (edges_of (bs' @ new)) m = 1" by (rule guarded_single [OF counts wf(1) g(3,2,4) d])
    then have "m \<in># edges_of (bs' @ new)" unfolding count_greater_zero_iff [symmetric] by linarith
    then have "m < length preds" using wf' preds(2) unfolding wf_body_edges by auto
    with c preds(3) show ?thesis by simp
  qed
  then show ?thesis using run wf' guarded_runs [OF assms(4,1,2) g(3)] preds(1)
    by (intro exI [of _ ?b] exI [of _ preds] conjI ballI allI impI) (assumption | simp)+
qed

text \<open>(C20) Adding call guards to a well-formed body keeps its runs, and afterwards every call of the
  wanted kind (those with an unwind edge, or all) returns to a block that has no other predecessor.\<close>

theorem add_call_guards_correct:
  assumes "wf_body b" and "basic_blocks b \<noteq> []" and "2 * length (basic_blocks b) \<le> 0xFFFFFF01" and "sem_ok sem"
  shows "\<exists>b' preds. add_call_guards mode b = Ok b' \<and> wf_body b' \<and> same_runs sem b b' \<and>
    calculate_predecessors b' = Ok preds \<and>
    (\<forall>d\<in>set (basic_blocks b'). \<forall>t m. terminator d = Some t \<longrightarrow> wanted mode (term_kind t) \<longrightarrow>
       call_return (term_kind t) = Some m \<longrightarrow> length (preds ! m) = 1)"
  using assms by (rule add_call_guards_ok)

text \<open>A call that may unwind and returns to a block with two predecessors.\<close>

definition shared_return :: body where
  "shared_return =
     body_of_blocks [sample_block [] (FalseEdges 1 2),
       sample_block [1] (Call (Copy (place_from_local 1)) [] (Some (place_from_local 2, 2)) (Some 3) True),
       sample_block [] Return, sample_block [] Resume]"

theorem add_call_guards_correct_witness:
  "wf_body shared_return \<and> basic_blocks shared_return \<noteq> [] \<and>
   2 * length (basic_blocks shared_return) \<le> 0xFFFFFF01 \<and> sem_ok log_sem \<and>
   calculate_predecessors shared_return = Ok [[], [0], [0, 1], [1]] \<and>
   (\<exists>b' preds. add_call_guards CriticalCallEdges shared_return = Ok b' \<and> wf_body b' \<and>
      same_runs log_sem shared_return b' \<and> calculate_predecessors b' = Ok preds)"
proof -
  have wf: "wf_body shared_return" "basic_blocks shared_return \<noteq> []" by code_simp+
  have "length (basic_blocks shared_return) = 4" by code_simp
  then have small: "2 * length (basic_blocks shared_return) \<le> 0xFFFFFF01" by simp
  have "calculate_predecessors shared_return = Ok [[], [0], [0, 1], [1]]" by code_simp
  then show ?thesis using wf small log_sem_ok
      add_call_guards_correct [OF wf small log_sem_ok, of CriticalCallEdges] by blast
qed

end
