(* ===== verification/Cleanup_Passes.thy ===== *)
theory Cleanup_Passes
  imports Call_Guards
begin

text \<open>
  Passes that rewrite each block on its own: the removal of unwind edges
  (\<open>src/librustc_mir/transform/no_landing_pads.rs\<close>), of branches with a known condition
  (\<open>simplify_branches.rs\<close>) and of statements that only the borrow checker needs
  (\<open>cleanup_post_borrowck.rs\<close>). The theorems say under which reading of the removed constructs the
  runs stay the same, and that an assertion about a constant that cannot be evaluated is dropped.
\<close>

section \<open>Rewriting terminators one by one\<close>

definition map_kind :: "(terminator_kind \<Rightarrow> terminator_kind) \<Rightarrow> basic_block_data \<Rightarrow> basic_block_data" where
  "map_kind f d = d\<lparr>terminator := map_option (\<lambda>t. t\<lparr>term_kind := f (term_kind t)\<rparr>) (terminator d)\<rparr>"

lemma map_kind_simps [simp]:
  "statements (map_kind f d) = statements d"
  "terminator (map_kind f d) = map_option (\<lambda>t. t\<lparr>term_kind := f (term_kind t)\<rparr>) (terminator d)"
  by (simp_all add: map_kind_def)

lemma map_kind_id [simp]: "map_kind (\<lambda>k. k) d = d"
  by (cases "terminator d") (simp_all add: map_kind_def)

lemma same_steps_same_runs:
  assumes "length bs = length (basic_blocks b)"
    and "\<And>n s. n < length bs \<Longrightarrow> exec_block sem (bs ! n) s = exec_block sem (basic_blocks b ! n) s"
  shows "same_runs sem b (b\<lparr>basic_blocks := bs\<rparr>)"
proof -
  have "block_step sem bs n s = block_step sem (basic_blocks b) n s" for n s
    using assms by (simp add: block_step_def)
  from runs_same_steps [of UNIV, OF this] show ?thesis by (simp add: same_runs_def closed_blocks_def)
qed

text \<open>Where a terminator goes.\<close>

definition goes :: "'st mir_sem \<Rightarrow> terminator_kind \<Rightarrow> 'st \<Rightarrow> (nat \<times> 'st) + 'st outcome" where
  "goes sem k s = map_sum (map_prod ((!) (successors k)) id) id (pick_successor sem k s)"

lemma exec_block_goes: "exec_block sem d s =
    (case terminator d of None \<Rightarrow> Inr Stuck
     | Some t \<Rightarrow> goes sem (term_kind t) (exec_statements sem (statements d) s))"
  by (cases "terminator d") (simp_all add: exec_block_def goes_def)

lemma goes_goto: "sem_ok sem \<Longrightarrow> goes sem (Goto m) s = Inl (m, s)"
  by (simp add: goes_def pick_goto)

lemma map_kind_same_runs:
  assumes "\<And>n t s. n < length (basic_blocks b) \<Longrightarrow> terminator (basic_blocks b ! n) = Some t \<Longrightarrow>
      goes sem (f (term_kind t)) s = goes sem (term_kind t) s"
  shows "same_runs sem b (b\<lparr>basic_blocks := map (map_kind f) (basic_blocks b)\<rparr>)"
proof (rule same_steps_same_runs)
  fix n s assume n: "n < length (map (map_kind f) (basic_blocks b))"
  then show "exec_block sem (map (map_kind f) (basic_blocks b) ! n) s = exec_block sem (basic_blocks b ! n) s"
    using assms [of n] by (cases "terminator (basic_blocks b ! n)") (simp_all add: exec_block_goes)
qed simp

section \<open>No landing pads\<close>

text \<open>\<open>unwind.take()\<close> for every terminator, if the session says so.\<close>

definition no_landing_pads :: "bool \<Rightarrow> body \<Rightarrow> body" where
  "no_landing_pads sess_no_landing_pads b =
     (if sess_no_landing_pads
      then b\<lparr>basic_blocks := map (map_kind (unwind_mut (\<lambda>_. None))) (basic_blocks b)\<rparr>
      else b)"

text \<open>With this option a panic aborts: nothing but \<open>Resume\<close> goes on unwinding.\<close>

definition panics_abort :: "'st mir_sem \<Rightarrow> bool" where
  "panics_abort sem \<longleftrightarrow> (\<forall>k s. k \<noteq> Resume \<longrightarrow> fst (exec_terminator sem k s) \<noteq> Unwinding)"

lemma shape_unwind_mut [simp]: "shape (unwind_mut (\<lambda>_. None) k) = shape k"
  by (cases k) (auto simp: shape_def)

lemma num_targets_unwind_mut [simp]: "num_targets (unwind_mut (\<lambda>_. None) k) = num_targets k"
  by (cases k rule: successors.cases) (simp_all add: num_targets_def has_unwind_def)

lemma target_unwind_mut: "i < num_targets k \<Longrightarrow> successors (unwind_mut (\<lambda>_. None) k) ! i = successors k ! i"
  by (cases k rule: successors.cases) (simp_all add: num_targets_def has_unwind_def)

lemma shape_Resume: "shape k = Resume \<longleftrightarrow> k = Resume"
  by (cases k) (simp_all add: shape_def)

lemma goes_no_unwind:
  assumes "panics_abort sem"
  shows "goes sem (unwind_mut (\<lambda>_. None) k) s = goes sem k s"
proof (cases "k = Resume")
  case False
  then have "fst (exec_terminator sem (shape k) s) \<noteq> Unwinding"
    using assms by (simp add: panics_abort_def shape_Resume)
  then show ?thesis
    by (auto simp: goes_def pick_successor_def target_unwind_mut split: prod.splits choice.splits)
qed simp

lemma no_landing_pads_runs: "panics_abort sem \<or> \<not> on \<Longrightarrow> same_runs sem b (no_landing_pads on b)"
  unfolding no_landing_pads_def by (auto intro: map_kind_same_runs goes_no_unwind)

section \<open>Branches with a known condition\<close>

text \<open>The evaluation of constants in the environment of the body.\<close>

record const_eval =
  try_eval_bits :: "const_lit \<Rightarrow> ty \<Rightarrow> nat option"
  try_eval_bool :: "const_lit \<Rightarrow> bool option"

text \<open>The loop over the values: the first that is equal to the constant decides.\<close>

fun switch_target :: "nat \<Rightarrow> (nat \<times> nat) list \<Rightarrow> nat \<Rightarrow> nat" where
  "switch_target constant [] otherwise = otherwise"
| "switch_target constant ((v, t) # vts) otherwise =
     (if v = constant then t else switch_target constant vts otherwise)"

definition simplified_kind :: "const_eval \<Rightarrow> terminator_kind \<Rightarrow> terminator_kind res" where
  "simplified_kind ev k =
     (case k of
        SwitchInt (Constant c) switch_ty vals targets \<Rightarrow>
          (case try_eval_bits ev (const_literal c) switch_ty of
             Some constant \<Rightarrow>
               res_bind (unwrap (if targets = [] then None else Some (last targets, butlast targets)))
                 (\<lambda>(otherwise, ts). Ok (Goto (switch_target constant (zip vals ts) otherwise)))
           | None \<Rightarrow> Ok k)
      | Assert (Constant c) expected _ target _ \<Rightarrow>
          if (try_eval_bool ev (const_literal c) = Some True) = expected then Ok (Goto target) else Ok k
      | FalseEdges real_target _ \<Rightarrow> Ok (Goto real_target)
      | FalseUnwind real_target _ \<Rightarrow> Ok (Goto real_target)
      | _ \<Rightarrow> Ok k)"

definition simplify_block_branch :: "const_eval \<Rightarrow> basic_block_data \<Rightarrow> basic_block_data res" where
  "simplify_block_branch ev d =
     res_bind (block_terminator d) (\<lambda>t.
     res_bind (simplified_kind ev (term_kind t)) (\<lambda>k. Ok (d\<lparr>terminator := Some (t\<lparr>term_kind := k\<rparr>)\<rparr>)))"

definition simplify_branches :: "const_eval \<Rightarrow> body \<Rightarrow> body res" where
  "simplify_branches ev b =
     res_bind (res_map (simplify_block_branch ev) (basic_blocks b)) (\<lambda>bs. Ok (b\<lparr>basic_blocks := bs\<rparr>))"

text \<open>What the constants mean: a switch goes to the target of the first value that is equal to its
  operand, or to the last one; an assertion that holds goes on.\<close>

definition first_match :: "nat \<Rightarrow> nat list \<Rightarrow> nat" where
  "first_match v vs = length (takeWhile (\<lambda>w. w \<noteq> v) vs)"

definition eval_ok :: "'st mir_sem \<Rightarrow> const_eval \<Rightarrow> bool" where
  "eval_ok sem ev \<longleftrightarrow>
     (\<forall>c sty vs ts s v. try_eval_bits ev (const_literal c) sty = Some v \<longrightarrow> length ts = length vs + 1 \<longrightarrow>
        exec_terminator sem (SwitchInt (Constant c) sty vs ts) s = (Target (first_match v vs), s)) \<and>
     (\<forall>c e m t u s. try_eval_bool ev (const_literal c) = Some e \<longrightarrow>
        exec_terminator sem (Assert (Constant c) e m t u) s = (Target 0, s))"

text \<open>A switch has one target more than it has values.\<close>

fun switch_ok :: "terminator_kind \<Rightarrow> bool" where
  "switch_ok (SwitchInt _ _ vs ts) = (length ts = length vs + 1)"
| "switch_ok _ = True"

text \<open>A negative assertion about a constant has a value.\<close>

fun assert_known :: "const_eval \<Rightarrow> terminator_kind \<Rightarrow> bool" where
  "assert_known ev (Assert (Constant c) False _ _ _) = (try_eval_bool ev (const_literal c) \<noteq> None)"
| "assert_known _ _ = True"

definition all_kinds :: "(terminator_kind \<Rightarrow> bool) \<Rightarrow> body \<Rightarrow> bool" where
  "all_kinds P b = list_all (\<lambda>d. case terminator d of None \<Rightarrow> True | Some t \<Rightarrow> P (term_kind t)) (basic_blocks b)"

lemma all_kindsD:
  "all_kinds P b \<Longrightarrow> n < length (basic_blocks b) \<Longrightarrow> terminator (basic_blocks b ! n) = Some t \<Longrightarrow> P (term_kind t)"
  by (auto simp: all_kinds_def list_all_length)

lemma switch_target_nth:
  "length ts = length vs + 1 \<Longrightarrow>
     switch_target v (zip vs (butlast ts)) (last ts) = ts ! first_match v vs \<and> first_match v vs < length ts"
proof (induction vs arbitrary: ts)
  case (Cons w vs)
  then obtain t ts' where ts: "ts = t # ts'" "length ts' = length vs + 1" by (cases ts) auto
  then have "ts' \<noteq> []" by auto
  with Cons.IH [OF ts(2)] ts show ?case by (simp add: first_match_def)
qed (auto simp: first_match_def length_Suc_conv)

text \<open>The new terminator, when the switch has its targets.\<close>

definition branch_kind :: "const_eval \<Rightarrow> terminator_kind \<Rightarrow> terminator_kind" where
  "branch_kind ev k = (case simplified_kind ev k of Ok k' \<Rightarrow> k' | _ \<Rightarrow> k)"

lemma simplified_kind_ok: "switch_ok k \<Longrightarrow> simplified_kind ev k = Ok (branch_kind ev k)"
  by (cases k rule: switch_ok.cases)
    (auto simp: simplified_kind_def branch_kind_def split: operand.splits option.splits)

lemma simplify_branches_ok:
  assumes "all_kinds switch_ok b" "wf_body b"
  shows "simplify_branches ev b = Ok (b\<lparr>basic_blocks := map (map_kind (branch_kind ev)) (basic_blocks b)\<rparr>)"
proof -
  have "simplify_block_branch ev d = Ok (map_kind (branch_kind ev) d)"
    if d: "d \<in> set (basic_blocks b)" for d
  proof -
    obtain n where n: "n < length (basic_blocks b)" "d = basic_blocks b ! n" using d by (auto simp: in_set_conv_nth)
    then obtain t where t: "terminator d = Some t" using wf_body_terminator [OF assms(2)] by blast
    then have "switch_ok (term_kind t)" using all_kindsD [OF assms(1)] n by simp
    then show ?thesis using t
      by (simp add: simplify_block_branch_def block_terminator_def simplified_kind_ok map_kind_def)
  qed
  then have "res_map (simplify_block_branch ev) (basic_blocks b) = Ok (map (map_kind (branch_kind ev)) (basic_blocks b))"
    by (rule res_map_ok)
  then show ?thesis by (simp add: simplify_branches_def)
qed

lemma goes_branch_kind:
  assumes sem: "sem_ok sem" "eval_ok sem ev" and k: "switch_ok k" "assert_known ev k"
  shows "goes sem (branch_kind ev k) s = goes sem k s"
proof (cases "branch_kind ev k = k")
  case False
  then consider (switch) c sty vs ts v where "k = SwitchInt (Constant c) sty vs ts"
      "try_eval_bits ev (const_literal c) sty = Some v"
    | (assert) c e m t u where "k = Assert (Constant c) e m t u" "(try_eval_bool ev (const_literal c) = Some True) = e"
    | (false_edges) t u where "k = FalseEdges t u" | (false_unwind) t u where "k = FalseUnwind t u"
    by (cases k rule: terminator_kind.exhaust)
      (auto simp: branch_kind_def simplified_kind_def split: operand.splits option.splits if_splits)
  then show ?thesis
  proof cases
    case switch
    have "branch_kind ev k = Goto (switch_target v (zip vs (butlast ts)) (last ts))"
      using switch k(1) by (auto simp: branch_kind_def simplified_kind_def)
    moreover have "exec_terminator sem (shape k) s = (Target (first_match v vs), s)"
      using sem(2) switch k(1) by (simp add: eval_ok_def shape_def)
    ultimately show ?thesis using switch(1) k(1) switch_target_nth [of ts vs v] goes_goto [OF sem(1)]
      by (simp add: goes_def pick_successor_def num_targets_def has_unwind_def)
  next
    case assert
    then have "try_eval_bool ev (const_literal c) = Some e" using k(2) by (cases e) auto
    then have "exec_terminator sem (shape k) s = (Target 0, s)"
      using sem(2) assert(1) by (simp add: eval_ok_def shape_def)
    moreover have "branch_kind ev k = Goto t" using assert by (simp add: branch_kind_def simplified_kind_def)
    ultimately show ?thesis using assert(1) goes_goto [OF sem(1)]
      by (cases u) (simp_all add: goes_def pick_successor_def num_targets_def has_unwind_def)
  next
    case false_edges
    then show ?thesis using sem(1) goes_goto [OF sem(1)]
      by (simp add: goes_def pick_successor_def num_targets_def has_unwind_def branch_kind_def
          simplified_kind_def shape_def sem_ok_def)
  next
    case false_unwind
    then show ?thesis using sem(1) goes_goto [OF sem(1)]
      by (cases u) (simp_all add: goes_def pick_successor_def num_targets_def has_unwind_def branch_kind_def
          simplified_kind_def shape_def sem_ok_def)
  qed
qed simp

lemma branch_kind_successors: "switch_ok k \<Longrightarrow> set (successors (branch_kind ev k)) \<subseteq> set (successors k)"
proof (cases k)
  case (SwitchInt d sty vs ts)
  assume "switch_ok k"
  then have "ts \<noteq> []" "switch_target v (zip vs (butlast ts)) (last ts) \<in> set ts" for v
    using SwitchInt switch_target_nth [of ts vs v] by auto
  then show ?thesis using SwitchInt
    by (simp add: branch_kind_def simplified_kind_def split: operand.split option.split)
next
  case (Assert d e m t u)
  then show ?thesis by (cases u) (auto simp: branch_kind_def simplified_kind_def split: operand.splits)
next
  case (FalseUnwind t u)
  then show ?thesis by (cases u) (auto simp: branch_kind_def simplified_kind_def)
qed (auto simp: branch_kind_def simplified_kind_def)

lemma map_kind_wf:
  assumes "wf_body b"
    and "\<And>d t. d \<in> set (basic_blocks b) \<Longrightarrow> terminator d = Some t \<Longrightarrow>
      set (successors (f (term_kind t))) \<subseteq> set (successors (term_kind t))"
  shows "wf_body (b\<lparr>basic_blocks := map (map_kind f) (basic_blocks b)\<rparr>)"
  using assms unfolding wf_body_edges edges_of_mem
  by (fastforce simp: term_succs_def split: option.splits)

lemma branches_wf:
  assumes "wf_body b" "all_kinds switch_ok b"
  shows "wf_body (b\<lparr>basic_blocks := map (map_kind (branch_kind ev)) (basic_blocks b)\<rparr>)"
  using assms by (intro map_kind_wf branch_kind_successors) (force simp: all_kinds_def list_all_iff)+

lemma simplify_branches_runs:
  assumes "wf_body b" and "all_kinds switch_ok b" and "all_kinds (assert_known ev) b"
    and "sem_ok sem" and "eval_ok sem ev"
  shows "\<exists>b'. simplify_branches ev b = Ok b' \<and> same_runs sem b b' \<and> wf_body b' \<and>
    (\<forall>d\<in>set (basic_blocks b'). \<forall>t. terminator d = Some t \<longrightarrow>
       (\<forall>m u. term_kind t \<noteq> FalseEdges m u) \<and> (\<forall>m u. term_kind t \<noteq> FalseUnwind m u) \<and>
       (\<forall>c sty vs ts. term_kind t = SwitchInt (Constant c) sty vs ts \<longrightarrow>
          try_eval_bits ev (const_literal c) sty = None))"
proof -
  let ?b = "b\<lparr>basic_blocks := map (map_kind (branch_kind ev)) (basic_blocks b)\<rparr>"
  have "same_runs sem b ?b"
    by (intro map_kind_same_runs goes_branch_kind assms(4,5)) (use all_kindsD assms(2,3) in blast)+
  moreover have "(\<forall>m u. branch_kind ev k \<noteq> FalseEdges m u) \<and> (\<forall>m u. branch_kind ev k \<noteq> FalseUnwind m u) \<and>
      (\<forall>c sty vs ts. branch_kind ev k = SwitchInt (Constant c) sty vs ts \<longrightarrow>
         try_eval_bits ev (const_literal c) sty = None)" if "switch_ok k" for k
    using that by (cases k) (auto simp: branch_kind_def simplified_kind_def split: operand.splits option.splits if_splits)
  then have "\<forall>d\<in>set (basic_blocks ?b). \<forall>t. terminator d = Some t \<longrightarrow>
       (\<forall>m u. term_kind t \<noteq> FalseEdges m u) \<and> (\<forall>m u. term_kind t \<noteq> FalseUnwind m u) \<and>
       (\<forall>c sty vs ts. term_kind t = SwitchInt (Constant c) sty vs ts \<longrightarrow>
          try_eval_bits ev (const_literal c) sty = None)"
    using assms(2) by (force simp: all_kinds_def list_all_iff)
  moreover have "wf_body ?b" by (rule branches_wf [OF assms(1,2)])
  ultimately show ?thesis using simplify_branches_ok [OF assms(2,1)] by blast
qed

text \<open>(C22) Simplifying the branches of a well-formed body returns and keeps its runs, if the evaluation
  of constants agrees with what switches and assertions do, and if every negative assertion about a
  constant has a constant that can be evaluated.\<close>

theorem simplify_branches_correct:
  assumes "wf_body b" and "all_kinds switch_ok b" and "all_kinds (assert_known ev) b"
    and "sem_ok sem" and "eval_ok sem ev"
  shows "\<exists>b'. simplify_branches ev b = Ok b' \<and> same_runs sem b b' \<and> wf_body b' \<and>
    (\<forall>d\<in>set (basic_blocks b'). \<forall>t. terminator d = Some t \<longrightarrow>
       (\<forall>m u. term_kind t \<noteq> FalseEdges m u) \<and> (\<forall>m u. term_kind t \<noteq> FalseUnwind m u) \<and>
       (\<forall>c sty vs ts. term_kind t = SwitchInt (Constant c) sty vs ts \<longrightarrow>
          try_eval_bits ev (const_literal c) sty = None))"
  using assms by (rule simplify_branches_runs)

section \<open>An assertion that is dropped\<close>

text \<open>A reading of terminators that agrees with the evaluation of constants: an assertion about a
  constant that is not known to have the expected value fails.\<close>

fun eval_terminator :: "const_eval \<Rightarrow> terminator_kind \<Rightarrow> nat list \<Rightarrow> choice \<times> nat list" where
  "eval_terminator ev (SwitchInt (Constant c) sty vs ts) s =
     (case try_eval_bits ev (const_literal c) sty of
        Some v \<Rightarrow> (Target (if length ts = length vs + 1 then first_match v vs else 0), s)
      | None \<Rightarrow> (Target 0, s))"
| "eval_terminator ev (Assert (Constant c) e m t u) s =
     (if try_eval_bool ev (const_literal c) = Some e then (Target 0, s) else (Unwinding, s))"
| "eval_terminator ev k s = log_terminator k s"

definition eval_sem :: "const_eval \<Rightarrow> nat list mir_sem" where
  "eval_sem ev = log_sem\<lparr>exec_terminator := eval_terminator ev\<rparr>"

lemma eval_sem_ok: "sem_ok (eval_sem ev)" "eval_ok (eval_sem ev) ev"
proof -
  have sw: "\<exists>i<length ts. eval_terminator ev (SwitchInt d sty vs ts) s = (Target i, s)" if ts: "ts \<noteq> []" for d sty vs ts s
  proof (cases d)
    case (Constant c)
    have "first_match v vs < length ts" if "length ts = length vs + 1" for v
      using switch_target_nth [OF that] by blast
    then show ?thesis using Constant ts by (simp split: option.split)
  qed (use ts in auto)
  then show "sem_ok (eval_sem ev)" by (simp add: sem_ok_def eval_sem_def log_sem_def)
  show "eval_ok (eval_sem ev) ev" by (simp add: eval_ok_def eval_sem_def)
qed

definition asserts_false :: "mir_constant \<Rightarrow> body" where
  "asserts_false c =
     body_of_blocks [sample_block [] (Assert (Constant c) False OverflowNeg 1 None), sample_block [] Return]"

text \<open>(C23) An assertion that a constant is false is dropped when the constant cannot be evaluated: the
  comparison with the expected value takes an unknown value for the wanted one. For every such
  constant there are a body and a reading of its terminators, in agreement with the evaluation of
  constants, for which the simplified body has other runs.\<close>

theorem unknown_assertion_dropped:
  assumes "try_eval_bool ev (const_literal c) = None"
  shows "\<exists>b'. simplify_branches ev (asserts_false c) = Ok b' \<and> sem_ok (eval_sem ev) \<and> eval_ok (eval_sem ev) ev \<and>
    runs (eval_sem ev) (basic_blocks (asserts_false c)) START_BLOCK s (Unwinds s) \<and>
    runs (eval_sem ev) (basic_blocks b') START_BLOCK s (Ends Return s)"
proof -
  let ?b = "body_of_blocks [sample_block [] (Goto 1), sample_block [] Return]"
  have "simplify_branches ev (asserts_false c) = Ok ?b"
    using assms by (simp add: simplify_branches_def asserts_false_def body_of_blocks_def res_map_def
        simplify_block_branch_def sample_block_def block_terminator_def simplified_kind_def)
  moreover have "runs (eval_sem ev) (basic_blocks (asserts_false c)) START_BLOCK s (Unwinds s)"
    using assms by (intro run_exit) (simp add: block_step_def asserts_false_def body_of_blocks_def
        sample_block_def START_BLOCK_def exec_block_def exec_statements_def pick_successor_def eval_sem_def
        shape_def has_unwind_def)
  moreover have "runs (eval_sem ev) (basic_blocks ?b) START_BLOCK s (Ends Return s)"
  proof (rule run_step)
    show "block_step (eval_sem ev) (basic_blocks ?b) START_BLOCK s = Inl (1, s)"
      by (simp add: block_step_def body_of_blocks_def sample_block_def START_BLOCK_def exec_block_def
          exec_statements_def pick_goto [OF eval_sem_ok(1)])
    show "runs (eval_sem ev) (basic_blocks ?b) 1 s (Ends Return s)"
      by (rule run_exit) (simp add: block_step_def body_of_blocks_def sample_block_def exec_block_def
          exec_statements_def pick_successor_def eval_sem_def shape_def)
  qed
  ultimately show ?thesis using eval_sem_ok by blast
qed

section \<open>Statements of the borrow checker\<close>

fun non_codegen :: "statement_kind \<Rightarrow> bool" where
  "non_codegen (AscribeUserType _ _ _) = True"
| "non_codegen (Assign _ (Ref _ Shallow _)) = True"
| "non_codegen (FakeRead _ _) = True"
| "non_codegen _ = False"

definition cleanup_non_codegen :: "body \<Rightarrow> body" where
  "cleanup_non_codegen b =
     b\<lparr>basic_blocks := map (\<lambda>d. d\<lparr>statements :=
         map (\<lambda>st. if non_codegen (stmt_kind st) then make_nop st else st) (statements d)\<rparr>) (basic_blocks b)\<rparr>"

text \<open>Such statements do nothing in a run.\<close>

definition ghosts_ok :: "'st mir_sem \<Rightarrow> bool" where
  "ghosts_ok sem \<longleftrightarrow> (\<forall>k s. non_codegen k \<longrightarrow> exec_statement sem k s = s)"

lemma cleanup_statements:
  assumes "sem_ok sem" "ghosts_ok sem"
  shows "exec_statements sem (map (\<lambda>st. if non_codegen (stmt_kind st) then make_nop st else st) sts) s =
    exec_statements sem sts s"
  using assms by (induction sts arbitrary: s) (auto simp: exec_statements_def make_nop_def sem_ok_def ghosts_ok_def)

lemma cleanup_runs:
  assumes "sem_ok sem" "ghosts_ok sem"
  shows "same_runs sem b (cleanup_non_codegen b)"
  unfolding cleanup_non_codegen_def
proof (rule same_steps_same_runs)
  fix n s
  let ?f = "\<lambda>d. d\<lparr>statements :=
      map (\<lambda>st. if non_codegen (stmt_kind st) then make_nop st else st) (statements d)\<rparr>"
  assume "n < length (map ?f (basic_blocks b))"
  then show "exec_block sem (map ?f (basic_blocks b) ! n) s = exec_block sem (basic_blocks b ! n) s"
    by (cases "terminator (basic_blocks b ! n)") (simp_all add: exec_block_def cleanup_statements [OF assms])
qed simp

lemma cleanup_wf: "wf_body (cleanup_non_codegen b) = wf_body b"
  by (auto simp: wf_body_edges cleanup_non_codegen_def edges_of_mem term_succs_def)

lemma no_landing_pads_wf:
  assumes "wf_body b"
  shows "wf_body (no_landing_pads on b)"
proof -
  have "set (successors (unwind_mut (\<lambda>_. None) k)) \<subseteq> set (successors k)" for k
    by (cases k rule: successors.cases) auto
  then show ?thesis using assms by (simp add: no_landing_pads_def map_kind_wf)
qed

section \<open>Examples\<close>

definition no_eval :: const_eval where
  "no_eval = \<lparr>try_eval_bits = (\<lambda>l t. case lit_val l of Scalar_usize n \<Rightarrow> Some n | _ \<Rightarrow> None),
    try_eval_bool = (\<lambda>l. None)\<rparr>"

definition known_switch :: body where
  "known_switch =
     body_of_blocks [sample_block [] (SwitchInt (Constant \<lparr>const_span = 0, const_user_ty = None,
         const_literal = \<lparr>lit_ty = Uint_ty 0, lit_val = Scalar_usize 7\<rparr>\<rparr>) (Uint_ty 0) [5, 7] [1, 2, 1]),
       sample_block [] (FalseEdges 2 0), sample_block [] Return]"

theorem simplify_branches_correct_witness:
  "wf_body known_switch \<and> all_kinds switch_ok known_switch \<and> all_kinds (assert_known no_eval) known_switch \<and>
   sem_ok (eval_sem no_eval) \<and> eval_ok (eval_sem no_eval) no_eval \<and>
   simplify_branches no_eval known_switch =
     Ok (body_of_blocks [sample_block [] (Goto 2), sample_block [] (Goto 2), sample_block [] Return]) \<and>
   same_runs (eval_sem no_eval) known_switch
     (body_of_blocks [sample_block [] (Goto 2), sample_block [] (Goto 2), sample_block [] Return])"
proof -
  have pre: "wf_body known_switch" "all_kinds switch_ok known_switch" "all_kinds (assert_known no_eval) known_switch"
    by code_simp+
  have "simplify_branches no_eval known_switch =
     Ok (body_of_blocks [sample_block [] (Goto 2), sample_block [] (Goto 2), sample_block [] Return])" by code_simp
  then show ?thesis using pre eval_sem_ok simplify_branches_correct [OF pre eval_sem_ok] by simp
qed

theorem unknown_assertion_dropped_witness:
  "\<exists>b'. simplify_branches no_eval (asserts_false \<lparr>const_span = 0, const_user_ty = None,
      const_literal = \<lparr>lit_ty = Bool_ty, lit_val = Other_val 0\<rparr>\<rparr>) = Ok b' \<and>
    runs (eval_sem no_eval) (basic_blocks b') START_BLOCK [] (Ends Return [])"
  using unknown_assertion_dropped [of no_eval "\<lparr>const_span = 0, const_user_ty = None,
      const_literal = \<lparr>lit_ty = Bool_ty, lit_val = Other_val 0\<rparr>\<rparr>" "[]"] by (auto simp: no_eval_def)

end
