(* ===== verification/Mir_Patch.thy ===== *)
theory Mir_Patch
  imports Mir "HOL-Library.Product_Lexorder"
begin

text \<open>
  Patches to a body (\<open>src/librustc_mir/util/patch.rs\<close>): a patch collects new terminators, blocks,
  statements and locals, and \<open>apply\<close> carries them out. The code inserts the new statements one by
  one, correcting indices by a running \<open>delta\<close>; the theorem shows that the result is the
  declarative one, in which every new statement stands in front of the statement that had its
  index.
\<close>

section \<open>The patch\<close>

record mir_patch =
  patch_map :: "terminator_kind option list"
  new_blocks :: "basic_block_data list"
  new_statements :: "(location \<times> statement_kind) list"
  new_locals :: "local_decl list"
  resume_block :: nat
  next_local :: nat
  make_nops :: "location list"

text \<open>\<open>BasicBlock::new\<close> panics for a number above \<open>0xFFFFFF00\<close>. The check is left out here: it can fail only
  for a body that already has the greatest number of blocks a body can have.\<close>

definition mp_new_block :: "mir_patch \<Rightarrow> basic_block_data \<Rightarrow> mir_patch \<times> nat" where
  "mp_new_block p data =
     (p\<lparr>new_blocks := new_blocks p @ [data], patch_map := patch_map p @ [None]\<rparr>,
      length (patch_map p))"

definition patch_terminator :: "mir_patch \<Rightarrow> nat \<Rightarrow> terminator_kind \<Rightarrow> mir_patch res" where
  "patch_terminator p block new =
     res_bind (index_vec (patch_map p) block) (\<lambda>old.
     res_bind (assert_that (old = None)) (\<lambda>_.
       Ok (p\<lparr>patch_map := (patch_map p)[block := Some new]\<rparr>)))"

text \<open>The search for a resume block: the first block that ends in \<open>Resume\<close>, and whether it has
  statements. Every block before it must have a terminator.\<close>

fun find_resume :: "nat \<Rightarrow> basic_block_data list \<Rightarrow> (nat \<times> bool) option res" where
  "find_resume bb [] = Ok None"
| "find_resume bb (d # ds) =
     res_bind (block_terminator d) (\<lambda>t.
       if term_kind t = Resume then Ok (Some (bb, statements d \<noteq> [])) else find_resume (Suc bb) ds)"

definition mp_empty :: "body \<Rightarrow> mir_patch" where
  "mp_empty b =
     \<lparr>patch_map = replicate (length (basic_blocks b)) None, new_blocks = [], new_statements = [],
      new_locals = [], resume_block = START_BLOCK, next_local = length (local_decls b),
      make_nops = []\<rparr>"

definition new_resume_block :: "body \<Rightarrow> basic_block_data" where
  "new_resume_block b =
     \<lparr>statements = [],
      terminator = Some \<lparr>term_source_info =
          \<lparr>si_span = body_span b, si_scope = OUTERMOST_SOURCE_SCOPE\<rparr>, term_kind = Resume\<rparr>,
      is_cleanup = True\<rparr>"

definition mp_new :: "body \<Rightarrow> mir_patch res" where
  "mp_new b =
     res_bind (find_resume 0 (basic_blocks b)) (\<lambda>found.
       case found of
         Some (bb, False) \<Rightarrow> Ok ((mp_empty b)\<lparr>resume_block := bb\<rparr>)
       | Some (bb, True) \<Rightarrow>
           (case mp_new_block (mp_empty b) (new_resume_block b) of (p, r) \<Rightarrow>
              patch_terminator (p\<lparr>resume_block := r\<rparr>) bb (Goto r))
       | None \<Rightarrow>
           (case mp_new_block (mp_empty b) (new_resume_block b) of (p, r) \<Rightarrow>
              Ok (p\<lparr>resume_block := r\<rparr>)))"

definition is_patched :: "mir_patch \<Rightarrow> nat \<Rightarrow> bool res" where
  "is_patched p bb = res_bind (index_vec (patch_map p) bb) (\<lambda>t. Ok (t \<noteq> None))"

definition mp_terminator_loc :: "mir_patch \<Rightarrow> body \<Rightarrow> nat \<Rightarrow> location res" where
  "mp_terminator_loc p b bb =
     res_bind
       (if length (basic_blocks b) \<le> bb then index_vec (new_blocks p) (bb - length (basic_blocks b))
        else index_vec (basic_blocks b) bb)
       (\<lambda>d. Ok \<lparr>loc_block = bb, loc_statement_index = length (statements d)\<rparr>)"

text \<open>\<open>Local::new\<close> refuses the last 255 numbers of 32 bits.\<close>

definition new_temp :: "mir_patch \<Rightarrow> ty \<Rightarrow> nat \<Rightarrow> (mir_patch \<times> nat) res" where
  "new_temp p t span =
     (let index = next_local p;
          p' = p\<lparr>next_local := next_local p + 1, new_locals := new_locals p @ [ld_new_temp t span]\<rparr>
      in res_bind (assert_that (index \<le> 0xFFFFFF00)) (\<lambda>_. Ok (p', index)))"

definition new_internal :: "mir_patch \<Rightarrow> ty \<Rightarrow> nat \<Rightarrow> (mir_patch \<times> nat) res" where
  "new_internal p t span =
     (let index = next_local p;
          p' = p\<lparr>next_local := next_local p + 1, new_locals := new_locals p @ [ld_new_internal t span]\<rparr>
      in res_bind (assert_that (index \<le> 0xFFFFFF00)) (\<lambda>_. Ok (p', index)))"

definition add_statement :: "mir_patch \<Rightarrow> location \<Rightarrow> statement_kind \<Rightarrow> mir_patch" where
  "add_statement p loc k = p\<lparr>new_statements := new_statements p @ [(loc, k)]\<rparr>"

definition add_assign :: "mir_patch \<Rightarrow> location \<Rightarrow> place \<Rightarrow> rvalue \<Rightarrow> mir_patch" where
  "add_assign p loc pl rv = add_statement p loc (Assign pl rv)"

definition mp_make_nop :: "mir_patch \<Rightarrow> location \<Rightarrow> mir_patch" where
  "mp_make_nop p loc = p\<lparr>make_nops := make_nops p @ [loc]\<rparr>"

definition source_info_for_index :: "basic_block_data \<Rightarrow> nat \<Rightarrow> source_info res" where
  "source_info_for_index d i =
     (if i < length (statements d) then Ok (stmt_source_info (statements d ! i))
      else res_bind (block_terminator d) (\<lambda>t. Ok (term_source_info t)))"

definition source_info_for_location :: "mir_patch \<Rightarrow> body \<Rightarrow> location \<Rightarrow> source_info res" where
  "source_info_for_location p b loc =
     res_bind
       (if length (basic_blocks b) \<le> loc_block loc
        then index_vec (new_blocks p) (loc_block loc - length (basic_blocks b))
        else index_vec (basic_blocks b) (loc_block loc))
       (\<lambda>d. source_info_for_index d (loc_statement_index loc))"

section \<open>Applying a patch\<close>

text \<open>\<open>Vec::insert\<close>.\<close>

definition vec_insert :: "nat \<Rightarrow> 'a \<Rightarrow> 'a list \<Rightarrow> 'a list res" where
  "vec_insert i x xs =
     (if i \<le> length xs then Ok (take i xs @ x # drop i xs) else Panic Index_Out_Of_Bounds)"

definition update_block ::
    "nat \<Rightarrow> (basic_block_data \<Rightarrow> basic_block_data res) \<Rightarrow> body \<Rightarrow> body res" where
  "update_block n f b =
     res_bind (index_vec (basic_blocks b) n) (\<lambda>d.
     res_bind (f d) (\<lambda>d'. Ok (b\<lparr>basic_blocks := (basic_blocks b)[n := d']\<rparr>)))"

definition set_terminator_kind :: "terminator_kind \<Rightarrow> basic_block_data \<Rightarrow> basic_block_data res" where
  "set_terminator_kind k d =
     res_bind (block_terminator d) (\<lambda>t. Ok (d\<lparr>terminator := Some (t\<lparr>term_kind := k\<rparr>)\<rparr>))"

definition insert_statement ::
    "nat \<Rightarrow> statement_kind \<Rightarrow> basic_block_data \<Rightarrow> basic_block_data res" where
  "insert_statement i k d =
     res_bind (source_info_for_index d i) (\<lambda>si.
     res_bind (vec_insert i \<lparr>stmt_source_info = si, stmt_kind = k\<rparr> (statements d)) (\<lambda>ss.
       Ok (d\<lparr>statements := ss\<rparr>)))"

definition insert_new_statement ::
    "location \<times> statement_kind \<Rightarrow> body \<times> nat \<times> nat \<Rightarrow> (body \<times> nat \<times> nat) res" where
  "insert_new_statement = (\<lambda>(loc, k) (b, delta, last_bb).
     let delta' = (if loc_block loc \<noteq> last_bb then 0 else delta) in
     res_bind (update_block (loc_block loc)
                 (insert_statement (loc_statement_index loc + delta') k) b)
       (\<lambda>b'. Ok (b', delta' + 1, loc_block loc)))"

definition patch_block :: "nat \<times> terminator_kind option \<Rightarrow> body \<Rightarrow> body res" where
  "patch_block = (\<lambda>(src, patch) b.
     case patch of None \<Rightarrow> Ok b | Some k \<Rightarrow> update_block src (set_terminator_kind k) b)"

definition mp_apply :: "mir_patch \<Rightarrow> body \<Rightarrow> body res" where
  "mp_apply p body0 =
     res_bind (res_for (make_nops p) (\<lambda>loc b. make_statement_nop b loc) body0) (\<lambda>b.
     res_bind (res_for (enumerate 0 (patch_map p)) patch_block
        (b\<lparr>basic_blocks := basic_blocks b @ new_blocks p,
           local_decls := local_decls b @ new_locals p\<rparr>)) (\<lambda>b.
     res_bind (res_for (sort_key (location_key \<circ> fst) (new_statements p)) insert_new_statement
        (b, 0, START_BLOCK)) (\<lambda>(b, _, _).
       Ok b)))"

section \<open>Loops that work block by block\<close>

text \<open>A loop whose turns each rewrite one block does to every block what the turns for that block
  do to it.\<close>

lemma map_block_eq: "length ds = n \<Longrightarrow> (\<And>i. i < n \<Longrightarrow> g i = ds ! i) \<Longrightarrow> map g [0 ..< n] = ds"
  by (simp add: list_eq_iff_nth_eq)

lemma update_block_Ok:
  "n < length (basic_blocks b) \<Longrightarrow> f (basic_blocks b ! n) = Ok d \<Longrightarrow>
     update_block n f (b :: body) = Ok (b\<lparr>basic_blocks := (basic_blocks b)[n := d]\<rparr>)"
  by (simp add: update_block_def)

lemma block_local_loop:
  assumes "\<forall>x \<in> set xs. blk x < length (basic_blocks b)"
    and "\<And>n. n < length (basic_blocks b) \<Longrightarrow>
      res_for (filter (\<lambda>x. blk x = n) xs) f (basic_blocks b ! n) = Ok (g n)"
  shows "res_for xs (\<lambda>x. update_block (blk x) (f x)) (b :: body) =
    Ok (b\<lparr>basic_blocks := map g [0 ..< length (basic_blocks b)]\<rparr>)"
  using assms
proof (induction xs arbitrary: b)
  case Nil
  then show ?case by (simp add: map_block_eq)
next
  case (Cons x xs)
  let ?bs = "basic_blocks b"
  from Cons.prems(1) have x: "blk x < length ?bs" by simp
  with Cons.prems(2) [of "blk x"] obtain d where d: "f x (?bs ! blk x) = Ok d"
    "res_for (filter (\<lambda>y. blk y = blk x) xs) f d = Ok (g (blk x))"
    by (auto simp: res_simps)
  let ?b = "b\<lparr>basic_blocks := ?bs[blk x := d]\<rparr>"
  have "res_for xs (\<lambda>x. update_block (blk x) (f x)) ?b =
    Ok (?b\<lparr>basic_blocks := map g [0 ..< length (basic_blocks ?b)]\<rparr>)"
  proof (rule Cons.IH)
    show "\<forall>y \<in> set xs. blk y < length (basic_blocks ?b)" using Cons.prems(1) by simp
    show "res_for (filter (\<lambda>y. blk y = n) xs) f (basic_blocks ?b ! n) = Ok (g n)"
      if "n < length (basic_blocks ?b)" for n
      using that Cons.prems(2) [of n] d(2) by (cases "n = blk x") simp_all
  qed
  then show ?case using update_block_Ok [of "blk x" b "f x", OF x d(1)] by simp
qed

text \<open>The same for the insertion loop, whose running \<open>delta\<close> starts again at each block because
  the statements come sorted by block.\<close>

definition insert_step ::
    "location \<times> statement_kind \<Rightarrow> basic_block_data \<times> nat \<Rightarrow> (basic_block_data \<times> nat) res" where
  "insert_step = (\<lambda>(loc, k) (d, delta).
     res_bind (insert_statement (loc_statement_index loc + delta) k d) (\<lambda>d'. Ok (d', delta + 1)))"

abbreviation item_block :: "location \<times> statement_kind \<Rightarrow> nat" where
  "item_block x \<equiv> loc_block (fst x)"

lemma insert_new_statement_Ok:
  assumes "item_block x < length (basic_blocks b)"
    and "insert_statement (loc_statement_index (fst x) + (if item_block x = last_bb then delta else 0))
      (snd x) (basic_blocks b ! item_block x) = Ok d"
  shows "insert_new_statement x (b :: body, delta, last_bb) =
    Ok (b\<lparr>basic_blocks := (basic_blocks b)[item_block x := d]\<rparr>,
        (if item_block x = last_bb then delta else 0) + 1, item_block x)"
  using update_block_Ok [of "item_block x" b "insert_statement (loc_statement_index (fst x)
      + (if item_block x = last_bb then delta else 0)) (snd x)", OF assms]
  by (cases x; cases "item_block x = last_bb") (simp_all add: insert_new_statement_def Let_def)

lemma insertion_loop:
  assumes "sorted_wrt (\<lambda>x y. item_block x \<le> item_block y) xs"
    and "\<forall>x \<in> set xs. last_bb \<le> item_block x \<and> item_block x < length (basic_blocks b)"
    and "\<And>n. n < length (basic_blocks b) \<Longrightarrow>
      \<exists>e. res_for (filter (\<lambda>x. item_block x = n) xs) insert_step
        (basic_blocks b ! n, if n = last_bb then delta else 0) = Ok (g n, e)"
  shows "\<exists>s. res_for xs insert_new_statement (b :: body, delta, last_bb) =
    Ok (b\<lparr>basic_blocks := map g [0 ..< length (basic_blocks b)]\<rparr>, s)"
  using assms
proof (induction xs arbitrary: b delta last_bb)
  case Nil
  then show ?case by (simp add: map_block_eq)
next
  case (Cons x xs)
  let ?bs = "basic_blocks b" and ?m = "item_block x"
  let ?delta = "if ?m = last_bb then delta else 0"
  from Cons.prems(2) have m: "?m < length ?bs" by simp
  from Cons.prems(3) [OF m] obtain e where
    "res_for (filter (\<lambda>y. item_block y = ?m) (x # xs)) insert_step (?bs ! ?m, ?delta) = Ok (g ?m, e)"
    by blast
  then obtain d where d: "insert_statement (loc_statement_index (fst x) + ?delta) (snd x) (?bs ! ?m) = Ok d"
    "res_for (filter (\<lambda>y. item_block y = ?m) xs) insert_step (d, ?delta + 1) = Ok (g ?m, e)"
    by (auto simp: res_simps insert_step_def split: prod.splits)
  let ?b = "b\<lparr>basic_blocks := ?bs[?m := d]\<rparr>"
  have "\<exists>s. res_for xs insert_new_statement (?b, ?delta + 1, ?m) =
    Ok (?b\<lparr>basic_blocks := map g [0 ..< length (basic_blocks ?b)]\<rparr>, s)"
  proof (rule Cons.IH)
    show "sorted_wrt (\<lambda>x y. item_block x \<le> item_block y) xs" using Cons.prems(1) by simp
    show "\<forall>y \<in> set xs. ?m \<le> item_block y \<and> item_block y < length (basic_blocks ?b)"
      using Cons.prems(1,2) by simp
    show "\<exists>e. res_for (filter (\<lambda>x. item_block x = n) xs) insert_step
        (basic_blocks ?b ! n, if n = ?m then ?delta + 1 else 0) = Ok (g n, e)"
      if n: "n < length (basic_blocks ?b)" for n
    proof (cases "n = ?m")
      case True
      then show ?thesis using d(2) m by auto
    next
      case False
      have "filter (\<lambda>y. item_block y = last_bb) xs = []" if "last_bb \<noteq> ?m"
        using Cons.prems(1,2) that by (auto simp: filter_empty_conv)
      then show ?thesis
        using Cons.prems(3) [of n] n False by (cases "n = last_bb") auto
    qed
  qed
  then show ?case
    by (simp only: res_for.simps insert_new_statement_Ok [OF m d(1)] res_bind.simps) simp
qed

section \<open>Weaving statements into a block\<close>

text \<open>\<open>weave f old j\<close> puts the statements \<open>f i\<close> in front of the old statement number \<open>i\<close>, counting
  from \<open>j\<close>, and \<open>f\<close> of the length behind the last.\<close>

fun weave :: "(nat \<Rightarrow> 'a list) \<Rightarrow> 'a list \<Rightarrow> nat \<Rightarrow> 'a list" where
  "weave f [] j = f j"
| "weave f (s # old) j = f j @ s # weave f old (Suc j)"

lemma weave_cong: "(\<And>i. j \<le> i \<Longrightarrow> f i = g i) \<Longrightarrow> weave f old j = weave g old j"
  by (induction old arbitrary: j) simp_all

lemma weave_empty: "(\<And>i. j \<le> i \<Longrightarrow> f i = []) \<Longrightarrow> weave f old j = old"
  by (induction old arbitrary: j) simp_all

text \<open>Where the next new statement goes when none so far has a larger index.\<close>

lemma weave_split:
  assumes "j \<le> i" and "i \<le> j + length old" and "\<And>m. i < m \<Longrightarrow> f m = []"
  shows "weave f old j =
      concat (map (\<lambda>m. f m @ [old ! (m - j)]) [j ..< i]) @ f i @ drop (i - j) old"
  using assms
proof (induction old arbitrary: j)
  case (Cons s old)
  show ?case
  proof (cases "i = j")
    case True
    have "weave f old (Suc j) = old"
      by (rule weave_empty) (use Cons.prems(3) True in simp)
    with True show ?thesis by simp
  next
    case False
    then have ij: "Suc j \<le> i" "i \<le> Suc j + length old" using Cons.prems by simp_all
    have "concat (map (\<lambda>m. f m @ [old ! (m - Suc j)]) [Suc j ..< i])
        = concat (map (\<lambda>m. f m @ [(s # old) ! (m - j)]) [Suc j ..< i])"
      by (intro arg_cong [where f = concat] map_cong) (auto simp: nth_Cons' Suc_diff_le)
    moreover have "i - j = Suc (i - Suc j)" using ij by simp
    ultimately show ?thesis
      using Cons.IH [OF ij Cons.prems(3)] ij upt_conv_Cons [of j i] by simp
  qed
qed simp

lemma length_filter_upto:
  "length (filter (\<lambda>x. idx x < (i :: nat)) xs) =
     sum_list (map (\<lambda>m. length (filter (\<lambda>x. idx x = m) xs)) [0 ..< i])"
proof (induction i)
  case (Suc i)
  have "length (filter (\<lambda>x. idx x < Suc i) xs) =
      length (filter (\<lambda>x. idx x < i) xs) + length (filter (\<lambda>x. idx x = i) xs)"
    by (induction xs) auto
  with Suc show ?case by simp
qed simp

lemma length_weave_prefix:
  assumes "\<And>m. length (f m) = length (filter (\<lambda>x. idx x = m) xs)" and "\<forall>x \<in> set xs. idx x \<le> i"
  shows "length (concat (map (\<lambda>m. f m @ [h m]) [0 ..< i]) @ f i) = i + length xs"
proof -
  have "length (concat (map (\<lambda>m. f m @ [h m]) [0 ..< k])) =
      k + sum_list (map (\<lambda>m. length (filter (\<lambda>x. idx x = m) xs)) [0 ..< k])" for k
    by (induction k) (simp_all add: assms(1))
  moreover have "filter (\<lambda>x. idx x < Suc i) xs = xs"
    using assms(2) by (auto simp: less_Suc_eq_le filter_id_conv)
  ultimately show ?thesis
    using length_filter_upto [of idx "Suc i" xs] by (simp add: assms(1))
qed

abbreviation item_index :: "location \<times> statement_kind \<Rightarrow> nat" where
  "item_index x \<equiv> loc_statement_index (fst x)"

text \<open>The source information at an index of a block, and the statements to insert there.\<close>

definition info_at :: "basic_block_data \<Rightarrow> nat \<Rightarrow> source_info" where
  "info_at d i =
     (if i < length (statements d) then stmt_source_info (statements d ! i)
      else term_source_info (the (terminator d)))"

definition inserted_at ::
    "basic_block_data \<Rightarrow> (location \<times> statement_kind) list \<Rightarrow> nat \<Rightarrow> statement list" where
  "inserted_at d xs i =
     map (\<lambda>x. \<lparr>stmt_source_info = info_at d i, stmt_kind = snd x\<rparr>) (filter (\<lambda>x. item_index x = i) xs)"

lemma insert_into_weave:
  fixes d :: basic_block_data
  assumes "terminator d \<noteq> None" and "\<forall>y \<in> set xs. item_index y \<le> i" and "i \<le> length (statements d)"
  shows "insert_statement (i + length xs) k (d\<lparr>statements := weave (inserted_at d xs) (statements d) 0\<rparr>) =
    Ok (d\<lparr>statements := weave (\<lambda>m. inserted_at d xs m @
        (if m = i then [\<lparr>stmt_source_info = info_at d i, stmt_kind = k\<rparr>] else []))
      (statements d) 0\<rparr>)"
proof -
  let ?f = "inserted_at d xs" and ?old = "statements d"
  let ?s = "\<lparr>stmt_source_info = info_at d i, stmt_kind = k\<rparr>"
  let ?g = "\<lambda>m. ?f m @ (if m = i then [?s] else [])"
  let ?pre = "concat (map (\<lambda>m. ?f m @ [?old ! m]) [0 ..< i]) @ ?f i"
  have none: "?f m = []" if "i < m" for m
    using assms(2) that by (auto simp: inserted_at_def filter_empty_conv)
  have f: "weave ?f ?old 0 = ?pre @ drop i ?old"
    using weave_split [of 0 i ?old ?f] assms(3) none by simp
  have "concat (map (\<lambda>m. ?g m @ [?old ! m]) [0 ..< i]) = concat (map (\<lambda>m. ?f m @ [?old ! m]) [0 ..< i])"
    by (intro arg_cong [where f = concat] map_cong) auto
  then have g: "weave ?g ?old 0 = ?pre @ ?s # drop i ?old"
    using weave_split [of 0 i ?old ?g] assms(3) none by simp
  have len: "length ?pre = i + length xs"
    by (rule length_weave_prefix [OF _ assms(2)]) (simp add: inserted_at_def)
  have "source_info_for_index (d\<lparr>statements := weave ?f ?old 0\<rparr>) (i + length xs) = Ok (info_at d i)"
    using assms(1,3) len unfolding source_info_for_index_def f info_at_def
    by (cases "i < length ?old") (auto simp: nth_append block_terminator_def simp del: append_assoc)
  moreover have "vec_insert (i + length xs) ?s (weave ?f ?old 0) = Ok (weave ?g ?old 0)"
    using len assms(3) unfolding vec_insert_def f g by (simp del: append_assoc)
  ultimately show ?thesis by (simp add: insert_statement_def)
qed

lemma insert_steps:
  fixes d :: basic_block_data
  assumes "terminator d \<noteq> None" and "sorted_wrt (\<lambda>x y. item_index x \<le> item_index y) xs"
    and "\<forall>x \<in> set xs. item_index x \<le> length (statements d)"
  shows "res_for xs insert_step (d, 0) =
    Ok (d\<lparr>statements := weave (inserted_at d xs) (statements d) 0\<rparr>, length xs)"
  using assms
proof (induction xs rule: rev_induct)
  case Nil
  have "weave (inserted_at d []) (statements d) 0 = statements d"
    by (rule weave_empty) (simp add: inserted_at_def)
  then show ?case by simp
next
  case (snoc x xs)
  let ?d = "d\<lparr>statements := weave (inserted_at d xs) (statements d) 0\<rparr>"
  have "res_for xs insert_step (d, 0) = Ok (?d, length xs)"
    using snoc by (simp add: sorted_wrt_append)
  moreover have "insert_statement (item_index x + length xs) (snd x) ?d =
      Ok (d\<lparr>statements := weave (\<lambda>m. inserted_at d xs m @ (if m = item_index x
        then [\<lparr>stmt_source_info = info_at d (item_index x), stmt_kind = snd x\<rparr>] else []))
        (statements d) 0\<rparr>)"
    by (rule insert_into_weave) (use snoc.prems in \<open>auto simp: sorted_wrt_append\<close>)
  moreover have "(\<lambda>m. inserted_at d xs m @ (if m = item_index x
        then [\<lparr>stmt_source_info = info_at d (item_index x), stmt_kind = snd x\<rparr>] else []))
      = inserted_at d (xs @ [x])"
    by (auto simp: inserted_at_def)
  ultimately show ?case
    by (cases x) (simp add: res_for_append insert_step_def)
qed

section \<open>What a patch does\<close>

text \<open>A patch fits a body: every block ends in a terminator, the patched blocks exist, the
  statements to blank are statements of the body, and the new statements go to existing places.\<close>

definition patch_fits :: "mir_patch \<Rightarrow> body \<Rightarrow> bool" where
  "patch_fits p b =
     (let blocks = basic_blocks b @ new_blocks p in
      list_all (\<lambda>d. terminator d \<noteq> None) blocks \<and> length (patch_map p) = length blocks \<and>
      list_all (\<lambda>l. loc_block l < length (basic_blocks b) \<and>
          loc_statement_index l < length (statements (basic_blocks b ! loc_block l))) (make_nops p) \<and>
      list_all (\<lambda>x. item_block x < length blocks \<and>
          item_index x \<le> length (statements (blocks ! item_block x))) (new_statements p))"

definition blanked :: "nat list \<Rightarrow> basic_block_data \<Rightarrow> basic_block_data" where
  "blanked is d =
     d\<lparr>statements := map (\<lambda>i. if i \<in> set is then make_nop (statements d ! i) else statements d ! i)
        [0 ..< length (statements d)]\<rparr>"

definition retargeted :: "terminator_kind option \<Rightarrow> basic_block_data \<Rightarrow> basic_block_data" where
  "retargeted k d =
     (case k of None \<Rightarrow> d
      | Some k' \<Rightarrow> d\<lparr>terminator := map_option (\<lambda>t. t\<lparr>term_kind := k'\<rparr>) (terminator d)\<rparr>)"

definition woven :: "(location \<times> statement_kind) list \<Rightarrow> basic_block_data \<Rightarrow> basic_block_data" where
  "woven xs d = d\<lparr>statements := weave (inserted_at d xs) (statements d) 0\<rparr>"

definition patched_block :: "mir_patch \<Rightarrow> nat \<Rightarrow> basic_block_data \<Rightarrow> basic_block_data" where
  "patched_block p n d =
     woven (filter (\<lambda>x. item_block x = n) (new_statements p))
       (retargeted (patch_map p ! n)
          (blanked (map loc_statement_index (filter (\<lambda>l. loc_block l = n) (make_nops p))) d))"

definition nop_statement :: "nat \<Rightarrow> basic_block_data \<Rightarrow> basic_block_data res" where
  "nop_statement i d =
     res_bind (index_vec (statements d) i)
       (\<lambda>s. Ok (d\<lparr>statements := (statements d)[i := make_nop s]\<rparr>))"

lemma make_statement_nop_update:
  "make_statement_nop b l = update_block (loc_block l) (nop_statement (loc_statement_index l)) b"
  by (simp add: make_statement_nop_def update_block_def nop_statement_def res_simps)

lemma length_blanked [simp]: "length (statements (blanked is d)) = length (statements d)"
  by (simp add: blanked_def)

lemma terminator_blanked [simp]: "terminator (blanked is d) = terminator d"
  by (simp add: blanked_def)

lemma statements_retargeted [simp]: "statements (retargeted k d) = statements d"
  by (simp add: retargeted_def split: option.splits)

lemma retargeted_None_iff [simp]: "terminator (retargeted k d) = None \<longleftrightarrow> terminator d = None"
  by (simp add: retargeted_def split: option.splits)

lemma blanked_Nil [simp]: "blanked [] (d :: basic_block_data) = d"
  by (simp add: blanked_def map_nth)

lemma blanked_snoc:
  fixes d :: basic_block_data
  assumes "i < length (statements d)"
  shows "nop_statement i (blanked is d) = Ok (blanked (is @ [i]) d)"
proof -
  have "make_nop (make_nop s) = make_nop s" for s by (simp add: make_nop_def)
  then have "(statements (blanked is d))[i := make_nop (statements (blanked is d) ! i)]
      = statements (blanked (is @ [i]) d)"
    using assms by (intro nth_equalityI) (auto simp: blanked_def nth_list_update)
  then show ?thesis
    using assms by (simp add: nop_statement_def) (simp add: blanked_def)
qed

lemma nop_steps:
  fixes d :: basic_block_data
  shows "\<forall>l \<in> set ls. idx l < length (statements d) \<Longrightarrow>
    res_for ls (\<lambda>l. nop_statement (idx l)) d = Ok (blanked (map idx ls) d)"
  by (induction ls rule: rev_induct) (simp_all add: res_for_append blanked_snoc)

lemma nop_stage:
  fixes b :: body
  assumes "\<forall>l \<in> set ls. loc_block l < length (basic_blocks b) \<and>
      loc_statement_index l < length (statements (basic_blocks b ! loc_block l))"
  shows "res_for ls (\<lambda>l b. make_statement_nop b l) b =
    Ok (b\<lparr>basic_blocks := map (\<lambda>n. blanked (map loc_statement_index (filter (\<lambda>l. loc_block l = n) ls))
      (basic_blocks b ! n)) [0 ..< length (basic_blocks b)]\<rparr>)"
  unfolding make_statement_nop_update
  by (rule block_local_loop) (use assms in \<open>auto intro!: nop_steps\<close>)

lemma res_for_skip:
  assumes "\<And>x s. \<not> P x \<Longrightarrow> f x s = Ok s"
  shows "res_for xs f s = res_for (filter P xs) f s"
proof (induction xs arbitrary: s)
  case (Cons x xs)
  then show ?case using assms [of x s] by (cases "f x s") auto
qed simp

lemma filter_enumerate:
  "n < length xs \<Longrightarrow> filter (\<lambda>x. fst x = m + n) (enumerate m xs) = [(m + n, xs ! n)]"
proof (induction xs arbitrary: m n)
  case (Cons x xs)
  show ?case
  proof (cases n)
    case 0
    have "filter (\<lambda>y. fst y = m) (enumerate (Suc m) xs) = []"
      by (auto simp: filter_empty_conv in_set_enumerate_eq)
    with 0 show ?thesis by simp
  next
    case (Suc k)
    then show ?thesis using Cons.IH [of k "Suc m"] Cons.prems by simp
  qed
qed simp

lemma retarget_stage:
  fixes b :: body
  assumes "length ks = length (basic_blocks b)" and "\<forall>d \<in> set (basic_blocks b). terminator d \<noteq> None"
  shows "res_for (enumerate 0 ks) patch_block b =
    Ok (b\<lparr>basic_blocks := map (\<lambda>n. retargeted (ks ! n) (basic_blocks b ! n))
      [0 ..< length (basic_blocks b)]\<rparr>)"
proof -
  let ?P = "\<lambda>x. snd x \<noteq> None"
  let ?f = "\<lambda>x. set_terminator_kind (the (snd x))"
  have "res_for (enumerate 0 ks) patch_block b =
      res_for (filter ?P (enumerate 0 ks)) patch_block b"
    by (rule res_for_skip) (auto simp: patch_block_def)
  also have "\<dots> = res_for (filter ?P (enumerate 0 ks)) (\<lambda>x. update_block (fst x) (?f x)) b"
    by (rule res_for_cong) (auto simp: patch_block_def)
  also have "\<dots> = Ok (b\<lparr>basic_blocks := map (\<lambda>n. retargeted (ks ! n) (basic_blocks b ! n))
      [0 ..< length (basic_blocks b)]\<rparr>)"
  proof (rule block_local_loop)
    show "\<forall>x \<in> set (filter ?P (enumerate 0 ks)). fst x < length (basic_blocks b)"
      using assms(1) by (auto simp: in_set_enumerate_eq)
    fix n assume n: "n < length (basic_blocks b)"
    then have "terminator (basic_blocks b ! n) \<noteq> None" using assms(2) by simp
    moreover have "filter (\<lambda>x. fst x = n) (filter ?P (enumerate 0 ks)) =
        filter ?P (filter (\<lambda>x. fst x = n) (enumerate 0 ks))"
      by (simp only: filter_filter conj_commute)
    moreover have "filter (\<lambda>x. fst x = n) (enumerate 0 ks) = [(n, ks ! n)]"
      using filter_enumerate [of n ks 0] n assms(1) by simp
    ultimately show "res_for (filter (\<lambda>x. fst x = n) (filter ?P (enumerate 0 ks))) ?f
        (basic_blocks b ! n) = Ok (retargeted (ks ! n) (basic_blocks b ! n))"
      by (cases "ks ! n"; cases "terminator (basic_blocks b ! n)")
         (simp_all add: set_terminator_kind_def block_terminator_def retargeted_def)
  qed
  finally show ?thesis .
qed

lemma filter_sort_location:
  "filter (\<lambda>x. item_block x = n \<and> item_index x = m) (sort_key (location_key \<circ> fst) xs) =
     filter (\<lambda>x. item_block x = n \<and> item_index x = m) xs"
  using sort_key_stable [of "location_key \<circ> fst" "(n, m)" xs] by (simp add: location_key_def)

lemma inserted_at_sorted:
  "inserted_at d (filter (\<lambda>x. item_block x = n) (sort_key (location_key \<circ> fst) xs)) =
     inserted_at d (filter (\<lambda>x. item_block x = n) xs)"
  by (rule ext) (simp add: inserted_at_def filter_sort_location conj_commute)

lemma sorted_locations:
  defines "ys xs \<equiv> sort_key (location_key \<circ> fst) xs"
  shows "sorted_wrt (\<lambda>x y. item_block x \<le> item_block y) (ys xs)"
    and "sorted_wrt (\<lambda>x y. item_index x \<le> item_index y) (filter (\<lambda>x. item_block x = n) (ys xs))"
proof -
  have "sorted_wrt (\<lambda>x y. location_key (fst x) \<le> location_key (fst y)) (ys xs)"
    using sorted_sort_key [of "location_key \<circ> fst" xs] unfolding ys_def sorted_map by simp
  then have *: "sorted_wrt (\<lambda>x y. item_block x < item_block y \<or>
      item_block x \<le> item_block y \<and> item_index x \<le> item_index y) (ys xs)"
    by (simp add: location_key_def less_eq_prod_def)
  show "sorted_wrt (\<lambda>x y. item_block x \<le> item_block y) (ys xs)"
    by (rule sorted_wrt_mono_rel [OF _ *]) auto
  show "sorted_wrt (\<lambda>x y. item_index x \<le> item_index y) (filter (\<lambda>x. item_block x = n) (ys xs))"
    by (rule sorted_wrt_mono_rel [OF _ sorted_wrt_filter [OF *]]) auto
qed

lemma insert_stage:
  fixes b :: body
  assumes "\<forall>d \<in> set (basic_blocks b). terminator d \<noteq> None"
    and "\<forall>x \<in> set xs. item_block x < length (basic_blocks b) \<and>
      item_index x \<le> length (statements (basic_blocks b ! item_block x))"
  shows "\<exists>s. res_for (sort_key (location_key \<circ> fst) xs) insert_new_statement (b, 0, START_BLOCK) =
    Ok (b\<lparr>basic_blocks := map (\<lambda>n. woven (filter (\<lambda>x. item_block x = n) xs) (basic_blocks b ! n))
      [0 ..< length (basic_blocks b)]\<rparr>, s)"
proof (rule insertion_loop [OF sorted_locations(1)])
  let ?ys = "sort_key (location_key \<circ> fst) xs"
  show "\<forall>x \<in> set ?ys. START_BLOCK \<le> item_block x \<and> item_block x < length (basic_blocks b)"
    using assms(2) by (simp add: START_BLOCK_def)
  fix n assume n: "n < length (basic_blocks b)"
  have "res_for (filter (\<lambda>x. item_block x = n) ?ys) insert_step (basic_blocks b ! n, 0) =
      Ok ((basic_blocks b ! n)\<lparr>statements := weave (inserted_at (basic_blocks b ! n)
            (filter (\<lambda>x. item_block x = n) ?ys)) (statements (basic_blocks b ! n)) 0\<rparr>,
          length (filter (\<lambda>x. item_block x = n) ?ys))"
  proof (rule insert_steps [OF _ sorted_locations(2)])
    show "terminator (basic_blocks b ! n) \<noteq> None" using assms(1) n by simp
    show "\<forall>x \<in> set (filter (\<lambda>x. item_block x = n) ?ys). item_index x \<le> length (statements (basic_blocks b ! n))"
    proof
      fix x assume "x \<in> set (filter (\<lambda>x. item_block x = n) ?ys)"
      then have "x \<in> set xs" "item_block x = n" by simp_all
      then show "item_index x \<le> length (statements (basic_blocks b ! n))" using assms(2) by blast
    qed
  qed
  then show "\<exists>e. res_for (filter (\<lambda>x. item_block x = n) ?ys) insert_step
      (basic_blocks b ! n, if n = START_BLOCK then 0 else 0) =
      Ok (woven (filter (\<lambda>x. item_block x = n) xs) (basic_blocks b ! n), e)"
    by (simp only: if_cancel inserted_at_sorted woven_def) blast
qed

lemma ball_map_nth:
  "\<forall>d \<in> set ds. P d \<Longrightarrow> (\<And>n d. P d \<Longrightarrow> P (f n d)) \<Longrightarrow>
     \<forall>d \<in> set (map (\<lambda>n. f n (ds ! n)) [0 ..< length ds]). P d"
  by simp

lemma mp_apply_fits:
  assumes "patch_fits p b"
  shows "mp_apply p b =
    Ok (b\<lparr>basic_blocks := map (\<lambda>n. patched_block p n ((basic_blocks b @ new_blocks p) ! n))
          [0 ..< length (basic_blocks b @ new_blocks p)],
        local_decls := local_decls b @ new_locals p\<rparr>)"
proof -
  let ?n = "length (basic_blocks b)" and ?total = "length (basic_blocks b @ new_blocks p)"
  let ?is = "\<lambda>n. map loc_statement_index (filter (\<lambda>l. loc_block l = n) (make_nops p))"
  let ?xs = "\<lambda>n. filter (\<lambda>x. item_block x = n) (new_statements p)"
  from assms have ends: "\<forall>d \<in> set (basic_blocks b @ new_blocks p). terminator d \<noteq> None"
    and pm: "length (patch_map p) = ?total"
    and nops: "\<forall>l \<in> set (make_nops p). loc_block l < ?n \<and>
      loc_statement_index l < length (statements (basic_blocks b ! loc_block l))"
    and ins: "\<forall>x \<in> set (new_statements p). item_block x < ?total \<and>
      item_index x \<le> length (statements ((basic_blocks b @ new_blocks p) ! item_block x))"
    unfolding patch_fits_def Let_def list_all_iff by blast+
  define ds where "ds = basic_blocks b @ new_blocks p"
  define B1 where "B1 = map (\<lambda>n. blanked (?is n) (ds ! n)) [0 ..< length ds]"
  define B2 where "B2 = map (\<lambda>n. retargeted (patch_map p ! n) (B1 ! n)) [0 ..< length B1]"
  let ?b1 = "b\<lparr>basic_blocks := B1, local_decls := local_decls b @ new_locals p\<rparr>"
  have len: "length ds = ?total" "length B1 = length ds" "length B2 = length ds"
    by (simp_all add: ds_def B1_def B2_def)
  have nth: "B1 ! n = blanked (?is n) (ds ! n)"
      "B2 ! n = retargeted (patch_map p ! n) (blanked (?is n) (ds ! n))" if "n < length ds" for n
    using that by (simp_all add: B1_def B2_def)
  have ends1: "\<forall>d \<in> set B1. terminator d \<noteq> None"
    unfolding B1_def by (rule ball_map_nth [OF ends [folded ds_def]]) simp
  have ends2: "\<forall>d \<in> set B2. terminator d \<noteq> None"
    unfolding B2_def by (rule ball_map_nth [OF ends1]) simp
  have "?is n = []" if "?n \<le> n" for n
    using nops that by (auto simp: filter_empty_conv)
  then have "map (\<lambda>n. blanked (?is n) (basic_blocks b ! n)) [0 ..< ?n] @ new_blocks p = B1"
    unfolding B1_def ds_def by (intro nth_equalityI) (simp_all add: nth_append)
  then have "res_for (make_nops p) (\<lambda>loc b. make_statement_nop b loc) b =
      Ok (b\<lparr>basic_blocks := take ?n B1\<rparr>)" and "take ?n B1 @ new_blocks p = B1"
    using nop_stage [OF nops] by auto
  moreover have "res_for (enumerate 0 (patch_map p)) patch_block ?b1 = Ok (?b1\<lparr>basic_blocks := B2\<rparr>)"
    using retarget_stage [of "patch_map p" ?b1] pm ends1 len by (simp add: B2_def)
  moreover have "\<forall>x \<in> set (new_statements p). item_block x < length B2 \<and>
      item_index x \<le> length (statements (B2 ! item_block x))"
    using ins [folded ds_def] len nth by simp
  with ends2 insert_stage [of "?b1\<lparr>basic_blocks := B2\<rparr>" "new_statements p"] obtain s where
    "res_for (sort_key (location_key \<circ> fst) (new_statements p))
      insert_new_statement (?b1\<lparr>basic_blocks := B2\<rparr>, 0, START_BLOCK) =
      Ok (?b1\<lparr>basic_blocks := map (\<lambda>n. woven (?xs n) (B2 ! n)) [0 ..< length B2]\<rparr>, s)"
    by auto
  moreover have "map (\<lambda>n. woven (?xs n) (B2 ! n)) [0 ..< length B2] =
      map (\<lambda>n. patched_block p n (ds ! n)) [0 ..< length ds]"
    unfolding len(3) using nth by (intro map_cong) (simp_all add: patched_block_def)
  ultimately show ?thesis
    by (cases s) (simp add: mp_apply_def ds_def)
qed

text \<open>(C6) A patch that fits its body is applied without a panic, and the result is the declarative
  one: every old and new block with its statements blanked, its terminator replaced and the new
  statements woven in front of the statements whose index they name, in the order in which they
  were added; the new locals are appended; everything else is kept.\<close>

theorem mp_apply_spec:
  assumes "patch_fits p b"
  shows "mp_apply p b =
    Ok (b\<lparr>basic_blocks := map (\<lambda>n. patched_block p n ((basic_blocks b @ new_blocks p) ! n))
          [0 ..< length (basic_blocks b @ new_blocks p)],
        local_decls := local_decls b @ new_locals p\<rparr>)"
  using assms by (rule mp_apply_fits)

section \<open>New patches\<close>

lemma find_resume_Ok:
  assumes "\<forall>d \<in> set ds. terminator d \<noteq> None"
  shows "(\<exists>i t. i < length ds \<and> find_resume n ds = Ok (Some (n + i, statements (ds ! i) \<noteq> [])) \<and>
      terminator (ds ! i) = Some t \<and> term_kind t = Resume) \<or>
    (find_resume n ds = Ok None)"
  using assms
proof (induction ds arbitrary: n)
  case (Cons d ds)
  then obtain t where t: "terminator d = Some t" by auto
  show ?case
  proof (cases "term_kind t = Resume")
    case True
    with t show ?thesis
      by (intro disjI1 exI [of _ 0] exI [of _ t]) (simp add: block_terminator_def)
  next
    case False
    then have step: "find_resume n (d # ds) = find_resume (Suc n) ds"
      using t by (simp add: block_terminator_def)
    from Cons consider i t where "i < length ds"
        "find_resume (Suc n) ds = Ok (Some (Suc n + i, statements (ds ! i) \<noteq> []))"
        "terminator (ds ! i) = Some t" "term_kind t = Resume"
      | "find_resume (Suc n) ds = Ok None"
      by (metis list.set_intros(2))
    then show ?thesis
    proof cases
      case (1 i t)
      then show ?thesis unfolding step by (intro disjI1 exI [of _ "Suc i"] exI [of _ t]) simp
    next
      case 2
      then show ?thesis unfolding step by simp
    qed
  qed
qed simp

text \<open>What \<open>new\<close> promises of the block it names as resume block.\<close>

definition resumes :: "basic_block_data \<Rightarrow> bool" where
  "resumes d \<longleftrightarrow> statements d = [] \<and> map_option term_kind (terminator d) = Some Resume"

definition mp_with_resume :: "body \<Rightarrow> mir_patch" where
  "mp_with_resume b =
     (mp_empty b)\<lparr>new_blocks := [new_resume_block b],
       patch_map := replicate (length (basic_blocks b)) None @ [None],
       resume_block := length (basic_blocks b)\<rparr>"

lemma mp_new_cases:
  "find_resume 0 (basic_blocks b) = Ok None \<Longrightarrow> mp_new b = Ok (mp_with_resume b)"
  "find_resume 0 (basic_blocks b) = Ok (Some (i, False)) \<Longrightarrow>
     mp_new b = Ok ((mp_empty b)\<lparr>resume_block := i\<rparr>)"
  "find_resume 0 (basic_blocks b) = Ok (Some (i, True)) \<Longrightarrow>
     mp_new b = patch_terminator (mp_with_resume b) i (Goto (length (basic_blocks b)))"
  by (simp_all add: mp_new_def mp_new_block_def mp_with_resume_def mp_empty_def)

lemma patch_fits_new:
  assumes "\<forall>d \<in> set (basic_blocks b). terminator d \<noteq> None"
  shows "patch_fits ((mp_empty b)\<lparr>resume_block := r\<rparr>) b" and "patch_fits (mp_with_resume b) b"
  using assms
  by (simp_all add: patch_fits_def mp_empty_def mp_with_resume_def new_resume_block_def list_all_iff)

lemma mp_with_resume_resumes:
  "new_blocks (mp_with_resume b) = [new_resume_block b]"
  "resume_block (mp_with_resume b) = length (basic_blocks b)" "resumes (new_resume_block b)"
  by (simp_all add: mp_with_resume_def resumes_def new_resume_block_def)

text \<open>\<open>patch_terminator\<close> touches one entry of the patch map, keeps a fitting patch fitting, and
  refuses to patch a block a second time.\<close>

lemma patch_terminator_Ok_iff:
  "patch_terminator p n k = Ok q \<longleftrightarrow> n < length (patch_map p) \<and> patch_map p ! n = None \<and>
     q = p\<lparr>patch_map := (patch_map p)[n := Some k]\<rparr>"
  by (auto simp add: patch_terminator_def res_simps)

lemma patch_fits_update:
  "patch_fits p b \<Longrightarrow> patch_fits (p\<lparr>patch_map := (patch_map p)[n := k]\<rparr>) b"
  by (simp add: patch_fits_def Let_def)

lemma patch_terminator_twice:
  assumes "patch_terminator p n k = Ok q"
  shows "patch_terminator q n k' = Panic Assert_Failed"
  using assms unfolding patch_terminator_Ok_iff by (simp add: patch_terminator_def assert_that_def)

lemma mp_new_Ok:
  assumes "\<forall>d \<in> set (basic_blocks b). terminator d \<noteq> None"
  shows "\<exists>p. mp_new b = Ok p \<and> patch_fits p b \<and>
    resume_block p < length (basic_blocks b @ new_blocks p) \<and>
    resumes ((basic_blocks b @ new_blocks p) ! resume_block p)"
proof -
  let ?n = "length (basic_blocks b)"
  note new = mp_new_cases patch_fits_new [OF assms] mp_with_resume_resumes
  from find_resume_Ok [OF assms, of 0] consider
    i t where "i < ?n" "find_resume 0 (basic_blocks b) = Ok (Some (i, statements (basic_blocks b ! i) \<noteq> []))"
      "terminator (basic_blocks b ! i) = Some t" "term_kind t = Resume"
    | "find_resume 0 (basic_blocks b) = Ok None" by auto
  then show ?thesis
  proof cases
    case (1 i t)
    show ?thesis
    proof (cases "statements (basic_blocks b ! i) = []")
      case True
      with 1 have "mp_new b = Ok ((mp_empty b)\<lparr>resume_block := i\<rparr>)" by (simp add: new(2))
      moreover have "resumes (basic_blocks b ! i)" using 1 True by (simp add: resumes_def)
      ultimately show ?thesis
        using new(4) [of i] 1(1)
        by (intro exI [of _ "(mp_empty b)\<lparr>resume_block := i\<rparr>"]) (simp add: nth_append)
    next
      case False
      let ?q = "(mp_with_resume b)\<lparr>patch_map := (patch_map (mp_with_resume b))[i := Some (Goto ?n)]\<rparr>"
      have "patch_terminator (mp_with_resume b) i (Goto ?n) = Ok ?q"
        unfolding patch_terminator_Ok_iff using 1(1) by (simp add: mp_with_resume_def nth_append)
      then have "mp_new b = Ok ?q" using 1 False by (simp add: new(3))
      then show ?thesis
        using new(5-8) patch_fits_update [OF new(5)] by (intro exI [of _ ?q]) (simp add: nth_append)
    qed
  next
    case 2
    then show ?thesis
      using new(1,5-8) by (intro exI [of _ "mp_with_resume b"]) (simp add: nth_append)
  qed
qed

lemma mp_new_map:
  assumes "mp_new b = Ok p" and "n < length (basic_blocks b)"
    and "terminator (basic_blocks b ! n) = Some t" "term_kind t \<noteq> Resume"
    and "\<forall>d \<in> set (basic_blocks b). terminator d \<noteq> None"
  shows "n < length (patch_map p)" and "patch_map p ! n = None"
proof -
  have "n < length (patch_map p) \<and> patch_map p ! n = None"
  proof -
    from find_resume_Ok [OF assms(5), of 0] consider
      i t where "i < length (basic_blocks b)" "find_resume 0 (basic_blocks b) = Ok (Some (i, statements (basic_blocks b ! i) \<noteq> []))"
        "terminator (basic_blocks b ! i) = Some t" "term_kind t = Resume"
      | "find_resume 0 (basic_blocks b) = Ok None" by auto
    then show ?thesis
    proof cases
      case (1 i t)
      then have "i \<noteq> n" using assms(3,4) by auto
      with 1 assms(1,2) show ?thesis
        by (cases "statements (basic_blocks b ! i) = []")
           (auto simp: mp_new_cases patch_terminator_Ok_iff mp_with_resume_def mp_empty_def nth_append)
    next
      case 2
      with assms(1,2) show ?thesis by (auto simp: mp_new_cases mp_with_resume_def nth_append)
    qed
  qed
  then show "n < length (patch_map p)" "patch_map p ! n = None" by auto
qed

text \<open>(C7) For a body whose blocks all end in terminators, \<open>MirPatch::new\<close> returns a patch that
  fits the body, and the resume block it names exists (in the body or among the new blocks), has no
  statements and ends in \<open>Resume\<close>.\<close>

theorem mp_new_fits:
  assumes "\<forall>d \<in> set (basic_blocks b). terminator d \<noteq> None"
  shows "\<exists>p. mp_new b = Ok p \<and> patch_fits p b \<and>
    resume_block p < length (basic_blocks b @ new_blocks p) \<and>
    resumes ((basic_blocks b @ new_blocks p) ! resume_block p)"
  using assms by (rule mp_new_Ok)

section \<open>New locals\<close>

text \<open>A sequence of requests for temporaries and internal variables, as a pass makes them.\<close>

datatype local_request = Temp_request ty nat | Internal_request ty nat

primrec request_local :: "local_request \<Rightarrow> mir_patch \<Rightarrow> (mir_patch \<times> nat) res" where
  "request_local (Temp_request t span) p = new_temp p t span"
| "request_local (Internal_request t span) p = new_internal p t span"

primrec requested_decl :: "local_request \<Rightarrow> local_decl" where
  "requested_decl (Temp_request t span) = ld_new_temp t span"
| "requested_decl (Internal_request t span) = ld_new_internal t span"

primrec request_locals :: "local_request list \<Rightarrow> mir_patch \<Rightarrow> (mir_patch \<times> nat list) res" where
  "request_locals [] p = Ok (p, [])"
| "request_locals (r # rs) p =
     res_bind (request_local r p) (\<lambda>(p1, l).
     res_bind (request_locals rs p1) (\<lambda>(p2, ls). Ok (p2, l # ls)))"

text \<open>The next local follows the locals of the body and the new ones. A fresh patch has this property.\<close>

definition locals_fit :: "mir_patch \<Rightarrow> body \<Rightarrow> bool" where
  "locals_fit p b \<longleftrightarrow> next_local p = length (local_decls b) + length (new_locals p)"

lemma mp_new_locals_fit: "mp_new b = Ok p \<Longrightarrow> locals_fit p b"
proof -
  assume p: "mp_new b = Ok p"
  then obtain found where f: "find_resume 0 (basic_blocks b) = Ok found" by (auto simp: mp_new_def res_simps)
  have fresh: "locals_fit (mp_with_resume b) b" "locals_fit ((mp_empty b)\<lparr>resume_block := r\<rparr>) b" for r
    by (simp_all add: locals_fit_def mp_with_resume_def mp_empty_def)
  show ?thesis
  proof (cases found)
    case None
    with p f fresh(1) show ?thesis by (simp add: mp_new_cases)
  next
    case (Some x)
    obtain i ne where x: "x = (i, ne)" by force
    show ?thesis
    proof (cases ne)
      case False
      with p f Some x fresh(2) [of i] show ?thesis by (simp add: mp_new_cases)
    next
      case True
      with p f Some x have "patch_terminator (mp_with_resume b) i (Goto (length (basic_blocks b))) = Ok p"
        by (simp add: mp_new_cases)
      with fresh(1) show ?thesis by (auto simp: patch_terminator_Ok_iff locals_fit_def)
    qed
  qed
qed

lemma request_local_Ok:
  "next_local p \<le> 0xFFFFFF00 \<Longrightarrow> request_local r p =
     Ok (p\<lparr>next_local := next_local p + 1, new_locals := new_locals p @ [requested_decl r]\<rparr>, next_local p)"
  by (cases r) (simp_all add: new_temp_def new_internal_def assert_that_def Let_def)

lemma request_locals_Ok:
  "next_local p + length rs \<le> 0xFFFFFF01 \<Longrightarrow> request_locals rs p =
     Ok (p\<lparr>next_local := next_local p + length rs, new_locals := new_locals p @ map requested_decl rs\<rparr>,
         [next_local p ..< next_local p + length rs])"
proof (induction rs arbitrary: p)
  case (Cons r rs)
  then have "request_local r p =
      Ok (p\<lparr>next_local := next_local p + 1, new_locals := new_locals p @ [requested_decl r]\<rparr>, next_local p)"
    by (intro request_local_Ok) simp
  with Cons.IH [of "p\<lparr>next_local := next_local p + 1, new_locals := new_locals p @ [requested_decl r]\<rparr>"] Cons.prems
  show ?case by (simp add: upt_conv_Cons del: upt_Suc)
qed simp

text \<open>(C8) New locals of a patch. As long as the numbers last, every request for a temporary or an
  internal variable returns a number of its own, and in the body to which the patch has been applied
  that number is declared as requested, while the locals of the body keep their declarations. A request
  beyond the greatest number of a local panics.\<close>

theorem requested_locals_declared:
  assumes "patch_fits p b" and "locals_fit p b"
  shows "(next_local p + length rs \<le> 0xFFFFFF01 \<longrightarrow>
      (\<exists>p' ls b'. request_locals rs p = Ok (p', ls) \<and> mp_apply p' b = Ok b' \<and> locals_fit p' b \<and>
        distinct ls \<and> map (\<lambda>l. local_decls b' ! l) ls = map requested_decl rs \<and>
        (\<forall>l \<in> set ls. length (local_decls b) \<le> l \<and> l < length (local_decls b')) \<and>
        take (length (local_decls b)) (local_decls b') = local_decls b)) \<and>
    (0xFFFFFF00 < next_local p \<longrightarrow> request_local r p = Panic Assert_Failed)"
proof (intro conjI impI)
  let ?n = "next_local p" and ?k = "length rs"
  let ?p = "p\<lparr>next_local := ?n + ?k, new_locals := new_locals p @ map requested_decl rs\<rparr>"
  assume "?n + ?k \<le> 0xFFFFFF01"
  then have req: "request_locals rs p = Ok (?p, [?n ..< ?n + ?k])" by (rule request_locals_Ok)
  have "patch_fits ?p b" using assms(1) by (simp add: patch_fits_def Let_def)
  from mp_apply_fits [OF this] obtain b' where b': "mp_apply ?p b = Ok b'"
    "local_decls b' = local_decls b @ new_locals p @ map requested_decl rs" by simp
  have n: "?n = length (local_decls b) + length (new_locals p)" using assms(2) by (simp add: locals_fit_def)
  have "map (\<lambda>l. local_decls b' ! l) [?n ..< ?n + ?k] = map requested_decl rs"
    by (rule nth_equalityI) (simp_all add: b'(2) n nth_append)
  moreover have "locals_fit ?p b" using n by (simp add: locals_fit_def)
  ultimately show "\<exists>p' ls b'. request_locals rs p = Ok (p', ls) \<and> mp_apply p' b = Ok b' \<and> locals_fit p' b \<and>
      distinct ls \<and> map (\<lambda>l. local_decls b' ! l) ls = map requested_decl rs \<and>
      (\<forall>l \<in> set ls. length (local_decls b) \<le> l \<and> l < length (local_decls b')) \<and>
      take (length (local_decls b)) (local_decls b') = local_decls b"
    using req b' n by (intro exI [of _ ?p] exI [of _ "[?n ..< ?n + ?k]"] exI [of _ b']) auto
next
  assume "0xFFFFFF00 < next_local p"
  then show "request_local r p = Panic Assert_Failed"
    by (cases r) (simp_all add: new_temp_def new_internal_def assert_that_def Let_def)
qed

section \<open>An example\<close>

definition sample_body :: body where
  "sample_body = body_of_blocks [sample_block [1, 2] (Goto 1), sample_block [3] Return]"

definition sample_patch :: mir_patch where
  "sample_patch =
     \<lparr>patch_map = [Some (FalseEdges 1 1), None], new_blocks = [],
      new_statements =
        [(\<lparr>loc_block = 1, loc_statement_index = 1\<rparr>, StorageDead 7),
         (\<lparr>loc_block = 0, loc_statement_index = 1\<rparr>, StorageDead 8),
         (\<lparr>loc_block = 0, loc_statement_index = 1\<rparr>, StorageDead 9)],
      new_locals = [], resume_block = 0, next_local = 0,
      make_nops = [\<lparr>loc_block = 0, loc_statement_index = 0\<rparr>]\<rparr>"

theorem mp_apply_spec_witness:
  "patch_fits sample_patch sample_body \<and>
   map_option (\<lambda>b. map (map stmt_kind \<circ> statements) (basic_blocks b))
     (case mp_apply sample_patch sample_body of Ok b \<Rightarrow> Some b | _ \<Rightarrow> None) =
   Some [[Nop, StorageDead 8, StorageDead 9, StorageLive 2], [StorageLive 3, StorageDead 7]]"
proof -
  have fits: "patch_fits sample_patch sample_body" by code_simp
  show ?thesis
    unfolding mp_apply_spec [OF fits]
    by (simp add: fits) code_simp
qed

theorem requested_locals_declared_witness:
  "patch_fits sample_patch sample_body \<and> locals_fit sample_patch sample_body \<and>
   (\<exists>p' ls b'. request_locals [Temp_request Bool_ty 1, Internal_request Char_ty 2] sample_patch = Ok (p', ls) \<and>
      mp_apply p' sample_body = Ok b' \<and> distinct ls \<and>
      map (\<lambda>l. local_decls b' ! l) ls = [ld_new_temp Bool_ty 1, ld_new_internal Char_ty 2])"
proof -
  have fits: "patch_fits sample_patch sample_body" "locals_fit sample_patch sample_body" by code_simp+
  have "next_local sample_patch + length [Temp_request Bool_ty 1, Internal_request Char_ty 2] \<le> 0xFFFFFF01"
    by (simp add: sample_patch_def)
  with requested_locals_declared [OF fits, of "[Temp_request Bool_ty 1, Internal_request Char_ty 2]"] obtain p' ls b'
    where "request_locals [Temp_request Bool_ty 1, Internal_request Char_ty 2] sample_patch = Ok (p', ls)"
      "mp_apply p' sample_body = Ok b'" "distinct ls"
      "map (\<lambda>l. local_decls b' ! l) ls = map requested_decl [Temp_request Bool_ty 1, Internal_request Char_ty 2]"
    by blast
  then show ?thesis using fits by (intro conjI exI [of _ p'] exI [of _ ls] exI [of _ b']) (simp_all del: request_locals.simps)
qed

theorem mp_new_fits_witness:
  "list_all (\<lambda>d. terminator d \<noteq> None) (basic_blocks sample_body) \<and>
   (\<exists>p. mp_new sample_body = Ok p \<and> patch_fits p sample_body \<and>
    resume_block p < length (basic_blocks sample_body @ new_blocks p) \<and>
    resumes ((basic_blocks sample_body @ new_blocks p) ! resume_block p))"
proof -
  have "list_all (\<lambda>d. terminator d \<noteq> None) (basic_blocks sample_body)" by code_simp
  then show ?thesis using mp_new_fits [of sample_body] by (simp add: list_all_iff)
qed

end
