(* ===== verification/Noop_Pads.thy ===== *)
theory Noop_Pads
  imports Cleanup_Passes Mir_Patch
begin

text \<open>
  Removal of landing pads that do nothing
  (\<open>src/librustc_mir/transform/remove_noop_landing_pads.rs\<close>): in postorder, edges to blocks that
  only lead on to resuming are moved to one resume block, and unwind edges to that block are removed.
  The theorem says that runs have the same outcome afterwards, up to the writes to locals in the
  landing pads that are passed over.
\<close>

section \<open>The pass\<close>

text \<open>Statements and terminators that a landing pad without effect may have.\<close>

fun pad_statement :: "statement_kind \<Rightarrow> bool" where
  "pad_statement (FakeRead _ _) = True"
| "pad_statement (StorageLive _) = True"
| "pad_statement (StorageDead _) = True"
| "pad_statement (AscribeUserType _ _ _) = True"
| "pad_statement Nop = True"
| "pad_statement (Assign p (Use _)) = (as_local p \<noteq> None)"
| "pad_statement (Assign _ _) = False"
| "pad_statement (SetDiscriminant _ _) = False"
| "pad_statement (InlineAsm _ _ _) = False"
| "pad_statement (Retag _ _) = False"

fun pad_terminator :: "terminator_kind \<Rightarrow> bool" where
  "pad_terminator (Goto _) = True"
| "pad_terminator Resume = True"
| "pad_terminator (SwitchInt _ _ _ _) = True"
| "pad_terminator (FalseEdges _ _) = True"
| "pad_terminator (FalseUnwind _ _) = True"
| "pad_terminator _ = False"

definition is_nop_landing_pad :: "nat \<Rightarrow> basic_block_data list \<Rightarrow> bit_set \<Rightarrow> bool res" where
  "is_nop_landing_pad bb bs nop_landing_pads =
     res_bind (index_vec bs bb) (\<lambda>d.
       if \<not> list_all (\<lambda>st. pad_statement (stmt_kind st)) (statements d) then Ok False
       else res_bind (block_terminator d) (\<lambda>t.
         if pad_terminator (term_kind t)
         then res_all (bs_contains nop_landing_pads) (successors (term_kind t))
         else Ok False))"

definition fold_jump :: "nat \<Rightarrow> bit_set \<Rightarrow> nat \<Rightarrow> nat res" where
  "fold_jump resume nop_landing_pads target =
     (if target \<noteq> resume
      then res_bind (bs_contains nop_landing_pads target) (\<lambda>nop. Ok (if nop then resume else target))
      else Ok target)"

definition drop_unwind :: "nat \<Rightarrow> terminator_kind \<Rightarrow> terminator_kind" where
  "drop_unwind resume = unwind_mut (\<lambda>u. if u = Some resume then None else u)"

definition process_pad ::
    "nat \<Rightarrow> nat \<Rightarrow> basic_block_data list \<times> bit_set \<Rightarrow> (basic_block_data list \<times> bit_set) res" where
  "process_pad resume bb = (\<lambda>(bs, nop_landing_pads).
     res_bind (index_vec bs bb) (\<lambda>d.
     res_bind (block_terminator d) (\<lambda>t.
     res_bind (res_map (fold_jump resume nop_landing_pads) (successors (term_kind t))) (\<lambda>ts.
     let bs' = bs[bb := d\<lparr>terminator :=
           Some (t\<lparr>term_kind := drop_unwind resume (with_successors (term_kind t) ts)\<rparr>)\<rparr>]
     in res_bind (is_nop_landing_pad bb bs' nop_landing_pads) (\<lambda>nop.
          if nop then res_bind (bs_insert nop_landing_pads bb) (\<lambda>(pads, _). Ok (bs', pads))
          else Ok (bs', nop_landing_pads))))))"

definition remove_nop_landing_pads :: "body \<Rightarrow> body res" where
  "remove_nop_landing_pads b =
     res_bind (mp_new b) (\<lambda>patch.
     res_bind (mp_apply patch b) (\<lambda>b.
     res_bind (postorder_new b START_BLOCK) (\<lambda>p.
     res_bind (postorder_list b p) (\<lambda>postorder.
     res_bind (res_for postorder (process_pad (resume_block patch))
         (basic_blocks b, bs_new_empty (length (basic_blocks b)))) (\<lambda>(bs, _).
       Ok (b\<lparr>basic_blocks := bs\<rparr>))))))"

definition remove_noop_landing_pads :: "bool \<Rightarrow> body \<Rightarrow> body res" where
  "remove_noop_landing_pads sess_no_landing_pads b =
     (if sess_no_landing_pads then Ok b else remove_nop_landing_pads b)"

section \<open>One resume block\<close>

lemma runs_deterministic: "runs sem bs n s out \<Longrightarrow> runs sem bs n s out' \<Longrightarrow> out' = out"
proof (induction arbitrary: out' rule: runs.induct)
  case (run_exit n s out)
  then show ?case by (simp add: runs_unfold [of _ _ n s out'])
next
  case (run_step n s m s' out)
  then show ?case by (simp add: runs_unfold [of _ _ n s out'])
qed

lemma exec_resume:
  assumes "sem_ok sem" "terminator d = Some t" "term_kind t = Resume"
  shows "exec_block sem d s = Inr (Unwinds (exec_statements sem (statements d) s))"
  using assms by (simp add: exec_block_def pick_successor_def shape_def sem_ok_def has_unwind_def)

lemma patched_resume:
  assumes "patch_fits p b" "make_nops p = []" "new_statements p = []" "new_locals p = []"
  shows "mp_apply p b = Ok (b\<lparr>basic_blocks := map2 retargeted (patch_map p) (basic_blocks b @ new_blocks p)\<rparr>)"
proof -
  have len: "length (patch_map p) = length (basic_blocks b @ new_blocks p)"
    using assms(1) by (simp add: patch_fits_def)
  have "map (\<lambda>n. patched_block p n ((basic_blocks b @ new_blocks p) ! n)) [0 ..< length (basic_blocks b @ new_blocks p)] =
      map2 retargeted (patch_map p) (basic_blocks b @ new_blocks p)"
    using len assms(2-4) by (intro nth_equalityI) (simp_all add: patched_block_def woven_def inserted_at_def weave_empty)
  then show ?thesis using mp_apply_fits [OF assms(1)] assms(4) by simp
qed

lemma wf_closed_blocks: "wf_body b \<Longrightarrow> closed_blocks (basic_blocks b) {..<length (basic_blocks b)}"
  unfolding closed_blocks_def wf_body_edges edges_of_mem by (force simp: term_succs_def intro: nth_mem)

lemma retargeted_None [simp]: "retargeted None d = d"
  by (simp add: retargeted_def)

lemma map2_None: "length ds = n \<Longrightarrow> map2 retargeted (replicate n None) ds = ds"
  by (intro nth_equalityI) simp_all

text \<open>Appending a block that nothing leads to.\<close>

lemma append_block_runs:
  assumes "wf_body b" "basic_blocks b \<noteq> []"
  shows "same_runs sem b (b\<lparr>basic_blocks := basic_blocks b @ ds\<rparr>)"
proof -
  let ?bs = "basic_blocks b"
  have "runs sem (?bs @ ds) START_BLOCK s out \<longleftrightarrow> runs sem ?bs START_BLOCK s out" for s out
  proof (rule runs_same_steps [where L = "{..<length ?bs}"])
    show "closed_blocks ?bs {..<length ?bs}" by (rule wf_closed_blocks [OF assms(1)])
  qed (use assms(2) in \<open>simp_all add: block_step_def nth_append START_BLOCK_def\<close>)
  then show ?thesis by (simp add: same_runs_def)
qed

text \<open>A block that resumes after some statements may jump to the resume block instead.\<close>

lemma resume_moved_runs:
  assumes sem: "sem_ok sem" and wf: "wf_body b" "basic_blocks b \<noteq> []"
    and i: "i < length (basic_blocks b)" "terminator (basic_blocks b ! i) = Some t" "term_kind t = Resume"
    and r: "resumes r"
  shows "same_runs sem b (b\<lparr>basic_blocks :=
    (basic_blocks b)[i := retargeted (Some (Goto (length (basic_blocks b)))) (basic_blocks b ! i)] @ [r]\<rparr>)"
proof -
  let ?bs = "basic_blocks b"
  let ?n = "length ?bs"
  let ?d = "retargeted (Some (Goto ?n)) (?bs ! i)"
  have d: "terminator ?d = Some (t\<lparr>term_kind := Goto ?n\<rparr>)" using i(2) by (simp add: retargeted_def)
  have "runs sem ?bs START_BLOCK s out \<longleftrightarrow> runs sem (?bs[i := ?d] @ [r]) START_BLOCK s out" for s out
  proof (rule runs_merged [where L = "{..<?n}" and x = i and t = ?n])
    show "\<exists>s'. block_step sem (?bs[i := ?d] @ [r]) i s = Inl (?n, s') \<and>
        block_step sem (?bs[i := ?d] @ [r]) ?n s' = block_step sem ?bs i s" for s
    proof (intro exI conjI)
      let ?s = "exec_statements sem (statements (?bs ! i)) s"
      show "block_step sem (?bs[i := ?d] @ [r]) i s = Inl (?n, ?s)"
        using i(1) d by (simp add: block_step_def nth_append exec_block_def pick_goto [OF sem])
      obtain t' where "statements r = []" "terminator r = Some t'" "term_kind t' = Resume"
        using r by (auto simp: resumes_def)
      then show "block_step sem (?bs[i := ?d] @ [r]) ?n ?s = block_step sem ?bs i s"
        using i exec_resume [OF sem] by (simp add: block_step_def nth_append exec_statements_def)
    qed
    show "closed_blocks ?bs {..<?n}" by (rule wf_closed_blocks [OF wf(1)])
  qed (use wf(2) i(1) in \<open>simp_all add: block_step_def nth_append START_BLOCK_def\<close>)
  then show ?thesis by (simp add: same_runs_def)
qed

lemma resumes_wf:
  assumes "wf_body b" "resumes r"
  shows "wf_body (b\<lparr>basic_blocks := basic_blocks b @ [r]\<rparr>)"
    and "i < length (basic_blocks b) \<Longrightarrow> wf_body (b\<lparr>basic_blocks :=
      (basic_blocks b)[i := retargeted (Some (Goto (length (basic_blocks b)))) (basic_blocks b ! i)] @ [r]\<rparr>)"
proof -
  have r: "terminator r \<noteq> None" "term_succs r = []" using assms(2) by (auto simp: resumes_def term_succs_def)
  show "wf_body (b\<lparr>basic_blocks := basic_blocks b @ [r]\<rparr>)"
    using assms(1) r by (auto simp: wf_body_edges less_Suc_eq)
  let ?d = "retargeted (Some (Goto (length (basic_blocks b)))) (basic_blocks b ! i)"
  assume i: "i < length (basic_blocks b)"
  then have "terminator (basic_blocks b ! i) \<noteq> None" using assms(1) by (simp add: wf_body_edges)
  then have d: "terminator ?d \<noteq> None" "set (term_succs ?d) \<subseteq> {length (basic_blocks b)}"
    by (auto simp: term_succs_def retargeted_def)
  have mem: "x \<in> insert ?d (set (basic_blocks b))" if "x \<in> set ((basic_blocks b)[i := ?d])" for x
    using that set_update_subset_insert by (rule subsetD [rotated])
  show "wf_body (b\<lparr>basic_blocks := (basic_blocks b)[i := ?d] @ [r]\<rparr>)"
    unfolding wf_body_edges
  proof (intro conjI allI impI ballI)
    fix m assume "m \<in># edges_of (basic_blocks (b\<lparr>basic_blocks := (basic_blocks b)[i := ?d] @ [r]\<rparr>))"
    then obtain x where "x \<in> insert ?d (set (basic_blocks b))" "m \<in> set (term_succs x)"
      using r(2) mem by (auto simp: edges_of_mem)
    then have "m = length (basic_blocks b) \<or> m \<in># edges_of (basic_blocks b)" using d(2) by (auto simp: edges_of_mem)
    then show "m < length (basic_blocks (b\<lparr>basic_blocks := (basic_blocks b)[i := ?d] @ [r]\<rparr>))"
      using assms(1) by (auto simp: wf_body_edges less_Suc_eq)
  next
    fix x assume "x \<in> set (basic_blocks (b\<lparr>basic_blocks := (basic_blocks b)[i := ?d] @ [r]\<rparr>))"
    then have "x = r \<or> x \<in> insert ?d (set (basic_blocks b))" using mem by auto
    then show "terminator x \<noteq> None" using r(1) d(1) assms(1) unfolding wf_body_edges by blast
  qed
qed

text \<open>After the patch there is a block without statements that resumes.\<close>

lemma single_resume:
  assumes wf: "wf_body b" "basic_blocks b \<noteq> []" and sw: "all_kinds switch_ok b"
  shows "\<exists>p bs. mp_new b = Ok p \<and> mp_apply p b = Ok (b\<lparr>basic_blocks := bs\<rparr>) \<and> wf_body (b\<lparr>basic_blocks := bs\<rparr>) \<and>
    all_kinds switch_ok (b\<lparr>basic_blocks := bs\<rparr>) \<and> resume_block p < length bs \<and> resumes (bs ! resume_block p) \<and>
    bs \<noteq> [] \<and> length bs \<le> length (basic_blocks b) + 1 \<and> size (edges_of bs) \<le> size (edges_of (basic_blocks b)) + 1 \<and>
    (\<forall>sem :: 'st mir_sem. sem_ok sem \<longrightarrow> same_runs sem b (b\<lparr>basic_blocks := bs\<rparr>))"
proof -
  let ?bs = "basic_blocks b"
  let ?n = "length ?bs"
  let ?r = "new_resume_block b"
  have some: "\<forall>d \<in> set ?bs. terminator d \<noteq> None" using wf(1) by (simp add: wf_body_edges)
  have r: "resumes ?r" by (rule mp_with_resume_resumes)
  have re: "term_succs ?r = []" by (simp add: new_resume_block_def term_succs_def)
  have rk: "case terminator ?r of None \<Rightarrow> True | Some t \<Rightarrow> switch_ok (term_kind t)" by (simp add: new_resume_block_def)
  from find_resume_Ok [OF some, of 0] consider
    (empty) i t where "i < ?n" "find_resume 0 ?bs = Ok (Some (i, False))" "statements (?bs ! i) = []"
      "terminator (?bs ! i) = Some t" "term_kind t = Resume"
    | (full) i t where "i < ?n" "find_resume 0 ?bs = Ok (Some (i, True))"
      "terminator (?bs ! i) = Some t" "term_kind t = Resume"
    | (none) "find_resume 0 ?bs = Ok None" by fastforce
  then show ?thesis
  proof cases
    case empty
    let ?p = "(mp_empty b)\<lparr>resume_block := i\<rparr>"
    have "mp_apply ?p b = Ok (b\<lparr>basic_blocks := ?bs\<rparr>)"
      using patched_resume [OF patch_fits_new(1) [OF some, of i]] by (simp add: mp_empty_def map2_None)
    with empty wf sw mp_new_cases(2) [OF empty(2)] show ?thesis
      by (intro exI [of _ ?p] exI [of _ ?bs]) (simp add: resumes_def)
  next
    case full
    let ?p = "(mp_with_resume b)\<lparr>patch_map := (patch_map (mp_with_resume b))[i := Some (Goto ?n)]\<rparr>"
    let ?d = "retargeted (Some (Goto ?n)) (?bs ! i)"
    have p: "mp_new b = Ok ?p"
      using mp_new_cases(3) [OF full(2)] full(1) by (simp add: patch_terminator_Ok_iff mp_with_resume_def nth_append)
    have "map2 retargeted ((replicate ?n None @ [None])[i := Some (Goto ?n)]) (?bs @ [?r]) = ?bs[i := ?d] @ [?r]"
      using full(1) by (intro nth_equalityI) (auto simp: nth_append nth_list_update)
    then have ap: "mp_apply ?p b = Ok (b\<lparr>basic_blocks := ?bs[i := ?d] @ [?r]\<rparr>)"
      using patched_resume [OF patch_fits_update [OF patch_fits_new(2) [OF some]]]
      by (simp add: mp_with_resume_def mp_empty_def)
    have "list_all (\<lambda>d. case terminator d of None \<Rightarrow> True | Some t \<Rightarrow> switch_ok (term_kind t)) (?bs[i := ?d] @ [?r])"
      using sw rk full(1,3) unfolding all_kinds_def
      by (auto simp: list_all_length nth_append nth_list_update retargeted_def less_Suc_eq)
    then have sw': "all_kinds switch_ok (b\<lparr>basic_blocks := ?bs[i := ?d] @ [?r]\<rparr>)" by (simp add: all_kinds_def)
    have "resume_block ?p = length (?bs[i := ?d])" by (simp add: mp_with_resume_def)
    then have "resumes ((?bs[i := ?d] @ [?r]) ! resume_block ?p)" "resume_block ?p < length (?bs[i := ?d] @ [?r])"
      using r by (simp_all add: nth_append)
    moreover have "length (term_succs ?d) = 1" using full(3) by (simp add: retargeted_def term_succs_def)
    then have "size (edges_of (?bs[i := ?d] @ [?r])) \<le> size (edges_of ?bs) + 1"
      using full(1) by (simp add: re size_edges_of map_update sum_list_update)
    ultimately show ?thesis using p ap resumes_wf(2) [OF wf(1) r full(1)] sw' resume_moved_runs [OF _ wf full(1,3,4) r]
      by (intro exI [of _ ?p] exI [of _ "?bs[i := ?d] @ [?r]"] conjI allI impI) (assumption | simp)+
  next
    case none
    let ?p = "mp_with_resume b"
    have "mp_apply ?p b = Ok (b\<lparr>basic_blocks := ?bs @ [?r]\<rparr>)"
      using patched_resume [OF patch_fits_new(2) [OF some]] map2_None [of "?bs @ [?r]" "Suc ?n"]
      by (simp add: mp_with_resume_def mp_empty_def replicate_append_same)
    moreover have "same_runs sem b (b\<lparr>basic_blocks := ?bs @ [?r]\<rparr>)" for sem :: "'st mir_sem"
      by (rule append_block_runs [OF wf])
    ultimately show ?thesis using mp_new_cases(1) [OF none] resumes_wf(1) [OF wf(1) r] r sw rk
      by (intro exI [of _ ?p] exI [of _ "?bs @ [?r]"]) (simp add: all_kinds_def mp_with_resume_def nth_append re)
  qed
qed

section \<open>Folded jumps\<close>

lemma goes_rename: "goes sem (successors_mut f k) s = map_sum (map_prod f id) id (goes sem k s)"
proof -
  have "pick_successor sem (successors_mut f k) s = pick_successor sem k s" by (rule alike_pick) simp
  then show ?thesis by (auto simp: goes_def map_sum_def dest: pick_successor_less split: sum.split)
qed

lemma unwind_is_last: "unwind k = Some (Some r) \<Longrightarrow> successors k ! num_targets k = r"
  by (cases k rule: successors.cases) (auto simp: num_targets_def has_unwind_def)

lemma drop_unwind_other: "unwind k \<noteq> Some (Some r) \<Longrightarrow> drop_unwind r k = k"
  unfolding drop_unwind_def by (cases k) auto

lemma drop_unwind_this: "unwind k = Some (Some r) \<Longrightarrow> drop_unwind r k = unwind_mut (\<lambda>_. None) k"
  unfolding drop_unwind_def by (cases k) auto

text \<open>Without its unwind edge to the resume block, a terminator unwinds by itself.\<close>

lemma goes_drop_unwind:
  "goes sem (drop_unwind r k) s = goes sem k s \<or>
   (\<exists>s'. goes sem k s = Inl (r, s') \<and> goes sem (drop_unwind r k) s = Inr (Unwinds s'))"
proof (cases "unwind k = Some (Some r)")
  case True
  obtain c s' where x: "exec_terminator sem (shape k) s = (c, s')" by fastforce
  have h: "has_unwind k" "\<not> has_unwind (unwind_mut (\<lambda>_. None) k)" using True by (simp_all add: has_unwind_def)
  show ?thesis
  proof (cases c)
    case (Target i)
    then show ?thesis using x drop_unwind_this [OF True] target_unwind_mut [of i k]
      by (simp add: goes_def pick_successor_def)
  next
    case Unwinding
    then show ?thesis using x h drop_unwind_this [OF True] unwind_is_last [OF True]
      by (simp add: goes_def pick_successor_def)
  next
    case Stop
    then show ?thesis using x drop_unwind_this [OF True] by (simp add: goes_def pick_successor_def)
  qed
qed (simp add: drop_unwind_other)

definition folds_into :: "nat \<Rightarrow> nat set \<Rightarrow> (nat \<Rightarrow> nat) \<Rightarrow> bool" where
  "folds_into r P f \<longleftrightarrow> (\<forall>m. f m = m \<or> m \<in> P \<and> f m = r)"

definition fold_kind :: "nat \<Rightarrow> (nat \<Rightarrow> nat) \<Rightarrow> terminator_kind \<Rightarrow> terminator_kind" where
  "fold_kind r f k = drop_unwind r (successors_mut f k)"

lemma goes_fold_kind:
  assumes "folds_into r P f"
  shows "goes sem (fold_kind r f k) s = map_sum (map_prod f id) id (goes sem k s) \<or>
   (\<exists>m s'. goes sem k s = Inl (m, s') \<and> m \<in> insert r P \<and> goes sem (fold_kind r f k) s = Inr (Unwinds s'))"
proof -
  from goes_drop_unwind [of sem r "successors_mut f k" s] show ?thesis
  proof
    assume "goes sem (drop_unwind r (successors_mut f k)) s = goes sem (successors_mut f k) s"
    then show ?thesis by (simp add: fold_kind_def goes_rename)
  next
    assume "\<exists>s'. goes sem (successors_mut f k) s = Inl (r, s') \<and>
      goes sem (drop_unwind r (successors_mut f k)) s = Inr (Unwinds s')"
    then obtain s' m where "goes sem k s = Inl (m, s')" "f m = r"
      "goes sem (fold_kind r f k) s = Inr (Unwinds s')"
      by (auto simp: goes_rename fold_kind_def map_sum_def split: sum.splits)
    moreover have "m \<in> insert r P" using assms \<open>f m = r\<close> unfolding folds_into_def by (metis insertI1 insertI2)
    ultimately show ?thesis by blast
  qed
qed

text \<open>What is left out by folds_into: blocks that unwind without a visible effect.\<close>

definition quiet :: "'st mir_sem \<Rightarrow> ('st \<Rightarrow> 'o) \<Rightarrow> basic_block_data list \<Rightarrow> nat \<Rightarrow> bool" where
  "quiet sem obs bs n \<longleftrightarrow> (\<forall>s. \<exists>s'. runs sem bs n s (Unwinds s') \<and> obs s' = obs s)"

lemma resume_quiet:
  assumes "sem_ok sem" "r < length bs" "resumes (bs ! r)"
  shows "block_step sem bs r s = Inr (Unwinds s)" "quiet sem obs bs r"
proof -
  show "block_step sem bs r s = Inr (Unwinds s)" for s
    using assms exec_resume [OF assms(1)] by (auto simp: block_step_def resumes_def exec_statements_def)
  then show "quiet sem obs bs r" by (auto simp: quiet_def intro!: run_exit)
qed

text \<open>Outcomes that differ at most in what cannot be seen after unwinding.\<close>

fun outcome_like :: "('st \<Rightarrow> 'o) \<Rightarrow> 'st outcome \<Rightarrow> 'st outcome \<Rightarrow> bool" where
  "outcome_like obs (Unwinds s) (Unwinds s') = (obs s' = obs s)"
| "outcome_like obs out out' = (out' = out)"

definition runs_like :: "('st \<Rightarrow> 'o) \<Rightarrow> 'st mir_sem \<Rightarrow> body \<Rightarrow> body \<Rightarrow> bool" where
  "runs_like obs sem b b' \<longleftrightarrow>
     (\<forall>s. (\<forall>out. runs sem (basic_blocks b) START_BLOCK s out \<longrightarrow>
             (\<exists>out'. runs sem (basic_blocks b') START_BLOCK s out' \<and> outcome_like obs out out')) \<and>
          (\<forall>out'. runs sem (basic_blocks b') START_BLOCK s out' \<longrightarrow>
             (\<exists>out. runs sem (basic_blocks b) START_BLOCK s out \<and> outcome_like obs out out')))"

lemma outcome_like_refl [simp]: "outcome_like obs out out"
  by (cases out) simp_all

lemma outcome_like_trans: "outcome_like obs a b \<Longrightarrow> outcome_like obs b c \<Longrightarrow> outcome_like obs a c"
  by (cases a; cases b; cases c) auto

lemma same_runs_like: "same_runs sem b b' \<Longrightarrow> runs_like obs sem b b'"
  by (auto simp: same_runs_def runs_like_def intro: outcome_like_refl)

lemma runs_like_trans: "runs_like obs sem a b \<Longrightarrow> runs_like obs sem b c \<Longrightarrow> runs_like obs sem a c"
  unfolding runs_like_def by (meson outcome_like_trans)

definition folded :: "nat \<Rightarrow> nat set \<Rightarrow> basic_block_data \<Rightarrow> basic_block_data \<Rightarrow> bool" where
  "folded r P d d' \<longleftrightarrow> d' = d \<or> (\<exists>f. folds_into r P f \<and> d' = map_kind (fold_kind r f) d)"

lemma folded_step:
  assumes "folded r P (bs ! n) (bs' ! n)" "length bs' = length bs"
  shows "(case block_step sem bs n s of
      Inl (m, s') \<Rightarrow> block_step sem bs' n s = Inl (m, s') \<or>
        m \<in> insert r P \<and> block_step sem bs' n s \<in> {Inl (r, s'), Inr (Unwinds s')}
    | Inr out \<Rightarrow> block_step sem bs' n s = Inr out)"
proof (cases "n < length bs \<and> bs' ! n \<noteq> bs ! n")
  case False
  then have "block_step sem bs' n s = block_step sem bs n s" using assms(2) by (auto simp: block_step_def)
  then show ?thesis by (auto split: sum.splits)
next
  case True
  then obtain f where f: "folds_into r P f" "bs' ! n = map_kind (fold_kind r f) (bs ! n)"
    using assms(1) by (auto simp: folded_def)
  show ?thesis
  proof (cases "terminator (bs ! n)")
    case None
    then show ?thesis using True f(2) assms(2) by (simp add: block_step_def exec_block_goes)
  next
    case (Some t)
    let ?s = "exec_statements sem (statements (bs ! n)) s"
    have "block_step sem bs n s = goes sem (term_kind t) ?s"
      "block_step sem bs' n s = goes sem (fold_kind r f (term_kind t)) ?s"
      using True Some f(2) assms(2) by (simp_all add: block_step_def exec_block_goes)
    moreover have "f m = r" "m \<in> P" if "f m \<noteq> m" for m using f(1) that unfolding folds_into_def by blast+
    ultimately show ?thesis using goes_fold_kind [OF f(1), of sem "term_kind t" ?s]
      by (fastforce simp: map_sum_def split: sum.splits)
  qed
qed

lemma folded_runs:
  assumes sem: "sem_ok sem" and len: "length bs' = length bs"
    and folded: "\<And>n. n < length bs \<Longrightarrow> folded r P (bs ! n) (bs' ! n)"
    and r: "r < length bs" "resumes (bs ! r)" "resumes (bs' ! r)" and quiet: "\<And>p. p \<in> P \<Longrightarrow> quiet sem obs bs p"
  shows "runs sem bs n s out \<Longrightarrow> \<exists>out'. runs sem bs' n s out' \<and> outcome_like obs out out'"
    and "runs sem bs' n s out' \<Longrightarrow> \<exists>out. runs sem bs n s out \<and> outcome_like obs out out'"
proof -
  have step: "(case block_step sem bs n s of
      Inl (m, s') \<Rightarrow> block_step sem bs' n s = Inl (m, s') \<or>
        m \<in> insert r P \<and> block_step sem bs' n s \<in> {Inl (r, s'), Inr (Unwinds s')}
    | Inr out \<Rightarrow> block_step sem bs' n s = Inr out)" for n s
  proof (cases "n < length bs")
    case True
    show ?thesis by (rule folded_step [OF folded [OF True] len])
  next
    case False
    then show ?thesis using len by (simp add: block_step_def)
  qed
  have r': "block_step sem bs' r s = Inr (Unwinds s)" for s using resume_quiet(1) [OF sem _ r(3)] r(1) len by simp
  have pad: "\<exists>s''. runs sem bs m s (Unwinds s'') \<and> obs s'' = obs s" if "m \<in> insert r P" for m s
    using that quiet resume_quiet(2) [OF sem r(1,2), of obs] unfolding quiet_def by blast
  have there: "runs sem bs' n s (Unwinds s')" if "block_step sem bs' n s \<in> {Inl (r, s'), Inr (Unwinds s')}" for n s s'
    using that r' by (auto intro: runs.intros)
  show "\<exists>out'. runs sem bs' n s out' \<and> outcome_like obs out out'" if "runs sem bs n s out"
    using that
  proof (induction n s out rule: runs.induct)
    case (run_exit n s out)
    then show ?case using step [of n s] by (intro exI [of _ out]) (simp add: runs.run_exit)
  next
    case (run_step n s m s' out)
    show ?case
    proof (cases "block_step sem bs' n s = Inl (m, s')")
      case True
      then show ?thesis using run_step.IH by (blast intro: runs.run_step)
    next
      case False
      then have m: "m \<in> insert r P" "block_step sem bs' n s \<in> {Inl (r, s'), Inr (Unwinds s')}"
        using step [of n s] run_step.hyps(1) by auto
      from pad [OF m(1), of s'] obtain s'' where p: "runs sem bs m s' (Unwinds s'')" "obs s'' = obs s'" by blast
      have "out = Unwinds s''" by (rule runs_deterministic [OF p(1) run_step.hyps(2)])
      then show ?thesis using there [OF m(2)] p(2) by (intro exI [of _ "Unwinds s'"]) simp
    qed
  qed
  show "\<exists>out. runs sem bs n s out \<and> outcome_like obs out out'" if "runs sem bs' n s out'"
    using that
  proof (induction n s out' rule: runs.induct)
    case (run_exit n s out')
    show ?case
    proof (cases "block_step sem bs n s")
      case (Inl ms)
      obtain m s' where ms: "ms = (m, s')" by fastforce
      have "m \<in> insert r P" "out' = Unwinds s'" using step [of n s] Inl ms run_exit by auto
      with pad [of m s'] Inl ms show ?thesis by (auto intro: runs.run_step)
    next
      case (Inr out)
      then show ?thesis using step [of n s] run_exit by (auto intro: runs.run_exit)
    qed
  next
    case (run_step n s m' s' out')
    then obtain m where m: "block_step sem bs n s = Inl (m, s')" "m' = m \<or> m \<in> insert r P \<and> m' = r"
      using step [of n s] by (auto split: sum.splits)
    show ?case
    proof (cases "m' = m")
      case True
      then show ?thesis using run_step.IH m(1) by (blast intro: runs.run_step)
    next
      case False
      then have mp: "m \<in> insert r P" "m' = r" using m(2) by blast+
      have "out' = Unwinds s'" using run_step.hyps(2) r' [of s'] mp(2) by (auto simp: runs_unfold [of _ _ r])
      with pad [OF mp(1), of s'] m(1) show ?thesis by (auto intro: runs.run_step)
    qed
  qed
qed

section \<open>The loop\<close>

text \<open>What the statements of a landing pad without effect change cannot be seen.\<close>

definition pads_ok :: "'st mir_sem \<Rightarrow> ('st \<Rightarrow> 'o) \<Rightarrow> bool" where
  "pads_ok sem obs \<longleftrightarrow> (\<forall>k s. pad_statement k \<longrightarrow> obs (exec_statement sem k s) = obs s)"

lemma pad_statements_quiet:
  "pads_ok sem obs \<Longrightarrow> list_all (\<lambda>st. pad_statement (stmt_kind st)) sts \<Longrightarrow> obs (exec_statements sem sts s) = obs s"
  by (induction sts arbitrary: s) (simp_all add: exec_statements_def pads_ok_def)

lemma pad_goes:
  assumes "sem_ok sem" "switch_ok k" "pad_terminator k" "k \<noteq> Resume"
  shows "\<exists>m. goes sem k s = Inl (m, s) \<and> f m \<in> set (successors (fold_kind r f k))"
  using assms(3)
proof (cases k rule: pad_terminator.cases)
  case (3 d sty vs ts)
  then have ts: "map (\<lambda>_. 0) ts \<noteq> ([] :: nat list)" using assms(2) by auto
  then obtain i where i: "i < length ts" "exec_terminator sem (SwitchInt d sty vs (map (\<lambda>_. 0) ts)) s = (Target i, s)"
    using assms(1) unfolding sem_ok_def by (metis length_map)
  then show ?thesis using 3
    by (simp add: goes_def pick_successor_def shape_def num_targets_def has_unwind_def fold_kind_def drop_unwind_def)
next
  case (5 t u)
  then show ?thesis using assms(1)
    by (cases u) (auto simp: goes_def pick_successor_def shape_def num_targets_def has_unwind_def fold_kind_def
      drop_unwind_def sem_ok_def)
qed (use assms(1,4) in \<open>auto simp: goes_def pick_successor_def shape_def num_targets_def has_unwind_def
    fold_kind_def drop_unwind_def sem_ok_def\<close>)

lemma pad_terminator_fold: "pad_terminator (fold_kind r f k) = pad_terminator k"
  by (cases k) (simp_all add: fold_kind_def drop_unwind_def)

lemma new_pad_quiet:
  assumes sem: "sem_ok sem" "pads_ok sem obs" and n: "n < length bs" "terminator (bs ! n) = Some t"
    and pad: "list_all (\<lambda>st. pad_statement (stmt_kind st)) (statements (bs ! n))" "pad_terminator (term_kind t)"
      "switch_ok (term_kind t)"
    and f: "folds_into r P f" "set (successors (fold_kind r f (term_kind t))) \<subseteq> P"
    and quiet: "\<And>p. p \<in> P \<Longrightarrow> quiet sem obs bs p"
  shows "quiet sem obs bs n"
  unfolding quiet_def
proof
  fix s
  let ?s = "exec_statements sem (statements (bs ! n)) s"
  have obs: "obs ?s = obs s" by (rule pad_statements_quiet [OF sem(2) pad(1)])
  have go: "block_step sem bs n s = goes sem (term_kind t) ?s" using n by (simp add: block_step_def exec_block_goes)
  show "\<exists>s'. runs sem bs n s (Unwinds s') \<and> obs s' = obs s"
  proof (cases "term_kind t = Resume")
    case True
    then have "block_step sem bs n s = Inr (Unwinds ?s)" using n exec_resume [OF sem(1)] by (simp add: block_step_def)
    with obs show ?thesis by (blast intro: run_exit)
  next
    case False
    from pad_goes [OF sem(1) pad(3,2) False, of ?s f r] obtain m where
      m: "goes sem (term_kind t) ?s = Inl (m, ?s)" "f m \<in> P" using f(2) by blast
    have "m \<in> P" using m(2) f(1) unfolding folds_into_def by metis
    with quiet obtain s' where "runs sem bs m ?s (Unwinds s')" "obs s' = obs ?s" unfolding quiet_def by blast
    with m(1) go obs show ?thesis by (metis run_step)
  qed
qed

text \<open>The invariant of the loop: the blocks so far are folded, and the marked blocks are quiet.\<close>

definition pads_inv ::
    "'st mir_sem \<Rightarrow> ('st \<Rightarrow> 'o) \<Rightarrow> nat \<Rightarrow> basic_block_data list \<Rightarrow> nat set \<Rightarrow> nat set
     \<Rightarrow> basic_block_data list \<times> bit_set \<Rightarrow> bool" where
  "pads_inv sem obs r bs0 all todo = (\<lambda>(bs, pads).
     length bs = length bs0 \<and> bs_ok pads \<and> domain_size pads = length bs0 \<and>
     (\<forall>n<length bs0. folded r (bits pads) (bs0 ! n) (bs ! n)) \<and> (\<forall>n\<in>todo. bs ! n = bs0 ! n) \<and>
     (\<forall>p\<in>bits pads. quiet sem obs bs0 p) \<and>
     (\<forall>n\<in>all - todo. \<forall>t. terminator (bs ! n) = Some t \<longrightarrow> unwind (term_kind t) \<noteq> Some (Some r)))"

lemma pads_invD:
  assumes "pads_inv sem obs r bs0 all todo (bs, pads)"
  shows "length bs = length bs0" "bs_ok pads" "domain_size pads = length bs0"
    "\<And>n. n < length bs0 \<Longrightarrow> folded r (bits pads) (bs0 ! n) (bs ! n)" "\<And>n. n \<in> todo \<Longrightarrow> bs ! n = bs0 ! n"
    "\<And>p. p \<in> bits pads \<Longrightarrow> quiet sem obs bs0 p"
    "\<And>n t. n \<in> all - todo \<Longrightarrow> terminator (bs ! n) = Some t \<Longrightarrow> unwind (term_kind t) \<noteq> Some (Some r)"
  using assms by (simp_all add: pads_inv_def)

lemma folded_mono: "folded r P d d' \<Longrightarrow> P \<subseteq> Q \<Longrightarrow> folded r Q d d'"
  unfolding folded_def folds_into_def by blast

lemma drop_unwind_successors: "set (successors (drop_unwind r k)) \<subseteq> set (successors k)"
  by (cases k rule: successors.cases) (auto simp: drop_unwind_def)

lemma is_nop_landing_pad_ok:
  assumes "n < length bs" "terminator (bs ! n) = Some t" "bs_ok pads"
    "set (successors (term_kind t)) \<subseteq> {..<domain_size pads}"
  shows "is_nop_landing_pad n bs pads =
    Ok (list_all (\<lambda>st. pad_statement (stmt_kind st)) (statements (bs ! n)) \<and> pad_terminator (term_kind t) \<and>
      set (successors (term_kind t)) \<subseteq> bits pads)"
proof -
  have "res_all (bs_contains pads) (successors (term_kind t)) =
      Ok (list_all (\<lambda>m. m \<in> bits pads) (successors (term_kind t)))"
    using assms(3,4) by (intro res_all_ok bs_contains_ok) auto
  moreover have "list_all (\<lambda>m. m \<in> bits pads) (successors (term_kind t)) = (set (successors (term_kind t)) \<subseteq> bits pads)"
    by (auto simp: list_all_iff)
  ultimately show ?thesis using assms(1,2) by (simp add: is_nop_landing_pad_def block_terminator_def)
qed

lemma process_pad_ok:
  assumes sem: "sem_ok sem" "pads_ok sem obs" and inv: "pads_inv sem obs r bs0 all todo (bs, pads)"
    and n: "n < length bs0" "n \<in> todo" "terminator (bs0 ! n) = Some t" "switch_ok (term_kind t)"
      "set (successors (term_kind t)) \<subseteq> {..<length bs0}" and r: "r < length bs0"
  shows "\<exists>bs' pads'. process_pad r n (bs, pads) = Ok (bs', pads') \<and> pads_inv sem obs r bs0 all (todo - {n}) (bs', pads')"
proof -
  note D = pads_invD [OF inv]
  define f where "f m = (if m \<noteq> r \<and> m \<in> bits pads then r else m)" for m
  have f: "folds_into r (bits pads) f" by (simp add: folds_into_def f_def)
  have d: "bs ! n = bs0 ! n" by (rule D(5) [OF n(2)])
  have "fold_jump r pads m = Ok (f m)" if "m \<in> set (successors (term_kind t))" for m
    using that n(5) D(2,3) bs_contains_ok [of pads m] by (auto simp: fold_jump_def f_def)
  then have map: "res_map (fold_jump r pads) (successors (term_kind t)) = Ok (map f (successors (term_kind t)))"
    by (rule res_map_ok)
  let ?d = "map_kind (fold_kind r f) (bs0 ! n)"
  let ?bs = "bs[n := ?d]"
  have upd: "(bs0 ! n)\<lparr>terminator := Some (t\<lparr>term_kind := drop_unwind r (with_successors (term_kind t)
      (map f (successors (term_kind t))))\<rparr>)\<rparr> = ?d"
    using n(3) by (simp add: map_kind_def fold_kind_def successors_mut_with_successors)
  let ?k = "fold_kind r f (term_kind t)"
  have tm: "terminator (?bs ! n) = Some (t\<lparr>term_kind := ?k\<rparr>)" using n(1,3) D(1) by simp
  have sub: "set (successors ?k) \<subseteq> {..<length bs0}"
    using drop_unwind_successors [of r "successors_mut f (term_kind t)"] n(5) r by (auto simp: fold_kind_def f_def)
  let ?nop = "list_all (\<lambda>st. pad_statement (stmt_kind st)) (statements (bs0 ! n)) \<and> pad_terminator ?k \<and>
    set (successors ?k) \<subseteq> bits pads"
  have nop: "is_nop_landing_pad n ?bs pads = Ok ?nop"
    using is_nop_landing_pad_ok [OF _ tm D(2)] n(1) D(1,3) sub by simp
  have run: "process_pad r n (bs, pads) =
      (if ?nop then res_bind (bs_insert pads n) (\<lambda>(pads, _). Ok (?bs, pads)) else Ok (?bs, pads))"
    using n(1,3) D(1) d map upd nop by (simp add: process_pad_def block_terminator_def Let_def)
  have fold: "folded r (bits pads) (bs0 ! i) (?bs ! i)" if "i < length bs0" for i
    using D(4) [OF that] f that D(1) by (cases "i = n") (auto simp: folded_def)
  have no: "unwind (term_kind t') \<noteq> Some (Some r)" if i: "i \<in> all - (todo - {n})" "terminator (?bs ! i) = Some t'" for i t'
  proof (cases "i = n")
    case True
    then show ?thesis using i(2) tm by (auto simp: fold_kind_def drop_unwind_def split: if_splits)
  qed (use i D(7) [of i t'] in auto)
  show ?thesis
  proof (cases ?nop)
    case False
    with run fold no D show ?thesis by (intro exI [of _ ?bs] exI [of _ pads]) (auto simp: pads_inv_def)
  next
    case True
    from bs_insert_ok [OF D(2), of n] n(1) D(3) obtain pads' where ins: "bs_insert pads n = Ok (pads', n \<notin> bits pads)"
      "bs_ok pads'" "bits pads' = insert n (bits pads)" "domain_size pads' = domain_size pads" by auto
    have "quiet sem obs bs0 n"
      using True pad_terminator_fold [of r f "term_kind t"]
      by (intro new_pad_quiet [OF sem n(1,3) _ _ n(4) f _ D(6)]) auto
    then show ?thesis using run True ins fold no D
      by (intro exI [of _ ?bs] exI [of _ pads']) (auto simp: pads_inv_def intro: folded_mono)
  qed
qed

lemma process_pads_ok:
  assumes sem: "sem_ok sem" "pads_ok sem obs" and inv: "pads_inv sem obs r bs0 all todo s" and r: "r < length bs0"
    and ns: "distinct ns" "set ns \<subseteq> todo" "\<forall>n\<in>set ns. n < length bs0"
    and blocks: "\<forall>n<length bs0. \<exists>t. terminator (bs0 ! n) = Some t \<and> switch_ok (term_kind t) \<and>
      set (successors (term_kind t)) \<subseteq> {..<length bs0}"
  shows "\<exists>s'. res_for ns (process_pad r) s = Ok s' \<and> pads_inv sem obs r bs0 all (todo - set ns) s'"
  using inv ns
proof (induction ns arbitrary: s todo)
  case (Cons n ns)
  obtain bs pads where s: "s = (bs, pads)" by fastforce
  obtain t where t: "terminator (bs0 ! n) = Some t" "switch_ok (term_kind t)"
    "set (successors (term_kind t)) \<subseteq> {..<length bs0}" using blocks Cons.prems(4) by (metis list.set_intros(1))
  have "n < length bs0" "n \<in> todo" using Cons.prems(3,4) by simp_all
  from process_pad_ok [OF sem Cons.prems(1) [unfolded s] this t r] obtain bs1 pads1 where
    s1: "process_pad r n s = Ok (bs1, pads1)" "pads_inv sem obs r bs0 all (todo - {n}) (bs1, pads1)"
    unfolding s by (elim exE conjE)
  have "distinct ns" "set ns \<subseteq> todo - {n}" "\<forall>n\<in>set ns. n < length bs0" using Cons.prems(2-4) by auto
  moreover have "todo - set (n # ns) = todo - {n} - set ns" by auto
  ultimately show ?case using Cons.IH [OF s1(2)] s1(1) by simp
qed simp

lemma folded_wf:
  assumes "wf_body (b\<lparr>basic_blocks := bs0\<rparr>)" "length bs = length bs0" "r < length bs0"
    "\<And>n. n < length bs0 \<Longrightarrow> folded r P (bs0 ! n) (bs ! n)"
  shows "wf_body (b\<lparr>basic_blocks := bs\<rparr>)"
proof -
  have "terminator (bs ! n) \<noteq> None \<and> set (term_succs (bs ! n)) \<subseteq> {..<length bs}" if n: "n < length bs" for n
  proof -
    have "bs0 ! n \<in> set bs0" using n assms(2) by simp
    then obtain t where t: "terminator (bs0 ! n) = Some t" "set (successors (term_kind t)) \<subseteq> {..<length bs0}"
      using assms(1) unfolding wf_body_edges edges_of_mem by (fastforce simp: term_succs_def)
    have "set (successors (fold_kind r f (term_kind t))) \<subseteq> {..<length bs0}" if "folds_into r P f" for f
    proof
      fix m assume "m \<in> set (successors (fold_kind r f (term_kind t)))"
      then have "m \<in> f ` set (successors (term_kind t))"
        using drop_unwind_successors [of r "successors_mut f (term_kind t)"] by (auto simp: fold_kind_def)
      then obtain x where "x \<in> set (successors (term_kind t))" "m = f x" by blast
      then have "m = x \<or> m = r" using \<open>folds_into r P f\<close> unfolding folds_into_def by blast
      then show "m \<in> {..<length bs0}" using t(2) assms(3) \<open>x \<in> _\<close> by auto
    qed
    then show ?thesis using assms(2) assms(4) [of n] n t by (fastforce simp: folded_def term_succs_def)
  qed
  then have "\<forall>d\<in>set bs. terminator d \<noteq> None \<and> set (term_succs d) \<subseteq> {..<length bs}"
    unfolding all_set_conv_all_nth by blast
  then show ?thesis by (auto simp: wf_body_edges edges_of_mem)
qed

lemma folded_edges:
  assumes "length bs = length bs0" "\<And>n. n < length bs0 \<Longrightarrow> folded r P (bs0 ! n) (bs ! n)"
  shows "size (edges_of bs) \<le> size (edges_of bs0)"
proof -
  have "length (successors (fold_kind r f k)) \<le> length (successors k)" for f k
    by (cases k rule: successors.cases) (simp_all add: fold_kind_def drop_unwind_def)
  then have "length (term_succs (bs ! n)) \<le> length (term_succs (bs0 ! n))" if "n < length bs0" for n
    using assms(2) [OF that] by (auto simp: folded_def term_succs_def split: option.splits)
  then have "(\<Sum>n\<leftarrow>[0 ..< length bs0]. length (term_succs (bs ! n))) \<le> (\<Sum>n\<leftarrow>[0 ..< length bs0]. length (term_succs (bs0 ! n)))"
    by (intro sum_list_mono) simp
  moreover have nths: "map g xs = map (\<lambda>n. g (xs ! n)) [0 ..< length xs]"
    for xs :: "basic_block_data list" and g :: "basic_block_data \<Rightarrow> nat"
    by (intro nth_equalityI) simp_all
  ultimately show ?thesis unfolding size_edges_of nths [of _ bs] nths [of _ bs0] using assms(1) by simp
qed

lemma remove_noop_landing_pads_ok:
  assumes "wf_body b" and "basic_blocks b \<noteq> []" and "all_kinds switch_ok b" and "sem_ok sem" and "pads_ok sem obs"
  shows "\<exists>patch b0 b'. mp_new b = Ok patch \<and> mp_apply patch b = Ok b0 \<and>
    remove_noop_landing_pads False b = Ok b' \<and> wf_body b' \<and> runs_like obs sem b b' \<and>
    length (basic_blocks b') \<le> length (basic_blocks b) + 1 \<and> basic_blocks b' \<noteq> [] \<and>
    edge_count b' \<le> edge_count b + 1 \<and>
    (\<forall>n\<in>(cfg.edge b0)\<^sup>* `` {START_BLOCK}. \<forall>t. terminator (basic_blocks b' ! n) = Some t \<longrightarrow>
       unwind (term_kind t) \<noteq> Some (Some (resume_block patch)))"
proof -
  from single_resume [OF assms(1-3), where 'st = 'a] obtain p bs0 where
    p: "mp_new b = Ok p" "mp_apply p b = Ok (b\<lparr>basic_blocks := bs0\<rparr>)" "wf_body (b\<lparr>basic_blocks := bs0\<rparr>)"
      "all_kinds switch_ok (b\<lparr>basic_blocks := bs0\<rparr>)" "resume_block p < length bs0" "resumes (bs0 ! resume_block p)"
      "bs0 \<noteq> []" "length bs0 \<le> length (basic_blocks b) + 1" "same_runs sem b (b\<lparr>basic_blocks := bs0\<rparr>)"
      "size (edges_of bs0) \<le> size (edges_of (basic_blocks b)) + 1"
    using assms(4) by blast
  let ?b = "b\<lparr>basic_blocks := bs0\<rparr>"
  let ?r = "resume_block p"
  let ?R = "(cfg.edge ?b)\<^sup>* `` {START_BLOCK}"
  have start: "START_BLOCK < length (basic_blocks ?b)" using p(7) by (simp add: START_BLOCK_def)
  from postorder_complete [OF p(3) start] obtain po L where
    L: "postorder_new ?b START_BLOCK = Ok po" "postorder_list ?b po = Ok L" "distinct L" "set L = ?R" by blast
  have sub: "?R \<subseteq> {..<length bs0}" using wf_body_closed [OF p(3) start] by simp
  have blocks: "\<forall>n<length bs0. \<exists>t. terminator (bs0 ! n) = Some t \<and> switch_ok (term_kind t) \<and>
      set (successors (term_kind t)) \<subseteq> {..<length bs0}"
  proof (intro allI impI)
    fix n assume n: "n < length bs0"
    then have "bs0 ! n \<in> set bs0" by simp
    then obtain t where t: "terminator (bs0 ! n) = Some t" "set (successors (term_kind t)) \<subseteq> {..<length bs0}"
      using p(3) unfolding wf_body_edges edges_of_mem by (fastforce simp: term_succs_def)
    with n all_kindsD [OF p(4), of n] show "\<exists>t. terminator (bs0 ! n) = Some t \<and> switch_ok (term_kind t) \<and>
      set (successors (term_kind t)) \<subseteq> {..<length bs0}" by auto
  qed
  have inv: "pads_inv sem obs ?r bs0 ?R ?R (bs0, bs_new_empty (length bs0))"
    using bs_new_empty_ok [of "length bs0"] by (simp add: pads_inv_def folded_def bs_new_empty_def)
  from process_pads_ok [OF assms(4,5) inv p(5) L(3) _ _ blocks] L(4) sub obtain bs pads where
    res: "res_for L (process_pad ?r) (bs0, bs_new_empty (length bs0)) = Ok (bs, pads)"
    "pads_inv sem obs ?r bs0 ?R {} (bs, pads)" by auto
  note D = pads_invD [OF res(2)]
  have run: "remove_noop_landing_pads False b = Ok (b\<lparr>basic_blocks := bs\<rparr>)"
    using p(1,2) L(1,2) res(1) by (simp add: remove_noop_landing_pads_def remove_nop_landing_pads_def)
  have "resumes (bs ! ?r)" using D(4) [OF p(5)] p(6)
    by (auto simp: folded_def resumes_def fold_kind_def drop_unwind_def)
  note F = folded_runs [OF assms(4) D(1) D(4) p(5,6) this D(6)]
  have "runs_like obs sem ?b (b\<lparr>basic_blocks := bs\<rparr>)" unfolding runs_like_def using F by simp
  then have "runs_like obs sem b (b\<lparr>basic_blocks := bs\<rparr>)"
    using runs_like_trans same_runs_like [OF p(9)] by blast
  moreover have "edge_count (b\<lparr>basic_blocks := bs\<rparr>) \<le> edge_count b + 1"
    using folded_edges [OF D(1) D(4)] p(10) by (simp add: edge_count_edges)
  moreover have "bs \<noteq> []" using D(1) p(7) by auto
  ultimately show ?thesis using p(1,2,8) run folded_wf [OF p(3) D(1) p(5) D(4)] D(1,7)
    by (intro exI [of _ p] exI [of _ ?b] exI [of _ "b\<lparr>basic_blocks := bs\<rparr>"]) simp
qed

text \<open>(C18) Removing the landing pads without effect from a well-formed body returns, gives a
  well-formed body, and keeps the outcome of all runs up to what the statements of such landing pads
  change; afterwards no reachable terminator unwinds to the resume block.\<close>

theorem remove_noop_landing_pads_correct:
  assumes "wf_body b" and "basic_blocks b \<noteq> []" and "all_kinds switch_ok b" and "sem_ok sem" and "pads_ok sem obs"
  shows "\<exists>patch b0 b'. mp_new b = Ok patch \<and> mp_apply patch b = Ok b0 \<and>
    remove_noop_landing_pads False b = Ok b' \<and> wf_body b' \<and> runs_like obs sem b b' \<and>
    length (basic_blocks b') \<le> length (basic_blocks b) + 1 \<and>
    (\<forall>n\<in>(cfg.edge b0)\<^sup>* `` {START_BLOCK}. \<forall>t. terminator (basic_blocks b' ! n) = Some t \<longrightarrow>
       unwind (term_kind t) \<noteq> Some (Some (resume_block patch)))"
  using remove_noop_landing_pads_ok [OF assms] by blast

section \<open>An example\<close>

lemma log_pads_ok: "pads_ok log_sem log_visible"
proof -
  have "log_visible (log_statement k s) = log_visible s" if "pad_statement k" for k s
    using that by (cases k rule: pad_statement.cases) (simp_all add: log_visible_def)
  then show ?thesis by (simp add: pads_ok_def log_sem_def)
qed

text \<open>A call that unwinds to a landing pad that only leads on to resuming.\<close>

definition noop_pad :: body where
  "noop_pad =
     body_of_blocks [sample_block [] (Call (Copy (place_from_local 1)) [] (Some (place_from_local 2, 1)) (Some 2) True),
       sample_block [] Return, sample_block [3] (Goto 3), sample_block [] Resume]"

theorem remove_noop_landing_pads_correct_witness:
  "wf_body noop_pad \<and> basic_blocks noop_pad \<noteq> [] \<and> all_kinds switch_ok noop_pad \<and>
   sem_ok log_sem \<and> pads_ok log_sem log_visible \<and>
   remove_noop_landing_pads False noop_pad =
     Ok (body_of_blocks [sample_block [] (Call (Copy (place_from_local 1)) [] (Some (place_from_local 2, 1)) None True),
       sample_block [] Return, sample_block [3] (Goto 3), sample_block [] Resume]) \<and>
   runs_like log_visible log_sem noop_pad
     (body_of_blocks [sample_block [] (Call (Copy (place_from_local 1)) [] (Some (place_from_local 2, 1)) None True),
       sample_block [] Return, sample_block [3] (Goto 3), sample_block [] Resume])"
proof -
  have pre: "wf_body noop_pad" "basic_blocks noop_pad \<noteq> []" "all_kinds switch_ok noop_pad" by code_simp+
  have "remove_noop_landing_pads False noop_pad =
     Ok (body_of_blocks [sample_block [] (Call (Copy (place_from_local 1)) [] (Some (place_from_local 2, 1)) None True),
       sample_block [] Return, sample_block [3] (Goto 3), sample_block [] Resume])" by code_simp
  then show ?thesis
    using pre log_sem_ok log_pads_ok remove_noop_landing_pads_correct [OF pre log_sem_ok log_pads_ok] by auto
qed

end
