(* ===== verification/Mir_Visit.thy ===== *)
theory Mir_Visit
  imports Mir_Patch
begin

text \<open>
  The visitors over bodies (\<open>src/librustc/mir/visit.rs\<close>) as far as they concern locals, and the
  def-use analysis built on them (\<open>src/librustc_mir/util/def_use.rs\<close>). A visitor that overrides
  \<open>visit_local\<close> is modelled by the list of the calls it gets, in order, each with its place
  context; a mutable visitor that rewrites locals by the rewritten tree. The analysis is shown to
  record exactly the visits, and replacing a local through the analysis is shown to rename it
  everywhere in the body.
\<close>

section \<open>Contexts\<close>

datatype non_mutating_use =
  Inspect | Copy_use | Move_use | SharedBorrow | ShallowBorrow | UniqueBorrow | NM_Projection

datatype mutating_use = Store | AsmOutput | Call_dest | Drop_use | Borrow | M_Projection | Retag_use

datatype non_use = StorageLive_ctx | StorageDead_ctx | AscribeUserTy_ctx

datatype place_context = NonMutatingUse non_mutating_use | MutatingUse mutating_use | NonUse non_use

fun is_drop :: "place_context \<Rightarrow> bool" where
  "is_drop (MutatingUse Drop_use) = True"
| "is_drop _ = False"

fun is_borrow :: "place_context \<Rightarrow> bool" where
  "is_borrow (NonMutatingUse SharedBorrow) = True"
| "is_borrow (NonMutatingUse ShallowBorrow) = True"
| "is_borrow (NonMutatingUse UniqueBorrow) = True"
| "is_borrow (MutatingUse Borrow) = True"
| "is_borrow _ = False"

fun is_storage_marker :: "place_context \<Rightarrow> bool" where
  "is_storage_marker (NonUse StorageLive_ctx) = True"
| "is_storage_marker (NonUse StorageDead_ctx) = True"
| "is_storage_marker _ = False"

fun is_storage_live_marker :: "place_context \<Rightarrow> bool" where
  "is_storage_live_marker (NonUse StorageLive_ctx) = True"
| "is_storage_live_marker _ = False"

fun is_storage_dead_marker :: "place_context \<Rightarrow> bool" where
  "is_storage_dead_marker (NonUse StorageDead_ctx) = True"
| "is_storage_dead_marker _ = False"

fun is_mutating_use :: "place_context \<Rightarrow> bool" where
  "is_mutating_use (MutatingUse _) = True"
| "is_mutating_use _ = False"

fun is_nonmutating_use :: "place_context \<Rightarrow> bool" where
  "is_nonmutating_use (NonMutatingUse _) = True"
| "is_nonmutating_use _ = False"

fun is_use :: "place_context \<Rightarrow> bool" where
  "is_use (NonUse _) = False"
| "is_use _ = True"

fun is_place_assignment :: "place_context \<Rightarrow> bool" where
  "is_place_assignment (MutatingUse Store) = True"
| "is_place_assignment (MutatingUse Call_dest) = True"
| "is_place_assignment (MutatingUse AsmOutput) = True"
| "is_place_assignment _ = False"

section \<open>The visits of locals\<close>

type_synonym local_visits = "(nat \<times> place_context) list"

fun super_place_base :: "place_base \<Rightarrow> place_context \<Rightarrow> local_visits" where
  "super_place_base (Local l) ctx = [(l, ctx)]"
| "super_place_base (Static _ _) ctx = []"

fun super_projection_elem :: "place_elem \<Rightarrow> local_visits" where
  "super_projection_elem (Index l) = [(l, NonMutatingUse Copy_use)]"
| "super_projection_elem _ = []"

text \<open>The projection is walked from its last element to its first.\<close>

definition super_projection :: "place_elem list \<Rightarrow> local_visits" where
  "super_projection proj = concat (map super_projection_elem (rev proj))"

definition super_place :: "place \<Rightarrow> place_context \<Rightarrow> local_visits" where
  "super_place p ctx =
     (let ctx' = (if place_projection p \<noteq> []
                  then if is_mutating_use ctx then MutatingUse M_Projection
                       else NonMutatingUse NM_Projection
                  else ctx)
      in super_place_base (place_base p) ctx' @ super_projection (place_projection p))"

fun super_operand :: "operand \<Rightarrow> local_visits" where
  "super_operand (Copy p) = super_place p (NonMutatingUse Copy_use)"
| "super_operand (Move p) = super_place p (NonMutatingUse Move_use)"
| "super_operand (Constant _) = []"

fun borrow_context :: "borrow_kind \<Rightarrow> place_context" where
  "borrow_context Shared = NonMutatingUse SharedBorrow"
| "borrow_context Shallow = NonMutatingUse ShallowBorrow"
| "borrow_context Unique = NonMutatingUse UniqueBorrow"
| "borrow_context (Mut _) = MutatingUse Borrow"

fun super_rvalue :: "rvalue \<Rightarrow> local_visits" where
  "super_rvalue (Use op) = super_operand op"
| "super_rvalue (Repeat v _) = super_operand v"
| "super_rvalue (Ref r bk p) = super_place p (borrow_context bk)"
| "super_rvalue (Len p) = super_place p (NonMutatingUse Inspect)"
| "super_rvalue (Cast _ op _) = super_operand op"
| "super_rvalue (BinaryOp _ l r) = super_operand l @ super_operand r"
| "super_rvalue (CheckedBinaryOp _ l r) = super_operand l @ super_operand r"
| "super_rvalue (UnaryOp _ op) = super_operand op"
| "super_rvalue (Discriminant p) = super_place p (NonMutatingUse Inspect)"
| "super_rvalue (NullaryOp _ _) = []"
| "super_rvalue (Aggregate _ ops) = concat (map super_operand ops)"

definition super_assign :: "place \<Rightarrow> rvalue \<Rightarrow> local_visits" where
  "super_assign p rv = super_place p (MutatingUse Store) @ super_rvalue rv"

fun super_statement :: "statement_kind \<Rightarrow> local_visits" where
  "super_statement (Assign p rv) = super_assign p rv"
| "super_statement (FakeRead _ p) = super_place p (NonMutatingUse Inspect)"
| "super_statement (SetDiscriminant p _) = super_place p (MutatingUse Store)"
| "super_statement (StorageLive l) = [(l, NonUse StorageLive_ctx)]"
| "super_statement (StorageDead l) = [(l, NonUse StorageDead_ctx)]"
| "super_statement (InlineAsm _ outputs inputs) =
     concat (map (\<lambda>p. super_place p (MutatingUse AsmOutput)) outputs)
     @ concat (map (\<lambda>(_, op). super_operand op) inputs)"
| "super_statement (Retag _ p) = super_place p (MutatingUse Retag_use)"
| "super_statement (AscribeUserType p _ _) = super_place p (NonUse AscribeUserTy_ctx)"
| "super_statement Nop = []"

fun super_assert_message :: "panic_info \<Rightarrow> local_visits" where
  "super_assert_message (BoundsCheck len index) = super_operand len @ super_operand index"
| "super_assert_message _ = []"

fun super_terminator_kind :: "terminator_kind \<Rightarrow> local_visits" where
  "super_terminator_kind (SwitchInt discr _ _ _) = super_operand discr"
| "super_terminator_kind (Drop p _ _) = super_place p (MutatingUse Drop_use)"
| "super_terminator_kind (DropAndReplace p v _ _) =
     super_place p (MutatingUse Drop_use) @ super_operand v"
| "super_terminator_kind (Call func args dest _ _) =
     super_operand func @ concat (map super_operand args)
     @ (case dest of None \<Rightarrow> [] | Some (p, _) \<Rightarrow> super_place p (MutatingUse Call_dest))"
| "super_terminator_kind (Assert c _ msg _ _) = super_operand c @ super_assert_message msg"
| "super_terminator_kind (Yield v _ _) = super_operand v"
| "super_terminator_kind _ = []"

type_synonym located_visits = "(nat \<times> place_context \<times> location) list"

definition at_location :: "location \<Rightarrow> local_visits \<Rightarrow> located_visits" where
  "at_location loc = map (\<lambda>(l, ctx). (l, ctx, loc))"

text \<open>The visits of one block, in the order of its statements, the terminator last; and of a body,
  block by block. Local declarations, scopes and types contain no visits of locals.\<close>

definition super_basic_block_data :: "nat \<Rightarrow> basic_block_data \<Rightarrow> located_visits" where
  "super_basic_block_data block d =
     concat (map (\<lambda>(i, s). at_location \<lparr>loc_block = block, loc_statement_index = i\<rparr>
               (super_statement (stmt_kind s))) (enumerate 0 (statements d)))
     @ (case terminator d of
          None \<Rightarrow> []
        | Some t \<Rightarrow> at_location \<lparr>loc_block = block, loc_statement_index = length (statements d)\<rparr>
                      (super_terminator_kind (term_kind t)))"

definition super_body :: "body \<Rightarrow> located_visits" where
  "super_body b =
     concat (map (\<lambda>(n, d). super_basic_block_data n d) (enumerate 0 (basic_blocks b)))"

section \<open>Rewriting locals\<close>

text \<open>A mutable visitor whose \<open>visit_local\<close> and \<open>process_projection_elem\<close> replace locals by
  \<open>f\<close>.\<close>

fun mut_place_base :: "(nat \<Rightarrow> nat) \<Rightarrow> place_base \<Rightarrow> place_base" where
  "mut_place_base f (Local l) = Local (f l)"
| "mut_place_base f (Static t d) = Static t d"

fun mut_projection_elem :: "(nat \<Rightarrow> nat) \<Rightarrow> place_elem \<Rightarrow> place_elem" where
  "mut_projection_elem f (Index l) = Index (f l)"
| "mut_projection_elem f e = e"

definition mut_place :: "(nat \<Rightarrow> nat) \<Rightarrow> place \<Rightarrow> place" where
  "mut_place f p =
     p\<lparr>place_base := mut_place_base f (place_base p),
       place_projection := map (mut_projection_elem f) (place_projection p)\<rparr>"

fun mut_operand :: "(nat \<Rightarrow> nat) \<Rightarrow> operand \<Rightarrow> operand" where
  "mut_operand f (Copy p) = Copy (mut_place f p)"
| "mut_operand f (Move p) = Move (mut_place f p)"
| "mut_operand f (Constant c) = Constant c"

fun mut_rvalue :: "(nat \<Rightarrow> nat) \<Rightarrow> rvalue \<Rightarrow> rvalue" where
  "mut_rvalue f (Use op) = Use (mut_operand f op)"
| "mut_rvalue f (Repeat v n) = Repeat (mut_operand f v) n"
| "mut_rvalue f (Ref r bk p) = Ref r bk (mut_place f p)"
| "mut_rvalue f (Len p) = Len (mut_place f p)"
| "mut_rvalue f (Cast k op t) = Cast k (mut_operand f op) t"
| "mut_rvalue f (BinaryOp k l r) = BinaryOp k (mut_operand f l) (mut_operand f r)"
| "mut_rvalue f (CheckedBinaryOp k l r) = CheckedBinaryOp k (mut_operand f l) (mut_operand f r)"
| "mut_rvalue f (UnaryOp k op) = UnaryOp k (mut_operand f op)"
| "mut_rvalue f (Discriminant p) = Discriminant (mut_place f p)"
| "mut_rvalue f (NullaryOp k t) = NullaryOp k t"
| "mut_rvalue f (Aggregate k ops) = Aggregate k (map (mut_operand f) ops)"

fun mut_statement :: "(nat \<Rightarrow> nat) \<Rightarrow> statement_kind \<Rightarrow> statement_kind" where
  "mut_statement f (Assign p rv) = Assign (mut_place f p) (mut_rvalue f rv)"
| "mut_statement f (FakeRead c p) = FakeRead c (mut_place f p)"
| "mut_statement f (SetDiscriminant p v) = SetDiscriminant (mut_place f p) v"
| "mut_statement f (StorageLive l) = StorageLive (f l)"
| "mut_statement f (StorageDead l) = StorageDead (f l)"
| "mut_statement f (InlineAsm a outputs inputs) =
     InlineAsm a (map (mut_place f) outputs) (map (map_prod id (mut_operand f)) inputs)"
| "mut_statement f (Retag k p) = Retag k (mut_place f p)"
| "mut_statement f (AscribeUserType p u v) = AscribeUserType (mut_place f p) u v"
| "mut_statement f Nop = Nop"

fun mut_assert_message :: "(nat \<Rightarrow> nat) \<Rightarrow> panic_info \<Rightarrow> panic_info" where
  "mut_assert_message f (BoundsCheck len index) = BoundsCheck (mut_operand f len) (mut_operand f index)"
| "mut_assert_message f m = m"

fun mut_terminator_kind :: "(nat \<Rightarrow> nat) \<Rightarrow> terminator_kind \<Rightarrow> terminator_kind" where
  "mut_terminator_kind f (SwitchInt discr t vs ts) = SwitchInt (mut_operand f discr) t vs ts"
| "mut_terminator_kind f (Drop p t u) = Drop (mut_place f p) t u"
| "mut_terminator_kind f (DropAndReplace p v t u) = DropAndReplace (mut_place f p) (mut_operand f v) t u"
| "mut_terminator_kind f (Call func args dest u h) =
     Call (mut_operand f func) (map (mut_operand f) args) (map_option (map_prod (mut_place f) id) dest) u h"
| "mut_terminator_kind f (Assert c e msg t u) = Assert (mut_operand f c) e (mut_assert_message f msg) t u"
| "mut_terminator_kind f (Yield v r d) = Yield (mut_operand f v) r d"
| "mut_terminator_kind f k = k"

definition mut_visit_at :: "(nat \<Rightarrow> nat) \<Rightarrow> nat \<Rightarrow> basic_block_data \<Rightarrow> basic_block_data res" where
  "mut_visit_at f i d =
     (if length (statements d) = i
      then Ok (d\<lparr>terminator := map_option (\<lambda>t. t\<lparr>term_kind := mut_terminator_kind f (term_kind t)\<rparr>)
                  (terminator d)\<rparr>)
      else res_bind (index_vec (statements d) i) (\<lambda>s.
             Ok (d\<lparr>statements := (statements d)[i := s\<lparr>stmt_kind := mut_statement f (stmt_kind s)\<rparr>]\<rparr>)))"

definition mut_visit_location :: "(nat \<Rightarrow> nat) \<Rightarrow> location \<Rightarrow> body \<Rightarrow> body res" where
  "mut_visit_location f loc = update_block (loc_block loc) (mut_visit_at f (loc_statement_index loc))"

section \<open>Def-use analysis\<close>

record place_use =
  use_context :: place_context
  use_location :: location

record info =
  defs_and_uses :: "place_use list"

record def_use_analysis =
  du_info :: "info list"

definition du_new :: "body \<Rightarrow> def_use_analysis" where
  "du_new b = \<lparr>du_info = replicate (length (local_decls b)) \<lparr>defs_and_uses = []\<rparr>\<rparr>"

definition du_clear :: "def_use_analysis \<Rightarrow> def_use_analysis" where
  "du_clear a = a\<lparr>du_info := map (\<lambda>i. i\<lparr>defs_and_uses := []\<rparr>) (du_info a)\<rparr>"

definition finder_visit_local :: "nat \<times> place_context \<times> location \<Rightarrow> info list \<Rightarrow> info list res" where
  "finder_visit_local = (\<lambda>(l, ctx, loc) infos.
     res_bind (index_vec infos l) (\<lambda>i.
       Ok (infos[l := i\<lparr>defs_and_uses := defs_and_uses i @ [\<lparr>use_context = ctx, use_location = loc\<rparr>]\<rparr>])))"

definition du_analyze :: "def_use_analysis \<Rightarrow> body \<Rightarrow> def_use_analysis res" where
  "du_analyze a b =
     res_bind (res_for (super_body b) finder_visit_local (du_info (du_clear a)))
       (\<lambda>infos. Ok \<lparr>du_info = infos\<rparr>)"

definition local_info :: "def_use_analysis \<Rightarrow> nat \<Rightarrow> info res" where
  "local_info a l = index_vec (du_info a) l"

definition def_count :: "info \<Rightarrow> nat" where
  "def_count i = length (filter (\<lambda>u. is_mutating_use (use_context u)) (defs_and_uses i))"

definition defs_not_including_drop :: "info \<Rightarrow> place_use list" where
  "defs_not_including_drop i =
     filter (\<lambda>u. is_mutating_use (use_context u) \<and> \<not> is_drop (use_context u)) (defs_and_uses i)"

definition def_count_not_including_drop :: "info \<Rightarrow> nat" where
  "def_count_not_including_drop i = length (defs_not_including_drop i)"

definition use_count :: "info \<Rightarrow> nat" where
  "use_count i = length (filter (\<lambda>u. is_nonmutating_use (use_context u)) (defs_and_uses i))"

definition rename_local :: "nat \<Rightarrow> nat \<Rightarrow> nat \<Rightarrow> nat" where
  "rename_local query new l = (if l = query then new else l)"

definition replace_all_defs_and_uses_with :: "def_use_analysis \<Rightarrow> nat \<Rightarrow> body \<Rightarrow> nat \<Rightarrow> body res" where
  "replace_all_defs_and_uses_with a local b new =
     res_bind (index_vec (du_info a) local) (\<lambda>i.
       res_for (defs_and_uses i)
         (\<lambda>u. mut_visit_location (rename_local local new) (use_location u)) b)"

section \<open>Visiting after rewriting\<close>

lemma super_place_mut: "super_place (mut_place f p) ctx = map (apfst f) (super_place p ctx)"
proof -
  have base: "super_place_base (mut_place_base f b) c = map (apfst f) (super_place_base b c)" for b c
    by (cases b) simp_all
  have elem: "super_projection_elem (mut_projection_elem f e) = map (apfst f) (super_projection_elem e)" for e
    by (cases e) simp_all
  show ?thesis
    by (simp add: super_place_def mut_place_def base super_projection_def rev_map map_concat comp_def elem)
qed

lemma super_operand_mut: "super_operand (mut_operand f op) = map (apfst f) (super_operand op)"
  by (cases op) (simp_all add: super_place_mut)

lemma super_rvalue_mut: "super_rvalue (mut_rvalue f rv) = map (apfst f) (super_rvalue rv)"
  by (cases rv) (simp_all add: super_place_mut super_operand_mut map_concat comp_def)

lemma super_statement_mut: "super_statement (mut_statement f s) = map (apfst f) (super_statement s)"
  by (cases s) (simp_all add: super_place_mut super_rvalue_mut super_operand_mut super_assign_def
      map_concat comp_def case_prod_beta)

lemma super_assert_message_mut:
  "super_assert_message (mut_assert_message f m) = map (apfst f) (super_assert_message m)"
  by (cases m) (simp_all add: super_operand_mut)

lemma super_terminator_kind_mut:
  "super_terminator_kind (mut_terminator_kind f k) = map (apfst f) (super_terminator_kind k)"
  by (cases k) (auto simp: super_place_mut super_operand_mut super_assert_message_mut
      map_concat comp_def split: option.splits)

text \<open>Rewriting changes nothing where the locals are fixed.\<close>

definition fixes_locals :: "(nat \<Rightarrow> nat) \<Rightarrow> local_visits \<Rightarrow> bool" where
  "fixes_locals f vs \<longleftrightarrow> (\<forall>v \<in> set vs. f (fst v) = fst v)"

lemma fixes_locals_simps [simp]:
  "fixes_locals f []" "fixes_locals f (v # vs) \<longleftrightarrow> f (fst v) = fst v \<and> fixes_locals f vs"
  "fixes_locals f (vs @ ws) \<longleftrightarrow> fixes_locals f vs \<and> fixes_locals f ws"
  "fixes_locals f (concat vss) \<longleftrightarrow> (\<forall>vs \<in> set vss. fixes_locals f vs)"
  by (auto simp: fixes_locals_def)

lemma mut_place_id: "fixes_locals f (super_place p ctx) \<Longrightarrow> mut_place f (p :: place) = p"
proof -
  assume "fixes_locals f (super_place p ctx)"
  then have base: "fixes_locals f (super_place_base (place_base p) c)"
    and proj: "fixes_locals f (super_projection (place_projection p))" for c
    by (cases "place_base p"; simp add: super_place_def Let_def)+
  have "mut_place_base f (place_base p) = place_base p"
    using base by (cases "place_base p") auto
  moreover have "mut_projection_elem f e = e" if "e \<in> set (place_projection p)" for e
    using proj that by (cases e) (auto simp: super_projection_def)
  then have "map (mut_projection_elem f) (place_projection p) = place_projection p"
    by (simp add: map_idI)
  ultimately show ?thesis by (simp add: mut_place_def)
qed

lemma mut_operand_id: "fixes_locals f (super_operand op) \<Longrightarrow> mut_operand f op = op"
  by (cases op) (auto dest: mut_place_id)

lemma mut_operands_id: "fixes_locals f (concat (map super_operand ops)) \<Longrightarrow> map (mut_operand f) ops = ops"
  by (rule map_idI) (simp add: mut_operand_id)

lemma mut_rvalue_id: "fixes_locals f (super_rvalue rv) \<Longrightarrow> mut_rvalue f rv = rv"
  by (cases rv) (auto dest: mut_place_id mut_operand_id simp: mut_operands_id)

lemma mut_statement_id: "fixes_locals f (super_statement s) \<Longrightarrow> mut_statement f s = s"
proof (cases s)
  case (InlineAsm a outputs inputs)
  assume fixed: "fixes_locals f (super_statement s)"
  have "map (mut_place f) outputs = outputs"
    using fixed by (intro map_idI) (auto simp: InlineAsm dest: mut_place_id)
  moreover have "map (map_prod id (mut_operand f)) inputs = inputs"
    using fixed by (intro map_idI) (fastforce simp: InlineAsm intro: mut_operand_id)
  ultimately show ?thesis by (simp add: InlineAsm)
qed (auto dest: mut_place_id mut_rvalue_id simp: super_assign_def)

lemma mut_assert_message_id: "fixes_locals f (super_assert_message m) \<Longrightarrow> mut_assert_message f m = m"
  by (cases m) (auto dest: mut_operand_id)

lemma mut_terminator_kind_id: "fixes_locals f (super_terminator_kind k) \<Longrightarrow> mut_terminator_kind f k = k"
  by (cases k) (auto dest: mut_place_id mut_operand_id mut_assert_message_id simp: mut_operands_id
      split: option.splits)

section \<open>The analysis records the visits\<close>

definition uses_of :: "nat \<Rightarrow> located_visits \<Rightarrow> place_use list" where
  "uses_of l vs =
     map (\<lambda>v. \<lparr>use_context = fst (snd v), use_location = snd (snd v)\<rparr>) (filter (\<lambda>v. fst v = l) vs)"

lemma finder_visits:
  assumes "\<forall>v \<in> set vs. fst v < length infos"
  shows "\<exists>infos'. res_for vs finder_visit_local infos = Ok infos' \<and> length infos' = length infos \<and>
    (\<forall>l < length infos. defs_and_uses (infos' ! l) = defs_and_uses (infos ! l) @ uses_of l vs)"
  using assms
proof (induction vs arbitrary: infos)
  case (Cons v vs)
  obtain l ctx loc where v: "v = (l, ctx, loc)" by (cases v) auto
  let ?i = "(infos ! l)\<lparr>defs_and_uses := defs_and_uses (infos ! l) @ [\<lparr>use_context = ctx, use_location = loc\<rparr>]\<rparr>"
  have l: "l < length infos" using Cons.prems by (simp add: v)
  have step: "finder_visit_local v infos = Ok (infos[l := ?i])"
    using l by (simp add: v finder_visit_local_def)
  have "\<forall>v \<in> set vs. fst v < length (infos[l := ?i])" using Cons.prems by simp
  from Cons.IH [OF this] obtain infos' where i': "res_for vs finder_visit_local (infos[l := ?i]) = Ok infos'"
    "length infos' = length infos"
    "\<forall>m < length infos. defs_and_uses (infos' ! m) = defs_and_uses (infos[l := ?i] ! m) @ uses_of m vs"
    by auto
  have "defs_and_uses (infos' ! m) = defs_and_uses (infos ! m) @ uses_of m (v # vs)"
    if "m < length infos" for m
    using i'(3) that l by (cases "m = l") (simp_all add: uses_of_def v)
  with i'(1,2) step show ?case by (intro exI [of _ infos']) simp
qed (simp add: uses_of_def)

text \<open>Every local of the body is declared.\<close>

definition locals_declared :: "body \<Rightarrow> bool" where
  "locals_declared b = list_all (\<lambda>v. fst v < length (local_decls b)) (super_body b)"

lemma du_analyze_uses:
  assumes "locals_declared b" and "length (du_info a) = length (local_decls b)"
  shows "\<exists>a'. du_analyze a b = Ok a' \<and> length (du_info a') = length (local_decls b) \<and>
    (\<forall>l < length (local_decls b). defs_and_uses (du_info a' ! l) = uses_of l (super_body b))"
proof -
  have "\<forall>v \<in> set (super_body b). fst v < length (du_info (du_clear a))"
    using assms by (simp add: locals_declared_def list_all_iff du_clear_def)
  from finder_visits [OF this] obtain infos where infos:
    "res_for (super_body b) finder_visit_local (du_info (du_clear a)) = Ok infos"
    "length infos = length (local_decls b)"
    "\<forall>l < length (local_decls b). defs_and_uses (infos ! l) =
       defs_and_uses (du_info (du_clear a) ! l) @ uses_of l (super_body b)"
    using assms(2) by (auto simp: du_clear_def)
  moreover have "defs_and_uses (du_info (du_clear a) ! l) = []" if "l < length (local_decls b)" for l
    using that assms(2) by (simp add: du_clear_def)
  ultimately show ?thesis
    by (intro exI [of _ "\<lparr>du_info = infos\<rparr>"]) (simp add: du_analyze_def)
qed

section \<open>Replacing a local everywhere\<close>

definition mut_block :: "(nat \<Rightarrow> nat) \<Rightarrow> basic_block_data \<Rightarrow> basic_block_data" where
  "mut_block f d =
     d\<lparr>statements := map (\<lambda>s. s\<lparr>stmt_kind := mut_statement f (stmt_kind s)\<rparr>) (statements d),
       terminator := map_option (\<lambda>t. t\<lparr>term_kind := mut_terminator_kind f (term_kind t)\<rparr>) (terminator d)\<rparr>"

definition mut_body :: "(nat \<Rightarrow> nat) \<Rightarrow> body \<Rightarrow> body" where
  "mut_body f b = b\<lparr>basic_blocks := map (mut_block f) (basic_blocks b)\<rparr>"

text \<open>The block in which the positions of a set have been rewritten.\<close>

definition mut_at :: "(nat \<Rightarrow> nat) \<Rightarrow> nat set \<Rightarrow> basic_block_data \<Rightarrow> basic_block_data" where
  "mut_at f I d =
     d\<lparr>statements := map (\<lambda>i. let s = statements d ! i in
           if i \<in> I then s\<lparr>stmt_kind := mut_statement f (stmt_kind s)\<rparr> else s) [0 ..< length (statements d)],
       terminator := (if length (statements d) \<in> I
          then map_option (\<lambda>t. t\<lparr>term_kind := mut_terminator_kind f (term_kind t)\<rparr>) (terminator d)
          else terminator d)\<rparr>"

lemma mut_idem:
  assumes "\<And>l. f (f l) = f l"
  shows "mut_statement f (mut_statement f s) = mut_statement f s"
    and "mut_terminator_kind f (mut_terminator_kind f k) = mut_terminator_kind f k"
proof -
  have "fixes_locals f (map (apfst f) vs)" for vs
    using assms by (auto simp: fixes_locals_def)
  then show "mut_statement f (mut_statement f s) = mut_statement f s"
    "mut_terminator_kind f (mut_terminator_kind f k) = mut_terminator_kind f k"
    by (simp_all add: mut_statement_id super_statement_mut mut_terminator_kind_id super_terminator_kind_mut)
qed

lemma mut_visit_at_step:
  fixes d :: basic_block_data
  assumes idem: "\<And>l. f (f l) = f l" and i: "i \<le> length (statements d)"
  shows "mut_visit_at f i (mut_at f I d) = Ok (mut_at f (insert i I) d)"
proof (cases "i = length (statements d)")
  case True
  have "map (\<lambda>j. let s = statements d ! j in
        if j \<in> insert i I then s\<lparr>stmt_kind := mut_statement f (stmt_kind s)\<rparr> else s) [0 ..< i] =
      map (\<lambda>j. let s = statements d ! j in
        if j \<in> I then s\<lparr>stmt_kind := mut_statement f (stmt_kind s)\<rparr> else s) [0 ..< i]"
    by (rule map_cong) auto
  with True show ?thesis
    by (cases "terminator d") (auto simp: mut_visit_at_def mut_at_def mut_idem [OF idem])
next
  case False
  with i have i: "i < length (statements d)" by simp
  have "(statements (mut_at f I d))[i := (statements (mut_at f I d) ! i)\<lparr>stmt_kind :=
      mut_statement f (stmt_kind (statements (mut_at f I d) ! i))\<rparr>] = statements (mut_at f (insert i I) d)"
    using i by (intro nth_equalityI) (auto simp: mut_at_def nth_list_update mut_idem [OF idem] Let_def)
  with i show ?thesis
    by (simp add: mut_visit_at_def) (simp add: mut_at_def)
qed

lemma mut_visits_at:
  fixes d :: basic_block_data
  assumes "\<And>l. f (f l) = f l" and "\<forall>u \<in> set us. idx u \<le> length (statements d)"
  shows "res_for us (\<lambda>u. mut_visit_at f (idx u)) d = Ok (mut_at f (idx ` set us) d)"
  using assms(2)
proof (induction us rule: rev_induct)
  case Nil
  have "mut_at f {} d = d" by (simp add: mut_at_def map_nth)
  then show ?case by simp
next
  case (snoc u us)
  then show ?case by (simp add: res_for_append mut_visit_at_step [OF assms(1)])
qed

text \<open>Where the visits of a block happen.\<close>

lemma block_visits_iff:
  "(l, ctx, loc) \<in> set (super_basic_block_data n d) \<longleftrightarrow> loc_block loc = n \<and>
     (loc_statement_index loc < length (statements d) \<and>
        (l, ctx) \<in> set (super_statement (stmt_kind (statements d ! loc_statement_index loc))) \<or>
      loc_statement_index loc = length (statements d) \<and>
        (\<exists>t. terminator d = Some t \<and> (l, ctx) \<in> set (super_terminator_kind (term_kind t))))"
proof -
  have loc: "loc = \<lparr>loc_block = n, loc_statement_index = i\<rparr> \<longleftrightarrow>
      loc_block loc = n \<and> loc_statement_index loc = i" for i
    by (cases loc) auto
  have "(l, ctx, loc) \<in> set (at_location \<lparr>loc_block = n, loc_statement_index = i\<rparr> vs) \<longleftrightarrow>
      (l, ctx) \<in> set vs \<and> loc_block loc = n \<and> loc_statement_index loc = i" for i vs
    unfolding loc [symmetric] by (auto simp: at_location_def)
  then show ?thesis
    by (cases "terminator d")
       (auto simp: super_basic_block_data_def in_set_enumerate_eq)
qed

lemma body_visits_iff:
  "v \<in> set (super_body b) \<longleftrightarrow>
     (\<exists>n < length (basic_blocks b). v \<in> set (super_basic_block_data n (basic_blocks b ! n)))"
  unfolding super_body_def by (rule concat_enumerate_mem)

lemma mut_at_all:
  fixes d :: basic_block_data
  assumes "\<And>i. i < length (statements d) \<Longrightarrow> i \<notin> I \<Longrightarrow> fixes_locals f (super_statement (stmt_kind (statements d ! i)))"
    and "\<And>t. terminator d = Some t \<Longrightarrow> length (statements d) \<notin> I \<Longrightarrow> fixes_locals f (super_terminator_kind (term_kind t))"
  shows "mut_at f I d = mut_block f d"
proof -
  have "s\<lparr>stmt_kind := stmt_kind s\<rparr> = s" for s :: statement by simp
  then have "map (\<lambda>i. let s = statements d ! i in
      if i \<in> I then s\<lparr>stmt_kind := mut_statement f (stmt_kind s)\<rparr> else s) [0 ..< length (statements d)] =
      map (\<lambda>s. s\<lparr>stmt_kind := mut_statement f (stmt_kind s)\<rparr>) (statements d)"
    using assms(1) by (intro nth_equalityI) (auto simp: Let_def mut_statement_id)
  moreover have "map_option (\<lambda>t. t\<lparr>term_kind := mut_terminator_kind f (term_kind t)\<rparr>) (terminator d) = terminator d"
    if "length (statements d) \<notin> I"
    using assms(2) that by (cases "terminator d") (simp_all add: mut_terminator_kind_id)
  ultimately show ?thesis by (simp add: mut_at_def mut_block_def)
qed

lemma replace_all_renames_body:
  assumes a: "local < length (du_info a)" "defs_and_uses (du_info a ! local) = uses_of local (super_body b)"
  shows "replace_all_defs_and_uses_with a local b new = Ok (mut_body (rename_local local new) b)"
proof -
  let ?f = "rename_local local new" and ?us = "uses_of local (super_body b)"
  let ?blk = "\<lambda>u. loc_block (use_location u)" and ?idx = "\<lambda>u. loc_statement_index (use_location u)"
  have idem: "?f (?f l) = ?f l" for l by (simp add: rename_local_def)
  have us: "u \<in> set ?us \<longleftrightarrow> (local, use_context u, use_location u) \<in> set (super_body b)" for u :: place_use
    by (cases u) (force simp: uses_of_def)
  have range: "?blk u < length (basic_blocks b) \<and> ?idx u \<le> length (statements (basic_blocks b ! ?blk u))"
    if "u \<in> set ?us" for u
    using that unfolding us body_visits_iff block_visits_iff by (metis less_or_eq_imp_le)
  have "res_for ?us (\<lambda>u. update_block (?blk u) (mut_visit_at ?f (?idx u))) b =
      Ok (b\<lparr>basic_blocks := map (\<lambda>n. mut_block ?f (basic_blocks b ! n)) [0 ..< length (basic_blocks b)]\<rparr>)"
  proof (rule block_local_loop)
    show "\<forall>u \<in> set ?us. ?blk u < length (basic_blocks b)" using range by blast
    fix n assume n: "n < length (basic_blocks b)"
    let ?d = "basic_blocks b ! n" and ?vs = "filter (\<lambda>u. ?blk u = n) ?us"
    have "res_for ?vs (\<lambda>u. mut_visit_at ?f (?idx u)) ?d = Ok (mut_at ?f (?idx ` set ?vs) ?d)"
      using range by (intro mut_visits_at idem) auto
    moreover have hit: "i \<in> ?idx ` set ?vs"
      if "(local, ctx, \<lparr>loc_block = n, loc_statement_index = i\<rparr>) \<in> set (super_basic_block_data n ?d)" for i ctx
    proof -
      let ?u = "\<lparr>use_context = ctx, use_location = \<lparr>loc_block = n, loc_statement_index = i\<rparr>\<rparr>"
      have "?u \<in> set ?us" unfolding us body_visits_iff using that n by auto
      then have "?u \<in> set ?vs" by simp
      then have "?idx ?u \<in> ?idx ` set ?vs" by (rule imageI)
      then show ?thesis by simp
    qed
    have "mut_at ?f (?idx ` set ?vs) ?d = mut_block ?f ?d"
    proof (rule mut_at_all)
      fix i assume i: "i < length (statements ?d)" "i \<notin> ?idx ` set ?vs"
      then have "(local, ctx) \<notin> set (super_statement (stmt_kind (statements ?d ! i)))" for ctx
        using hit [of ctx i] by (auto simp: block_visits_iff)
      then show "fixes_locals ?f (super_statement (stmt_kind (statements ?d ! i)))"
        by (auto simp: fixes_locals_def rename_local_def)
    next
      fix t assume t: "terminator ?d = Some t" "length (statements ?d) \<notin> ?idx ` set ?vs"
      then have "(local, ctx) \<notin> set (super_terminator_kind (term_kind t))" for ctx
        using hit [of ctx "length (statements ?d)"] by (auto simp: block_visits_iff)
      then show "fixes_locals ?f (super_terminator_kind (term_kind t))"
        by (auto simp: fixes_locals_def rename_local_def)
    qed
    ultimately show "res_for ?vs (\<lambda>u. mut_visit_at ?f (?idx u)) ?d = Ok (mut_block ?f ?d)" by simp
  qed
  moreover have "map (\<lambda>n. mut_block ?f (basic_blocks b ! n)) [0 ..< length (basic_blocks b)] =
      map (mut_block ?f) (basic_blocks b)"
    by (intro nth_equalityI) simp_all
  ultimately show ?thesis
    using a by (simp add: replace_all_defs_and_uses_with_def mut_visit_location_def mut_body_def)
qed

text \<open>(C27) Def-use analysis of a body whose locals are declared returns and records for every local
  exactly its visits, in order; and replacing a local through the recorded uses renames it in every
  statement and terminator of the body, and nothing else.\<close>

theorem def_use_replace_complete:
  assumes "locals_declared b" and "local < length (local_decls b)"
  shows "\<exists>a. du_analyze (du_new b) b = Ok a \<and>
    (\<forall>l < length (local_decls b). defs_and_uses (du_info a ! l) = uses_of l (super_body b)) \<and>
    replace_all_defs_and_uses_with a local b new = Ok (mut_body (rename_local local new) b)"
proof -
  obtain a where a: "du_analyze (du_new b) b = Ok a" "length (du_info a) = length (local_decls b)"
    "\<forall>l < length (local_decls b). defs_and_uses (du_info a ! l) = uses_of l (super_body b)"
    using du_analyze_uses [OF assms(1), of "du_new b"] by (auto simp: du_new_def)
  have "local < length (du_info a)" "defs_and_uses (du_info a ! local) = uses_of local (super_body b)"
    using a(2,3) assms(2) by simp_all
  from replace_all_renames_body [OF this] a(1,3) show ?thesis by blast
qed

text \<open>(C28) After the replacement the visits of the body are the old ones with the local renamed:
  in the same order, at the same locations and in the same contexts; the old local is gone.\<close>

theorem replaced_body_visits:
  "super_body (mut_body (rename_local local new) b) =
     map (apfst (rename_local local new)) (super_body b)"
proof -
  let ?f = "rename_local local new"
  have loc: "at_location loc (map (apfst ?f) vs) = map (apfst ?f) (at_location loc vs)" for loc vs
    by (simp add: at_location_def case_prod_beta)
  have "super_basic_block_data n (mut_block ?f d) = map (apfst ?f) (super_basic_block_data n d)" for n d
    by (cases "terminator d")
       (simp_all add: super_basic_block_data_def mut_block_def enumerate_of_map super_statement_mut
        super_terminator_kind_mut loc map_concat comp_def case_prod_beta)
  then show ?thesis
    by (simp add: super_body_def mut_body_def enumerate_of_map map_concat comp_def case_prod_beta)
qed

definition one_local_body :: body where
  "one_local_body = (body_of_blocks [sample_block [0] Return])\<lparr>local_decls := [ld_new_temp Bool_ty 0]\<rparr>"

theorem def_use_replace_complete_witness:
  "locals_declared one_local_body \<and> 0 < length (local_decls one_local_body) \<and>
   (\<exists>a. du_analyze (du_new one_local_body) one_local_body = Ok a \<and>
    replace_all_defs_and_uses_with a 0 one_local_body 4 =
      Ok (mut_body (rename_local 0 4) one_local_body))"
proof -
  have "locals_declared one_local_body" "0 < length (local_decls one_local_body)" by code_simp+
  then show ?thesis using def_use_replace_complete [of one_local_body 0 4] by blast
qed

end
