(* ===== verification/Transaction_Map.thy ===== *)
theory Transaction_Map
  imports Traversal
begin

text \<open>
  The map from terminators to the transactions that contain them
  (\<open>src/librustc_mir/transform/transaction/transaction_map.rs\<close>, with \<open>local_from_dest\<close> of
  \<open>transaction/mod.rs\<close>). The blocks are visited in reverse postorder; a call of the lock
  function opens a transaction, a call of the unlock function closes it, and every other call in
  between belongs to it. The theorems characterize the map by the sequence of these events, and
  say exactly when the analysis panics.
\<close>

section \<open>The map\<close>

text \<open>The lang items of the transaction runtime, each defined or not.\<close>

record lang_items =
  transaction_lock :: "def_id option"
  transaction_unlock :: "def_id option"
  transaction_read_lock :: "def_id option"
  transaction_read_unlock :: "def_id option"
  transaction_write_lock :: "def_id option"
  transaction_write_unlock :: "def_id option"

definition local_from_dest :: "(place \<times> nat) option \<Rightarrow> nat option" where
  "local_from_dest destination =
     (case destination of Some (place, _) \<Rightarrow> local_or_deref_local place | None \<Rightarrow> None)"

record transaction_map =
  tm_body :: body
  tm_def_id :: def_id
  lock_def_id :: "def_id option"
  unlock_def_id :: "def_id option"
  terminator_to_lock :: "(unique_id, unique_id) fxmap"
  lock_to_unlock :: "(unique_id, unique_id) fxmap"
  terminator_to_tx :: "(unique_id, unique_id \<times> unique_id) fxmap"
  transaction_id :: "unique_id option"

definition tm_unique_id :: "transaction_map \<Rightarrow> nat \<Rightarrow> location \<Rightarrow> unique_id" where
  "tm_unique_id tm local location =
     \<lparr>uid_def_id = tm_def_id tm, uid_local = local, uid_location = location, uid_field = None\<rparr>"

definition tm_new_child ::
    "def_id \<Rightarrow> body \<Rightarrow> (unique_id \<times> unique_id) option \<Rightarrow> lang_items
     \<Rightarrow> (unique_id, unique_id \<times> unique_id) fxmap \<Rightarrow> transaction_map" where
  "tm_new_child did b transaction_ids items t2tx =
     \<lparr>tm_body = b, tm_def_id = did, lock_def_id = transaction_lock items,
      unlock_def_id = transaction_unlock items, terminator_to_lock = [],
      lock_to_unlock =
        (case transaction_ids of None \<Rightarrow> [] | Some (lock_id, unlock_id) \<Rightarrow> fx_put lock_id unlock_id []),
      terminator_to_tx = t2tx,
      transaction_id = (case transaction_ids of None \<Rightarrow> None | Some (lock_id, _) \<Rightarrow> Some lock_id)\<rparr>"

definition tm_new :: "def_id \<Rightarrow> body \<Rightarrow> lang_items \<Rightarrow> transaction_map" where
  "tm_new did b items =
     \<lparr>tm_body = b, tm_def_id = did, lock_def_id = transaction_lock items,
      unlock_def_id = transaction_unlock items, terminator_to_lock = [], lock_to_unlock = [],
      terminator_to_tx = [], transaction_id = None\<rparr>"

definition tm_visit_call ::
    "def_id \<Rightarrow> (place \<times> nat) option \<Rightarrow> location \<Rightarrow> transaction_map \<Rightarrow> transaction_map res" where
  "tm_visit_call fn_def_id destination loc tm =
     res_bind (unwrap (lock_def_id tm)) (\<lambda>lock.
       if fn_def_id = lock
       then res_bind (unwrap (local_from_dest destination)) (\<lambda>func_local.
         Ok (tm\<lparr>transaction_id := Some (tm_unique_id tm func_local loc)\<rparr>))
       else res_bind (unwrap (unlock_def_id tm)) (\<lambda>unlock.
         if fn_def_id = unlock
         then (case transaction_id tm of
             None \<Rightarrow> Ok tm
           | Some lock_id \<Rightarrow>
               res_bind (unwrap (local_from_dest destination)) (\<lambda>func_local.
                 Ok (tm\<lparr>lock_to_unlock :=
                          fx_put lock_id (tm_unique_id tm func_local loc) (lock_to_unlock tm),
                        transaction_id := None\<rparr>)))
         else (case transaction_id tm of
             None \<Rightarrow> Ok tm
           | Some tx_id \<Rightarrow>
               (case local_from_dest destination of
                  None \<Rightarrow> Ok tm
                | Some func_local \<Rightarrow>
                    Ok (tm\<lparr>terminator_to_lock :=
                          fx_put (tm_unique_id tm func_local loc) tx_id (terminator_to_lock tm)\<rparr>)))))"

definition tm_visit_terminator :: "terminator \<Rightarrow> location \<Rightarrow> transaction_map \<Rightarrow> transaction_map res" where
  "tm_visit_terminator t loc tm =
     (case term_kind t of
        Call (Constant c) _ destination _ _ \<Rightarrow>
          (case lit_ty (const_literal c) of
             FnDef fn_def_id _ \<Rightarrow> tm_visit_call fn_def_id destination loc tm
           | _ \<Rightarrow> Ok tm)
      | _ \<Rightarrow> Ok tm)"

text \<open>\<open>visit_basic_block_data\<close>: the visitor overrides nothing that concerns statements.\<close>

definition tm_visit_block :: "nat \<Rightarrow> transaction_map \<Rightarrow> transaction_map res" where
  "tm_visit_block block tm =
     res_bind (index_vec (basic_blocks (tm_body tm)) block) (\<lambda>data.
       case terminator data of
         None \<Rightarrow> Ok tm
       | Some t \<Rightarrow>
           tm_visit_terminator t
             \<lparr>loc_block = block, loc_statement_index = length (statements data)\<rparr> tm)"

definition tm_resolve ::
    "unique_id \<times> unique_id \<Rightarrow> transaction_map \<Rightarrow> transaction_map res" where
  "tm_resolve = (\<lambda>(term, lock) tm.
     res_bind (unwrap (fx_get (lock_to_unlock tm) lock)) (\<lambda>unlock.
       Ok (tm\<lparr>terminator_to_tx := fx_put term (lock, unlock) (terminator_to_tx tm)\<rparr>)))"

type_synonym pair_order = "(unique_id \<times> unique_id) list \<Rightarrow> (unique_id \<times> unique_id) list"

definition tm_perform :: "pair_order \<Rightarrow> transaction_map \<Rightarrow> transaction_map res" where
  "tm_perform ord tm =
     res_bind
       (if lock_def_id tm \<noteq> None \<and> unlock_def_id tm \<noteq> None
        then res_bind (reverse_postorder_of (tm_body tm)) (\<lambda>blocks. res_for blocks tm_visit_block tm)
        else Ok tm)
       (\<lambda>tm'. res_for (ord (terminator_to_lock tm')) tm_resolve tm')"

section \<open>Events\<close>

datatype tx_event = Lock_ev unique_id | Unlock_ev unique_id | Call_ev unique_id

fun event_id :: "tx_event \<Rightarrow> unique_id" where
  "event_id (Lock_ev i) = i"
| "event_id (Unlock_ev i) = i"
| "event_id (Call_ev i) = i"

text \<open>The event of a block: a call of a named function that stores its result in a local.\<close>

definition block_event :: "transaction_map \<Rightarrow> nat \<Rightarrow> tx_event option" where
  "block_event tm n =
     (case terminator (basic_blocks (tm_body tm) ! n) of
        Some t \<Rightarrow>
          (case term_kind t of
             Call (Constant c) _ destination _ _ \<Rightarrow>
               (case lit_ty (const_literal c) of
                  FnDef f _ \<Rightarrow>
                    map_option (\<lambda>l. (let i = tm_unique_id tm l \<lparr>loc_block = n,
                        loc_statement_index = length (statements (basic_blocks (tm_body tm) ! n))\<rparr> in
                      if Some f = lock_def_id tm then Lock_ev i
                      else if Some f = unlock_def_id tm then Unlock_ev i else Call_ev i))
                      (local_from_dest destination)
                | _ \<Rightarrow> None)
           | _ \<Rightarrow> None)
      | None \<Rightarrow> None)"

text \<open>The calls of the lock and unlock functions store their results in locals, as the calls the
  lowering emits do.\<close>

definition lock_dests_ok :: "transaction_map \<Rightarrow> bool" where
  "lock_dests_ok tm =
     list_all (\<lambda>d. case terminator d of
        Some t \<Rightarrow>
          (case term_kind t of
             Call (Constant c) _ destination _ _ \<Rightarrow>
               (case lit_ty (const_literal c) of
                  FnDef f _ \<Rightarrow> Some f \<in> {lock_def_id tm, unlock_def_id tm} \<longrightarrow> local_from_dest destination \<noteq> None
                | _ \<Rightarrow> True)
           | _ \<Rightarrow> True)
      | None \<Rightarrow> True) (basic_blocks (tm_body tm))"

text \<open>The state of the map seen as the effect of events.\<close>

fun tm_event :: "tx_event \<Rightarrow> transaction_map \<Rightarrow> transaction_map" where
  "tm_event (Lock_ev i) tm = tm\<lparr>transaction_id := Some i\<rparr>"
| "tm_event (Unlock_ev u) tm =
     (case transaction_id tm of
        None \<Rightarrow> tm
      | Some l \<Rightarrow> tm\<lparr>lock_to_unlock := fx_put l u (lock_to_unlock tm), transaction_id := None\<rparr>)"
| "tm_event (Call_ev c) tm =
     (case transaction_id tm of
        None \<Rightarrow> tm
      | Some l \<Rightarrow> tm\<lparr>terminator_to_lock := fx_put c l (terminator_to_lock tm)\<rparr>)"

section \<open>The visit as a sequence of events\<close>

lemma tm_event_static [simp]:
  "tm_body (tm_event e tm) = tm_body tm" "tm_def_id (tm_event e tm) = tm_def_id tm"
  "lock_def_id (tm_event e tm) = lock_def_id tm" "unlock_def_id (tm_event e tm) = unlock_def_id tm"
  "terminator_to_tx (tm_event e tm) = terminator_to_tx tm"
  by (cases e; simp split: option.splits)+

lemma tm_unique_id_event [simp]: "tm_unique_id (tm_event e tm) = tm_unique_id tm"
  by (rule ext)+ (simp add: tm_unique_id_def)

lemma block_event_static [simp]: "block_event (tm_event e tm) = block_event tm"
  by (rule ext) (simp only: block_event_def tm_event_static tm_unique_id_event)

lemma lock_dests_ok_static [simp]: "lock_dests_ok (tm_event e tm) = lock_dests_ok tm"
  by (simp only: lock_dests_ok_def tm_event_static)

lemma tm_visit_call_event:
  assumes "lock_def_id tm = Some lock" and "unlock_def_id tm = Some unlock"
    and "f \<in> {lock, unlock} \<longrightarrow> local_from_dest dest \<noteq> None"
  shows "tm_visit_call f dest loc tm =
    Ok (case local_from_dest dest of
          None \<Rightarrow> tm
        | Some l \<Rightarrow> tm_event (let i = tm_unique_id tm l loc in
            if f = lock then Lock_ev i else if f = unlock then Unlock_ev i else Call_ev i) tm)"
  using assms
  by (cases "local_from_dest dest"; cases "transaction_id tm") (auto simp: tm_visit_call_def Let_def)

lemma tm_visit_block_event:
  assumes "lock_def_id tm = Some lock" and "unlock_def_id tm = Some unlock" and "lock_dests_ok tm"
    and "n < length (basic_blocks (tm_body tm))"
  shows "tm_visit_block n tm = Ok (case block_event tm n of None \<Rightarrow> tm | Some e \<Rightarrow> tm_event e tm)"
proof -
  let ?d = "basic_blocks (tm_body tm) ! n"
  let ?loc = "\<lparr>loc_block = n, loc_statement_index = length (statements ?d)\<rparr>"
  have visit: "tm_visit_block n tm =
      (case terminator ?d of None \<Rightarrow> Ok tm | Some t \<Rightarrow> tm_visit_terminator t ?loc tm)"
    using assms(4) by (simp add: tm_visit_block_def)
  show ?thesis
  proof (cases "\<exists>t c args dest u h f substs. terminator ?d = Some t \<and>
      term_kind t = Call (Constant c) args dest u h \<and> lit_ty (const_literal c) = FnDef f substs")
    case True
    then obtain t c args dest u h f substs where t: "terminator ?d = Some t"
      "term_kind t = Call (Constant c) args dest u h" "lit_ty (const_literal c) = FnDef f substs"
      by blast
    have "?d \<in> set (basic_blocks (tm_body tm))" using assms(4) by simp
    then have ok: "f \<in> {lock, unlock} \<longrightarrow> local_from_dest dest \<noteq> None"
      using assms(1-3) t by (fastforce simp: lock_dests_ok_def list_all_iff)
    show ?thesis
      unfolding visit using t assms(1,2)
      by (simp add: tm_visit_terminator_def tm_visit_call_event [OF assms(1,2) ok] block_event_def
          Let_def split: option.split)
  next
    case False
    then have "block_event tm n = None"
      unfolding block_event_def
      by (auto split: option.split terminator_kind.split operand.split ty.split)
    moreover have "tm_visit_block n tm = Ok tm"
      unfolding visit tm_visit_terminator_def using False
      by (auto split: option.split terminator_kind.split operand.split ty.split)
    ultimately show ?thesis by simp
  qed
qed

definition block_events :: "transaction_map \<Rightarrow> nat list \<Rightarrow> tx_event list" where
  "block_events tm ns = List.map_filter (block_event tm) ns"

lemma block_events_Cons:
  "block_events tm (n # ns) =
     (case block_event tm n of None \<Rightarrow> block_events tm ns | Some e \<Rightarrow> e # block_events tm ns)"
  by (simp add: block_events_def map_filter_simps split: option.split)

lemma tm_visit_blocks_events:
  assumes "lock_def_id tm = Some lock" and "unlock_def_id tm = Some unlock" and "lock_dests_ok tm"
    and "\<forall>n \<in> set ns. n < length (basic_blocks (tm_body tm))"
  shows "res_for ns tm_visit_block tm = Ok (fold tm_event (block_events tm ns) tm)"
  using assms
proof (induction ns arbitrary: tm)
  case Nil
  then show ?case by (simp add: block_events_def map_filter_simps)
next
  case (Cons n ns)
  have "tm_visit_block n tm = Ok (case block_event tm n of None \<Rightarrow> tm | Some e \<Rightarrow> tm_event e tm)"
    using tm_visit_block_event Cons.prems by simp
  moreover have "block_events (tm_event e tm) ns = block_events tm ns" for e
    by (simp add: block_events_def)
  ultimately show ?case
    using Cons by (cases "block_event tm n") (simp_all add: block_events_Cons)
qed

section \<open>What the events do\<close>

fun next_lock :: "tx_event \<Rightarrow> unique_id option \<Rightarrow> unique_id option" where
  "next_lock (Lock_ev i) cur = Some i"
| "next_lock (Unlock_ev u) cur = None"
| "next_lock (Call_ev c) cur = cur"

fun is_call :: "tx_event \<Rightarrow> bool" where
  "is_call (Call_ev _) = True"
| "is_call _ = False"

lemma transaction_id_events:
  "transaction_id (fold tm_event evs tm) = fold next_lock evs (transaction_id tm)"
proof (induction evs arbitrary: tm)
  case (Cons e evs)
  have "transaction_id (tm_event e tm) = next_lock e (transaction_id tm)"
    by (cases e) (simp_all split: option.split)
  with Cons show ?case by simp
qed simp

text \<open>The open lock is the last lock event that only calls follow.\<close>

lemma snoc_split:
  "(\<exists>A B. evs @ [e] = A @ x # B \<and> P A B) \<longleftrightarrow> (e = x \<and> P evs []) \<or> (\<exists>A B. evs = A @ x # B \<and> P A (B @ [e]))"
proof
  assume "\<exists>A B. evs @ [e] = A @ x # B \<and> P A B"
  then obtain A B where AB: "evs @ [e] = A @ x # B" "P A B" by blast
  then show "(e = x \<and> P evs []) \<or> (\<exists>A B. evs = A @ x # B \<and> P A (B @ [e]))"
    by (cases B rule: rev_cases) auto
next
  assume "(e = x \<and> P evs []) \<or> (\<exists>A B. evs = A @ x # B \<and> P A (B @ [e]))"
  then show "\<exists>A B. evs @ [e] = A @ x # B \<and> P A B"
    by (elim disjE exE conjE) (blast, metis append_Cons append_assoc)
qed

lemma open_lock_iff:
  "fold next_lock evs None = Some l \<longleftrightarrow> (\<exists>A B. evs = A @ Lock_ev l # B \<and> list_all is_call B)"
proof (induction evs rule: rev_induct)
  case (snoc e evs)
  show ?case
    unfolding snoc_split [where P = "\<lambda>A B. list_all is_call B"]
    by (cases e) (use snoc in auto)
qed simp

text \<open>A call after an open lock, and an unlock that closes it.\<close>

definition under_lock :: "tx_event list \<Rightarrow> unique_id \<Rightarrow> unique_id \<Rightarrow> bool" where
  "under_lock evs c l \<longleftrightarrow> (\<exists>A B. evs = A @ Call_ev c # B \<and> fold next_lock A None = Some l)"

definition closed_by :: "tx_event list \<Rightarrow> unique_id \<Rightarrow> unique_id \<Rightarrow> bool" where
  "closed_by evs l u \<longleftrightarrow> (\<exists>A B. evs = A @ Unlock_ev u # B \<and> fold next_lock A None = Some l)"

lemma under_lock_snoc:
  "under_lock (evs @ [e]) c l \<longleftrightarrow>
     under_lock evs c l \<or> (e = Call_ev c \<and> fold next_lock evs None = Some l)"
  unfolding under_lock_def snoc_split [where P = "\<lambda>A B. fold next_lock A None = Some l"] by blast

lemma closed_by_snoc:
  "closed_by (evs @ [e]) l u \<longleftrightarrow>
     closed_by evs l u \<or> (e = Unlock_ev u \<and> fold next_lock evs None = Some l)"
  unfolding closed_by_def snoc_split [where P = "\<lambda>A B. fold next_lock A None = Some l"] by blast

lemma not_both_open_and_closed:
  assumes "distinct (map event_id evs)" and "fold next_lock evs None = Some l"
  shows "\<not> closed_by evs l u"
proof
  assume "closed_by evs l u"
  then obtain A B where AB: "evs = A @ Unlock_ev u # B" "fold next_lock A None = Some l"
    by (auto simp: closed_by_def)
  then obtain A1 A2 where A: "A = A1 @ Lock_ev l # A2" by (auto simp: open_lock_iff)
  obtain C D where CD: "evs = C @ Lock_ev l # D" "list_all is_call D"
    using assms(2) by (auto simp: open_lock_iff)
  have "distinct evs" using assms(1) by (simp add: distinct_map)
  then have "Lock_ev l \<notin> set C" "Lock_ev l \<notin> set D" using CD(1) by simp_all
  moreover have "C @ Lock_ev l # D = A1 @ Lock_ev l # (A2 @ Unlock_ev u # B)"
    using AB(1) A CD(1) by simp
  ultimately have "D = A2 @ Unlock_ev u # B" using split_unique by metis
  with CD(2) show False by simp
qed

lemma under_lock_unique:
  assumes "distinct (map event_id evs)" and "under_lock evs c l" and "under_lock evs c l'"
  shows "l = l'"
proof -
  obtain A B where A: "evs = A @ Call_ev c # B" "fold next_lock A None = Some l"
    using assms(2) by (auto simp: under_lock_def)
  obtain A' B' where A': "evs = A' @ Call_ev c # B'" "fold next_lock A' None = Some l'"
    using assms(3) by (auto simp: under_lock_def)
  have "distinct evs" using assms(1) by (simp add: distinct_map)
  then have "Call_ev c \<notin> set A" "Call_ev c \<notin> set B" using A(1) by simp_all
  moreover have "A @ Call_ev c # B = A' @ Call_ev c # B'" using A(1) A'(1) by simp
  ultimately have "A = A'" using split_unique by metis
  with A(2) A'(2) show ?thesis by simp
qed

lemma terminator_to_lock_events:
  assumes "distinct (map event_id evs)" and "transaction_id tm = None" and "terminator_to_lock tm = []"
  shows "fx_get (terminator_to_lock (fold tm_event evs tm)) c = Some l \<longleftrightarrow> under_lock evs c l"
    and "fx_map_ok (terminator_to_lock (fold tm_event evs tm))"
  using assms(1)
proof (induction evs arbitrary: c l rule: rev_induct)
  case Nil
  { case 1 show ?case by (simp add: assms(3) under_lock_def) }
  { case 2 show ?case by (simp add: assms(3)) }
next
  case (snoc e evs)
  let ?tm = "fold tm_event evs tm"
  have cur: "transaction_id ?tm = fold next_lock evs None"
    by (simp add: transaction_id_events assms(2))
  { case 1
    have fresh: "\<not> under_lock evs c l" if "e = Call_ev c"
      using 1 that by (force simp: under_lock_def)
    from 1 have IH: "fx_get (terminator_to_lock ?tm) c = Some l \<longleftrightarrow> under_lock evs c l" for c l
      using snoc.IH(1) by simp
    show ?case
      unfolding under_lock_snoc
      by (cases e) (use fresh IH cur in \<open>auto split: option.splits\<close>) }
  { case 2
    then have "fx_map_ok (terminator_to_lock ?tm)" using snoc.IH(2) by simp
    then show ?case by (cases e) (auto split: option.splits) }
qed

lemma lock_to_unlock_events:
  assumes "distinct (map event_id evs)" and "transaction_id tm = None" and "lock_to_unlock tm = []"
  shows "fx_get (lock_to_unlock (fold tm_event evs tm)) l = Some u \<longleftrightarrow> closed_by evs l u"
  using assms(1)
proof (induction evs arbitrary: l u rule: rev_induct)
  case Nil
  show ?case by (simp add: assms(3) closed_by_def)
next
  case (snoc e evs)
  let ?tm = "fold tm_event evs tm"
  have cur: "transaction_id ?tm = fold next_lock evs None"
    by (simp add: transaction_id_events assms(2))
  have IH: "fx_get (lock_to_unlock ?tm) l = Some u \<longleftrightarrow> closed_by evs l u" for l u
    using snoc by simp
  have "\<not> closed_by evs l u" if "fold next_lock evs None = Some l" for l u
    using not_both_open_and_closed snoc.prems that by simp
  then show ?case
    unfolding closed_by_snoc
    by (cases e) (use IH cur in \<open>auto split: option.splits\<close>)
qed

section \<open>Resolving locks to transactions\<close>

text \<open>The final loop: it panics on the first call whose lock has no unlock; otherwise it records
  for every call the pair of its lock and the unlock.\<close>

lemma tm_resolve_all:
  assumes "distinct (map fst ps)" and "list_all (\<lambda>p. fx_get (lock_to_unlock tm) (snd p) \<noteq> None) ps"
  shows "\<exists>tm'. res_for ps tm_resolve tm = Ok tm' \<and> lock_to_unlock tm' = lock_to_unlock tm \<and>
    (\<forall>t. fx_get (terminator_to_tx tm') t =
      (case map_of ps t of None \<Rightarrow> fx_get (terminator_to_tx tm) t
       | Some l \<Rightarrow> Some (l, the (fx_get (lock_to_unlock tm) l))))"
  using assms
proof (induction ps arbitrary: tm)
  case (Cons p ps)
  obtain t l where p: "p = (t, l)" by force
  obtain u where u: "fx_get (lock_to_unlock tm) l = Some u" using Cons.prems(2) by (auto simp: p)
  let ?tm = "tm\<lparr>terminator_to_tx := fx_put t (l, u) (terminator_to_tx tm)\<rparr>"
  have l2u: "lock_to_unlock ?tm = lock_to_unlock tm" by simp
  have ps: "distinct (map fst ps)" "list_all (\<lambda>p. fx_get (lock_to_unlock ?tm) (snd p) \<noteq> None) ps"
    using Cons.prems by simp_all
  from Cons.IH [OF ps] obtain tm' where tm': "res_for ps tm_resolve ?tm = Ok tm'"
    "lock_to_unlock tm' = lock_to_unlock tm"
    "\<forall>x. fx_get (terminator_to_tx tm') x =
        (case map_of ps x of None \<Rightarrow> fx_get (terminator_to_tx ?tm) x
         | Some l \<Rightarrow> Some (l, the (fx_get (lock_to_unlock tm) l)))"
    unfolding l2u by blast
  moreover have "map_of ps t = None" using Cons.prems(1) by (simp add: p map_of_eq_None_iff)
  moreover have "res_for (p # ps) tm_resolve tm = Ok tm'"
    using tm'(1) u by (simp add: p tm_resolve_def)
  ultimately show ?case
    using u by (intro exI [of _ tm']) (simp add: p split: option.split)
qed simp

lemma tm_resolve_panics:
  assumes "\<not> list_all (\<lambda>p. fx_get (lock_to_unlock tm) (snd p) \<noteq> None) ps"
  shows "res_for ps tm_resolve tm = Panic Unwrap_None"
  using assms
proof (induction ps arbitrary: tm)
  case (Cons p ps)
  obtain t l where p: "p = (t, l)" by force
  show ?case
  proof (cases "fx_get (lock_to_unlock tm) l")
    case None
    then show ?thesis by (simp add: p tm_resolve_def)
  next
    case (Some u)
    let ?tm = "tm\<lparr>terminator_to_tx := fx_put t (l, u) (terminator_to_tx tm)\<rparr>"
    have "res_for ps tm_resolve ?tm = Panic Unwrap_None"
      using Cons.IH [of ?tm] Cons.prems Some by (simp add: p)
    with Some show ?thesis by (simp add: p tm_resolve_def)
  qed
qed simp

text \<open>A call inside a transaction: between its lock and its unlock only calls happen.\<close>

definition in_transaction :: "tx_event list \<Rightarrow> unique_id \<Rightarrow> unique_id \<Rightarrow> unique_id \<Rightarrow> bool" where
  "in_transaction evs c l u \<longleftrightarrow>
     (\<exists>A B C D. evs = A @ Lock_ev l # B @ Call_ev c # C @ Unlock_ev u # D \<and>
        list_all is_call B \<and> list_all is_call C)"

definition opened :: "tx_event list \<Rightarrow> unique_id \<Rightarrow> unique_id \<Rightarrow> bool" where
  "opened evs c l \<longleftrightarrow>
     (\<exists>A B C. evs = A @ Lock_ev l # B @ Call_ev c # C \<and> list_all is_call B)"

lemma under_lock_opened: "under_lock evs c l \<longleftrightarrow> opened evs c l"
proof
  assume "under_lock evs c l"
  then obtain A B A1 B1 where "evs = A @ Call_ev c # B" "A = A1 @ Lock_ev l # B1" "list_all is_call B1"
    unfolding under_lock_def open_lock_iff by blast
  then have "evs = A1 @ Lock_ev l # B1 @ Call_ev c # B" by simp
  with \<open>list_all is_call B1\<close> show "opened evs c l" unfolding opened_def by blast
next
  assume "opened evs c l"
  then obtain A B C where "evs = A @ Lock_ev l # B @ Call_ev c # C" "list_all is_call B"
    unfolding opened_def by blast
  then have "evs = (A @ Lock_ev l # B) @ Call_ev c # C" by simp
  with \<open>list_all is_call B\<close> show "under_lock evs c l"
    unfolding under_lock_def open_lock_iff by blast
qed

lemma under_closed_in_transaction:
  assumes "distinct (map event_id evs)"
  shows "under_lock evs c l \<and> closed_by evs l u \<longleftrightarrow> in_transaction evs c l u"
proof
  assume asm: "under_lock evs c l \<and> closed_by evs l u"
  obtain A B C where c: "evs = A @ Lock_ev l # (B @ Call_ev c # C)" "list_all is_call B"
    using asm by (auto simp: under_lock_opened opened_def)
  obtain A' B' D where u: "evs = A' @ Lock_ev l # (B' @ Unlock_ev u # D)" "list_all is_call B'"
    using asm by (auto simp: closed_by_def open_lock_iff)
  have "distinct evs" using assms by (simp add: distinct_map)
  then have "Lock_ev l \<notin> set A" "Lock_ev l \<notin> set (B @ Call_ev c # C)" using c(1) by simp_all
  moreover have "A @ Lock_ev l # (B @ Call_ev c # C) = A' @ Lock_ev l # (B' @ Unlock_ev u # D)"
    using c(1) u(1) by simp
  ultimately have "B @ Call_ev c # C = B' @ Unlock_ev u # D" using split_unique by metis
  then obtain us where "B = B' @ us \<and> us @ Call_ev c # C = Unlock_ev u # D \<or>
      B @ us = B' \<and> Call_ev c # C = us @ Unlock_ev u # D"
    unfolding append_eq_append_conv2 by blast
  then have "\<exists>C'. C = C' @ Unlock_ev u # D \<and> list_all is_call C'"
    using c(2) u(2) by (cases us) auto
  with c show "in_transaction evs c l u" by (auto simp: in_transaction_def)
next
  assume "in_transaction evs c l u"
  then obtain A B C D where e: "evs = A @ Lock_ev l # B @ Call_ev c # C @ Unlock_ev u # D"
    "list_all is_call B" "list_all is_call C" by (auto simp: in_transaction_def)
  then have "under_lock evs c l" by (auto simp: under_lock_opened opened_def)
  moreover have "evs = (A @ Lock_ev l # (B @ Call_ev c # C)) @ Unlock_ev u # D"
    "list_all is_call (B @ Call_ev c # C)" using e by simp_all
  then have "closed_by evs l u" unfolding closed_by_def open_lock_iff by blast
  ultimately show "under_lock evs c l \<and> closed_by evs l u" by blast
qed

text \<open>Events of different blocks have different identifiers.\<close>

lemma block_event_location:
  assumes "block_event tm n = Some e"
  shows "loc_block (uid_location (event_id e)) = n"
  using assms unfolding block_event_def
  by (auto simp: tm_unique_id_def Let_def
      split: option.splits terminator_kind.splits operand.splits ty.splits if_splits)

lemma block_events_distinct: "distinct ns \<Longrightarrow> distinct (map event_id (block_events tm ns))"
proof (induction ns)
  case Nil
  show ?case by (simp add: block_events_def map_filter_simps)
next
  case (Cons n ns)
  have "loc_block (uid_location (event_id e)) \<in> set ns" if "e \<in> set (block_events tm ns)" for e
    using that block_event_location by (auto simp: block_events_def List.map_filter_def)
  with Cons show ?case
    by (cases "block_event tm n") (auto simp: block_events_Cons dest!: block_event_location)
qed

text \<open>(C3) The transaction map of a well-formed body. Its events are the calls of named functions in
  reverse postorder. If every call that follows an open lock is also followed by the unlock, the
  analysis returns and maps a call to the pair of \<open>l\<close> and \<open>u\<close> exactly when the call lies between
  the lock call \<open>l\<close> and the unlock call \<open>u\<close> with only other calls in between; otherwise it panics
  on the missing unlock.\<close>

theorem transaction_map_brackets:
  assumes "wf_body b" and "basic_blocks b \<noteq> []" and "iter_order ord"
    and "transaction_lock items = Some lock" and "transaction_unlock items = Some unlock"
    and "lock_dests_ok (tm_new did b items)"
  shows "\<exists>R. reverse_postorder_of b = Ok R \<and>
    (let tm = tm_new did b items; evs = block_events tm R in
     if \<forall>c l. opened evs c l \<longrightarrow> (\<exists>u. in_transaction evs c l u)
     then \<exists>tm'. tm_perform ord tm = Ok tm' \<and>
       (\<forall>c l u. fx_get (terminator_to_tx tm') c = Some (l, u) \<longleftrightarrow> in_transaction evs c l u)
     else tm_perform ord tm = Panic Unwrap_None)"
proof -
  obtain R where R: "reverse_postorder_of b = Ok R" "distinct R"
    "set R = (cfg.edge b)\<^sup>* `` {START_BLOCK}"
    using reverse_postorder_facts [OF assms(1,2)] by blast
  have range: "\<forall>n \<in> set R. n < length (basic_blocks b)"
    using R(3) wf_body_closed [OF assms(1), of START_BLOCK] assms(2) by (auto simp: START_BLOCK_def)
  define tm where "tm = tm_new did b items"
  define evs where "evs = block_events tm R"
  have tm: "lock_def_id tm = Some lock" "unlock_def_id tm = Some unlock" "tm_body tm = b"
    "transaction_id tm = None" "terminator_to_lock tm = []" "lock_to_unlock tm = []"
    "terminator_to_tx tm = []" "lock_dests_ok tm"
    using assms(4-6) by (simp_all add: tm_def tm_new_def)
  have dist: "distinct (map event_id evs)" unfolding evs_def using R(2) by (rule block_events_distinct)
  define tm1 where "tm1 = fold tm_event evs tm"
  have t2tx: "terminator_to_tx tm1 = []"
    unfolding tm1_def using tm(7) by (induction evs arbitrary: tm) simp_all
  have visit: "res_for R tm_visit_block tm = Ok tm1"
    using tm_visit_blocks_events [OF tm(1,2,8)] range by (simp add: tm(3) tm1_def evs_def)
  note t2l = terminator_to_lock_events [OF dist tm(4,5), folded tm1_def]
  note l2u = lock_to_unlock_events [OF dist tm(4,6), folded tm1_def]
  let ?ps = "ord (terminator_to_lock tm1)"
  have perform: "tm_perform ord tm = res_for ?ps tm_resolve tm1"
    using visit tm(1-3) R(1) by (simp add: tm_perform_def)
  note ps = iter_order_entries [OF assms(3) t2l(2)]
  have all: "list_all (\<lambda>p. fx_get (lock_to_unlock tm1) (snd p) \<noteq> None) ?ps \<longleftrightarrow>
      (\<forall>c l. opened evs c l \<longrightarrow> (\<exists>u. in_transaction evs c l u))"
  proof -
    have "list_all (\<lambda>p. fx_get (lock_to_unlock tm1) (snd p) \<noteq> None) ?ps \<longleftrightarrow>
        (\<forall>c l. under_lock evs c l \<longrightarrow> (\<exists>u. closed_by evs l u))"
      by (auto simp: list_all_iff iter_order_set [OF assms(3)] l2u [symmetric] t2l(1) [symmetric]
          fx_get_iff_mem [OF t2l(2)])
    then show ?thesis
      using under_closed_in_transaction [OF dist] by (metis under_lock_opened)
  qed
  have "\<exists>tm'. tm_perform ord tm = Ok tm' \<and>
       (\<forall>c l u. fx_get (terminator_to_tx tm') c = Some (l, u) \<longleftrightarrow> in_transaction evs c l u)"
    if ok: "list_all (\<lambda>p. fx_get (lock_to_unlock tm1) (snd p) \<noteq> None) ?ps"
  proof -
    from tm_resolve_all [OF ps(1) ok] obtain tm' where tm': "tm_perform ord tm = Ok tm'"
      "\<And>t. fx_get (terminator_to_tx tm') t = (case fx_get (terminator_to_lock tm1) t of None \<Rightarrow> None
         | Some l \<Rightarrow> Some (l, the (fx_get (lock_to_unlock tm1) l)))"
      unfolding perform ps(2) t2tx fx_get_Nil by blast
    have "fx_get (terminator_to_tx tm') c = Some (l, u) \<longleftrightarrow> under_lock evs c l \<and> closed_by evs l u" for c l u
    proof -
      have "fx_get (lock_to_unlock tm1) l \<noteq> None" if "fx_get (terminator_to_lock tm1) c = Some l"
        using ok that by (auto simp: list_all_iff iter_order_set [OF assms(3)] fx_get_iff_mem [OF t2l(2)])
      then have "fx_get (terminator_to_tx tm') c = Some (l, u) \<longleftrightarrow>
          fx_get (terminator_to_lock tm1) c = Some l \<and> fx_get (lock_to_unlock tm1) l = Some u"
        unfolding tm'(2) by (auto split: option.split)
      then show ?thesis unfolding t2l(1) l2u .
    qed
    with tm'(1) show ?thesis unfolding under_closed_in_transaction [OF dist] by blast
  qed
  moreover have "tm_perform ord tm = Panic Unwrap_None"
    if "\<not> list_all (\<lambda>p. fx_get (lock_to_unlock tm1) (snd p) \<noteq> None) ?ps"
    unfolding perform using that by (rule tm_resolve_panics)
  ultimately show ?thesis
    unfolding Let_def all using R(1) by (auto simp: tm_def evs_def)
qed

section \<open>An example\<close>

definition fn_const :: "nat \<Rightarrow> operand" where
  "fn_const i =
     Constant \<lparr>const_span = 0, const_user_ty = None,
       const_literal = \<lparr>lit_ty = FnDef \<lparr>krate = 0, def_index = i\<rparr> [], lit_val = Zero_sized\<rparr>\<rparr>"

text \<open>A call of function \<open>i\<close> that stores its result in local \<open>l\<close> and goes on at block \<open>t\<close>.\<close>

definition call_to :: "nat \<Rightarrow> nat \<Rightarrow> nat \<Rightarrow> basic_block_data" where
  "call_to i l t = sample_block [] (Call (fn_const i) [] (Some (place_from_local l, t)) None False)"

definition sample_items :: lang_items where
  "sample_items =
     \<lparr>transaction_lock = Some \<lparr>krate = 0, def_index = 90\<rparr>,
      transaction_unlock = Some \<lparr>krate = 0, def_index = 91\<rparr>,
      transaction_read_lock = None, transaction_read_unlock = None,
      transaction_write_lock = None, transaction_write_unlock = None\<rparr>"

definition locked_call :: body where
  "locked_call = body_of_blocks [call_to 90 1 1, call_to 5 2 2, call_to 91 3 3, sample_block [] Return]"

definition uid_at :: "nat \<Rightarrow> nat \<Rightarrow> unique_id" where
  "uid_at l n =
     \<lparr>uid_def_id = \<lparr>krate = 0, def_index = 1\<rparr>, uid_local = l,
      uid_location = \<lparr>loc_block = n, loc_statement_index = 0\<rparr>, uid_field = None\<rparr>"

theorem transaction_map_brackets_witness:
  "\<exists>tm'. tm_perform rev (tm_new \<lparr>krate = 0, def_index = 1\<rparr> locked_call sample_items) = Ok tm' \<and>
     fx_get (terminator_to_tx tm') (uid_at 2 1) = Some (uid_at 1 0, uid_at 3 2)"
proof -
  let ?did = "\<lparr>krate = 0, def_index = 1\<rparr>"
  have hyps: "wf_body locked_call" "basic_blocks locked_call \<noteq> []"
    "lock_dests_ok (tm_new ?did locked_call sample_items)" by code_simp+
  have items: "transaction_lock sample_items = Some \<lparr>krate = 0, def_index = 90\<rparr>"
    "transaction_unlock sample_items = Some \<lparr>krate = 0, def_index = 91\<rparr>"
    by (simp_all add: sample_items_def)
  have R: "reverse_postorder_of locked_call = Ok [0, 1, 2, 3]" by code_simp
  have evs: "block_events (tm_new ?did locked_call sample_items) [0, 1, 2, 3] =
      [Lock_ev (uid_at 1 0), Call_ev (uid_at 2 1), Unlock_ev (uid_at 3 2)]" by code_simp
  have tx: "in_transaction [Lock_ev (uid_at 1 0), Call_ev (uid_at 2 1), Unlock_ev (uid_at 3 2)]
      (uid_at 2 1) (uid_at 1 0) (uid_at 3 2)"
    unfolding in_transaction_def by (intro exI [of _ "[]"]) simp
  have ok: "tm_perform rev (tm_new ?did locked_call sample_items) \<noteq> Panic Unwrap_None" by code_simp
  obtain R' where "reverse_postorder_of locked_call = Ok R'"
    and R': "let tm = tm_new ?did locked_call sample_items; evs = block_events tm R' in
     if \<forall>c l. opened evs c l \<longrightarrow> (\<exists>u. in_transaction evs c l u)
     then \<exists>tm'. tm_perform rev tm = Ok tm' \<and>
       (\<forall>c l u. fx_get (terminator_to_tx tm') c = Some (l, u) \<longleftrightarrow> in_transaction evs c l u)
     else tm_perform rev tm = Panic Unwrap_None"
    using transaction_map_brackets [OF hyps(1,2) iter_order_rev items hyps(3)] by blast
  with R have "R' = [0, 1, 2, 3]" by simp
  from R' [unfolded this Let_def evs] ok tx show ?thesis by (metis (no_types, lifting))
qed

end
