(* ===== verification/Use_Def.thy ===== *)
theory Use_Def
  imports Mir_Visit Transaction_Map
begin

text \<open>
  Use-def analysis (\<open>src/librustc_mir/transform/transaction/use_def_analysis.rs\<close>): from every
  allocation of a shared object the analysis follows the uses of the local that holds it, through
  assignments, closure captures and calls of local functions, down to the borrows, and records the
  allocation with the transaction that contains the borrow. The recursion of the code need not end,
  so it is run with a bound; \<open>Diverge\<close> is the outcome of a run that exceeds it. What the analysis
  asks of the compiler (the printed form of an operand, the bodies of local functions, the lang
  items, the iteration orders of the hash containers) is an argument.
\<close>

section \<open>Names of functions\<close>

definition starts_with :: "string \<Rightarrow> string \<Rightarrow> bool" where
  "starts_with s p = (take (length p) s = p)"

definition ends_with :: "string \<Rightarrow> string \<Rightarrow> bool" where
  "ends_with s p = (length p \<le> length s \<and> drop (length s - length p) s = p)"

definition is_new :: "string \<Rightarrow> bool" where
  "is_new func_name = (starts_with func_name ''const txcell::TxPtr::<'' \<and> ends_with func_name ''>::new'')"

definition is_arc_vec :: "string \<Rightarrow> bool" where
  "is_arc_vec func_name =
     (starts_with func_name ''const std::vec::Vec::<std::sync::Arc<txcell::TxPtr<''
      \<and> ends_with func_name ''>>>::new'')"

definition is_vec :: "string \<Rightarrow> bool" where
  "is_vec func_name =
     (starts_with func_name ''const std::vec::Vec::<txcell::TxPtr<'' \<and> ends_with func_name ''>>::new'')"

definition is_vec_index :: "string \<Rightarrow> bool" where
  "is_vec_index func_name =
     (starts_with func_name ''const <std::vec::Vec<txcell::TxPtr<''
      \<and> ends_with func_name ''>> as std::ops::Index<usize>>::index'')"

definition is_arc_vec_index :: "string \<Rightarrow> bool" where
  "is_arc_vec_index func_name =
     (starts_with func_name ''const <std::vec::Vec<std::sync::Arc<txcell::TxPtr<''
      \<and> ends_with func_name ''>>> as std::ops::Index<usize>>::index'')"

definition is_tree :: "string \<Rightarrow> bool" where
  "is_tree func_name =
     (starts_with func_name ''const txcell::tree::BinarySearchTree::<'' \<and> ends_with func_name ''>::new'')"

definition is_tree_find :: "string \<Rightarrow> bool" where
  "is_tree_find func_name =
     (starts_with func_name ''const txcell::tree::BinarySearchTree::<'' \<and> ends_with func_name ''>::find'')"

definition is_tree_add :: "string \<Rightarrow> bool" where
  "is_tree_add func_name =
     (starts_with func_name ''const txcell::tree::BinarySearchTree::<'' \<and> ends_with func_name ''>::add'')"

definition is_deref :: "string \<Rightarrow> bool" where
  "is_deref func_name =
     (starts_with func_name ''const <std::sync::Arc<txcell::TxPtr<''
      \<and> ends_with func_name ''>> as std::ops::Deref>::deref'')"

definition is_vec_deref :: "string \<Rightarrow> bool" where
  "is_vec_deref func_name =
     (starts_with func_name ''const <std::sync::Arc<std::vec::Vec<txcell::TxPtr<''
      \<and> ends_with func_name ''>>> as std::ops::Deref>::deref'')"

definition is_tree_deref :: "string \<Rightarrow> bool" where
  "is_tree_deref func_name =
     (starts_with func_name ''const <std::sync::Arc<txcell::tree::BinarySearchTree<''
      \<and> ends_with func_name ''>> as std::ops::Deref>::deref'')"

definition is_arc_new :: "string \<Rightarrow> bool" where
  "is_arc_new func_name =
     (starts_with func_name ''const std::sync::Arc::<'' \<and> ends_with func_name ''>::new'')"

definition is_clone :: "string \<Rightarrow> bool" where
  "is_clone func_name = ends_with func_name ''> as std::clone::Clone>::clone''"

definition is_read :: "string \<Rightarrow> bool" where
  "is_read func_name =
     (starts_with func_name ''const txcell::TxPtr::<'' \<and> ends_with func_name ''>::borrow'')"

definition is_write :: "string \<Rightarrow> bool" where
  "is_write func_name =
     (starts_with func_name ''const txcell::TxPtr::<'' \<and> ends_with func_name ''>::borrow_mut'')"

definition is_allocation :: "string \<Rightarrow> bool" where
  "is_allocation func_name =
     (is_new func_name \<or> is_vec func_name \<or> is_tree func_name \<or> is_arc_vec func_name)"

section \<open>Kinds of use\<close>

record tcx =
  fmt_operand :: "operand \<Rightarrow> string"
  tcx_items :: lang_items
  mir_validated :: "def_id \<Rightarrow> body res"
  ord_pairs :: pair_order
  ord_ids :: "unique_id list \<Rightarrow> unique_id list"
  ord_uses :: "transaction_use list \<Rightarrow> transaction_use list"

definition tcx_orders_ok :: "tcx \<Rightarrow> bool" where
  "tcx_orders_ok tcx \<longleftrightarrow>
     iter_order (ord_pairs tcx) \<and> iter_order (ord_ids tcx) \<and> iter_order (ord_uses tcx)"

datatype use_kind =
    Function nat def_id nat
  | Local_use nat
  | ClosureArg nat "operand list"
  | Read nat
  | Write nat

fun get_local :: "operand \<Rightarrow> nat option" where
  "get_local (Copy p) = local_or_deref_local p"
| "get_local (Move p) = local_or_deref_local p"
| "get_local (Constant _) = None"

definition has_field :: "nat \<Rightarrow> place \<Rightarrow> bool" where
  "has_field use_field p =
     list_ex (\<lambda>e. case e of Field f _ \<Rightarrow> f = use_field | _ \<Rightarrow> False) (place_projection p)"

definition statement_use_kind :: "unique_id \<Rightarrow> statement_kind \<Rightarrow> use_kind option" where
  "statement_use_kind use_id k =
     (case k of
        Assign p rv \<Rightarrow>
          (case local_or_deref_local p of
             None \<Rightarrow> None
           | Some local \<Rightarrow>
               (case uid_field use_id of
                  Some use_field \<Rightarrow>
                    (case rv of
                       Use (Move q) \<Rightarrow> if has_field use_field q then Some (Local_use local) else None
                     | Ref _ _ q \<Rightarrow> if has_field use_field q then Some (Local_use local) else None
                     | Aggregate (Agg_Closure _ _) ops \<Rightarrow> Some (ClosureArg local ops)
                     | _ \<Rightarrow> None)
                | None \<Rightarrow>
                    (case rv of
                       Aggregate (Agg_Closure _ _) ops \<Rightarrow> Some (ClosureArg local ops)
                     | _ \<Rightarrow> Some (Local_use local))))
      | _ \<Rightarrow> None)"

text \<open>The first closure among the generic arguments of a callee, and the first argument that is a
  given local.\<close>

fun first_closure :: "generic_arg list \<Rightarrow> def_id option" where
  "first_closure [] = None"
| "first_closure (Type (Closure d _) # args) = Some d"
| "first_closure (_ # args) = first_closure args"

fun arg_position :: "nat \<Rightarrow> operand list \<Rightarrow> nat \<Rightarrow> nat option" where
  "arg_position l [] i = None"
| "arg_position l (arg # args) i =
     (if get_local arg = Some l then Some i else arg_position l args (Suc i))"

definition call_use_kind ::
    "tcx \<Rightarrow> unique_id \<Rightarrow> operand \<Rightarrow> operand list \<Rightarrow> (place \<times> nat) option \<Rightarrow> use_kind option res" where
  "call_use_kind tcx use_id func args destination =
     (let func_name = fmt_operand tcx func;
          with_local = (\<lambda>k. res_bind (unwrap (local_from_dest destination)) (\<lambda>local. Ok (Some (k local))))
      in if is_read func_name \<or> is_tree_find func_name then with_local Read
         else if is_write func_name \<or> is_tree_add func_name then with_local Write
         else if is_deref func_name \<or> is_vec_deref func_name \<or> is_tree_deref func_name
                 \<or> is_arc_new func_name \<or> is_clone func_name \<or> is_vec_index func_name
                 \<or> is_arc_vec_index func_name
         then with_local Local_use
         else (case func of
           Constant c \<Rightarrow>
             (case lit_ty (const_literal c) of
                FnDef fn_def_id fn_substs \<Rightarrow>
                  (case (first_closure fn_substs, uid_field use_id) of
                     (Some closure_def_id, Some field) \<Rightarrow>
                       with_local (\<lambda>local. Function local closure_def_id field)
                   | _ \<Rightarrow>
                       (case arg_position (uid_local use_id) args 0 of
                          Some i \<Rightarrow> with_local (\<lambda>local. Function local fn_def_id i)
                        | None \<Rightarrow> Ok None))
              | _ \<Rightarrow> Ok None)
         | _ \<Rightarrow> Ok None))"

definition location_to_use_kind :: "tcx \<Rightarrow> location \<Rightarrow> unique_id \<Rightarrow> body \<Rightarrow> use_kind option res" where
  "location_to_use_kind tcx loc use_id b =
     (if \<not> loc_block loc < length (basic_blocks b) then Ok None
      else let bb_data = basic_blocks b ! loc_block loc; index = loc_statement_index loc;
               len = length (statements bb_data)
           in if index > len then Ok None
              else if index < len
              then Ok (statement_use_kind use_id (stmt_kind (statements bb_data ! index)))
              else res_bind (unwrap (terminator bb_data)) (\<lambda>t.
                case term_kind t of
                  Call func args destination _ _ \<Rightarrow> call_use_kind tcx use_id func args destination
                | _ \<Rightarrow> Ok None))"

section \<open>The visitor\<close>

record use_def =
  ud_analysis :: def_use_analysis
  ud_arg_id :: "unique_id option"
  ud_arg_index :: "nat option"
  ud_body :: body
  ud_allocation_set :: "(unique_id \<times> unique_id, transaction_use fxset) fxmap"
  ud_current_allocation :: "unique_id option"
  ud_def_id :: def_id
  ud_edges :: "(unique_id, unique_id fxset) fxmap"
  ud_is_write :: "(unique_id, bool) fxmap"
  ud_transaction_map :: transaction_map
  ud_vertices :: "unique_id fxset"

definition ud_new :: "tcx \<Rightarrow> body \<Rightarrow> def_id \<Rightarrow> use_def res" where
  "ud_new tcx b did =
     res_bind (du_analyze (du_new b) b) (\<lambda>analysis.
       Ok \<lparr>ud_analysis = analysis, ud_arg_id = None, ud_arg_index = None, ud_body = b,
           ud_allocation_set = [], ud_current_allocation = None, ud_def_id = did, ud_edges = [],
           ud_is_write = [], ud_transaction_map = tm_new did b (tcx_items tcx), ud_vertices = []\<rparr>)"

definition ud_new_child ::
    "unique_id option \<Rightarrow> nat option \<Rightarrow> body \<Rightarrow> def_id \<Rightarrow> transaction_map \<Rightarrow> use_def \<Rightarrow> use_def res" where
  "ud_new_child arg_id arg_index b did tm parent =
     res_bind (du_analyze (du_new b) b) (\<lambda>analysis.
       Ok \<lparr>ud_analysis = analysis, ud_arg_id = arg_id, ud_arg_index = arg_index, ud_body = b,
           ud_allocation_set = ud_allocation_set parent,
           ud_current_allocation = ud_current_allocation parent, ud_def_id = did,
           ud_edges = ud_edges parent, ud_is_write = ud_is_write parent, ud_transaction_map = tm,
           ud_vertices = ud_vertices parent\<rparr>)"

definition ud_unique_id :: "use_def \<Rightarrow> nat \<Rightarrow> location \<Rightarrow> nat option \<Rightarrow> unique_id" where
  "ud_unique_id ud local loc field =
     \<lparr>uid_def_id = ud_def_id ud, uid_local = local, uid_location = loc, uid_field = field\<rparr>"

definition connect :: "unique_id \<Rightarrow> unique_id \<Rightarrow> use_def \<Rightarrow> use_def" where
  "connect src dest ud = ud\<lparr>ud_edges := fx_entry src [] (fx_insert dest) (ud_edges ud)\<rparr>"

definition map_allocation :: "unique_id \<Rightarrow> use_def \<Rightarrow> use_def res" where
  "map_allocation borrow_id ud =
     (case fx_get (terminator_to_tx (ud_transaction_map ud)) borrow_id of
        None \<Rightarrow> Ok ud
      | Some tx_ids \<Rightarrow>
          res_bind (unwrap (ud_current_allocation ud)) (\<lambda>allocation.
          res_bind (unwrap (fx_get (ud_is_write ud) borrow_id)) (\<lambda>w.
            Ok (ud\<lparr>ud_allocation_set :=
                  fx_entry tx_ids [] (fx_insert \<lparr>tu_shared_object = allocation, tu_is_write = w\<rparr>)
                    (ud_allocation_set ud)\<rparr>))))"

primrec use_set :: "nat \<Rightarrow> tcx \<Rightarrow> use_def \<Rightarrow> unique_id list \<Rightarrow> transaction_use fxset res" where
  "use_set 0 tcx ud edges = Diverge"
| "use_set (Suc n) tcx ud edges =
     res_for (ord_ids tcx edges)
       (\<lambda>edge allocations.
          case fx_get (ud_edges ud) edge of
            Some new_edges \<Rightarrow>
              res_bind (use_set n tcx ud new_edges) (\<lambda>uses.
                Ok (fx_extend allocations (ord_uses tcx uses)))
          | None \<Rightarrow>
              res_bind (unwrap (fx_get (ud_is_write ud) edge)) (\<lambda>w.
                Ok (fx_insert \<lparr>tu_shared_object = edge, tu_is_write = w\<rparr> allocations)))
       []"

text \<open>The recursive calls of \<open>trace\<close> are made through an argument: \<open>tr\<close> is the function itself
  with a smaller bound.\<close>

type_synonym tracer = "unique_id \<Rightarrow> use_def \<Rightarrow> use_def res"

definition follow :: "nat \<Rightarrow> tcx \<Rightarrow> tracer \<Rightarrow> unique_id \<Rightarrow> unique_id \<Rightarrow> use_def \<Rightarrow> use_def res" where
  "follow n tcx tr use_id new_use_id ud0 =
     (let ud = connect use_id new_use_id ud0 in
      if new_use_id \<notin> set (ud_vertices ud)
      then tr new_use_id (ud\<lparr>ud_vertices := fx_insert new_use_id (ud_vertices ud)\<rparr>)
      else res_bind (unwrap (fx_get (ud_edges ud) new_use_id)) (\<lambda>edges.
           res_bind (use_set n tcx ud edges) (\<lambda>uses.
             res_for (ord_uses tcx uses) (\<lambda>u. map_allocation (tu_shared_object u)) ud)))"

definition trace_closure_operand ::
    "nat \<Rightarrow> tcx \<Rightarrow> tracer \<Rightarrow> unique_id \<Rightarrow> location \<Rightarrow> nat \<Rightarrow> nat \<times> operand \<Rightarrow> use_def \<Rightarrow> use_def res" where
  "trace_closure_operand n tcx tr use_id loc new_use_local = (\<lambda>(i, operand) ud.
     let new_use_id = ud_unique_id ud new_use_local loc (Some i) in
     case get_local operand of
       Some op_local \<Rightarrow>
         if op_local \<noteq> uid_local use_id then Ok ud else follow n tcx tr use_id new_use_id ud
     | None \<Rightarrow>
         (case uid_field use_id of
            None \<Rightarrow> Ok ud
          | Some use_field \<Rightarrow>
              (case operand of
                 Move p \<Rightarrow>
                   (case place_base p of
                      Local op_local \<Rightarrow>
                        if op_local \<noteq> uid_local use_id then Ok ud
                        else res_for (place_projection p)
                          (\<lambda>elem ud. case elem of
                             Field field _ \<Rightarrow>
                               if field = use_field then follow n tcx tr use_id new_use_id ud else Ok ud
                           | _ \<Rightarrow> Ok ud) ud
                    | Static _ _ \<Rightarrow> Ok ud)
               | _ \<Rightarrow> Ok ud)))"

definition trace_borrow :: "bool \<Rightarrow> unique_id \<Rightarrow> nat \<Rightarrow> location \<Rightarrow> use_def \<Rightarrow> use_def res" where
  "trace_borrow w use_id borrow_local loc ud =
     (let borrow_id = ud_unique_id ud borrow_local loc None in
      res_bind (map_allocation borrow_id (ud\<lparr>ud_is_write := fx_put borrow_id w (ud_is_write ud)\<rparr>))
        (\<lambda>ud'. let ud'' = connect use_id borrow_id ud' in
           Ok (ud''\<lparr>ud_vertices := fx_insert borrow_id (ud_vertices ud'')\<rparr>)))"

definition visit_terminator :: "tcx \<Rightarrow> tracer \<Rightarrow> terminator \<Rightarrow> location \<Rightarrow> use_def \<Rightarrow> use_def res" where
  "visit_terminator tcx tr t loc ud =
     (case term_kind t of
        Call func _ destination _ _ \<Rightarrow>
          if \<not> is_allocation (fmt_operand tcx func) then Ok ud
          else res_bind (unwrap (local_from_dest destination)) (\<lambda>func_local.
            let func_id = ud_unique_id ud func_local loc None in
            res_bind (tr func_id
                (ud\<lparr>ud_current_allocation := Some func_id,
                    ud_vertices := fx_insert func_id (ud_vertices ud)\<rparr>))
              (\<lambda>ud'. Ok (ud'\<lparr>ud_current_allocation := None\<rparr>)))
      | _ \<Rightarrow> Ok ud)"

definition visit_local :: "tracer \<Rightarrow> nat \<Rightarrow> location \<Rightarrow> use_def \<Rightarrow> use_def res" where
  "visit_local tr local loc ud =
     res_bind (local_kind (ud_body ud) local) (\<lambda>kind.
       if kind \<noteq> Arg then Ok ud
       else (case ud_arg_id ud of
         None \<Rightarrow> Ok ud
       | Some old_arg_id \<Rightarrow>
           res_bind (unwrap (ud_arg_index ud)) (\<lambda>arg_index.
             if arg_index \<noteq> local - 1 then Ok ud
             else let new_arg_id = ud_unique_id ud local loc (uid_field old_arg_id);
                      ud' = connect old_arg_id new_arg_id ud
                  in tr new_arg_id (ud'\<lparr>ud_vertices := fx_insert new_arg_id (ud_vertices ud')\<rparr>))))"

definition visit_block :: "tcx \<Rightarrow> tracer \<Rightarrow> nat \<times> basic_block_data \<Rightarrow> use_def \<Rightarrow> use_def res" where
  "visit_block tcx tr = (\<lambda>(block, d) ud.
     res_bind
       (res_for (enumerate 0 (statements d))
          (\<lambda>(i, s). res_for (super_statement (stmt_kind s))
             (\<lambda>(l, ctx). visit_local tr l \<lparr>loc_block = block, loc_statement_index = i\<rparr>)) ud)
       (\<lambda>ud'. case terminator d of
          None \<Rightarrow> Ok ud'
        | Some t \<Rightarrow>
            visit_terminator tcx tr t
              \<lparr>loc_block = block, loc_statement_index = length (statements d)\<rparr> ud'))"

definition ud_perform :: "tcx \<Rightarrow> tracer \<Rightarrow> use_def \<Rightarrow> use_def res" where
  "ud_perform tcx tr ud =
     res_bind (tm_perform (ord_pairs tcx) (ud_transaction_map ud)) (\<lambda>tm.
       res_for (enumerate 0 (basic_blocks (ud_body ud))) (visit_block tcx tr)
         (ud\<lparr>ud_transaction_map := tm\<rparr>))"

text \<open>What the caller takes over from the visitor of a callee. The entries of a map are distinct,
  so the order in which they are taken over is immaterial.\<close>

definition merge_child :: "use_def \<Rightarrow> use_def \<Rightarrow> use_def" where
  "merge_child child ud =
     ud\<lparr>ud_transaction_map := (ud_transaction_map ud)\<lparr>terminator_to_tx :=
          fold (\<lambda>(t, txs). fx_put t txs) (terminator_to_tx (ud_transaction_map child))
            (terminator_to_tx (ud_transaction_map ud))\<rparr>,
        ud_edges := fold (\<lambda>(l, us). fx_entry l [] (\<lambda>s. fx_extend s us)) (ud_edges child) (ud_edges ud),
        ud_vertices := fx_extend (ud_vertices ud) (ud_vertices child),
        ud_allocation_set :=
          fold (\<lambda>(txs, allocs). fx_entry txs [] (\<lambda>s. fx_extend s allocs)) (ud_allocation_set child)
            (ud_allocation_set ud),
        ud_is_write := fold (\<lambda>(bid, w). fx_put bid w) (ud_is_write child) (ud_is_write ud)\<rparr>"

definition trace_function ::
    "tcx \<Rightarrow> tracer \<Rightarrow> unique_id \<Rightarrow> location \<Rightarrow> nat \<Rightarrow> def_id \<Rightarrow> nat \<Rightarrow> use_def \<Rightarrow> use_def res" where
  "trace_function tcx tr use_id loc fn_local fn_def_id arg_index ud =
     res_bind (mir_validated tcx fn_def_id) (\<lambda>fn_body.
       let fn_id = ud_unique_id ud fn_local loc None;
           tx_ids = fx_get (terminator_to_tx (ud_transaction_map ud)) fn_id;
           fn_arg_index = (case uid_field use_id of Some _ \<Rightarrow> Some 0 | None \<Rightarrow> Some arg_index);
           fn_tx_map = tm_new_child fn_def_id fn_body tx_ids (tcx_items tcx)
             (terminator_to_tx (ud_transaction_map ud))
       in res_bind (ud_new_child (Some use_id) fn_arg_index fn_body fn_def_id fn_tx_map ud) (\<lambda>fn_visitor.
          res_bind (ud_perform tcx tr fn_visitor) (\<lambda>child. Ok (merge_child child ud))))"

text \<open>One turn of the loop over the uses: the new state, and whether the loop goes on. A call of a
  function of another crate leaves the loop.\<close>

definition trace_use ::
    "nat \<Rightarrow> tcx \<Rightarrow> tracer \<Rightarrow> unique_id \<Rightarrow> location \<Rightarrow> use_def \<Rightarrow> (use_def \<times> bool) res" where
  "trace_use n tcx tr use_id loc ud =
     res_bind (location_to_use_kind tcx loc use_id (ud_body ud)) (\<lambda>use_kind.
       let go_on = (\<lambda>r. res_bind r (\<lambda>ud'. Ok (ud', True))) in
       case use_kind of
         None \<Rightarrow> Ok (ud, True)
       | Some (Local_use new_use_local) \<Rightarrow>
           go_on (follow n tcx tr use_id (ud_unique_id ud new_use_local loc None) ud)
       | Some (ClosureArg new_use_local operands) \<Rightarrow>
           go_on (res_for (enumerate 0 operands)
             (trace_closure_operand n tcx tr use_id loc new_use_local) ud)
       | Some (Read borrow_local) \<Rightarrow> go_on (trace_borrow False use_id borrow_local loc ud)
       | Some (Write borrow_local) \<Rightarrow> go_on (trace_borrow True use_id borrow_local loc ud)
       | Some (Function fn_local fn_def_id arg_index) \<Rightarrow>
           if krate fn_def_id \<noteq> LOCAL_CRATE then Ok (ud, False)
           else go_on (trace_function tcx tr use_id loc fn_local fn_def_id arg_index ud))"

fun trace_uses ::
    "nat \<Rightarrow> tcx \<Rightarrow> tracer \<Rightarrow> unique_id \<Rightarrow> location list \<Rightarrow> use_def \<Rightarrow> use_def res" where
  "trace_uses n tcx tr use_id [] ud = Ok ud"
| "trace_uses n tcx tr use_id (loc # locs) ud =
     res_bind (trace_use n tcx tr use_id loc ud) (\<lambda>(ud', go_on).
       if go_on then trace_uses n tcx tr use_id locs ud' else Ok ud')"

definition trace_step :: "nat \<Rightarrow> tcx \<Rightarrow> tracer \<Rightarrow> tracer" where
  "trace_step n tcx tr use_id ud =
     res_bind (local_info (ud_analysis ud) (uid_local use_id)) (\<lambda>info.
       trace_uses n tcx tr use_id
         (map use_location (filter (\<lambda>u. is_nonmutating_use (use_context u)) (defs_and_uses info))) ud)"

primrec trace :: "nat \<Rightarrow> tcx \<Rightarrow> tracer" where
  "trace 0 tcx = (\<lambda>use_id ud. Diverge)"
| "trace (Suc n) tcx = trace_step n tcx (trace n tcx)"

text \<open>The analysis of one function: \<open>UseDefVisitor::new(..).perform()\<close>.\<close>

definition analyze_function :: "nat \<Rightarrow> tcx \<Rightarrow> body \<Rightarrow> def_id \<Rightarrow> use_def res" where
  "analyze_function n tcx b did =
     res_bind (ud_new tcx b did) (ud_perform tcx (trace n tcx))"

end
