(* ===== verification/Use_Def_Props.thy ===== *)
theory Use_Def_Props
  imports Use_Def
begin

text \<open>
  Properties of use-def analysis: the bound of the model does not matter once a run has returned;
  following edges to their ends collects exactly the terminal uses, and never returns on a cycle;
  and what the analysis records is sound: every recorded transaction is a pair of a lock call and
  an unlock call, and every recorded object is the result of an allocation.
\<close>

section \<open>The bound does not matter\<close>

definition tracer_le :: "tracer \<Rightarrow> tracer \<Rightarrow> bool" where
  "tracer_le tr tr' \<longleftrightarrow> (\<forall>i ud. res_le (tr i ud) (tr' i ud))"

definition use_set_step ::
    "tcx \<Rightarrow> use_def \<Rightarrow> (unique_id list \<Rightarrow> transaction_use fxset res) \<Rightarrow> unique_id
     \<Rightarrow> transaction_use fxset \<Rightarrow> transaction_use fxset res" where
  "use_set_step tcx ud rec edge allocations =
     (case fx_get (ud_edges ud) edge of
        Some new_edges \<Rightarrow>
          res_bind (rec new_edges) (\<lambda>uses. Ok (fx_extend allocations (ord_uses tcx uses)))
      | None \<Rightarrow>
          res_bind (unwrap (fx_get (ud_is_write ud) edge)) (\<lambda>w.
            Ok (fx_insert \<lparr>tu_shared_object = edge, tu_is_write = w\<rparr> allocations)))"

lemma use_set_Suc:
  "use_set (Suc n) tcx ud es = res_for (ord_ids tcx es) (use_set_step tcx ud (use_set n tcx ud)) []"
  by (simp add: use_set_step_def [abs_def])

lemma use_set_step_le:
  "(\<And>es. res_le (r es) (r' es)) \<Longrightarrow> res_le (use_set_step tcx ud r e a) (use_set_step tcx ud r' e a)"
  unfolding use_set_step_def by (intro res_mono)

lemma use_set_le: "res_le (use_set n tcx ud es) (use_set (Suc n) tcx ud es)"
proof (induction n arbitrary: es)
  case 0
  show ?case by (simp add: res_le_def)
next
  case (Suc n)
  show ?case
    unfolding use_set_Suc [of "Suc n"] use_set_Suc [of n]
    by (intro res_mono use_set_step_le Suc.IH [unfolded use_set_Suc])
qed

lemma follow_le:
  "tracer_le tr tr' \<Longrightarrow> res_le (follow n tcx tr i j ud) (follow (Suc n) tcx tr' i j ud)"
  unfolding follow_def Let_def tracer_le_def by (intro res_mono use_set_le) simp

lemma closure_operand_le:
  assumes "tracer_le tr tr'"
  shows "res_le (trace_closure_operand n tcx tr i loc l x ud) (trace_closure_operand (Suc n) tcx tr' i loc l x ud)"
proof -
  obtain k oper where x: "x = (k, oper)" by force
  show ?thesis
    unfolding trace_closure_operand_def x prod.case Let_def
    by (intro res_mono follow_le [OF assms])
       (auto intro!: res_mono follow_le [OF assms] split: operand.split place_base.split place_elem.split)
qed

lemma visit_terminator_le:
  assumes "tracer_le tr tr'"
  shows "res_le (visit_terminator tcx tr t loc ud) (visit_terminator tcx tr' t loc ud)"
  unfolding visit_terminator_def Let_def
  using assms by (auto intro!: res_mono simp: tracer_le_def split: terminator_kind.split)

lemma visit_local_le:
  assumes "tracer_le tr tr'"
  shows "res_le (visit_local tr l loc ud) (visit_local tr' l loc ud)"
  unfolding visit_local_def Let_def
  using assms by (intro res_mono) (simp add: tracer_le_def)

lemma visit_block_le:
  assumes "tracer_le tr tr'"
  shows "res_le (visit_block tcx tr x ud) (visit_block tcx tr' x ud)"
proof -
  obtain n d where x: "x = (n, d)" by force
  show ?thesis
    unfolding visit_block_def x prod.case case_prod_beta
    by (intro res_mono visit_local_le [OF assms] visit_terminator_le [OF assms])
qed

lemma ud_perform_le:
  assumes "tracer_le tr tr'"
  shows "res_le (ud_perform tcx tr ud) (ud_perform tcx tr' ud)"
  unfolding ud_perform_def by (intro res_mono visit_block_le [OF assms])

lemma trace_use_le:
  assumes "tracer_le tr tr'"
  shows "res_le (trace_use n tcx tr i loc ud) (trace_use (Suc n) tcx tr' i loc ud)"
  unfolding trace_use_def Let_def trace_function_def
  by (intro res_mono)
     (auto intro!: res_mono follow_le [OF assms] closure_operand_le [OF assms] ud_perform_le [OF assms]
      split: use_kind.split)

lemma trace_uses_le:
  assumes "tracer_le tr tr'"
  shows "res_le (trace_uses n tcx tr i locs ud) (trace_uses (Suc n) tcx tr' i locs ud)"
proof (induction locs arbitrary: ud)
  case (Cons loc locs)
  show ?case
    unfolding trace_uses.simps case_prod_beta
    by (intro res_mono trace_use_le [OF assms] Cons.IH)
qed (simp add: res_le_refl)

lemma trace_le: "tracer_le (trace n tcx) (trace (Suc n) tcx)"
proof (induction n)
  case 0
  show ?case by (simp add: tracer_le_def res_le_def)
next
  case (Suc n)
  show ?case
    unfolding tracer_le_def trace.simps(2) [of "Suc n"] trace.simps(2) [of n] trace_step_def
    by (intro allI res_mono trace_uses_le [OF Suc.IH [unfolded trace.simps(2) trace_step_def]])
qed

text \<open>The bound of the model is immaterial: once the analysis of a function has returned or panicked
  within a bound, every larger bound gives the same outcome.\<close>

lemma analysis_bound_irrelevant:
  assumes "analyze_function n tcx b did \<noteq> Diverge" and "n \<le> m"
  shows "analyze_function m tcx b did = analyze_function n tcx b did"
proof -
  have "res_le (analyze_function k tcx b did) (analyze_function (Suc k) tcx b did)" for k
    unfolding analyze_function_def by (intro res_mono ud_perform_le trace_le)
  from res_le_chain [of "\<lambda>k. analyze_function k tcx b did", OF this assms(2)] assms(1)
  show ?thesis by (rule res_le_final)
qed

section \<open>Following edges to the terminal uses\<close>

text \<open>The graph of the recorded edges, and its terminal uses.\<close>

definition ud_succs :: "use_def \<Rightarrow> unique_id \<Rightarrow> unique_id list" where
  "ud_succs ud i = (case fx_get (ud_edges ud) i of None \<Rightarrow> [] | Some es \<Rightarrow> es)"

interpretation ue: list_graph "ud_succs ud" "set (fx_keys (ud_edges ud))" for ud
  by unfold_locales (simp, simp add: ud_succs_def set_fx_keys)

lemma ue_edge: "ue.edge ud = fx_rel (ud_edges ud)"
  unfolding ue.edge_def fx_rel_get_default ud_succs_def ..

text \<open>A terminal use has no outgoing edges and is known to be a read or a write.\<close>

definition terminal_uses :: "use_def \<Rightarrow> unique_id set \<Rightarrow> transaction_use set" where
  "terminal_uses ud S =
     {u. tu_shared_object u \<in> S \<and> fx_get (ud_edges ud) (tu_shared_object u) = None \<and>
         fx_get (ud_is_write ud) (tu_shared_object u) = Some (tu_is_write u)}"

definition ends_known :: "use_def \<Rightarrow> unique_id set \<Rightarrow> bool" where
  "ends_known ud S \<longleftrightarrow>
     (\<forall>i \<in> S. fx_get (ud_edges ud) i = None \<longrightarrow> fx_get (ud_is_write ud) i \<noteq> None)"

lemma reach_image_succs:
  assumes "fx_get (ud_edges ud) i = Some es"
  shows "(ue.edge ud)\<^sup>* `` {i} = insert i ((ue.edge ud)\<^sup>* `` set es)"
proof -
  have "ue.edge ud `` {i} = set es" using assms by (simp add: ue.edge_image ud_succs_def)
  moreover have "(ue.edge ud)\<^sup>* `` {i} = insert i ((ue.edge ud)\<^sup>* `` (ue.edge ud `` {i}))"
    by (auto elim: converse_rtranclE intro: converse_rtrancl_into_rtrancl)
  ultimately show ?thesis by simp
qed

lemma reach_no_edges:
  assumes "fx_get (ud_edges ud) i = None"
  shows "(ue.edge ud)\<^sup>* `` {i} = {i}"
  using assms by (auto simp: ue.edge_iff ud_succs_def elim: converse_rtranclE)

lemma terminal_uses_Un: "terminal_uses ud (S \<union> T) = terminal_uses ud S \<union> terminal_uses ud T"
  by (auto simp: terminal_uses_def)

lemma terminal_uses_insert_inner:
  "fx_get (ud_edges ud) i = Some es \<Longrightarrow> terminal_uses ud (insert i S) = terminal_uses ud S"
  by (auto simp: terminal_uses_def)

text \<open>What the search gives: the terminal uses if their modes are all recorded, and otherwise the
  panic of \<open>unwrap\<close> on a missing mode.\<close>

definition finds :: "use_def \<Rightarrow> unique_id set \<Rightarrow> transaction_use list \<Rightarrow> transaction_use list res \<Rightarrow> bool" where
  "finds ud S acc r \<longleftrightarrow>
     (if ends_known ud S then \<exists>uses. r = Ok uses \<and> set uses = set acc \<union> terminal_uses ud S
      else r = Panic Unwrap_None)"

lemma ends_known_Un: "ends_known ud (S \<union> T) \<longleftrightarrow> ends_known ud S \<and> ends_known ud T"
  unfolding ends_known_def by blast

lemma finds_bind:
  assumes "finds ud S acc r" and "\<And>acc'. set acc' = set acc \<union> terminal_uses ud S \<Longrightarrow> finds ud T acc' (f acc')"
  shows "finds ud (S \<union> T) acc (res_bind r f)"
proof (cases "ends_known ud S")
  case True
  with assms(1) obtain acc' where acc': "r = Ok acc'" "set acc' = set acc \<union> terminal_uses ud S"
    by (auto simp: finds_def)
  from assms(2) [OF acc'(2)] show ?thesis
    using True acc' by (auto simp: finds_def ends_known_Un terminal_uses_Un)
qed (use assms(1) in \<open>simp add: finds_def ends_known_Un\<close>)

lemma finds_step:
  assumes ords: "tcx_orders_ok tcx"
    and inner: "\<And>new. fx_get (ud_edges ud) e = Some new \<Longrightarrow> finds ud ((ue.edge ud)\<^sup>* `` set new) [] (search new)"
  shows "finds ud ((ue.edge ud)\<^sup>* `` {e}) acc (use_set_step tcx ud search e acc)"
proof (cases "fx_get (ud_edges ud) e")
  case None
  have "terminal_uses ud {e} = {\<lparr>tu_shared_object = e, tu_is_write = w\<rparr>}" if "fx_get (ud_is_write ud) e = Some w" for w
    using None that by (auto simp: terminal_uses_def intro: transaction_use.equality)
  then show ?thesis
    using None by (cases "fx_get (ud_is_write ud) e")
      (simp_all add: finds_def ends_known_def use_set_step_def reach_no_edges unwrap_def)
next
  case (Some new)
  let ?S = "(ue.edge ud)\<^sup>* `` set new"
  have known: "ends_known ud (insert e ?S) \<longleftrightarrow> ends_known ud ?S" using Some by (auto simp: ends_known_def)
  show ?thesis
    using inner [OF Some] ords Some unfolding reach_image_succs [OF Some]
    by (auto simp: finds_def known terminal_uses_insert_inner [OF Some] use_set_step_def tcx_orders_ok_def iter_order_set)
qed

text \<open>On an edge with an acyclic future the search needs no more bound than the height of that
  future; the bound is given by any function that decreases along edges.\<close>

lemma use_set_finds:
  assumes ords: "tcx_orders_ok tcx" and rank: "\<And>i j. (i, j) \<in> ue.edge ud \<Longrightarrow> rank j < (rank i :: nat)"
    and "0 < n" "\<forall>e \<in> set es. Suc (rank e) < n"
  shows "finds ud ((ue.edge ud)\<^sup>* `` set es) [] (use_set n tcx ud es)"
  using assms(3-)
proof (induction n arbitrary: es)
  case (Suc n)
  let ?E = "ue.edge ud"
  have "finds ud (?E\<^sup>* `` set xs) acc (res_for xs (use_set_step tcx ud (use_set n tcx ud)) acc)"
    if "\<forall>e \<in> set xs. rank e < n" for xs acc
    using that
  proof (induction xs arbitrary: acc)
    case (Cons e xs)
    have split: "?E\<^sup>* `` set (e # xs) = ?E\<^sup>* `` {e} \<union> ?E\<^sup>* `` set xs" by auto
    have "finds ud (?E\<^sup>* `` set new) [] (use_set n tcx ud new)" if new: "fx_get (ud_edges ud) e = Some new" for new
    proof (rule Suc.IH)
      have "(e, j) \<in> ?E" if "j \<in> set new" for j using that new by (simp add: ue.edge_iff ud_succs_def)
      then show "\<forall>j \<in> set new. Suc (rank j) < n" "0 < n" using rank Cons.prems by (fastforce, fastforce)
    qed
    from finds_step [OF ords this] Cons.IH Cons.prems show ?case
      unfolding split by (simp add: finds_bind)
  qed (simp add: finds_def ends_known_def terminal_uses_def)
  from this [of "ord_ids tcx es" "[]"] Suc.prems ords show ?case
    unfolding use_set_Suc by (simp add: tcx_orders_ok_def iter_order_set)
qed simp

text \<open>In an acyclic graph the number of nodes below an edge decreases along edges.\<close>

lemma acyclic_rank:
  assumes "acyclic E" and "\<And>i. finite (E\<^sup>+ `` {i})" and "(i, j) \<in> E"
  shows "card (E\<^sup>+ `` {j}) < card (E\<^sup>+ `` {i})"
proof (rule psubset_card_mono [OF assms(2)])
  have "j \<in> E\<^sup>+ `` {i}" using assms(3) by auto
  moreover have "j \<notin> E\<^sup>+ `` {j}" using assms(1) by (simp add: acyclic_def)
  moreover have "E\<^sup>+ `` {j} \<subseteq> E\<^sup>+ `` {i}" using assms(3) by (auto intro: trancl_into_trancl2)
  ultimately show "E\<^sup>+ `` {j} \<subset> E\<^sup>+ `` {i}" by blast
qed

text \<open>(C14) Following edges that form no cycle: with a large enough bound the search ends, for every
  iteration order. If the mode of every terminal use below the given edges is recorded
  (\<open>ends_known\<close>), it returns exactly these terminal uses, each with its recorded mode; if the mode of
  one of them is missing, the \<open>unwrap\<close> on it panics.\<close>

theorem use_set_collects_terminal_uses:
  assumes "tcx_orders_ok tcx" and "acyclic (ue.edge ud)"
  shows "\<exists>n. \<forall>m \<ge> n.
    (ends_known ud ((ue.edge ud)\<^sup>* `` set es) \<longrightarrow>
       (\<exists>uses. use_set m tcx ud es = Ok uses \<and> set uses = terminal_uses ud ((ue.edge ud)\<^sup>* `` set es))) \<and>
    (\<not> ends_known ud ((ue.edge ud)\<^sup>* `` set es) \<longrightarrow> use_set m tcx ud es = Panic Unwrap_None)"
proof -
  let ?E = "ue.edge ud"
  define rank where "rank i = card (?E\<^sup>+ `` {i})" for i
  have fin: "finite (?E\<^sup>+ `` {i})" for i
    using ue.finite_reach [of ud i] by (rule finite_subset [rotated]) (auto simp: trancl_into_rtrancl)
  have dec: "rank j < rank i" if "(i, j) \<in> ?E" for i j
    unfolding rank_def using assms(2) fin that by (rule acyclic_rank)
  obtain n where n: "\<forall>e \<in> set es. rank e < n"
    by (metis finite_imageI finite_nat_set_iff_bounded finite_set image_eqI)
  have "finds ud (?E\<^sup>* `` set es) [] (use_set m tcx ud es)" if "Suc n \<le> m" for m
    by (rule use_set_finds [OF assms(1) dec]) (use n that in fastforce)+
  then show ?thesis unfolding finds_def by (intro exI [of _ "Suc n"]) auto
qed

lemma use_set_paths_bounded:
  assumes ords: "tcx_orders_ok tcx"
  shows "use_set n tcx ud es = Ok uses \<Longrightarrow> e \<in> set es \<Longrightarrow> (e, k) \<in> ue.edge ud ^^ m \<Longrightarrow> m < n"
proof (induction n arbitrary: es uses e m)
  case (Suc n)
  show ?case
  proof (cases m)
    case (Suc m')
    then obtain j where j: "(e, j) \<in> ue.edge ud" "(j, k) \<in> ue.edge ud ^^ m'"
      using Suc.prems(3) by (metis relpow_Suc_D2)
    then obtain new where new: "fx_get (ud_edges ud) e = Some new" "j \<in> set new"
      by (cases "fx_get (ud_edges ud) e") (auto simp: ue.edge_iff ud_succs_def)
    have "e \<in> set (ord_ids tcx es)" using Suc.prems(2) ords by (simp add: tcx_orders_ok_def iter_order_set)
    then obtain xs ys where "ord_ids tcx es = xs @ e # ys" by (meson split_list)
    with Suc.prems(1) obtain acc acc' where "use_set_step tcx ud (use_set n tcx ud) e acc = Ok acc'"
      unfolding use_set_Suc by (auto simp: res_for_append res_simps)
    then obtain us where "use_set n tcx ud new = Ok us"
      using new(1) by (auto simp: use_set_step_def res_simps)
    from Suc.IH [OF this new(2) j(2)] Suc show ?thesis by simp
  qed simp
qed simp

text \<open>(C15) On a cycle the search never returns, whatever the bound: an edge from which a cycle of
  recorded edges can be reached makes the analysis run without end.\<close>

theorem use_set_never_returns_on_cycle:
  assumes "tcx_orders_ok tcx" and "e \<in> set es" and "(e, k) \<in> (ue.edge ud)\<^sup>*" and "(k, k) \<in> (ue.edge ud)\<^sup>+"
  shows "use_set n tcx ud es \<noteq> Ok uses"
proof
  let ?E = "ue.edge ud"
  assume ok: "use_set n tcx ud es = Ok uses"
  have "\<exists>m \<ge> i. (k, k) \<in> ?E ^^ m" for i
  proof (induction i)
    case (Suc i)
    then obtain m where m: "i \<le> m" "(k, k) \<in> ?E ^^ m" by blast
    obtain c where c: "0 < c" "(k, k) \<in> ?E ^^ c" using assms(4) by (auto simp: trancl_power)
    have "(k, k) \<in> ?E ^^ (m + c)" using m(2) c(2) by (auto simp: relpow_add)
    with m(1) c(1) show ?case by (intro exI [of _ "m + c"]) simp
  qed (auto intro: exI [of _ 0])
  then obtain m where m: "n \<le> m" "(k, k) \<in> ?E ^^ m" by blast
  obtain a where a: "(e, k) \<in> ?E ^^ a" using assms(3) by (auto simp: rtrancl_power)
  have "(e, k) \<in> ?E ^^ (a + m)" using a m(2) by (auto simp: relpow_add)
  from use_set_paths_bounded [OF assms(1) ok assms(2) this] m(1) show False by simp
qed

section \<open>Steps of the analysis as a relation\<close>

text \<open>
  What holds of every step of the visitor holds of the whole recursion. The locale asks for a
  reflexive and transitive relation on visitor states that keeps the function under analysis and
  that every elementary step respects: recording an edge, a visited vertex, a borrow mode or an
  allocation, tracing from an allocation site, and taking over the results of a callee.
\<close>

locale trace_relation =
  fixes tcx :: tcx and R :: "use_def \<Rightarrow> use_def \<Rightarrow> bool"
  assumes R_refl: "R ud ud"
    and R_trans: "R ud ud' \<Longrightarrow> R ud' ud'' \<Longrightarrow> R ud ud''"
    and R_static: "R ud ud' \<Longrightarrow> ud_body ud' = ud_body ud \<and> ud_def_id ud' = ud_def_id ud"
    and R_connect: "R ud (connect i j ud)"
    and R_vertex: "R ud (ud\<lparr>ud_vertices := fx_insert i (ud_vertices ud)\<rparr>)"
    and R_write: "location_to_use_kind tcx loc use_id (ud_body ud) = Ok (Some (if w then Write l else Read l)) \<Longrightarrow>
      R ud (ud\<lparr>ud_is_write := fx_put (ud_unique_id ud l loc None) w (ud_is_write ud)\<rparr>)"
    and R_map: "map_allocation i ud = Ok ud' \<Longrightarrow> R ud ud'"
    and R_alloc: "n < length (basic_blocks (ud_body ud)) \<Longrightarrow>
      terminator (basic_blocks (ud_body ud) ! n) = Some t \<Longrightarrow> term_kind t = Call func args dest cleanup h \<Longrightarrow>
      is_allocation (fmt_operand tcx func) \<Longrightarrow> local_from_dest dest = Some l \<Longrightarrow>
      i = ud_unique_id ud l \<lparr>loc_block = n,
        loc_statement_index = length (statements (basic_blocks (ud_body ud) ! n))\<rparr> None \<Longrightarrow>
      R (ud\<lparr>ud_current_allocation := Some i, ud_vertices := vs\<rparr>) ud' \<Longrightarrow>
      R ud (ud'\<lparr>ud_current_allocation := None\<rparr>)"
    and R_child: "mir_validated tcx f = Ok b \<Longrightarrow>
      ud_new_child (Some i) ai b f (tm_new_child f b (fx_get (terminator_to_tx (ud_transaction_map ud)) j)
        (tcx_items tcx) (terminator_to_tx (ud_transaction_map ud))) ud = Ok c \<Longrightarrow>
      tm_perform (ord_pairs tcx) (ud_transaction_map c) = Ok tm \<Longrightarrow>
      R (c\<lparr>ud_transaction_map := tm\<rparr>) c' \<Longrightarrow> R ud (merge_child c' ud)"
begin

text \<open>An outcome leads somewhere from a state if it is related to the state whenever it is a
  result.\<close>

definition leads :: "use_def res \<Rightarrow> use_def \<Rightarrow> bool" where
  "leads r ud \<longleftrightarrow> (\<forall>ud'. r = Ok ud' \<longrightarrow> R ud ud')"

definition tracer_ok :: "tracer \<Rightarrow> bool" where
  "tracer_ok tr \<longleftrightarrow> (\<forall>i ud. leads (tr i ud) ud)"

lemma leads_Ok: "leads (Ok ud) ud"
  by (simp add: leads_def R_refl)

lemma leads_via: "R ud ud' \<Longrightarrow> leads r ud' \<Longrightarrow> leads r ud"
  unfolding leads_def using R_trans by blast

lemma leads_bind: "(\<And>x. r = Ok x \<Longrightarrow> leads (f x) ud) \<Longrightarrow> leads (res_bind r f) ud"
  by (cases r) (simp_all add: leads_def)

lemma leads_seq: "leads r ud \<Longrightarrow> (\<And>ud'. R ud ud' \<Longrightarrow> leads (f ud') ud') \<Longrightarrow> leads (res_bind r f) ud"
  by (rule leads_bind) (meson leads_def leads_via)

lemma leads_for_stable:
  "(\<And>x ud. x \<in> set xs \<Longrightarrow> R s ud \<Longrightarrow> leads (f x ud) ud) \<Longrightarrow> leads (res_for xs f s) s"
proof (induction xs arbitrary: s)
  case (Cons x xs)
  have "leads (f x s) s" using Cons.prems R_refl by simp
  moreover have "leads (res_for xs f ud) ud" if "R s ud" for ud
    by (rule Cons.IH) (meson Cons.prems R_trans list.set_intros(2) that)
  ultimately show ?case by (simp add: leads_seq)
qed (simp add: leads_Ok)

lemma leads_for: "(\<And>x ud. leads (f x ud) ud) \<Longrightarrow> leads (res_for xs f s) s"
  by (rule leads_for_stable)

lemma leads_if: "(b \<Longrightarrow> leads r ud) \<Longrightarrow> (\<not> b \<Longrightarrow> leads r' ud) \<Longrightarrow> leads (if b then r else r') ud"
  by simp

lemma leads_option:
  "(x = None \<Longrightarrow> leads r ud) \<Longrightarrow> (\<And>y. x = Some y \<Longrightarrow> leads (f y) ud) \<Longrightarrow> leads (case_option r f x) ud"
  by (cases x) simp_all

lemma leads_map: "leads (map_allocation i ud) ud"
  unfolding leads_def using R_map by blast

lemma leads_visit:
  "tracer_ok tr \<Longrightarrow> leads (tr i (ud\<lparr>ud_vertices := fx_insert i (ud_vertices ud)\<rparr>)) ud"
  by (rule leads_via [OF R_vertex [of ud i]]) (simp add: tracer_ok_def)

lemma leads_follow:
  assumes "tracer_ok tr"
  shows "leads (follow n tcx tr i j ud) ud"
  unfolding follow_def Let_def
  by (rule leads_via [OF R_connect [of ud i j]])
     (intro leads_if leads_visit [OF assms] leads_bind leads_for leads_map)

lemma leads_closure_operand:
  assumes "tracer_ok tr"
  shows "leads (trace_closure_operand n tcx tr i loc l x ud) ud"
proof -
  obtain k oper where x: "x = (k, oper)" by force
  show ?thesis
    unfolding trace_closure_operand_def x prod.case Let_def
  proof (intro leads_option leads_if leads_Ok leads_follow [OF assms])
    fix use_field
    let ?f = "\<lambda>elem ud'. case elem of
        Field field _ \<Rightarrow> if field = use_field
          then follow n tcx tr i (ud_unique_id ud l loc (Some k)) ud' else Ok ud'
      | _ \<Rightarrow> Ok ud'"
    have "leads (?f elem ud') ud'" for elem ud'
      by (cases elem) (simp_all add: leads_Ok leads_follow [OF assms])
    then have "leads (res_for es ?f ud) ud" for es by (rule leads_for)
    then show "leads (case oper of Move p \<Rightarrow> (case place_base p of
          Local op_local \<Rightarrow> if op_local \<noteq> uid_local i then Ok ud else res_for (place_projection p) ?f ud
        | Static _ _ \<Rightarrow> Ok ud) | _ \<Rightarrow> Ok ud) ud"
      by (simp add: leads_Ok split: operand.split place_base.split)
  qed
qed

lemma leads_borrow:
  assumes "location_to_use_kind tcx loc use_id (ud_body ud) = Ok (Some (if w then Write l else Read l))"
  shows "leads (trace_borrow w i l loc ud) ud"
proof -
  let ?id = "ud_unique_id ud l loc None"
  have "leads (Ok ((connect i ?id v)\<lparr>ud_vertices := fx_insert ?id (ud_vertices (connect i ?id v))\<rparr>)) v" for v
    using leads_via [OF R_connect leads_via [OF R_vertex leads_Ok]] .
  then show ?thesis
    unfolding trace_borrow_def Let_def
    by (intro leads_via [OF R_write [OF assms] leads_seq [OF leads_map]])
qed

lemma leads_visit_local:
  assumes "tracer_ok tr"
  shows "leads (visit_local tr l loc ud) ud"
proof -
  have "leads (tr j ((connect i j ud)\<lparr>ud_vertices := fx_insert j (ud_vertices (connect i j ud))\<rparr>)) ud" for i j
    by (rule leads_via [OF R_connect leads_visit [OF assms]])
  then show ?thesis
    unfolding visit_local_def Let_def by (intro leads_bind leads_if leads_option leads_Ok)
qed

lemma leads_visit_terminator:
  assumes "tracer_ok tr" and "n < length (basic_blocks (ud_body ud))"
    and "terminator (basic_blocks (ud_body ud) ! n) = Some t"
  shows "leads (visit_terminator tcx tr t \<lparr>loc_block = n,
    loc_statement_index = length (statements (basic_blocks (ud_body ud) ! n))\<rparr> ud) ud"
proof (cases "term_kind t")
  case (Call func args dest cleanup h)
  let ?loc = "\<lparr>loc_block = n, loc_statement_index = length (statements (basic_blocks (ud_body ud) ! n))\<rparr>"
  show ?thesis
    unfolding visit_terminator_def Call terminator_kind.case Let_def
  proof (intro leads_if leads_Ok leads_bind)
    fix l ud'
    assume new: "\<not> \<not> is_allocation (fmt_operand tcx func)" and l: "unwrap (local_from_dest dest) = Ok l"
    let ?i = "ud_unique_id ud l ?loc None"
    assume "tr ?i (ud\<lparr>ud_current_allocation := Some ?i, ud_vertices := fx_insert ?i (ud_vertices ud)\<rparr>) = Ok ud'"
    then have "R (ud\<lparr>ud_current_allocation := Some ?i, ud_vertices := fx_insert ?i (ud_vertices ud)\<rparr>) ud'"
      using assms(1) unfolding tracer_ok_def leads_def by blast
    from R_alloc [OF assms(2,3) Call _ _ refl this] new l
    have "R ud (ud'\<lparr>ud_current_allocation := None\<rparr>)" by (simp add: res_simps)
    then show "leads (Ok (ud'\<lparr>ud_current_allocation := None\<rparr>)) ud" by (simp add: leads_def)
  qed
qed (simp_all add: visit_terminator_def leads_Ok)

lemma leads_visit_block:
  assumes tr: "tracer_ok tr" and n: "n < length (basic_blocks (ud_body ud))"
  shows "leads (visit_block tcx tr (n, basic_blocks (ud_body ud) ! n) ud) ud"
proof -
  let ?d = "basic_blocks (ud_body ud) ! n"
  have "leads (visit_terminator tcx tr t \<lparr>loc_block = n, loc_statement_index = length (statements ?d)\<rparr> ud') ud'"
    if "R ud ud'" "terminator ?d = Some t" for ud' t
    using leads_visit_terminator [OF tr, of n ud' t] n that R_static [OF that(1)] by simp
  then have "leads (case terminator ?d of None \<Rightarrow> Ok ud' | Some t \<Rightarrow> visit_terminator tcx tr t
      \<lparr>loc_block = n, loc_statement_index = length (statements ?d)\<rparr> ud') ud'" if "R ud ud'" for ud'
    using that by (intro leads_option leads_Ok)
  moreover have "leads (res_for (enumerate 0 (statements ?d)) (\<lambda>(i, s).
      res_for (super_statement (stmt_kind s))
        (\<lambda>(l, ctx). visit_local tr l \<lparr>loc_block = n, loc_statement_index = i\<rparr>)) ud) ud"
    unfolding case_prod_beta by (intro leads_for leads_visit_local [OF tr])
  ultimately show ?thesis
    unfolding visit_block_def prod.case by (intro leads_seq)
qed

lemma leads_perform:
  assumes tr: "tracer_ok tr" and "ud_perform tcx tr ud = Ok ud'"
  shows "\<exists>tm. tm_perform (ord_pairs tcx) (ud_transaction_map ud) = Ok tm \<and>
    R (ud\<lparr>ud_transaction_map := tm\<rparr>) ud'"
proof -
  obtain tm where tm: "tm_perform (ord_pairs tcx) (ud_transaction_map ud) = Ok tm"
    "res_for (enumerate 0 (basic_blocks (ud_body ud))) (visit_block tcx tr)
       (ud\<lparr>ud_transaction_map := tm\<rparr>) = Ok ud'"
    using assms(2) by (auto simp: ud_perform_def res_simps)
  have "leads (res_for (enumerate 0 (basic_blocks (ud_body ud))) (visit_block tcx tr)
       (ud\<lparr>ud_transaction_map := tm\<rparr>)) (ud\<lparr>ud_transaction_map := tm\<rparr>)"
  proof (rule leads_for_stable)
    fix x ud'' assume "x \<in> set (enumerate 0 (basic_blocks (ud_body ud)))"
      and "R (ud\<lparr>ud_transaction_map := tm\<rparr>) ud''"
    moreover from this(2) have "ud_body ud'' = ud_body ud" using R_static by fastforce
    ultimately show "leads (visit_block tcx tr x ud'') ud''"
      using leads_visit_block [OF tr, of _ ud''] unfolding set_enumerate_nth by auto
  qed
  with tm show ?thesis unfolding leads_def by blast
qed

lemma leads_function:
  assumes "tracer_ok tr"
  shows "leads (trace_function tcx tr i loc l f a ud) ud"
  unfolding trace_function_def Let_def
proof (intro leads_bind)
  fix b c c'
  assume b: "mir_validated tcx f = Ok b" and perform: "ud_perform tcx tr c = Ok c'"
    and c: "ud_new_child (Some i) (case uid_field i of None \<Rightarrow> Some a | Some _ \<Rightarrow> Some 0) b f
      (tm_new_child f b (fx_get (terminator_to_tx (ud_transaction_map ud)) (ud_unique_id ud l loc None))
        (tcx_items tcx) (terminator_to_tx (ud_transaction_map ud))) ud = Ok c"
  from leads_perform [OF assms perform] R_child [OF b c] show "leads (Ok (merge_child c' ud)) ud"
    unfolding leads_def by blast
qed

lemma trace_use_R:
  assumes "tracer_ok tr" and "trace_use n tcx tr i loc ud = Ok (ud', go_on)"
  shows "R ud ud'"
proof -
  have go: "R ud ud'" if "leads r ud" "res_bind r (\<lambda>v. Ok (v, True)) = Ok (ud', go_on)" for r
    using that by (auto simp: leads_def res_simps)
  obtain k where k: "location_to_use_kind tcx loc i (ud_body ud) = Ok k"
    using assms(2) by (auto simp: trace_use_def res_simps)
  show ?thesis
  proof (cases k)
    case None
    with assms(2) k show ?thesis by (simp add: trace_use_def R_refl)
  next
    case (Some uk)
    have read: "leads (trace_borrow False i l loc ud) ud" if "uk = Read l" for l
      by (rule leads_borrow [where use_id = i]) (simp add: k Some that)
    have "write": "leads (trace_borrow True i l loc ud) ud" if "uk = Write l" for l
      by (rule leads_borrow [where use_id = i]) (simp add: k Some that)
    show ?thesis
      using assms(2) unfolding trace_use_def k Some
      by (cases uk)
         (auto simp: Let_def R_refl split: if_splits
          dest!: go [OF leads_follow [OF assms(1)]] go [OF read] go [OF "write"] go [OF leads_function [OF assms(1)]]
            go [OF leads_for [OF leads_closure_operand [OF assms(1)]]])
  qed
qed

lemma leads_uses:
  assumes "tracer_ok tr"
  shows "leads (trace_uses n tcx tr i locs ud) ud"
proof (induction locs arbitrary: ud)
  case (Cons loc locs)
  show ?case
    unfolding trace_uses.simps
  proof (rule leads_bind)
    fix x assume x: "trace_use n tcx tr i loc ud = Ok x"
    obtain ud' go_on where x': "x = (ud', go_on)" by force
    have "R ud ud'" using trace_use_R [OF assms] x x' by blast
    then show "leads (case x of (ud', go_on) \<Rightarrow> if go_on then trace_uses n tcx tr i locs ud' else Ok ud') ud"
      unfolding x' prod.case by (intro leads_if leads_via [OF _ Cons.IH] leads_via [OF _ leads_Ok])
  qed
qed (simp add: leads_Ok)

lemma trace_ok: "tracer_ok (trace n tcx)"
proof (induction n)
  case 0
  show ?case by (simp add: tracer_ok_def leads_def)
next
  case (Suc n)
  show ?case
    unfolding tracer_ok_def trace.simps trace_step_def
    by (intro allI leads_bind leads_uses [OF Suc.IH])
qed

theorem perform_R:
  assumes "ud_perform tcx (trace n tcx) ud = Ok ud'"
  shows "\<exists>tm. tm_perform (ord_pairs tcx) (ud_transaction_map ud) = Ok tm \<and>
    R (ud\<lparr>ud_transaction_map := tm\<rparr>) ud'"
  using trace_ok assms by (rule leads_perform)

end

section \<open>What is recorded is sound\<close>

text \<open>An identifier names a call: the function it belongs to has, at the identifier's location, a
  call terminator with the identifier's local as destination and a callee with a property.\<close>

definition site_in :: "body \<Rightarrow> (operand \<Rightarrow> bool) \<Rightarrow> unique_id \<Rightarrow> bool" where
  "site_in b P i =
     (loc_block (uid_location i) < length (basic_blocks b) \<and>
      (let d = basic_blocks b ! loc_block (uid_location i) in
       loc_statement_index (uid_location i) = length (statements d) \<and>
       (case terminator d of
          None \<Rightarrow> False
        | Some t \<Rightarrow>
            (case term_kind t of
               Call func _ dest _ _ \<Rightarrow> local_from_dest dest = Some (uid_local i) \<and> P func
             | _ \<Rightarrow> False))))"

definition call_site :: "tcx \<Rightarrow> (operand \<Rightarrow> bool) \<Rightarrow> unique_id \<Rightarrow> bool" where
  "call_site tcx P i = (case mir_validated tcx (uid_def_id i) of Ok b \<Rightarrow> site_in b P i | _ \<Rightarrow> False)"

definition calls_fn :: "def_id option \<Rightarrow> operand \<Rightarrow> bool" where
  "calls_fn d func =
     (case func of
        Constant c \<Rightarrow> (case lit_ty (const_literal c) of FnDef f _ \<Rightarrow> Some f = d | _ \<Rightarrow> False)
      | _ \<Rightarrow> False)"

definition lock_site :: "tcx \<Rightarrow> unique_id \<Rightarrow> bool" where
  "lock_site tcx = call_site tcx (calls_fn (transaction_lock (tcx_items tcx)))"

definition unlock_site :: "tcx \<Rightarrow> unique_id \<Rightarrow> bool" where
  "unlock_site tcx = call_site tcx (calls_fn (transaction_unlock (tcx_items tcx)))"

definition allocation_site :: "tcx \<Rightarrow> unique_id \<Rightarrow> bool" where
  "allocation_site tcx = call_site tcx (\<lambda>func. is_allocation (fmt_operand tcx func))"

definition borrow_name :: "bool \<Rightarrow> string \<Rightarrow> bool" where
  "borrow_name w s = (if w then is_write s \<or> is_tree_add s else is_read s \<or> is_tree_find s)"

definition borrow_site :: "tcx \<Rightarrow> bool \<Rightarrow> unique_id \<Rightarrow> bool" where
  "borrow_site tcx w = call_site tcx (\<lambda>func. borrow_name w (fmt_operand tcx func))"

definition tx_good :: "tcx \<Rightarrow> unique_id \<times> unique_id \<Rightarrow> bool" where
  "tx_good tcx tx \<longleftrightarrow> lock_site tcx (fst tx) \<and> unlock_site tcx (snd tx)"

definition tm_good :: "tcx \<Rightarrow> transaction_map \<Rightarrow> bool" where
  "tm_good tcx tm \<longleftrightarrow>
     mir_validated tcx (tm_def_id tm) = Ok (tm_body tm) \<and>
     lock_def_id tm = transaction_lock (tcx_items tcx) \<and>
     unlock_def_id tm = transaction_unlock (tcx_items tcx) \<and>
     pred_option (lock_site tcx) (transaction_id tm) \<and>
     fx_all (\<lambda>l u. tx_good tcx (l, u)) (lock_to_unlock tm) \<and>
     fx_all (\<lambda>_. tx_good tcx) (terminator_to_tx tm)"

lemma site_inI:
  assumes "n < length (basic_blocks b)" "terminator (basic_blocks b ! n) = Some t"
    "term_kind t = Call func args dest u h" "local_from_dest dest = Some l" "P func"
    "uid_local i = l" "uid_location i = \<lparr>loc_block = n, loc_statement_index = length (statements (basic_blocks b ! n))\<rparr>"
  shows "site_in b P i"
  using assms by (simp add: site_in_def Let_def)

lemma tm_visit_call_good:
  assumes good: "tm_good tcx tm" and n: "n < length (basic_blocks (tm_body tm))"
    and t: "terminator (basic_blocks (tm_body tm) ! n) = Some t" "term_kind t = Call (Constant c) args dest u h"
      "lit_ty (const_literal c) = FnDef f substs"
    and visit: "tm_visit_call f dest \<lparr>loc_block = n,
      loc_statement_index = length (statements (basic_blocks (tm_body tm) ! n))\<rparr> tm = Ok tm'"
  shows "tm_good tcx tm'"
proof -
  let ?id = "\<lambda>l. tm_unique_id tm l \<lparr>loc_block = n,
      loc_statement_index = length (statements (basic_blocks (tm_body tm) ! n))\<rparr>"
  have site: "call_site tcx P (?id l)" if "local_from_dest dest = Some l" "P (Constant c)" for P l
    using good that(2) site_inI [OF n t(1,2) that(1)]
    by (simp add: call_site_def tm_unique_id_def tm_good_def)
  have lock: "lock_site tcx (?id l)" if "local_from_dest dest = Some l" "lock_def_id tm = Some f" for l
    using good that t(3) unfolding lock_site_def by (intro site) (simp_all add: calls_fn_def tm_good_def)
  have unlock: "unlock_site tcx (?id l)" if "local_from_dest dest = Some l" "unlock_def_id tm = Some f" for l
    using good that t(3) unfolding unlock_site_def by (intro site) (simp_all add: calls_fn_def tm_good_def)
  have visited: "Ok tm' =
    (if lock_def_id tm = Some f then res_bind (unwrap (local_from_dest dest)) (\<lambda>l.
       Ok (tm\<lparr>transaction_id := Some (?id l)\<rparr>))
     else res_bind (unwrap (lock_def_id tm)) (\<lambda>_. res_bind (unwrap (unlock_def_id tm)) (\<lambda>x.
       case transaction_id tm of None \<Rightarrow> Ok tm
       | Some k \<Rightarrow>
           if f = x then res_bind (unwrap (local_from_dest dest)) (\<lambda>l.
             Ok (tm\<lparr>lock_to_unlock := fx_put k (?id l) (lock_to_unlock tm), transaction_id := None\<rparr>))
           else (case local_from_dest dest of None \<Rightarrow> Ok tm
             | Some l \<Rightarrow> Ok (tm\<lparr>terminator_to_lock := fx_put (?id l) k (terminator_to_lock tm)\<rparr>)))))"
    unfolding visit [symmetric] tm_visit_call_def
    by (cases "lock_def_id tm"; cases "unlock_def_id tm"; cases "transaction_id tm") simp_all
  consider l where "local_from_dest dest = Some l" "lock_def_id tm = Some f"
      "tm' = tm\<lparr>transaction_id := Some (?id l)\<rparr>"
    | l k where "local_from_dest dest = Some l" "unlock_def_id tm = Some f" "transaction_id tm = Some k"
      "tm' = tm\<lparr>lock_to_unlock := fx_put k (?id l) (lock_to_unlock tm), transaction_id := None\<rparr>"
    | m where "tm' = tm\<lparr>terminator_to_lock := m\<rparr>"
    | "tm' = tm"
  proof (cases "lock_def_id tm = Some f")
    case True
    with visited obtain l where "local_from_dest dest = Some l" "tm' = tm\<lparr>transaction_id := Some (?id l)\<rparr>"
      by (cases "local_from_dest dest") simp_all
    with True show ?thesis using that(1) by blast
  next
    case False
    with visited obtain x where x: "unlock_def_id tm = Some x"
      by (cases "lock_def_id tm"; cases "unlock_def_id tm") simp_all
    show ?thesis
    proof (cases "transaction_id tm")
      case None
      with visited False x have "tm' = tm" by (cases "lock_def_id tm") simp_all
      then show ?thesis by (rule that(4))
    next
      case k: (Some k)
      show ?thesis
      proof (cases "local_from_dest dest")
        case None
        with visited False x k have "tm' = tm" by (cases "lock_def_id tm"; cases "f = x") simp_all
        then show ?thesis by (rule that(4))
      next
        case l: (Some l)
        show ?thesis
        proof (cases "f = x")
          case True
          with visited False x k l
          have "tm' = tm\<lparr>lock_to_unlock := fx_put k (?id l) (lock_to_unlock tm), transaction_id := None\<rparr>"
            by (cases "lock_def_id tm") simp_all
          with True x k l show ?thesis using that(2) by blast
        next
          case ne: False
          with visited False x k l
          have "tm' = tm\<lparr>terminator_to_lock := fx_put (?id l) k (terminator_to_lock tm)\<rparr>"
            by (cases "lock_def_id tm") simp_all
          then show ?thesis by (rule that(3))
        qed
      qed
    qed
  qed
  then show ?thesis
  proof cases
    case (1 l)
    with good lock show ?thesis by (simp add: tm_good_def)
  next
    case (2 l k)
    with good have "tx_good tcx (k, ?id l)" using unlock by (simp add: tx_good_def tm_good_def)
    with 2 good show ?thesis by (simp add: tm_good_def fx_all_put)
  qed (use good in \<open>simp_all add: tm_good_def\<close>)
qed

lemma tm_visit_block_good:
  assumes "tm_good tcx tm" and "tm_visit_block n tm = Ok tm'"
  shows "tm_good tcx tm'"
proof -
  let ?d = "basic_blocks (tm_body tm) ! n"
  from assms(2) have n: "n < length (basic_blocks (tm_body tm))"
    by (auto simp: tm_visit_block_def res_simps)
  show ?thesis
  proof (cases "\<exists>t c args dest u h f substs. terminator ?d = Some t \<and>
      term_kind t = Call (Constant c) args dest u h \<and> lit_ty (const_literal c) = FnDef f substs")
    case True
    then obtain t c args dest u h f substs where t: "terminator ?d = Some t"
      "term_kind t = Call (Constant c) args dest u h" "lit_ty (const_literal c) = FnDef f substs"
      by blast
    with assms(2) n have "tm_visit_call f dest
        \<lparr>loc_block = n, loc_statement_index = length (statements ?d)\<rparr> tm = Ok tm'"
      by (simp add: tm_visit_block_def tm_visit_terminator_def)
    with assms(1) n t show ?thesis by (rule tm_visit_call_good)
  next
    case False
    then have "tm' = tm"
      using assms(2) n unfolding tm_visit_block_def tm_visit_terminator_def
      by (auto split: option.splits terminator_kind.splits operand.splits ty.splits)
    with assms(1) show ?thesis by simp
  qed
qed

lemma tm_resolve_good:
  assumes "tm_good tcx tm" and "tm_resolve p tm = Ok tm'"
  shows "tm_good tcx tm'"
proof -
  obtain t l where p: "p = (t, l)" by force
  with assms(2) obtain u where u: "fx_get (lock_to_unlock tm) l = Some u"
    "tm' = tm\<lparr>terminator_to_tx := fx_put t (l, u) (terminator_to_tx tm)\<rparr>"
    by (auto simp: tm_resolve_def res_simps)
  have "tx_good tcx (l, u)" using assms(1) fx_all_get [of "\<lambda>l u. tx_good tcx (l, u)", OF _ u(1)] by (simp add: tm_good_def)
  with assms(1) u(2) show ?thesis by (simp add: tm_good_def fx_all_put)
qed

lemma tm_perform_good:
  assumes "tm_good tcx tm" and "tm_perform ord tm = Ok tm'"
  shows "tm_good tcx tm'"
proof -
  obtain v where v: "res_for (ord (terminator_to_lock v)) tm_resolve v = Ok tm'"
    "v = tm \<or> (\<exists>R. res_for R tm_visit_block tm = Ok v)"
    using assms(2) by (auto simp: tm_perform_def res_simps split: if_splits)
  have "tm_good tcx v"
    using v(2) assms(1) res_for_invariant [of _ tm_visit_block tm v "tm_good tcx"] tm_visit_block_good by blast
  with v(1) show ?thesis
    using res_for_invariant [of _ tm_resolve v tm' "tm_good tcx"] tm_resolve_good by blast
qed

text \<open>The invariant of the visitor: what it knows of transactions, borrows and allocations comes
  from calls of the right functions.\<close>

definition uses_good :: "tcx \<Rightarrow> unique_id \<times> unique_id \<Rightarrow> transaction_use fxset \<Rightarrow> bool" where
  "uses_good tcx tx us \<longleftrightarrow>
     tx_good tcx tx \<and>
     (\<forall>u \<in> set us. allocation_site tcx (tu_shared_object u) \<and> (\<exists>b. borrow_site tcx (tu_is_write u) b))"

definition ud_good :: "tcx \<Rightarrow> use_def \<Rightarrow> bool" where
  "ud_good tcx ud \<longleftrightarrow>
     mir_validated tcx (ud_def_id ud) = Ok (ud_body ud) \<and>
     fx_all (\<lambda>_. tx_good tcx) (terminator_to_tx (ud_transaction_map ud)) \<and>
     pred_option (allocation_site tcx) (ud_current_allocation ud) \<and>
     fx_all (\<lambda>i w. borrow_site tcx w i) (ud_is_write ud) \<and>
     fx_all (uses_good tcx) (ud_allocation_set ud)"

definition keeps_good :: "tcx \<Rightarrow> use_def \<Rightarrow> use_def \<Rightarrow> bool" where
  "keeps_good tcx ud ud' \<longleftrightarrow>
     ud_body ud' = ud_body ud \<and> ud_def_id ud' = ud_def_id ud \<and> (ud_good tcx ud \<longrightarrow> ud_good tcx ud')"

lemma borrow_is_site:
  assumes "location_to_use_kind tcx loc use_id b = Ok (Some (if w then Write l else Read l))"
    and "uid_local i = l" "uid_location i = loc"
  shows "site_in b (\<lambda>func. borrow_name w (fmt_operand tcx func)) i"
proof -
  let ?d = "basic_blocks b ! loc_block loc"
  have n: "loc_block loc < length (basic_blocks b)" "\<not> loc_statement_index loc > length (statements ?d)"
    using assms(1) by (auto simp: location_to_use_kind_def Let_def split: if_splits)
  have stmt: "statement_use_kind use_id k \<noteq> Some (if w then Write l else Read l)" for k
    by (auto simp: statement_use_kind_def
        split: statement_kind.split option.split rvalue.split operand.split aggregate_kind.split)
  have len: "loc_statement_index loc = length (statements ?d)"
    using assms(1) n stmt by (auto simp: location_to_use_kind_def Let_def split: if_splits)
  obtain t where t: "terminator ?d = Some t"
    using assms(1) n len by (auto simp: location_to_use_kind_def Let_def res_simps)
  obtain func args dest c h where call: "term_kind t = Call func args dest c h"
    "call_use_kind tcx use_id func args dest = Ok (Some (if w then Write l else Read l))"
    using assms(1) n len t by (cases "term_kind t") (simp_all add: location_to_use_kind_def)
  have "local_from_dest dest = Some l \<and> borrow_name w (fmt_operand tcx func)"
    using call(2) unfolding call_use_kind_def Let_def
    by (cases w)
       (auto simp: borrow_name_def res_simps
          split: if_splits operand.splits ty.splits option.splits)
  with n(1) len t call(1) assms(2,3) show ?thesis by (simp add: site_in_def)
qed

lemma uses_good_extend:
  "uses_good tcx tx us \<Longrightarrow> uses_good tcx tx us' \<Longrightarrow> uses_good tcx tx (fx_extend us us')"
  by (auto simp: uses_good_def)

lemma map_allocation_good:
  assumes "map_allocation i ud = Ok ud'"
  shows "keeps_good tcx ud ud'"
proof (cases "fx_get (terminator_to_tx (ud_transaction_map ud)) i")
  case None
  with assms show ?thesis by (simp add: map_allocation_def keeps_good_def)
next
  case (Some tx)
  with assms obtain a w where a: "ud_current_allocation ud = Some a" "fx_get (ud_is_write ud) i = Some w"
    "ud' = ud\<lparr>ud_allocation_set := fx_entry tx [] (fx_insert \<lparr>tu_shared_object = a, tu_is_write = w\<rparr>)
       (ud_allocation_set ud)\<rparr>"
    by (auto simp: map_allocation_def res_simps)
  have "fx_all (uses_good tcx) (ud_allocation_set ud')" if good: "ud_good tcx ud"
  proof -
    have "tx_good tcx tx" "borrow_site tcx w i" "allocation_site tcx a"
      using good fx_all_get [of "\<lambda>_. tx_good tcx", OF _ Some]
        fx_all_get [of "\<lambda>i w. borrow_site tcx w i", OF _ a(2)] a(1)
      by (simp_all add: ud_good_def)
    then show ?thesis
      using good unfolding a(3)
      by (auto simp: ud_good_def uses_good_def intro!: fx_all_entry)
  qed
  with a(3) show ?thesis by (simp add: keeps_good_def ud_good_def)
qed

lemma merge_child_good:
  assumes "ud_good tcx c" and "ud_good tcx ud"
  shows "ud_good tcx (merge_child c ud)"
proof -
  have "fx_all (\<lambda>_. tx_good tcx) (fold (\<lambda>(t, txs). fx_put t txs) (terminator_to_tx (ud_transaction_map c))
      (terminator_to_tx (ud_transaction_map ud)))"
    using assms by (intro fx_all_fold) (auto simp: ud_good_def fx_all_def [of _ "terminator_to_tx _"] intro!: fx_all_put)
  moreover have "fx_all (\<lambda>i w. borrow_site tcx w i) (fold (\<lambda>(bid, w). fx_put bid w) (ud_is_write c) (ud_is_write ud))"
    using assms by (intro fx_all_fold) (auto simp: ud_good_def fx_all_def [of _ "ud_is_write c"] intro!: fx_all_put)
  moreover have "fx_all (uses_good tcx) (fold (\<lambda>(txs, allocs). fx_entry txs [] (\<lambda>s. fx_extend s allocs))
      (ud_allocation_set c) (ud_allocation_set ud))"
  proof (rule fx_all_fold)
    show "fx_all (uses_good tcx) (ud_allocation_set ud)" using assms(2) by (simp add: ud_good_def)
    fix e m assume e: "e \<in> set (ud_allocation_set c)" "fx_all (uses_good tcx) m"
    obtain tx us where x: "e = (tx, us)" by (cases e)
    have us: "uses_good tcx tx us"
      using assms(1) e(1) x by (auto simp: ud_good_def fx_all_def [of _ "ud_allocation_set c"])
    show "fx_all (uses_good tcx) ((\<lambda>(txs, allocs). fx_entry txs [] (\<lambda>s. fx_extend s allocs)) e m)"
      unfolding x prod.case
      by (rule fx_all_entry [OF e(2)]) (use us in \<open>auto simp: uses_good_def\<close>)
  qed
  ultimately show ?thesis using assms(2) unfolding ud_good_def merge_child_def by simp
qed

lemma child_good:
  assumes "ud_good tcx ud" and "mir_validated tcx f = Ok b"
    and "ud_new_child a ai b f (tm_new_child f b (fx_get (terminator_to_tx (ud_transaction_map ud)) j)
        (tcx_items tcx) (terminator_to_tx (ud_transaction_map ud))) ud = Ok c"
    and "tm_perform ord (ud_transaction_map c) = Ok tm"
  shows "ud_good tcx (c\<lparr>ud_transaction_map := tm\<rparr>)"
proof -
  let ?tm = "tm_new_child f b (fx_get (terminator_to_tx (ud_transaction_map ud)) j)
        (tcx_items tcx) (terminator_to_tx (ud_transaction_map ud))"
  have t2tx: "fx_all (\<lambda>_. tx_good tcx) (terminator_to_tx (ud_transaction_map ud))"
    using assms(1) by (simp add: ud_good_def)
  have "tx_good tcx tx" if "fx_get (terminator_to_tx (ud_transaction_map ud)) j = Some tx" for tx
    using fx_all_get [of "\<lambda>_. tx_good tcx", OF t2tx that] .
  then have "tm_good tcx ?tm"
    using assms(2) t2tx
    by (auto simp: tm_good_def tm_new_child_def tx_good_def fx_all_put split: option.split)
  moreover have "ud_transaction_map c = ?tm" using assms(3) by (auto simp: ud_new_child_def res_simps)
  ultimately have "tm_good tcx tm" using tm_perform_good [OF _ assms(4)] by simp
  then show ?thesis
    using assms(1-3) by (auto simp: ud_good_def tm_good_def ud_new_child_def res_simps)
qed

interpretation good: trace_relation tcx "keeps_good tcx" for tcx
proof
  fix ud :: use_def and loc use_id w l
  assume "location_to_use_kind tcx loc use_id (ud_body ud) = Ok (Some (if w then Write l else Read l))"
  then have "site_in (ud_body ud) (\<lambda>func. borrow_name w (fmt_operand tcx func)) (ud_unique_id ud l loc None)"
    by (rule borrow_is_site) (simp_all add: ud_unique_id_def)
  then have "borrow_site tcx w (ud_unique_id ud l loc None)" if "ud_good tcx ud"
    using that by (simp add: borrow_site_def call_site_def ud_good_def ud_unique_id_def)
  then show "keeps_good tcx ud (ud\<lparr>ud_is_write := fx_put (ud_unique_id ud l loc None) w (ud_is_write ud)\<rparr>)"
    unfolding keeps_good_def ud_good_def by (simp add: fx_all_put)
next
  fix n ud t func args dest cleanup h l i vs ud'
  assume n: "n < length (basic_blocks (ud_body ud))" "terminator (basic_blocks (ud_body ud) ! n) = Some t"
    "term_kind t = Call func args dest cleanup h" "is_allocation (fmt_operand tcx func)"
    "local_from_dest dest = Some l"
    and i: "i = ud_unique_id ud l \<lparr>loc_block = n,
      loc_statement_index = length (statements (basic_blocks (ud_body ud) ! n))\<rparr> None"
    and keeps: "keeps_good tcx (ud\<lparr>ud_current_allocation := Some i, ud_vertices := vs\<rparr>) ud'"
  have "allocation_site tcx i" if "ud_good tcx ud"
    using that n by (simp add: i allocation_site_def call_site_def ud_good_def ud_unique_id_def site_in_def)
  with keeps show "keeps_good tcx ud (ud'\<lparr>ud_current_allocation := None\<rparr>)"
    unfolding keeps_good_def ud_good_def by simp
next
  fix f b i ai ud j c tm c'
  assume c: "mir_validated tcx f = Ok b"
    "ud_new_child (Some i) ai b f (tm_new_child f b (fx_get (terminator_to_tx (ud_transaction_map ud)) j)
      (tcx_items tcx) (terminator_to_tx (ud_transaction_map ud))) ud = Ok c"
    "tm_perform (ord_pairs tcx) (ud_transaction_map c) = Ok tm" and "keeps_good tcx (c\<lparr>ud_transaction_map := tm\<rparr>) c'"
  then have "ud_good tcx c'" if "ud_good tcx ud" using child_good [OF that c] by (simp add: keeps_good_def)
  then have "ud_good tcx (merge_child c' ud)" if "ud_good tcx ud" using merge_child_good that by blast
  then show "keeps_good tcx ud (merge_child c' ud)" by (simp add: keeps_good_def merge_child_def)
qed (simp_all add: keeps_good_def ud_good_def connect_def map_allocation_good [unfolded keeps_good_def ud_good_def])

text \<open>(C4) What the analysis records is sound. Of every function whose body the compiler provides:
  each recorded transaction is a pair of a call of the lock function and a call of the unlock
  function, each object recorded for it is the result of a call that allocates a shared object, and
  its mode is that of a borrow, mutable or not, that occurs in the program.\<close>

theorem analysis_sound:
  assumes "mir_validated tcx did = Ok b" and "analyze_function n tcx b did = Ok ud"
    and "fx_get (ud_allocation_set ud) (lock, unlock) = Some uses"
  shows "lock_site tcx lock \<and> unlock_site tcx unlock \<and>
    (\<forall>u \<in> set uses. allocation_site tcx (tu_shared_object u) \<and> (\<exists>borrow. borrow_site tcx (tu_is_write u) borrow))"
proof -
  obtain ud0 where ud0: "ud_new tcx b did = Ok ud0" "ud_perform tcx (trace n tcx) ud0 = Ok ud"
    using assms(2) by (auto simp: analyze_function_def res_simps)
  from good.perform_R [OF ud0(2)] obtain tm where tm:
    "tm_perform (ord_pairs tcx) (ud_transaction_map ud0) = Ok tm"
    "keeps_good tcx (ud0\<lparr>ud_transaction_map := tm\<rparr>) ud" by blast
  have "tm_good tcx (ud_transaction_map ud0)"
    using ud0(1) assms(1) by (auto simp: ud_new_def tm_new_def tm_good_def res_simps)
  from tm_perform_good [OF this tm(1)] have "ud_good tcx (ud0\<lparr>ud_transaction_map := tm\<rparr>)"
    using ud0(1) assms(1) by (auto simp: ud_good_def tm_good_def ud_new_def res_simps)
  with tm(2) have "fx_all (uses_good tcx) (ud_allocation_set ud)" by (simp add: keeps_good_def ud_good_def)
  from fx_all_get [OF this assms(3)] show ?thesis by (simp add: uses_good_def tx_good_def)
qed

section \<open>An example\<close>

text \<open>A function that allocates a shared object, takes the lock, borrows the object mutably and
  gives the lock back.\<close>

definition sample_fmt :: "operand \<Rightarrow> string" where
  "sample_fmt func =
     (if func = fn_const 10 then ''const txcell::TxPtr::<u32>::new''
      else if func = fn_const 11 then ''const txcell::TxPtr::<u32>::borrow_mut'' else ''const f'')"

definition call_args :: "nat \<Rightarrow> operand list \<Rightarrow> nat \<Rightarrow> nat \<Rightarrow> basic_block_data" where
  "call_args i args l t = sample_block [] (Call (fn_const i) args (Some (place_from_local l, t)) None False)"

text \<open>The placeholder number the lowering passes to lock and unlock.\<close>

definition number_99 :: operand where
  "number_99 = Constant \<lparr>const_span = 0, const_user_ty = None,
     const_literal = \<lparr>lit_ty = Uint_ty 0, lit_val = Scalar_usize 99\<rparr>\<rparr>"

definition sample_did :: def_id where
  "sample_did = \<lparr>krate = 0, def_index = 1\<rparr>"

definition sample_local :: local_decl where
  "sample_local = ld_new_temp Bool_ty 0"

definition sample_tx_body :: body where
  "sample_tx_body =
     (body_of_blocks
       [call_to 10 1 1, call_args 90 [number_99] 2 2,
        (call_args 11 [Move (place_from_local 3)] 4 3)
          \<lparr>statements := [\<lparr>stmt_source_info = sample_info 0,
             stmt_kind = Assign (place_from_local 3) (Ref 0 Shared (place_from_local 1))\<rparr>]\<rparr>,
        call_args 91 [number_99] 5 4, sample_block [] Return])\<lparr>local_decls := replicate 6 sample_local\<rparr>"

definition sample_tcx :: tcx where
  "sample_tcx =
     \<lparr>fmt_operand = sample_fmt, tcx_items = sample_items,
      mir_validated = (\<lambda>d. if d = sample_did then Ok sample_tx_body else Panic Index_Out_Of_Bounds),
      ord_pairs = rev, ord_ids = rev, ord_uses = rev\<rparr>"

text \<open>A visitor that has recorded the given edges, and reads as the only borrows.\<close>

definition sample_visitor :: "(unique_id, unique_id fxset) fxmap \<Rightarrow> unique_id list \<Rightarrow> use_def" where
  "sample_visitor edges reads =
     \<lparr>ud_analysis = du_new sample_tx_body, ud_arg_id = None, ud_arg_index = None,
      ud_body = sample_tx_body, ud_allocation_set = [], ud_current_allocation = None,
      ud_def_id = sample_did, ud_edges = edges, ud_is_write = map (\<lambda>i. (i, False)) reads,
      ud_transaction_map = tm_new sample_did sample_tx_body sample_items, ud_vertices = []\<rparr>"

lemma sample_tcx_orders: "tcx_orders_ok sample_tcx"
  by (simp add: tcx_orders_ok_def sample_tcx_def iter_order_rev)

lemma sample_analysis:
  "case analyze_function 5 sample_tcx sample_tx_body sample_did of
     Ok ud \<Rightarrow> fx_get (ud_allocation_set ud) (uid_at 2 1, uid_at 5 3) =
       Some [\<lparr>tu_shared_object = uid_at 1 0, tu_is_write = True\<rparr>]
   | _ \<Rightarrow> False"
  by code_simp

theorem analysis_sound_witness:
  "lock_site sample_tcx (uid_at 2 1) \<and> unlock_site sample_tcx (uid_at 5 3) \<and>
     allocation_site sample_tcx (uid_at 1 0) \<and> (\<exists>borrow. borrow_site sample_tcx True borrow)"
proof -
  obtain ud where ud: "analyze_function 5 sample_tcx sample_tx_body sample_did = Ok ud"
    "fx_get (ud_allocation_set ud) (uid_at 2 1, uid_at 5 3) =
       Some [\<lparr>tu_shared_object = uid_at 1 0, tu_is_write = True\<rparr>]"
    using sample_analysis by (auto split: res.splits)
  have "mir_validated sample_tcx sample_did = Ok sample_tx_body" by (simp add: sample_tcx_def)
  from analysis_sound [OF this ud] show ?thesis by simp
qed

text \<open>A borrow whose mode is recorded, and the same graph without the mode.\<close>

lemma sample_edges:
  fixes reads :: "unique_id list"
  defines "ud \<equiv> sample_visitor [(uid_at 3 0, [uid_at 2 0])] reads"
  shows "acyclic (ue.edge ud)" "(ue.edge ud)\<^sup>* `` set [uid_at 3 0] = {uid_at 3 0, uid_at 2 0}"
    "fx_get (ud_edges ud) i = (if i = uid_at 3 0 then Some [uid_at 2 0] else None)"
proof -
  have ne: "uid_at 3 0 \<noteq> uid_at 2 0" by (simp add: uid_at_def)
  show get: "fx_get (ud_edges ud) i = (if i = uid_at 3 0 then Some [uid_at 2 0] else None)" for i
    by (simp add: ud_def sample_visitor_def fx_get_def)
  have edge: "ue.edge ud = {(uid_at 3 0, uid_at 2 0)}"
    by (auto simp: ue.edge_iff ud_succs_def get split: if_splits)
  show "(ue.edge ud)\<^sup>* `` set [uid_at 3 0] = {uid_at 3 0, uid_at 2 0}"
    unfolding edge by (auto elim!: rtranclE)
  show "acyclic (ue.edge ud)" unfolding edge using ne by (simp add: acyclic_insert wf_acyclic)
qed

theorem use_set_collects_terminal_uses_witness:
  "tcx_orders_ok sample_tcx \<and>
   (\<exists>n uses. use_set n sample_tcx (sample_visitor [(uid_at 3 0, [uid_at 2 0])] [uid_at 2 0]) [uid_at 3 0]
      = Ok uses \<and> set uses = {\<lparr>tu_shared_object = uid_at 2 0, tu_is_write = False\<rparr>}) \<and>
   (\<exists>n. use_set n sample_tcx (sample_visitor [(uid_at 3 0, [uid_at 2 0])] []) [uid_at 3 0] = Panic Unwrap_None)"
proof (intro conjI sample_tcx_orders)
  let ?ud = "sample_visitor [(uid_at 3 0, [uid_at 2 0])] [uid_at 2 0]"
  have ne: "uid_at 3 0 \<noteq> uid_at 2 0" by (simp add: uid_at_def)
  have get: "fx_get (ud_is_write ?ud) i = (if i = uid_at 2 0 then Some False else None)" for i
    by (simp add: sample_visitor_def fx_get_def)
  have "ends_known ?ud ((ue.edge ?ud)\<^sup>* `` set [uid_at 3 0])"
    unfolding sample_edges(2) ends_known_def by (auto simp: get sample_edges(3))
  moreover have "terminal_uses ?ud ((ue.edge ?ud)\<^sup>* `` set [uid_at 3 0]) =
      {\<lparr>tu_shared_object = uid_at 2 0, tu_is_write = False\<rparr>}"
    unfolding sample_edges(2) terminal_uses_def using ne
    by (auto simp: get sample_edges(3) intro: transaction_use.equality split: if_splits)
  ultimately show "\<exists>n uses. use_set n sample_tcx ?ud [uid_at 3 0] = Ok uses \<and>
      set uses = {\<lparr>tu_shared_object = uid_at 2 0, tu_is_write = False\<rparr>}"
    using use_set_collects_terminal_uses [OF sample_tcx_orders sample_edges(1)] by (metis order_refl)
  let ?ud = "sample_visitor [(uid_at 3 0, [uid_at 2 0])] []"
  have "fx_get (ud_is_write ?ud) i = None" for i by (simp add: sample_visitor_def fx_get_def)
  then have "\<not> ends_known ?ud ((ue.edge ?ud)\<^sup>* `` set [uid_at 3 0])"
    unfolding sample_edges(2) ends_known_def using ne by (auto simp: sample_edges(3))
  then show "\<exists>n. use_set n sample_tcx ?ud [uid_at 3 0] = Panic Unwrap_None"
    using use_set_collects_terminal_uses [OF sample_tcx_orders sample_edges(1)] by (metis order_refl)
qed

theorem use_set_never_returns_on_cycle_witness:
  "use_set 100 sample_tcx (sample_visitor [(uid_at 3 0, [uid_at 3 0])] []) [uid_at 3 0] \<noteq> Ok []"
proof -
  let ?ud = "sample_visitor [(uid_at 3 0, [uid_at 3 0])] []"
  have "(uid_at 3 0, uid_at 3 0) \<in> ue.edge ?ud"
    by (simp add: ue.edge_iff ud_succs_def sample_visitor_def fx_get_def)
  then have "(uid_at 3 0, uid_at 3 0) \<in> (ue.edge ?ud)\<^sup>+" by blast
  then show ?thesis
    by (intro use_set_never_returns_on_cycle [OF sample_tcx_orders, of "uid_at 3 0" _ "uid_at 3 0"]) simp_all
qed
end
