(* ===== verification/Conflict_Analysis.thy ===== *)
theory Conflict_Analysis
  imports Mir
begin

text \<open>
  Conflict analysis (\<open>src/librustc_mir/transform/transaction/conflict_analysis.rs\<close>). \<open>new\<close>
  builds a graph whose vertices are the shared objects and in which the objects of one
  transaction are pairwise connected; \<open>perform\<close> collects the transactions of each connected
  component by depth-first search. The theorems show that the search returns, that it never
  meets an object without a vertex, and that the conflict sets are exactly the connected
  components of the relation ``uses a common object'' on the transactions.
\<close>

section \<open>The analysis\<close>

record conflict_analysis =
  ca_vertices :: "(unique_id, transaction fxset) fxmap"
  ca_edges :: "(unique_id, unique_id fxset) fxmap"

text \<open>The iteration orders of the hash containers the analysis goes through: sets of objects,
  sets of transactions, and the entries of \<open>tx_to_objects\<close>.\<close>

record ca_orders =
  ord_objects :: "unique_id list \<Rightarrow> unique_id list"
  ord_txs :: "transaction list \<Rightarrow> transaction list"
  ord_entries :: "(transaction \<times> unique_id list) list \<Rightarrow> (transaction \<times> unique_id list) list"

definition ca_orders_ok :: "ca_orders \<Rightarrow> bool" where
  "ca_orders_ok h \<longleftrightarrow>
     iter_order (ord_objects h) \<and> iter_order (ord_txs h) \<and> iter_order (ord_entries h)"

definition transaction_of :: "allocation_set \<Rightarrow> transaction" where
  "transaction_of a =
     \<lparr>tx_lock = as_lock a, tx_unlock = as_unlock a,
      tx_is_write = list_ex tu_is_write (as_allocations a)\<rparr>"

type_synonym ca_tables =
  "(unique_id, transaction fxset) fxmap \<times> (transaction, unique_id fxset) fxmap"

definition add_use :: "transaction \<Rightarrow> transaction_use \<Rightarrow> ca_tables \<Rightarrow> ca_tables" where
  "add_use t u = (\<lambda>(vertices, tx_to_objects).
     (fx_entry (tu_shared_object u) [] (fx_insert t) vertices,
      fx_entry t [] (fx_insert (tu_shared_object u)) tx_to_objects))"

definition add_allocation_set :: "allocation_set \<Rightarrow> ca_tables \<Rightarrow> ca_tables" where
  "add_allocation_set a = fold (add_use (transaction_of a)) (as_allocations a)"

definition connect_objects ::
    "ca_orders \<Rightarrow> unique_id fxset \<Rightarrow> (unique_id, unique_id fxset) fxmap
     \<Rightarrow> (unique_id, unique_id fxset) fxmap" where
  "connect_objects h shared_objects =
     fold (\<lambda>u. fold (\<lambda>v edges. if u \<noteq> v then fx_entry u [] (fx_insert v) edges else edges)
                (ord_objects h shared_objects))
       (ord_objects h shared_objects)"

definition ca_new :: "ca_orders \<Rightarrow> allocation_set list \<Rightarrow> conflict_analysis" where
  "ca_new h allocation_sets =
     (let (vertices, tx_to_objects) = fold add_allocation_set allocation_sets ([], []) in
      \<lparr>ca_vertices = vertices,
       ca_edges = fold (\<lambda>(_, shared_objects). connect_objects h shared_objects)
                    (ord_entries h tx_to_objects) []\<rparr>)"

type_synonym dfs_state = "unique_id fxset \<times> transaction fxset"

function dfs_util ::
      "ca_orders \<Rightarrow> conflict_analysis \<Rightarrow> unique_id \<Rightarrow> dfs_state \<Rightarrow> dfs_state res"
  and dfs_next ::
      "ca_orders \<Rightarrow> conflict_analysis \<Rightarrow> unique_id list \<Rightarrow> dfs_state \<Rightarrow> dfs_state res" where
  "dfs_util h ca u (visited, conflict_set) =
     (case fx_get (ca_vertices ca) u of
        None \<Rightarrow> Panic Unwrap_None
      | Some tx_ids \<Rightarrow>
          (case fx_get (ca_edges ca) u of
             None \<Rightarrow> Ok (fx_insert u visited, fx_extend conflict_set (ord_txs h tx_ids))
           | Some nxt \<Rightarrow>
               dfs_next h ca (ord_objects h nxt)
                 (fx_insert u visited, fx_extend conflict_set (ord_txs h tx_ids))))"
| "dfs_next h ca [] (visited, conflict_set) = Ok (visited, conflict_set)"
| "dfs_next h ca (v # vs) (visited, conflict_set) =
     (if v \<in> set visited then dfs_next h ca vs (visited, conflict_set)
      else res_bind (dfs_util h ca v (visited, conflict_set)) (dfs_next h ca vs))"
  by pat_completeness auto

text \<open>The visited set only grows, also along the nested call; that is what makes the search
  stop.\<close>

lemma dfs_visited_grows:
  "dfs_util_dfs_next_dom (Inl (h, ca, u, s)) \<Longrightarrow>
     (\<forall>s'. dfs_util h ca u s = Ok s' \<longrightarrow> set (fst s) \<subseteq> set (fst s'))"
  "dfs_util_dfs_next_dom (Inr (h, ca, vs, s)) \<Longrightarrow>
     (\<forall>s'. dfs_next h ca vs s = Ok s' \<longrightarrow> set (fst s) \<subseteq> set (fst s'))"
proof (induction h ca u s and h ca vs s rule: dfs_util_dfs_next.pinduct)
  case (1 h ca u visited conflict_set)
  then show ?case
    by (auto simp: dfs_util.psimps split: option.splits)
next
  case (2 h ca visited conflict_set)
  then show ?case by (simp add: dfs_next.psimps)
next
  case (3 h ca v vs visited conflict_set)
  then show ?case
    by (auto simp: dfs_next.psimps res_simps split: if_splits) blast
qed

definition unvisited :: "conflict_analysis \<Rightarrow> dfs_state \<Rightarrow> nat" where
  "unvisited ca s = card (set (fx_keys (ca_vertices ca)) - set (fst s))"

lemma unvisited_mono: "set (fst s) \<subseteq> set (fst s') \<Longrightarrow> unvisited ca s' \<le> unvisited ca s"
  unfolding unvisited_def by (rule card_mono) auto

lemma unvisited_insert:
  assumes "fx_get (ca_vertices ca) u = Some ts" and "u \<notin> set vis"
  shows "unvisited ca (fx_insert u vis, cs) < unvisited ca (vis, cs')"
proof -
  have "u \<in> set (fx_keys (ca_vertices ca))"
    using assms(1) by (rule fx_get_Some_key)
  with assms(2) have "set (fx_keys (ca_vertices ca)) - insert u (set vis)
      \<subset> set (fx_keys (ca_vertices ca)) - set vis" by blast
  then show ?thesis
    by (simp add: unvisited_def psubset_card_mono)
qed

definition dfs_measure ::
    "(ca_orders \<times> conflict_analysis \<times> unique_id \<times> dfs_state)
     + (ca_orders \<times> conflict_analysis \<times> unique_id list \<times> dfs_state) \<Rightarrow> nat \<times> nat \<times> nat" where
  "dfs_measure x =
     (case x of
        Inl (h, ca, u, s) \<Rightarrow> (unvisited ca s, if u \<in> set (fst s) then 2 else 0, 0)
      | Inr (h, ca, vs, s) \<Rightarrow> (unvisited ca s, 1, length vs))"

termination dfs_util
proof (relation "inv_image (less_than <*lex*> less_than <*lex*> less_than) dfs_measure")
  show "wf (inv_image (less_than <*lex*> less_than <*lex*> less_than) dfs_measure)"
    by auto
next
  fix h :: ca_orders and ca :: conflict_analysis and u vis cs ts nxt
  assume "fx_get (ca_vertices ca) u = Some ts"
  then show "(Inr (h, ca, ord_objects h nxt, fx_insert u vis, fx_extend cs (ord_txs h ts)),
      Inl (h, ca, u, vis, cs))
      \<in> inv_image (less_than <*lex*> less_than <*lex*> less_than) dfs_measure"
    using unvisited_insert [of ca u ts vis] unvisited_mono [of "(vis, cs)" "(fx_insert u vis, _)" ca]
    by (cases "u \<in> set vis") (auto simp: dfs_measure_def le_less)
next
  fix h :: ca_orders and ca :: conflict_analysis and v vs vis cs s
  assume "v \<notin> set vis" "dfs_util_dfs_next_dom (Inl (h, ca, v, vis, cs))"
    "dfs_util h ca v (vis, cs) = Ok s"
  then have "unvisited ca s \<le> unvisited ca (vis, cs)"
    using dfs_visited_grows(1) [of h ca v "(vis, cs)"] by (intro unvisited_mono) simp
  then show "(Inr (h, ca, vs, s), Inr (h, ca, v # vs, vis, cs))
      \<in> inv_image (less_than <*lex*> less_than <*lex*> less_than) dfs_measure"
    by (auto simp: dfs_measure_def le_less)
qed (auto simp: dfs_measure_def)

declare dfs_util.simps [simp del] dfs_next.simps(2) [simp del]

definition ca_perform :: "ca_orders \<Rightarrow> conflict_analysis \<Rightarrow> transaction fxset list res" where
  "ca_perform h ca =
     res_bind
       (res_for (ord_objects h (fx_keys (ca_vertices ca)))
          (\<lambda>v (visited, conflict_sets).
             if v \<in> set visited then Ok (visited, conflict_sets)
             else res_bind (dfs_util h ca v (visited, [])) (\<lambda>(visited', conflict_set).
                    Ok (visited', conflict_sets @ [conflict_set])))
          ([], []))
       (\<lambda>(_, conflict_sets). Ok conflict_sets)"

section \<open>The conflict graph\<close>

text \<open>What the analysis is about: which transaction uses which object.\<close>

definition object_uses :: "allocation_set list \<Rightarrow> (unique_id \<times> transaction) set" where
  "object_uses as =
     {(ob, transaction_of a) | ob a. a \<in> set as \<and> ob \<in> tu_shared_object ` set (as_allocations a)}"

lemma fold_add_use:
  "fx_rel (fst (fold (add_use t) us p)) = tu_shared_object ` set us \<times> {t} \<union> fx_rel (fst p)"
  "fx_rel (snd (fold (add_use t) us p)) = {t} \<times> tu_shared_object ` set us \<union> fx_rel (snd p)"
  by (induction us arbitrary: p) (auto simp: add_use_def split: prod.splits)

lemma fold_add_use_ok:
  "fx_map_ok (fst p) \<Longrightarrow> fx_map_ok (fst (fold (add_use t) us p))"
  "fx_map_ok (snd p) \<Longrightarrow> fx_map_ok (snd (fold (add_use t) us p))"
  "fx_nonempty (fst p) \<Longrightarrow> fx_nonempty (fst (fold (add_use t) us p))"
  by (induction us arbitrary: p) (auto simp: add_use_def split: prod.splits)

lemma tables_rel:
  "fx_rel (fst (fold add_allocation_set as p)) = object_uses as \<union> fx_rel (fst p)"
  "fx_rel (snd (fold add_allocation_set as p)) = (object_uses as)\<inverse> \<union> fx_rel (snd p)"
proof (induction as arbitrary: p)
  case (Cons a as)
  { case 1
    show ?case by (simp add: Cons.IH(1)) (auto simp: add_allocation_set_def fold_add_use object_uses_def)
  next
    case 2
    show ?case by (simp add: Cons.IH(2)) (auto simp: add_allocation_set_def fold_add_use object_uses_def)
  }
qed (auto simp: object_uses_def)

lemma tables_ok:
  "fx_map_ok (fst p) \<Longrightarrow> fx_map_ok (fst (fold add_allocation_set as p))"
  "fx_map_ok (snd p) \<Longrightarrow> fx_map_ok (snd (fold add_allocation_set as p))"
  "fx_nonempty (fst p) \<Longrightarrow> fx_nonempty (fst (fold add_allocation_set as p))"
  by (induction as arbitrary: p) (auto simp: add_allocation_set_def fold_add_use_ok)

lemma connect_one:
  "fx_rel (fold (\<lambda>v es. if u \<noteq> v then fx_entry u [] (fx_insert v) es else es) vs es) =
     {(u, v) | v. v \<in> set vs \<and> u \<noteq> v} \<union> fx_rel es"
  by (induction vs arbitrary: es) auto

lemma connect_all:
  "fx_rel (fold (\<lambda>u. fold (\<lambda>v es. if u \<noteq> v then fx_entry u [] (fx_insert v) es else es) vs) us es) =
     {(u, v). u \<in> set us \<and> v \<in> set vs \<and> u \<noteq> v} \<union> fx_rel es"
proof (induction us arbitrary: es)
  case (Cons u us)
  have "fx_rel (fold (\<lambda>u. fold (\<lambda>v es. if u \<noteq> v then fx_entry u [] (fx_insert v) es else es) vs)
      (u # us) es) = {(u, v). u \<in> set us \<and> v \<in> set vs \<and> u \<noteq> v}
      \<union> fx_rel (fold (\<lambda>v es. if u \<noteq> v then fx_entry u [] (fx_insert v) es else es) vs es)"
    by (simp only: fold.simps o_apply Cons.IH)
  then show ?case by (simp only: connect_one) auto
qed simp

lemma connect_objects_rel:
  assumes "ca_orders_ok h"
  shows "fx_rel (connect_objects h objs es) =
    {(u, v). u \<in> set objs \<and> v \<in> set objs \<and> u \<noteq> v} \<union> fx_rel es"
  using assms
  by (simp only: connect_objects_def connect_all ca_orders_ok_def iter_order_set)

lemma connect_entries_rel:
  assumes "ca_orders_ok h"
  shows "fx_rel (fold (\<lambda>(_, objs). connect_objects h objs) es e0) =
    {(u, v). u \<noteq> v \<and> (\<exists>(t, objs) \<in> set es. u \<in> set objs \<and> v \<in> set objs)} \<union> fx_rel e0"
proof (induction es arbitrary: e0)
  case (Cons e es)
  obtain t objs where e: "e = (t, objs)" by force
  have "fx_rel (fold (\<lambda>(_, objs). connect_objects h objs) (e # es) e0) =
    {(u, v). u \<noteq> v \<and> (\<exists>(t, objs) \<in> set es. u \<in> set objs \<and> v \<in> set objs)}
      \<union> fx_rel (connect_objects h objs e0)"
    by (simp only: fold.simps o_apply Cons.IH e prod.case)
  then show ?case by (simp only: connect_objects_rel [OF assms]) (auto simp: e)
qed simp

definition ca_succs :: "conflict_analysis \<Rightarrow> unique_id \<Rightarrow> unique_id list" where
  "ca_succs ca u = (case fx_get (ca_edges ca) u of None \<Rightarrow> [] | Some s \<Rightarrow> s)"

interpretation cg: list_graph "ca_succs ca" "set (fx_keys (ca_edges ca))" for ca
  by unfold_locales (simp, simp add: ca_succs_def set_fx_keys)

lemma cg_edge: "cg.edge ca = fx_rel (ca_edges ca)"
  unfolding cg.edge_def fx_rel_get_default ca_succs_def ..

lemma ca_new_vertices: "fx_rel (ca_vertices (ca_new h as)) = object_uses as"
  using tables_rel(1) [of as "([], [])"]
  by (cases "fold add_allocation_set as ([], [])") (simp add: ca_new_def)

lemma ca_new_vertices_ok: "fx_map_ok (ca_vertices (ca_new h as))"
  using tables_ok(1) [of "([], [])" as]
  by (cases "fold add_allocation_set as ([], [])") (simp add: ca_new_def)

text \<open>Two objects are joined exactly when one transaction uses both.\<close>

lemma ca_new_edges:
  assumes "ca_orders_ok h"
  shows "cg.edge (ca_new h as) =
    {(u, v). u \<noteq> v \<and> (\<exists>t. (u, t) \<in> object_uses as \<and> (v, t) \<in> object_uses as)}"
proof -
  obtain vs ts where p: "fold add_allocation_set as ([], []) = (vs, ts)" by force
  have ok: "fx_map_ok ts" and rel: "fx_rel ts = (object_uses as)\<inverse>"
    using tables_ok(2) [of "([], [])" as] tables_rel(2) [of as "([], [])"] by (simp_all add: p)
  have "(\<exists>(t, objs) \<in> set (ord_entries h ts). u \<in> set objs \<and> v \<in> set objs) \<longleftrightarrow>
      (\<exists>t. (u, t) \<in> object_uses as \<and> (v, t) \<in> object_uses as)" for u v
  proof -
    have "(\<exists>(t, objs) \<in> set (ord_entries h ts). u \<in> set objs \<and> v \<in> set objs) \<longleftrightarrow>
        (\<exists>t objs. fx_get ts t = Some objs \<and> u \<in> set objs \<and> v \<in> set objs)"
      using assms by (auto simp: ca_orders_ok_def iter_order_set fx_get_iff_mem [OF ok])
    also have "\<dots> \<longleftrightarrow> (\<exists>t. (t, u) \<in> fx_rel ts \<and> (t, v) \<in> fx_rel ts)"
      unfolding fx_rel_def by fastforce
    finally show ?thesis by (simp add: rel)
  qed
  then show ?thesis
    by (simp add: cg_edge ca_new_def p connect_entries_rel [OF assms])
qed

section \<open>The depth-first search\<close>

text \<open>What the search relies on: iterations visit every element, and every neighbour of a vertex
  is a vertex.\<close>

definition ca_closed :: "conflict_analysis \<Rightarrow> bool" where
  "ca_closed ca \<longleftrightarrow> (\<forall>u v. (u, v) \<in> cg.edge ca \<longrightarrow> v \<in> set (fx_keys (ca_vertices ca)))"

abbreviation dfs_effect ::
    "conflict_analysis \<Rightarrow> unique_id set \<Rightarrow> dfs_state \<Rightarrow> dfs_state \<Rightarrow> bool" where
  "dfs_effect ca \<equiv> search_effect (cg.edge ca) (fx_rel (ca_vertices ca))"

lemma dfs_correct:
  assumes "ca_orders_ok h" and "ca_closed ca"
  shows "u \<in> set (fx_keys (ca_vertices ca)) \<Longrightarrow> u \<notin> set (fst s) \<Longrightarrow>
      \<exists>s'. dfs_util h ca u s = Ok s' \<and> dfs_effect ca {u} s s'"
    and "set vs \<subseteq> set (fx_keys (ca_vertices ca)) \<Longrightarrow>
      \<exists>s'. dfs_next h ca vs s = Ok s' \<and> dfs_effect ca (set vs) s s'"
  using assms
proof (induction h ca u s and h ca vs s rule: dfs_util_dfs_next.induct)
  case (1 h ca u vis cs)
  then obtain ts where ts: "fx_get (ca_vertices ca) u = Some ts"
    by (auto simp: set_fx_keys)
  let ?s = "(fx_insert u vis, fx_extend cs (ord_txs h ts))"
  have cs': "set (fx_extend cs (ord_txs h ts)) = set cs \<union> fx_rel (ca_vertices ca) `` {u}"
    using 1(4) by (simp add: fx_get_rel [OF ts] ca_orders_ok_def iter_order_set)
  obtain s' where s': "dfs_util h ca u (vis, cs) = Ok s'"
    "dfs_effect ca (set (ca_succs ca u)) ?s s'"
  proof (cases "fx_get (ca_edges ca) u")
    case None
    show thesis
      by (rule that [of ?s]) (simp_all add: None ts dfs_util.simps ca_succs_def search_effect_refl)
  next
    case (Some nxt)
    have nxt: "set (ord_objects h nxt) = set (ca_succs ca u)"
      using 1(4) Some by (simp add: ca_orders_ok_def iter_order_set ca_succs_def)
    moreover have "set (ca_succs ca u) \<subseteq> set (fx_keys (ca_vertices ca))"
      using 1(5) by (auto simp: ca_closed_def cg.edge_iff)
    ultimately obtain s' where "dfs_next h ca (ord_objects h nxt) ?s = Ok s'"
      "dfs_effect ca (set (ca_succs ca u)) ?s s'"
      using 1(1) [OF ts Some _ 1(4,5)] by auto
    then show thesis
      by (intro that [of s']) (simp_all add: Some ts dfs_util.simps)
  qed
  have "dfs_effect ca {u} (vis, cs) s'"
    using s'(2) 1(3) by (intro search_effect_root [OF _ _ cs']) (simp_all add: cg.edge_image)
  with s'(1) show ?case by blast
next
  case (2 h ca vis cs)
  then show ?case by (simp add: search_effect_refl)
next
  case (3 h ca v vs vis cs)
  show ?case
  proof (cases "v \<in> set vis")
    case True
    then obtain s' where s': "dfs_next h ca vs (vis, cs) = Ok s'" "dfs_effect ca (set vs) (vis, cs) s'"
      using 3 by auto
    have "dfs_effect ca ({v} \<union> set vs) (vis, cs) s'"
      by (rule search_effect_trans [OF search_effect_refl s'(2)]) (simp add: True)
    with s'(1) True show ?thesis by (simp add: dfs_next.simps)
  next
    case False
    then obtain s1 where s1: "dfs_util h ca v (vis, cs) = Ok s1" "dfs_effect ca {v} (vis, cs) s1"
      using 3 by auto
    obtain s2 where s2: "dfs_next h ca vs s1 = Ok s2" "dfs_effect ca (set vs) s1 s2"
      using 3(3) [OF False s1(1)] 3(4-6) by auto
    have "dfs_effect ca ({v} \<union> set vs) (vis, cs) s2"
      using s1(2) s2(2) by (rule search_effect_trans)
    with s1(1) s2(1) False show ?thesis by (simp add: dfs_next.simps)
  qed
qed

section \<open>The sweep over all objects\<close>

definition sweep_turn ::
    "ca_orders \<Rightarrow> conflict_analysis \<Rightarrow> unique_id \<Rightarrow> unique_id fxset \<times> transaction fxset list
     \<Rightarrow> (unique_id fxset \<times> transaction fxset list) res" where
  "sweep_turn h ca v = (\<lambda>(visited, conflict_sets).
     if v \<in> set visited then Ok (visited, conflict_sets)
     else res_bind (dfs_util h ca v (visited, [])) (\<lambda>(visited', conflict_set).
            Ok (visited', conflict_sets @ [conflict_set])))"

lemma ca_perform_sweep_turn:
  "ca_perform h ca =
     res_bind (res_for (ord_objects h (fx_keys (ca_vertices ca))) (sweep_turn h ca) ([], []))
       (\<lambda>(_, conflict_sets). Ok conflict_sets)"
  by (simp add: ca_perform_def sweep_turn_def [abs_def])

abbreviation ca_sweep_inv ::
    "conflict_analysis \<Rightarrow> unique_id fxset \<times> transaction fxset list \<Rightarrow> bool" where
  "ca_sweep_inv ca \<equiv>
     sweep_inv (cg.edge ca) (fx_rel (ca_vertices ca)) (set (fx_keys (ca_vertices ca)))"

lemma sweep_turn_correct:
  assumes "ca_orders_ok h" "ca_closed ca" "sym (cg.edge ca)" "ca_sweep_inv ca s"
    and v: "v \<in> set (fx_keys (ca_vertices ca))"
  shows "\<exists>s'. sweep_turn h ca v s = Ok s' \<and> ca_sweep_inv ca s' \<and>
    insert v (set (fst s)) \<subseteq> set (fst s')"
proof (cases "v \<in> set (fst s)")
  case True
  then show ?thesis
    using assms(4) by (auto simp: sweep_turn_def split: prod.splits)
next
  case False
  obtain vis css where s: "s = (vis, css)" by force
  obtain vis' cs where d: "dfs_util h ca v (vis, []) = Ok (vis', cs)"
    "dfs_effect ca {v} (vis, []) (vis', cs)"
    using dfs_correct(1) [OF assms(1,2) v, of "(vis, [])"] False s by auto
  have "ca_sweep_inv ca (vis', css @ [cs])"
    using sweep_inv_step [OF assms(4) [unfolded s] assms(3) d(2) _ v] False s by simp
  moreover have "insert v (set vis) \<subseteq> set vis'"
    using d(2) by (simp add: search_effect_def)
  ultimately show ?thesis
    using d(1) False s by (simp add: sweep_turn_def)
qed

lemma sweep_correct:
  assumes "ca_orders_ok h" "ca_closed ca" "sym (cg.edge ca)"
  shows "ca_sweep_inv ca s \<Longrightarrow> set vs \<subseteq> set (fx_keys (ca_vertices ca)) \<Longrightarrow>
    \<exists>s'. res_for vs (sweep_turn h ca) s = Ok s' \<and> ca_sweep_inv ca s' \<and>
      set vs \<union> set (fst s) \<subseteq> set (fst s')"
proof (induction vs arbitrary: s)
  case (Cons v vs)
  from Cons.prems obtain s1 where s1: "sweep_turn h ca v s = Ok s1" "ca_sweep_inv ca s1"
    "insert v (set (fst s)) \<subseteq> set (fst s1)"
    using sweep_turn_correct [OF assms Cons.prems(1), of v] by auto
  moreover from Cons.IH [OF s1(2)] Cons.prems(2) obtain s2 where
    "res_for vs (sweep_turn h ca) s1 = Ok s2"
    "ca_sweep_inv ca s2" "set vs \<union> set (fst s1) \<subseteq> set (fst s2)"
    by auto
  ultimately show ?case by auto
qed simp

lemma ca_new_keys: "set (fx_keys (ca_vertices (ca_new h as))) = Domain (object_uses as)"
proof -
  have "fx_nonempty (ca_vertices (ca_new h as))"
    using tables_ok(3) [of "([], [])" as]
    by (cases "fold add_allocation_set as ([], [])") (simp add: ca_new_def)
  then show ?thesis by (simp add: fx_nonempty_keys ca_new_vertices)
qed

lemma ca_new_closed: "ca_orders_ok h \<Longrightarrow> ca_closed (ca_new h as)"
  unfolding ca_closed_def ca_new_edges ca_new_keys by auto

lemma ca_new_edge_shared: "ca_orders_ok h \<Longrightarrow> cg.edge (ca_new h as) = shared_edge (object_uses as)"
  unfolding ca_new_edges shared_edge_def ..

lemma ca_perform_classes:
  assumes "ca_orders_ok h"
  shows "\<exists>css. ca_perform h (ca_new h as) = Ok css \<and>
    set ` set css = Range (object_uses as) // (linked (object_uses as))\<^sup>* \<and>
    distinct (map set css)"
proof -
  let ?ca = "ca_new h as"
  have sym: "sym (cg.edge ?ca)"
    by (simp add: ca_new_edge_shared [OF assms] sym_shared_edge)
  have keys: "set (ord_objects h (fx_keys (ca_vertices ?ca))) = set (fx_keys (ca_vertices ?ca))"
    using assms by (simp add: ca_orders_ok_def iter_order_set)
  obtain vis css where s: "res_for (ord_objects h (fx_keys (ca_vertices ?ca))) (sweep_turn h ?ca)
      ([], []) = Ok (vis, css)" "ca_sweep_inv ?ca (vis, css)"
    "set (fx_keys (ca_vertices ?ca)) \<subseteq> set vis"
    using sweep_correct [OF assms ca_new_closed [OF assms] sym sweep_inv_Nil, of
        "ord_objects h (fx_keys (ca_vertices ?ca))"] keys by auto
  have "sweep_inv (shared_edge (object_uses as)) (object_uses as) (Domain (object_uses as)) (vis, css)"
    using s(2) by (simp only: ca_new_edge_shared [OF assms] ca_new_vertices ca_new_keys)
  note classes = sweep_inv_classes [OF this s(3) [unfolded ca_new_keys]]
  show ?thesis
    by (intro exI [of _ css]) (use classes s(1) in \<open>simp add: ca_perform_sweep_turn\<close>)
qed

text \<open>(C1) Conflict analysis returns for every list of allocation sets and every iteration order,
  and its conflict sets are exactly the classes of the transactions under the transitive closure
  of ``uses a common shared object'', each class once.\<close>

theorem conflict_sets_are_classes:
  assumes "ca_orders_ok h"
  shows "\<exists>css. ca_perform h (ca_new h as) = Ok css \<and>
    set ` set css = Range (object_uses as) // (linked (object_uses as))\<^sup>* \<and>
    distinct (map set css)"
  using assms by (rule ca_perform_classes)

text \<open>Sample identifiers and orders for concrete runs.\<close>

definition sample_id :: "nat \<Rightarrow> unique_id" where
  "sample_id n =
     \<lparr>uid_def_id = \<lparr>krate = 0, def_index = 0\<rparr>, uid_local = n,
      uid_location = \<lparr>loc_block = n, loc_statement_index = 0\<rparr>, uid_field = None\<rparr>"

definition sample_set :: "nat \<Rightarrow> (nat \<times> bool) list \<Rightarrow> allocation_set" where
  "sample_set n us =
     \<lparr>as_lock = sample_id n, as_unlock = sample_id (n + 1),
      as_allocations = map (\<lambda>(ob, w). \<lparr>tu_shared_object = sample_id ob, tu_is_write = w\<rparr>) us\<rparr>"

definition sample_orders :: ca_orders where
  "sample_orders = \<lparr>ord_objects = rev, ord_txs = (\<lambda>xs. xs), ord_entries = rev\<rparr>"

lemma sample_orders_ok: "ca_orders_ok sample_orders"
  by (simp add: ca_orders_ok_def sample_orders_def iter_order_def)

theorem conflict_sets_are_classes_witness:
  "ca_orders_ok sample_orders \<and>
   (\<exists>css. ca_perform sample_orders
       (ca_new sample_orders [sample_set 10 [(1, False)], sample_set 20 [(1, True), (2, False)]]) = Ok css \<and>
     set ` set css =
       Range (object_uses [sample_set 10 [(1, False)], sample_set 20 [(1, True), (2, False)]]) //
         (linked (object_uses [sample_set 10 [(1, False)], sample_set 20 [(1, True), (2, False)]]))\<^sup>* \<and>
     distinct (map set css))"
  using sample_orders_ok conflict_sets_are_classes [OF sample_orders_ok] by blast

end
