(* ===== verification/Lock_Emission.thy ===== *)
theory Lock_Emission
  imports Use_Def_Props Mir_Patch Conflict_Analysis
begin

text \<open>
  The emission of lock numbers: \<open>transaction_call\<close>, \<open>patch_call\<close> and \<open>make_patches\<close> of
  \<open>src/librustc_mir/transform/transaction/mod.rs\<close>, and the queries of
  \<open>src/librustc_mir/transform/mod.rs\<close> that tie the analyses together. Every transaction of
  conflict set number \<open>i\<close> has its lock and unlock calls rewritten to pass \<open>i\<close>. The theorems say
  exactly when the patches can be made, what they contain, and that in the emitted bodies two
  transactions that use a common object take the same lock.
\<close>

section \<open>Queries\<close>

text \<open>What the queries ask of the rest of the compiler: the optimization level, whether a
  definition is a function or a closure, the keys of the crate in the order of their set, the
  orders of the hash containers, and the passes that run afterwards.\<close>

record session =
  se_tcx :: tcx
  transaction_level :: nat
  is_fn_or_closure :: "def_id \<Rightarrow> bool"
  mir_keys :: "def_id list"
  is_const_fn :: "def_id \<Rightarrow> bool"
  ord_allocs :: "((unique_id \<times> unique_id) \<times> transaction_use fxset) list
    \<Rightarrow> ((unique_id \<times> unique_id) \<times> transaction_use fxset) list"
  se_orders :: ca_orders
  is_constructor :: "def_id \<Rightarrow> bool"
  adt_ctor :: "def_id \<Rightarrow> body"
  optimization_passes :: "def_id \<Rightarrow> (body \<Rightarrow> body res) list"

definition get_shared_objects :: "nat \<Rightarrow> session \<Rightarrow> def_id \<Rightarrow> allocation_set list res" where
  "get_shared_objects n se did =
     res_bind (mir_validated (se_tcx se) did) (\<lambda>b.
     res_bind (analyze_function n (se_tcx se) b did) (\<lambda>ud.
       Ok (map (\<lambda>((lock_id, unlock_id), uses).
            \<lparr>as_lock = lock_id, as_unlock = unlock_id, as_allocations = ord_uses (se_tcx se) uses\<rparr>)
          (ord_allocs se (ud_allocation_set ud)))))"

definition all_shared_objects :: "nat \<Rightarrow> session \<Rightarrow> allocation_set list res" where
  "all_shared_objects n se =
     res_for (mir_keys se)
       (\<lambda>did all. if \<not> is_const_fn se did
          then res_bind (get_shared_objects n se did) (\<lambda>objs. Ok (all @ objs)) else Ok all) []"

definition conflict_sets :: "nat \<Rightarrow> session \<Rightarrow> nat \<Rightarrow> transaction list list res" where
  "conflict_sets n se crate_num =
     res_bind (assert_that (crate_num = LOCAL_CRATE)) (\<lambda>_.
     res_bind (all_shared_objects n se) (\<lambda>all.
     res_bind (ca_perform (se_orders se) (ca_new (se_orders se) all)) (\<lambda>ca.
       Ok (map (ord_txs (se_orders se)) ca))))"

section \<open>Patches\<close>

definition transaction_call :: "session \<Rightarrow> bool \<Rightarrow> bool \<Rightarrow> def_id res" where
  "transaction_call se is_lock w =
     (let items = tcx_items (se_tcx se); level = transaction_level se in
      if level = 0 then Panic (Explicit_Panic ''transaction optimizations are not supported'')
      else if level = 1
      then unwrap (if is_lock then transaction_lock items else transaction_unlock items)
      else if level = 2
      then unwrap
        (case (is_lock, w) of
           (True, True) \<Rightarrow> transaction_write_lock items
         | (True, False) \<Rightarrow> transaction_read_lock items
         | (False, True) \<Rightarrow> transaction_write_unlock items
         | (False, False) \<Rightarrow> transaction_read_unlock items)
      else Panic (Explicit_Panic ''unknown transaction optimization level''))"

text \<open>\<open>Const::from_usize\<close> and \<open>Const::zero_sized\<close>; \<open>usize\<close> is the unsigned type number 0.\<close>

definition from_usize :: "nat \<Rightarrow> const_lit" where
  "from_usize i = \<lparr>lit_ty = Uint_ty 0, lit_val = Scalar_usize i\<rparr>"

definition zero_sized :: "ty \<Rightarrow> const_lit" where
  "zero_sized t = \<lparr>lit_ty = t, lit_val = Zero_sized\<rparr>"

definition patch_func :: "def_id \<Rightarrow> operand \<Rightarrow> operand" where
  "patch_func new_def_id func =
     (case func of
        Constant c \<Rightarrow>
          (case lit_ty (const_literal c) of
             FnDef old_def_id fn_substs \<Rightarrow>
               if old_def_id \<noteq> new_def_id
               then Constant \<lparr>const_span = const_span c, const_user_ty = None,
                      const_literal = zero_sized (FnDef new_def_id fn_substs)\<rparr>
               else func
           | _ \<Rightarrow> func)
      | _ \<Rightarrow> func)"

definition patch_args :: "nat \<Rightarrow> operand list \<Rightarrow> operand list" where
  "patch_args i args =
     (case args ! 0 of
        Constant c \<Rightarrow>
          [Constant \<lparr>const_span = const_span c, const_user_ty = None, const_literal = from_usize i\<rparr>]
      | _ \<Rightarrow> args)"

definition patch_call ::
    "body \<Rightarrow> unique_id \<Rightarrow> session \<Rightarrow> nat \<Rightarrow> bool \<Rightarrow> bool \<Rightarrow> terminator_kind res" where
  "patch_call b fn_id se i is_lock w =
     res_bind (index_vec (basic_blocks b) (loc_block (uid_location fn_id))) (\<lambda>d.
     res_bind (block_terminator d) (\<lambda>t.
       case term_kind t of
         Call func args destination cleanup from_hir_call \<Rightarrow>
           res_bind (transaction_call se is_lock w) (\<lambda>new_def_id.
           res_bind (assert_that (length args = 1)) (\<lambda>_.
             Ok (Call (patch_func new_def_id func) (patch_args i args) destination cleanup from_hir_call)))
       | k \<Rightarrow> Ok k))"

definition emit_transaction ::
    "session \<Rightarrow> nat \<Rightarrow> transaction \<Rightarrow> (def_id, mir_patch) fxmap \<Rightarrow> (def_id, mir_patch) fxmap res" where
  "emit_transaction se i t patches =
     (let lock = tx_lock t; unlock = tx_unlock t; w = tx_is_write t in
      res_bind (mir_validated (se_tcx se) (uid_def_id lock)) (\<lambda>b.
      res_bind (mp_new b) (\<lambda>new.
      let patch = (case fx_get patches (uid_def_id lock) of Some p \<Rightarrow> p | None \<Rightarrow> new) in
      res_bind (patch_call b lock se i True w) (\<lambda>new_lock.
      res_bind (patch_call b unlock se i False w) (\<lambda>new_unlock.
      res_bind (patch_terminator patch (loc_block (uid_location lock)) new_lock) (\<lambda>patch1.
      res_bind (patch_terminator patch1 (loc_block (uid_location unlock)) new_unlock) (\<lambda>patch2.
        Ok (fx_put (uid_def_id lock) patch2 patches))))))))"

definition make_patches :: "nat \<Rightarrow> session \<Rightarrow> def_id \<Rightarrow> (def_id, mir_patch) fxmap res" where
  "make_patches n se did =
     (if krate did = LOCAL_CRATE \<and> is_fn_or_closure se did
      then res_bind (conflict_sets n se (krate did)) (\<lambda>css.
        res_for (enumerate 0 css) (\<lambda>(i, conflict_set). res_for conflict_set (emit_transaction se i)) [])
      else Ok [])"

section \<open>The passes\<close>

definition run_passes :: "mir_phase \<Rightarrow> (body \<Rightarrow> body res) list \<Rightarrow> body \<Rightarrow> body res" where
  "run_passes mir_phase passes b =
     (if phase_index (phase b) \<ge> phase_index mir_phase then Ok b
      else res_bind (res_for passes (\<lambda>pass. pass) b) (\<lambda>b'. Ok (b'\<lparr>phase := mir_phase\<rparr>)))"

definition emitted_mir :: "nat \<Rightarrow> session \<Rightarrow> def_id \<Rightarrow> body res" where
  "emitted_mir n se did =
     res_bind (make_patches n se did) (\<lambda>patches.
     res_bind (mir_validated (se_tcx se) did) (\<lambda>b.
       case fx_get patches did of Some patch \<Rightarrow> mp_apply patch b | None \<Rightarrow> Ok b))"

definition optimized_mir :: "nat \<Rightarrow> session \<Rightarrow> def_id \<Rightarrow> body res" where
  "optimized_mir n se did =
     (if is_constructor se did then Ok (adt_ctor se did)
      else res_bind (emitted_mir n se did) (run_passes Optimized (optimization_passes se did)))"

section \<open>What the patches contain\<close>

text \<open>The transactions with the numbers of their conflict sets, in the order of the two loops.\<close>

definition numbered :: "transaction list list \<Rightarrow> (nat \<times> transaction) list" where
  "numbered css = concat (map (\<lambda>(i, cs). map (Pair i) cs) (enumerate 0 css))"

lemma make_patches_numbered:
  "res_for (enumerate 0 css) (\<lambda>(i, cs). res_for cs (emit_transaction se i)) s =
     res_for (numbered css) (\<lambda>(i, t). emit_transaction se i t) s"
  unfolding numbered_def res_for_concat by (simp add: case_prod_unfold res_for_map)

lemma numbered_mem: "(i, t) \<in> set (numbered css) \<longleftrightarrow> i < length css \<and> t \<in> set (css ! i)"
  unfolding numbered_def concat_enumerate_mem by (auto simp: case_prod_beta)

text \<open>A lock or unlock call ready to be patched: a call with one argument, which is a constant.\<close>

definition call_ready :: "body \<Rightarrow> nat \<Rightarrow> bool" where
  "call_ready b n =
     (n < length (basic_blocks b) \<and>
      (case terminator (basic_blocks b ! n) of
         Some t \<Rightarrow>
           (case term_kind t of
              Call func args dest cleanup h \<Rightarrow> (case args of [Constant c] \<Rightarrow> True | _ \<Rightarrow> False)
            | _ \<Rightarrow> False)
       | None \<Rightarrow> False))"

definition is_ok :: "'a res \<Rightarrow> bool" where
  "is_ok r = (case r of Ok _ \<Rightarrow> True | _ \<Rightarrow> False)"

definition tx_ready :: "session \<Rightarrow> transaction \<Rightarrow> bool" where
  "tx_ready se t =
     (is_ok (transaction_call se True (tx_is_write t)) \<and> is_ok (transaction_call se False (tx_is_write t)) \<and>
      (case mir_validated (se_tcx se) (uid_def_id (tx_lock t)) of
         Ok b \<Rightarrow> list_all (\<lambda>d. terminator d \<noteq> None) (basic_blocks b) \<and>
           call_ready b (loc_block (uid_location (tx_lock t))) \<and>
           call_ready b (loc_block (uid_location (tx_unlock t)))
       | _ \<Rightarrow> False))"

text \<open>The blocks a transaction patches. Both are looked up in the function of the lock call.\<close>

definition tx_sites :: "transaction \<Rightarrow> (def_id \<times> nat) list" where
  "tx_sites t =
     [(uid_def_id (tx_lock t), loc_block (uid_location (tx_lock t))),
      (uid_def_id (tx_lock t), loc_block (uid_location (tx_unlock t)))]"

definition the_ok :: "'a res \<Rightarrow> 'a option" where
  "the_ok r = (case r of Ok x \<Rightarrow> Some x | _ \<Rightarrow> None)"

lemma the_ok_simps [simp]: "the_ok (Ok x) = Some x" "the_ok (Panic e) = None" "the_ok Diverge = None"
  by (simp_all add: the_ok_def)

text \<open>The entries a transaction writes into the patch of its function.\<close>

definition tx_writes :: "session \<Rightarrow> body \<Rightarrow> nat \<times> transaction \<Rightarrow> (nat \<times> terminator_kind option) list" where
  "tx_writes se b = (\<lambda>(i, t).
     [(loc_block (uid_location (tx_lock t)), the_ok (patch_call b (tx_lock t) se i True (tx_is_write t))),
      (loc_block (uid_location (tx_unlock t)), the_ok (patch_call b (tx_unlock t) se i False (tx_is_write t)))])"

definition fn_writes :: "session \<Rightarrow> body \<Rightarrow> def_id \<Rightarrow> (nat \<times> transaction) list \<Rightarrow> (nat \<times> terminator_kind option) list" where
  "fn_writes se b d xs =
     concat (map (tx_writes se b) (filter (\<lambda>(i, t). uid_def_id (tx_lock t) = d) xs))"

definition store :: "(nat \<times> 'a) list \<Rightarrow> 'a list \<Rightarrow> 'a list" where
  "store ws m = fold (\<lambda>(n, k) m. m[n := k]) ws m"

definition fn_patch :: "session \<Rightarrow> body \<Rightarrow> def_id \<Rightarrow> (nat \<times> transaction) list \<Rightarrow> mir_patch \<Rightarrow> mir_patch" where
  "fn_patch se b d xs p = p\<lparr>patch_map := store (fn_writes se b d xs) (patch_map p)\<rparr>"

lemma length_store [simp]: "length (store ws m) = length m"
  unfolding store_def by (induction ws arbitrary: m) (auto simp: case_prod_beta)

lemma store_append: "store (ws @ ws') m = store ws' (store ws m)"
  by (simp add: store_def)



lemma patch_call_ready:
  assumes "call_ready b (loc_block (uid_location i))" and "is_ok (transaction_call se is_lock w)"
  shows "\<exists>func c dest cleanup h t d. term_kind t = Call func [Constant c] dest cleanup h \<and>
    terminator (basic_blocks b ! loc_block (uid_location i)) = Some t \<and> transaction_call se is_lock w = Ok d \<and>
    patch_call b i se k is_lock w = Ok (Call (patch_func d func)
      [Constant \<lparr>const_span = const_span c, const_user_ty = None, const_literal = from_usize k\<rparr>] dest cleanup h)"
proof -
  obtain t where t: "loc_block (uid_location i) < length (basic_blocks b)"
    "terminator (basic_blocks b ! loc_block (uid_location i)) = Some t"
    using assms(1) by (auto simp: call_ready_def split: option.splits)
  with assms(1) obtain func c dest cleanup h where call: "term_kind t = Call func [Constant c] dest cleanup h"
    by (auto simp: call_ready_def split: terminator_kind.splits list.splits operand.splits)
  obtain d where "transaction_call se is_lock w = Ok d"
    using assms(2) by (auto simp: is_ok_def split: res.splits)
  with t call show ?thesis
    by (intro exI conjI) (simp_all add: patch_call_def patch_args_def block_terminator_def)
qed

text \<open>The loop invariant: after a prefix of the transactions, a function has a patch exactly if one
  of them has its lock call there, and that patch is the fresh one with their entries stored.\<close>

definition fresh_patch :: "session \<Rightarrow> def_id \<Rightarrow> (body \<times> mir_patch) option" where
  "fresh_patch se d =
     (case mir_validated (se_tcx se) d of
        Ok b \<Rightarrow> map_option (Pair b) (the_ok (mp_new b))
      | _ \<Rightarrow> None)"

definition expected_patch :: "session \<Rightarrow> (nat \<times> transaction) list \<Rightarrow> def_id \<Rightarrow> mir_patch option" where
  "expected_patch se xs d =
     (if d \<in> (\<lambda>(i, t). uid_def_id (tx_lock t)) ` set xs
      then map_option (\<lambda>(b, p). fn_patch se b d xs p) (fresh_patch se d) else None)"

definition sites :: "(nat \<times> transaction) list \<Rightarrow> (def_id \<times> nat) list" where
  "sites xs = concat (map (\<lambda>(i, t). tx_sites t) xs)"

lemma sites_snoc [simp]: "sites (xs @ [(i, t)]) = sites xs @ tx_sites t"
  by (simp add: sites_def)

lemma fn_writes_Cons:
  "fn_writes se b d ((i, t) # xs) =
     (if uid_def_id (tx_lock t) = d then tx_writes se b (i, t) else []) @ fn_writes se b d xs"
  by (simp add: fn_writes_def)


lemma fn_patch_none:
  "d \<notin> (\<lambda>(i, t). uid_def_id (tx_lock t)) ` set xs \<Longrightarrow> fn_patch se b d xs p = p"
proof -
  assume "d \<notin> (\<lambda>(i, t). uid_def_id (tx_lock t)) ` set xs"
  then have "fn_writes se b d xs = []"
    by (induction xs) (auto simp: fn_writes_Cons fn_writes_def)
  then show ?thesis by (simp add: fn_patch_def store_def)
qed


lemma tx_readyD:
  assumes "tx_ready se t"
  obtains b p where "mir_validated (se_tcx se) (uid_def_id (tx_lock t)) = Ok b" "mp_new b = Ok p"
    "fresh_patch se (uid_def_id (tx_lock t)) = Some (b, p)"
    "\<forall>d \<in> set (basic_blocks b). terminator d \<noteq> None"
    "call_ready b (loc_block (uid_location (tx_lock t)))"
    "call_ready b (loc_block (uid_location (tx_unlock t)))"
proof -
  from assms obtain b where b: "mir_validated (se_tcx se) (uid_def_id (tx_lock t)) = Ok b"
    "\<forall>d \<in> set (basic_blocks b). terminator d \<noteq> None"
    "call_ready b (loc_block (uid_location (tx_lock t)))"
    "call_ready b (loc_block (uid_location (tx_unlock t)))"
    by (auto simp: tx_ready_def list_all_iff split: res.splits)
  moreover from mp_new_Ok [OF b(2)] obtain p where "mp_new b = Ok p" by blast
  ultimately show ?thesis using that by (simp add: fresh_patch_def)
qed

lemma call_ready_unpatched:
  assumes "call_ready b n" and "mp_new b = Ok p" and "\<forall>d \<in> set (basic_blocks b). terminator d \<noteq> None"
  shows "n < length (patch_map p)" and "patch_map p ! n = None"
proof -
  obtain t where t: "n < length (basic_blocks b)" "terminator (basic_blocks b ! n) = Some t" "term_kind t \<noteq> Resume"
    using assms(1) by (auto simp: call_ready_def split: option.splits terminator_kind.splits)
  note map = mp_new_map [OF assms(2) t assms(3)]
  show "n < length (patch_map p)" by (rule map(1))
  show "patch_map p ! n = None" by (rule map(2))
qed

lemma patch_terminator_cases:
  "n < length (patch_map p) \<Longrightarrow> patch_terminator p n k =
     (if patch_map p ! n = None then Ok (p\<lparr>patch_map := (patch_map p)[n := Some k]\<rparr>)
      else Panic Assert_Failed)"
  by (simp add: patch_terminator_def assert_that_def)

text \<open>A block has an entry exactly if one of the transactions has a site there.\<close>

lemma fn_patch_entry:
  assumes "call_ready b n" "mp_new b = Ok p" "\<forall>d \<in> set (basic_blocks b). terminator d \<noteq> None"
    and "\<forall>x \<in> set xs. tx_ready se (snd x)" "mir_validated (se_tcx se) d = Ok b"
  shows "patch_map (fn_patch se b d xs p) ! n = None \<longleftrightarrow> (d, n) \<notin> set (sites xs)"
  using assms(4)
proof (induction xs rule: rev_induct)
  case Nil
  then show ?case
    using call_ready_unpatched [OF assms(1-3)] by (simp add: fn_patch_def fn_writes_def store_def sites_def)
next
  case (snoc x xs)
  obtain i t where x: "x = (i, t)" by force
  have IH: "patch_map (fn_patch se b d xs p) ! n = None \<longleftrightarrow> (d, n) \<notin> set (sites xs)"
    using snoc by simp
  show ?case
  proof (cases "uid_def_id (tx_lock t) = d")
    case False
    then show ?thesis using IH by (simp add: fn_patch_def fn_writes_def sites_def x tx_sites_def)
  next
    case True
    from snoc.prems have "tx_ready se t" by (simp add: x)
    with True assms(5) have ready: "call_ready b (loc_block (uid_location (tx_lock t)))"
      "call_ready b (loc_block (uid_location (tx_unlock t)))"
      "is_ok (transaction_call se True (tx_is_write t))" "is_ok (transaction_call se False (tx_is_write t))"
      by (auto simp: tx_ready_def)
    from patch_call_ready [OF ready(1,3), of i] patch_call_ready [OF ready(2,4), of i] obtain k k' where
      k: "patch_call b (tx_lock t) se i True (tx_is_write t) = Ok k"
      "patch_call b (tx_unlock t) se i False (tx_is_write t) = Ok k'" by blast
    have "patch_map (fn_patch se b d (xs @ [x]) p) = (patch_map (fn_patch se b d xs p))
        [loc_block (uid_location (tx_lock t)) := Some k, loc_block (uid_location (tx_unlock t)) := Some k']"
      using True k by (simp add: fn_patch_def fn_writes_def store_append tx_writes_def store_def x)
    moreover have "loc_block (uid_location (tx_lock t)) < length (patch_map (fn_patch se b d xs p))"
      "loc_block (uid_location (tx_unlock t)) < length (patch_map (fn_patch se b d xs p))"
      using ready(1,2) call_ready_unpatched(1) assms(2,3) by (simp_all add: fn_patch_def)
    ultimately show ?thesis
      using IH True unfolding x sites_snoc by (auto simp: tx_sites_def nth_list_update)
  qed
qed

lemma emit_transaction_step:
  assumes get: "\<And>d. fx_get patches d = expected_patch se xs d"
    and ready: "\<forall>x \<in> set (xs @ [(i, t)]). tx_ready se (snd x)" and dist: "distinct (sites xs)"
  shows "if distinct (sites (xs @ [(i, t)]))
    then \<exists>patches'. emit_transaction se i t patches = Ok patches' \<and>
      (\<forall>d. fx_get patches' d = expected_patch se (xs @ [(i, t)]) d)
    else emit_transaction se i t patches = Panic Assert_Failed"
proof -
  let ?d = "uid_def_id (tx_lock t)" and ?l = "loc_block (uid_location (tx_lock t))"
    and ?u = "loc_block (uid_location (tx_unlock t))" and ?w = "tx_is_write t"
  have t: "tx_ready se t" using ready by simp
  then obtain b p where b: "mir_validated (se_tcx se) ?d = Ok b" "mp_new b = Ok p"
    "fresh_patch se ?d = Some (b, p)" "\<forall>d \<in> set (basic_blocks b). terminator d \<noteq> None"
    "call_ready b ?l" "call_ready b ?u" by (rule tx_readyD)
  have calls: "is_ok (transaction_call se True ?w)" "is_ok (transaction_call se False ?w)"
    using t by (simp_all add: tx_ready_def)
  from patch_call_ready [OF b(5) calls(1), of i] patch_call_ready [OF b(6) calls(2), of i] obtain k k' where
    k: "patch_call b (tx_lock t) se i True ?w = Ok k" "patch_call b (tx_unlock t) se i False ?w = Ok k'"
    by blast
  define q where "q = fn_patch se b ?d xs p"
  have "(case fx_get patches ?d of Some p \<Rightarrow> p | None \<Rightarrow> p) = q"
    unfolding get expected_patch_def b(3) q_def
    by (simp add: fn_patch_none)
  then have emit: "emit_transaction se i t patches =
      res_bind (patch_terminator q ?l k) (\<lambda>q1. res_bind (patch_terminator q1 ?u k')
        (\<lambda>q2. Ok (fx_put ?d q2 patches)))"
    by (simp add: emit_transaction_def Let_def b(1,2) k)
  have len: "?l < length (patch_map q)" "?u < length (patch_map q)"
    using call_ready_unpatched(1) [OF b(5,2,4)] call_ready_unpatched(1) [OF b(6,2,4)]
    by (simp_all add: q_def fn_patch_def)
  have entry: "patch_map q ! n = None \<longleftrightarrow> (?d, n) \<notin> set (sites xs)" if "call_ready b n" for n
    unfolding q_def using ready by (intro fn_patch_entry [OF that b(2,4) _ b(1)]) simp
  have free: "distinct (sites (xs @ [(i, t)])) \<longleftrightarrow>
      patch_map q ! ?l = None \<and> ?u \<noteq> ?l \<and> patch_map q ! ?u = None"
    using dist entry [OF b(5)] entry [OF b(6)] by (auto simp: tx_sites_def)
  show ?thesis
  proof (cases "distinct (sites (xs @ [(i, t)]))")
    case True
    let ?q2 = "q\<lparr>patch_map := (patch_map q)[?l := Some k, ?u := Some k']\<rparr>"
    have "fn_patch se b ?d (xs @ [(i, t)]) p = ?q2"
      by (simp add: q_def fn_patch_def fn_writes_def store_append tx_writes_def store_def k)
    moreover have "fn_patch se c d (xs @ [(i, t)]) r = fn_patch se c d xs r" if "d \<noteq> ?d" for c d r
      using that by (simp add: fn_patch_def fn_writes_def)
    ultimately have "fx_get (fx_put ?d ?q2 patches) d = expected_patch se (xs @ [(i, t)]) d" for d
      by (cases "d = ?d") (simp_all add: expected_patch_def b(3) get)
    moreover have "emit_transaction se i t patches = Ok (fx_put ?d ?q2 patches)"
      using True unfolding emit free by (simp add: patch_terminator_cases len)
    ultimately show ?thesis using True by auto
  next
    case False
    then have "emit_transaction se i t patches = Panic Assert_Failed"
      unfolding emit free using len by (auto simp: patch_terminator_cases nth_list_update)
    with False show ?thesis by simp
  qed
qed

lemma sites_prefix_distinct: "distinct (sites (xs @ ys)) \<Longrightarrow> distinct (sites xs)"
  by (simp add: sites_def)

lemma emit_transactions:
  assumes "\<And>d. fx_get patches d = expected_patch se xs d"
    and "\<forall>x \<in> set (xs @ ys). tx_ready se (snd x)" and "distinct (sites xs)"
  shows "if distinct (sites (xs @ ys))
    then \<exists>patches'. res_for ys (\<lambda>(i, t). emit_transaction se i t) patches = Ok patches' \<and>
      (\<forall>d. fx_get patches' d = expected_patch se (xs @ ys) d)
    else res_for ys (\<lambda>(i, t). emit_transaction se i t) patches = Panic Assert_Failed"
  using assms
proof (induction ys arbitrary: xs patches)
  case (Cons y ys)
  obtain i t where y: "y = (i, t)" by force
  have ready: "\<forall>x \<in> set (xs @ [(i, t)]). tx_ready se (snd x)" using Cons.prems(2) by (simp add: y)
  note step = emit_transaction_step [OF Cons.prems(1) ready Cons.prems(3)]
  show ?case
  proof (cases "distinct (sites (xs @ [(i, t)]))")
    case True
    with step obtain patches' where p: "emit_transaction se i t patches = Ok patches'"
      "\<And>d. fx_get patches' d = expected_patch se (xs @ [(i, t)]) d" by auto
    have "\<forall>x \<in> set ((xs @ [(i, t)]) @ ys). tx_ready se (snd x)" using Cons.prems(2) by (simp add: y)
    note IH = Cons.IH [OF p(2) this True, unfolded append_assoc append_Cons append_Nil]
    have "res_for (y # ys) (\<lambda>(i, t). emit_transaction se i t) patches =
        res_for ys (\<lambda>(i, t). emit_transaction se i t) patches'" by (simp add: y p(1))
    with IH show ?thesis by (simp only: y)
  next
    case False
    moreover from this have "\<not> distinct (sites (xs @ y # ys))"
      using sites_prefix_distinct [of "xs @ [(i, t)]" ys] by (auto simp: y)
    ultimately show ?thesis using step by (simp add: y)
  qed
qed simp

lemma make_patches_result:
  assumes "krate did = LOCAL_CRATE" "is_fn_or_closure se did" "conflict_sets n se LOCAL_CRATE = Ok css"
    and "\<forall>cs \<in> set css. \<forall>t \<in> set cs. tx_ready se t"
  shows "if distinct (sites (numbered css))
    then \<exists>patches. make_patches n se did = Ok patches \<and>
      (\<forall>d. fx_get patches d = expected_patch se (numbered css) d)
    else make_patches n se did = Panic Assert_Failed"
proof -
  have "\<forall>x \<in> set ([] @ numbered css). tx_ready se (snd x)"
    using assms(4) nth_mem by (fastforce simp: numbered_mem)
  moreover have "fx_get [] d = expected_patch se [] d" for d by (simp add: expected_patch_def)
  ultimately have "if distinct (sites (numbered css))
    then \<exists>patches. res_for (numbered css) (\<lambda>(i, t). emit_transaction se i t) [] = Ok patches \<and>
      (\<forall>d. fx_get patches d = expected_patch se (numbered css) d)
    else res_for (numbered css) (\<lambda>(i, t). emit_transaction se i t) [] = Panic Assert_Failed"
    using emit_transactions [of "[]" se "[]" "numbered css"] by (simp only: append_Nil) (simp add: sites_def)
  moreover have "make_patches n se did = res_for (numbered css) (\<lambda>(i, t). emit_transaction se i t) []"
    using assms(1-3) by (simp add: make_patches_def make_patches_numbered)
  ultimately show ?thesis by (simp only:)
qed

text \<open>(C5) Making the patches of a crate whose transactions are ready to be patched (each lock and
  unlock call stands in a validated body, takes one constant argument, and the runtime functions for
  its mode exist): if no two of the calls share a block, every function that contains a lock call
  gets the fresh patch with exactly the rewritten calls of its transactions stored, and no other
  function gets one; otherwise the second attempt to patch the shared block panics.\<close>

theorem make_patches_spec:
  assumes "krate did = LOCAL_CRATE" and "is_fn_or_closure se did"
    and "conflict_sets n se LOCAL_CRATE = Ok css"
    and "\<forall>cs \<in> set css. \<forall>t \<in> set cs. tx_ready se t"
  shows "if distinct (sites (numbered css))
    then \<exists>patches. make_patches n se did = Ok patches \<and>
      (\<forall>d. fx_get patches d = expected_patch se (numbered css) d)
    else make_patches n se did = Panic Assert_Failed"
  using assms by (rule make_patches_result)

section \<open>The emitted lock numbers\<close>




definition emission_ok :: "nat \<Rightarrow> session \<Rightarrow> transaction list list \<Rightarrow> bool" where
  "emission_ok n se css \<longleftrightarrow>
     conflict_sets n se LOCAL_CRATE = Ok css \<and> distinct (sites (numbered css)) \<and>
     (\<forall>cs \<in> set css. \<forall>t \<in> set cs. tx_ready se t \<and>
        krate (uid_def_id (tx_lock t)) = LOCAL_CRATE \<and> is_fn_or_closure se (uid_def_id (tx_lock t)))"





lemma sites_disjoint:
  "distinct (sites xs) \<Longrightarrow> x \<in> set xs \<Longrightarrow> y \<in> set xs \<Longrightarrow> x \<noteq> y \<Longrightarrow>
     set (tx_sites (snd x)) \<inter> set (tx_sites (snd y)) = {}"
proof (induction xs)
  case (Cons z xs)
  have "distinct (sites xs)" "set (tx_sites (snd z)) \<inter> set (sites xs) = {}"
    using Cons.prems(1) by (simp_all add: sites_def case_prod_beta)
  moreover have "set (tx_sites (snd v)) \<subseteq> set (sites xs)" if "v \<in> set xs" for v
    using that by (auto simp: sites_def case_prod_beta)
  ultimately have "set (tx_sites (snd z)) \<inter> set (tx_sites (snd v)) = {}" if "v \<in> set xs" for v
    using that by blast
  moreover have "set (tx_sites (snd x)) \<inter> set (tx_sites (snd y)) = {}" if "x \<in> set xs" "y \<in> set xs"
    using Cons.IH \<open>distinct (sites xs)\<close> that Cons.prems(4) by blast
  ultimately show ?case using Cons.prems(2-4) by (metis Int_commute set_ConsD)
qed simp

text \<open>(C9) A transaction that is recorded twice, for example because one caller makes it write and
  another only makes it read, cannot be compiled: two different transactions with the same lock call
  make the second patch of that call panic.\<close>

theorem one_lock_two_modes_panics:
  assumes "krate did = LOCAL_CRATE" and "is_fn_or_closure se did"
    and "conflict_sets n se LOCAL_CRATE = Ok css"
    and "\<forall>cs \<in> set css. \<forall>t \<in> set cs. tx_ready se t"
    and "s \<in> set (concat css)" and "t \<in> set (concat css)" and "s \<noteq> t" and "tx_lock s = tx_lock t"
  shows "make_patches n se did = Panic Assert_Failed"
proof -
  have "\<exists>i. (i, v) \<in> set (numbered css)" if "v \<in> set (concat css)" for v
    using that by (auto simp: numbered_mem in_set_conv_nth [of _ css])
  then obtain i j where ij: "(i, s) \<in> set (numbered css)" "(j, t) \<in> set (numbered css)"
    using assms(5,6) by blast
  have "set (tx_sites s) \<inter> set (tx_sites t) \<noteq> {}" using assms(8) by (simp add: tx_sites_def)
  then have "\<not> distinct (sites (numbered css))"
    using sites_disjoint [OF _ ij] assms(7) by auto
  then show ?thesis using make_patches_result [OF assms(1-4)] by simp
qed

text \<open>The calls of a transaction stand in a validated body and take one constant argument, whatever the
  optimization level.\<close>

definition tx_placed :: "session \<Rightarrow> transaction \<Rightarrow> bool" where
  "tx_placed se t =
     (case mir_validated (se_tcx se) (uid_def_id (tx_lock t)) of
        Ok b \<Rightarrow> list_all (\<lambda>d. terminator d \<noteq> None) (basic_blocks b) \<and>
          call_ready b (loc_block (uid_location (tx_lock t))) \<and>
          call_ready b (loc_block (uid_location (tx_unlock t)))
      | _ \<Rightarrow> False)"

definition level_message :: "nat \<Rightarrow> string" where
  "level_message level =
     (if level = 0 then ''transaction optimizations are not supported''
      else ''unknown transaction optimization level'')"

lemma emit_transaction_level:
  assumes "tx_placed se t" and "transaction_level se \<notin> {1, 2}"
  shows "emit_transaction se i t patches = Panic (Explicit_Panic (level_message (transaction_level se)))"
proof -
  from assms(1) obtain b where b: "mir_validated (se_tcx se) (uid_def_id (tx_lock t)) = Ok b"
    "\<forall>d \<in> set (basic_blocks b). terminator d \<noteq> None" "call_ready b (loc_block (uid_location (tx_lock t)))"
    by (auto simp: tx_placed_def list_all_iff split: res.splits)
  from mp_new_Ok [OF b(2)] obtain p where "mp_new b = Ok p" by blast
  moreover have "transaction_call se True (tx_is_write t) = Panic (Explicit_Panic (level_message (transaction_level se)))"
    using assms(2) by (simp add: transaction_call_def level_message_def)
  then have "patch_call b (tx_lock t) se i True (tx_is_write t) =
      Panic (Explicit_Panic (level_message (transaction_level se)))"
    using b(3) by (auto simp: patch_call_def call_ready_def block_terminator_def
      split: option.splits terminator_kind.splits)
  ultimately show ?thesis using b(1) by (simp add: emit_transaction_def Let_def)
qed

text \<open>(C10) The optimization levels other than 1 and 2, among them the levels 0 and 3 that the option's
  documentation offers. One transaction anywhere in the crate is enough: the optimized body of every
  function and closure of the crate, with or without transactions of its own, cannot be computed, and
  the panic is that of the level. In a crate without transactions every level gives the body with the
  optimization passes applied, without any patch.\<close>

theorem level_stops_crate:
  assumes "krate did = LOCAL_CRATE" and "is_fn_or_closure se did" and "\<not> is_constructor se did"
    and "conflict_sets n se LOCAL_CRATE = Ok css" and "\<forall>cs \<in> set css. \<forall>t \<in> set cs. tx_placed se t"
    and "transaction_level se \<notin> {1, 2}"
  shows "optimized_mir n se did =
    (if concat css = [] then res_bind (mir_validated (se_tcx se) did) (run_passes Optimized (optimization_passes se did))
     else Panic (Explicit_Panic (level_message (transaction_level se))))"
proof -
  have patches: "make_patches n se did = res_for (numbered css) (\<lambda>(i, t). emit_transaction se i t) []"
    using assms(1,2,4) by (simp add: make_patches_def make_patches_numbered)
  show ?thesis
  proof (cases "numbered css")
    case Nil
    then have "t \<notin> set (css ! i)" if "i < length css" for i t using that numbered_mem [of i t css] by simp
    then have "concat css = []" by (metis concat_eq_Nil_conv in_set_conv_nth last_in_set)
    moreover have "emitted_mir n se did = mir_validated (se_tcx se) did"
      using patches Nil by (cases "mir_validated (se_tcx se) did") (simp_all add: emitted_mir_def)
    ultimately show ?thesis using assms(3) by (simp add: optimized_mir_def)
  next
    case (Cons x xs)
    obtain i t where x: "x = (i, t)" by force
    have it: "i < length css" "t \<in> set (css ! i)" using Cons numbered_mem [of i t css] by (simp_all add: x)
    then have "css ! i \<in> set css" by simp
    with it assms(5) have placed: "tx_placed se t" and some: "concat css \<noteq> []"
      by (blast, metis concat_eq_Nil_conv empty_iff empty_set)
    have "optimized_mir n se did = Panic (Explicit_Panic (level_message (transaction_level se)))"
      using emit_transaction_level [OF placed assms(6)] patches Cons assms(3)
      by (simp add: x emitted_mir_def optimized_mir_def)
    then show ?thesis by (simp only: if_not_P [OF some])
  qed
qed

section \<open>An example\<close>

definition sample_session :: session where
  "sample_session =
     \<lparr>se_tcx = sample_tcx, transaction_level = 1, is_fn_or_closure = (\<lambda>d. True), mir_keys = [sample_did],
      is_const_fn = (\<lambda>d. False), ord_allocs = rev, se_orders = sample_orders,
      is_constructor = (\<lambda>d. False), adt_ctor = (\<lambda>d. sample_tx_body), optimization_passes = (\<lambda>d. [])\<rparr>"


definition sample_transaction :: transaction where
  "sample_transaction = \<lparr>tx_lock = uid_at 2 1, tx_unlock = uid_at 5 3, tx_is_write = True\<rparr>"

lemma sample_emission_ok: "emission_ok 5 sample_session [[sample_transaction]]"
proof -
  have "conflict_sets 5 sample_session LOCAL_CRATE = Ok [[sample_transaction]]" by code_simp
  moreover have "distinct (sites (numbered [[sample_transaction]]))" by code_simp
  moreover have "tx_ready sample_session sample_transaction" by code_simp
  ultimately show ?thesis
    by (simp add: emission_ok_def sample_session_def sample_transaction_def uid_at_def LOCAL_CRATE_def)
qed

theorem level_stops_crate_witness:
  "optimized_mir 5 (sample_session\<lparr>transaction_level := 3\<rparr>) sample_did =
     Panic (Explicit_Panic ''unknown transaction optimization level'') \<and>
   optimized_mir 5 (sample_session\<lparr>transaction_level := 0\<rparr>) sample_did =
     Panic (Explicit_Panic ''transaction optimizations are not supported'') \<and>
   optimized_mir 5 (sample_session\<lparr>transaction_level := 3, mir_keys := []\<rparr>) sample_did =
     Ok (sample_tx_body\<lparr>phase := Optimized\<rparr>)"
proof -
  have local: "krate sample_did = LOCAL_CRATE" by (simp add: sample_did_def LOCAL_CRATE_def)
  have run: "optimized_mir 5 (sample_session\<lparr>transaction_level := level\<rparr>) sample_did =
      Panic (Explicit_Panic (level_message level))" if "level \<notin> {1, 2}" for level
  proof -
    let ?se = "sample_session\<lparr>transaction_level := level\<rparr>"
    have "get_shared_objects 5 ?se d = get_shared_objects 5 sample_session d" for d
      by (simp add: get_shared_objects_def)
    then have "conflict_sets 5 ?se LOCAL_CRATE = conflict_sets 5 sample_session LOCAL_CRATE"
      by (simp add: conflict_sets_def all_shared_objects_def cong: if_cong)
    then have "conflict_sets 5 ?se LOCAL_CRATE = Ok [[sample_transaction]]"
      using sample_emission_ok by (simp add: emission_ok_def)
    moreover have "tx_placed sample_session sample_transaction" by code_simp
    then have "tx_placed ?se sample_transaction" by (simp add: tx_placed_def)
    ultimately show ?thesis
      using level_stops_crate [OF local, of ?se 5 "[[sample_transaction]]"] that by (simp add: sample_session_def)
  qed
  let ?se = "sample_session\<lparr>transaction_level := 3, mir_keys := []\<rparr>"
  have "conflict_sets 5 ?se LOCAL_CRATE = Ok []" by code_simp
  then have "optimized_mir 5 ?se sample_did =
      res_bind (mir_validated (se_tcx ?se) sample_did) (run_passes Optimized (optimization_passes ?se sample_did))"
    using level_stops_crate [OF local, of ?se 5 "[]"] by (simp add: sample_session_def)
  moreover have "\<dots> = Ok (sample_tx_body\<lparr>phase := Optimized\<rparr>)" by code_simp
  ultimately show ?thesis using run [of 3] run [of 0] by (simp add: level_message_def)
qed

theorem make_patches_spec_witness:
  "\<exists>patches. make_patches 5 sample_session sample_did = Ok patches \<and>
     (\<forall>d. fx_get patches d = expected_patch sample_session (numbered [[sample_transaction]]) d)"
  using make_patches_spec [of sample_did sample_session 5 "[[sample_transaction]]"] sample_emission_ok
  by (simp add: emission_ok_def sample_did_def LOCAL_CRATE_def) (simp add: sample_session_def)


text \<open>A function with a transaction that reads through its first argument and writes through its
  second, and two callers that each pass a shared object as one of them.\<close>

definition ref_to :: "nat \<Rightarrow> nat \<Rightarrow> basic_block_data \<Rightarrow> basic_block_data" where
  "ref_to l l' d = d\<lparr>statements := [\<lparr>stmt_source_info = sample_info 0,
     stmt_kind = Assign (place_from_local l) (Ref 0 Shared (place_from_local l'))\<rparr>]\<rparr>"

definition two_modes_fn :: body where
  "two_modes_fn =
     (body_of_blocks
       [call_args 90 [number_99] 3 1, ref_to 4 1 (call_args 12 [Move (place_from_local 4)] 5 2),
        ref_to 6 2 (call_args 11 [Move (place_from_local 6)] 7 3), call_args 91 [number_99] 8 4,
        sample_block [] Return])\<lparr>local_decls := replicate 9 sample_local, arg_count := 2\<rparr>"

definition two_modes_caller :: "operand list \<Rightarrow> body" where
  "two_modes_caller args =
     (body_of_blocks
       [call_to 10 1 1, ref_to 2 1 (call_args 2 args 3 2), sample_block [] Return])
     \<lparr>local_decls := replicate 4 sample_local\<rparr>"

definition two_modes_session :: session where
  "two_modes_session =
     sample_session\<lparr>
       se_tcx := sample_tcx\<lparr>
         fmt_operand := (\<lambda>f. if f = fn_const 12 then ''const txcell::TxPtr::<u32>::borrow'' else sample_fmt f),
         mir_validated := (\<lambda>d.
           if def_index d = 2 then Ok two_modes_fn
           else if def_index d = 3 then Ok (two_modes_caller [Move (place_from_local 2), number_99])
           else if def_index d = 4 then Ok (two_modes_caller [number_99, Move (place_from_local 2)])
           else Panic Index_Out_Of_Bounds)\<rparr>,
       mir_keys := map (\<lambda>i. \<lparr>krate = 0, def_index = i\<rparr>) [2, 3, 4]\<rparr>"

definition two_modes_tx :: "bool \<Rightarrow> transaction" where
  "two_modes_tx w =
     (let uid = (\<lambda>l n. (uid_at l n)\<lparr>uid_def_id := \<lparr>krate = 0, def_index = 2\<rparr>\<rparr>) in
      \<lparr>tx_lock = uid 3 0, tx_unlock = uid 8 3, tx_is_write = w\<rparr>)"

theorem one_lock_two_modes_panics_witness:
  "make_patches 9 two_modes_session \<lparr>krate = 0, def_index = 2\<rparr> = Panic Assert_Failed"
proof (rule one_lock_two_modes_panics)
  show "conflict_sets 9 two_modes_session LOCAL_CRATE = Ok [[two_modes_tx True], [two_modes_tx False]]"
    by code_simp
  have "tx_ready two_modes_session (two_modes_tx w)" for w by (cases w) code_simp+
  then show "\<forall>cs \<in> set [[two_modes_tx True], [two_modes_tx False]]. \<forall>t \<in> set cs. tx_ready two_modes_session t"
    by simp
  show "two_modes_tx True \<noteq> two_modes_tx False" "tx_lock (two_modes_tx True) = tx_lock (two_modes_tx False)"
    by (simp_all add: two_modes_tx_def Let_def)
qed (simp_all add: LOCAL_CRATE_def two_modes_session_def sample_session_def)

end
