(* ===== verification/Early_Passes.thy ===== *)
theory Early_Passes
  imports Noop_Pads Lock_Emission
begin

text \<open>
  The first passes that run over a body after the lock calls are emitted
  (\<open>run_optimization_passes\<close> of \<open>src/librustc_mir/transform/mod.rs\<close>, up to the call guards that drop
  elaboration needs). Each pass keeps what the next one relies on; together they keep the runs.
\<close>

section \<open>The list of passes\<close>

text \<open>\<open>n\<close> bounds the rounds of the simplifier of the control-flow graph.\<close>

definition early_passes :: "bool \<Rightarrow> const_eval \<Rightarrow> nat \<Rightarrow> (body \<Rightarrow> body res) list" where
  "early_passes sess_no_landing_pads ev n =
     [\<lambda>b. Ok (no_landing_pads sess_no_landing_pads b),
      simplify_branches ev,
      remove_noop_landing_pads sess_no_landing_pads,
      \<lambda>b. Ok (cleanup_non_codegen b),
      simplify_cfg n,
      add_call_guards CriticalCallEdges]"

section \<open>What the passes hand on\<close>

text \<open>The conditions under which the passes return: jumps inside the body, complete switches, and
  bounds on the numbers of edges and blocks.\<close>

definition passes_fit :: "nat \<Rightarrow> nat \<Rightarrow> body \<Rightarrow> bool" where
  "passes_fit e l b \<longleftrightarrow> wf_body b \<and> basic_blocks b \<noteq> [] \<and> edge_count b \<le> e \<and> length (basic_blocks b) \<le> l"

lemma passes_fitD:
  assumes "passes_fit e l b"
  shows "wf_body b" "basic_blocks b \<noteq> []" "edge_count b \<le> e" "length (basic_blocks b) \<le> l"
  using assms by (simp_all add: passes_fit_def)

lemma map_kind_edges:
  assumes "\<And>d t. d \<in> set bs \<Longrightarrow> terminator d = Some t \<Longrightarrow>
      length (successors (f (term_kind t))) \<le> length (successors (term_kind t))"
  shows "size (edges_of (map (map_kind f) bs)) \<le> size (edges_of bs)"
proof -
  have "length (term_succs (map_kind f d)) \<le> length (term_succs d)" if "d \<in> set bs" for d
    using assms [OF that] by (cases "terminator d") (simp_all add: term_succs_def)
  then show ?thesis unfolding size_edges_of by (simp add: comp_def sum_list_mono)
qed

lemma map_kind_all_kinds:
  assumes "all_kinds P b" "\<And>k. P k \<Longrightarrow> Q (f k)"
  shows "all_kinds Q (b\<lparr>basic_blocks := map (map_kind f) (basic_blocks b)\<rparr>)"
  using assms by (auto simp: all_kinds_def list_all_iff split: option.splits)

lemma no_landing_pads_fit:
  assumes "passes_fit e l b"
  shows "passes_fit e l (no_landing_pads nlp b)"
proof -
  have "length (successors (unwind_mut (\<lambda>_. None) k)) \<le> length (successors k)" for k
    by (cases k rule: successors.cases) simp_all
  then have "edge_count (no_landing_pads nlp b) \<le> edge_count b"
    by (auto simp: no_landing_pads_def edge_count_edges intro: map_kind_edges)
  with passes_fitD [OF assms] no_landing_pads_wf [of b nlp] show ?thesis
    by (auto simp: passes_fit_def no_landing_pads_def)
qed

lemma no_landing_pads_kinds:
  assumes "all_kinds switch_ok b" "all_kinds (assert_known ev) b"
  shows "all_kinds switch_ok (no_landing_pads nlp b)" "all_kinds (assert_known ev) (no_landing_pads nlp b)"
proof -
  have "switch_ok (unwind_mut (\<lambda>_. None) k)" if "switch_ok k" for k using that by (cases k) simp_all
  moreover have "assert_known ev (unwind_mut (\<lambda>_. None) k)" if "assert_known ev k" for k
    using that by (cases "(ev, k)" rule: assert_known.cases) simp_all
  ultimately show "all_kinds switch_ok (no_landing_pads nlp b)" "all_kinds (assert_known ev) (no_landing_pads nlp b)"
    using assms map_kind_all_kinds [of switch_ok b switch_ok] map_kind_all_kinds [of "assert_known ev" b "assert_known ev"]
    by (simp_all add: no_landing_pads_def)
qed

lemma branch_kind_length: "switch_ok k \<Longrightarrow> length (successors (branch_kind ev k)) \<le> length (successors k)"
proof (cases k)
  case (SwitchInt d sty vs ts)
  assume "switch_ok k"
  then show ?thesis using SwitchInt
    by (cases ts) (auto simp: branch_kind_def simplified_kind_def split: operand.split option.split)
next
  case (Assert d e m t u)
  then show ?thesis by (cases u) (auto simp: branch_kind_def simplified_kind_def split: operand.splits)
next
  case (FalseUnwind t u)
  then show ?thesis by (cases u) (auto simp: branch_kind_def simplified_kind_def)
qed (auto simp: branch_kind_def simplified_kind_def)

lemma branch_kind_switch: "switch_ok k \<Longrightarrow> switch_ok (branch_kind ev k)"
  by (cases k) (auto simp: branch_kind_def simplified_kind_def split: operand.split option.split)

lemma simplify_branches_fit:
  assumes "passes_fit e l b" "all_kinds switch_ok b"
  shows "passes_fit e l (b\<lparr>basic_blocks := map (map_kind (branch_kind ev)) (basic_blocks b)\<rparr>)"
    and "all_kinds switch_ok (b\<lparr>basic_blocks := map (map_kind (branch_kind ev)) (basic_blocks b)\<rparr>)"
proof -
  note D = passes_fitD [OF assms(1)]
  have "size (edges_of (map (map_kind (branch_kind ev)) (basic_blocks b))) \<le> size (edges_of (basic_blocks b))"
    using assms(2) by (intro map_kind_edges branch_kind_length) (force simp: all_kinds_def list_all_iff)
  then show "passes_fit e l (b\<lparr>basic_blocks := map (map_kind (branch_kind ev)) (basic_blocks b)\<rparr>)"
    using D branches_wf [OF D(1) assms(2)] by (simp add: passes_fit_def edge_count_edges)
  show "all_kinds switch_ok (b\<lparr>basic_blocks := map (map_kind (branch_kind ev)) (basic_blocks b)\<rparr>)"
    using assms(2) by (rule map_kind_all_kinds) (rule branch_kind_switch)
qed

lemma remove_noop_fit:
  assumes "passes_fit e l b" "all_kinds switch_ok b" "sem_ok sem" "pads_ok sem obs"
  shows "\<exists>b'. remove_noop_landing_pads nlp b = Ok b' \<and> passes_fit (e + 1) (l + 1) b' \<and> runs_like obs sem b b'"
proof (cases nlp)
  case True
  then show ?thesis using assms(1) by (simp add: remove_noop_landing_pads_def passes_fit_def same_runs_like)
next
  case False
  note D = passes_fitD [OF assms(1)]
  from remove_noop_landing_pads_ok [OF D(1,2) assms(2-4)] obtain b' where
    "remove_noop_landing_pads False b = Ok b'" "wf_body b'" "runs_like obs sem b b'"
    "length (basic_blocks b') \<le> length (basic_blocks b) + 1" "basic_blocks b' \<noteq> []"
    "edge_count b' \<le> edge_count b + 1" by blast
  then show ?thesis using False D(3,4) by (intro exI [of _ b']) (simp add: passes_fit_def)
qed

lemma cleanup_fit: "passes_fit e l b \<Longrightarrow> passes_fit e l (cleanup_non_codegen b)"
proof -
  assume fit: "passes_fit e l b"
  have "edge_count (cleanup_non_codegen b) = edge_count b"
    by (simp add: edge_count_edges size_edges_of cleanup_non_codegen_def comp_def term_succs_def)
  moreover have "length (basic_blocks (cleanup_non_codegen b)) = length (basic_blocks b)"
    by (simp add: cleanup_non_codegen_def)
  ultimately show ?thesis using passes_fitD [OF fit] cleanup_wf [of b] by (auto simp: passes_fit_def)
qed

section \<open>The passes together\<close>

text \<open>(C16) The passes that run first after the emission of the lock calls, on a well-formed body with
  complete switches in which every assertion that expects false about a constant is about one that
  the compiler can evaluate (\<open>assert_known\<close>; without this condition \<open>SimplifyBranches\<close> drops assertions that
  may fail). The passes return, however many rounds beyond those it needs the simplifier is given; the
  result is well-formed and its runs have the same outcomes, up to the writes to locals in landing pads
  that were removed. So the calls of lock and unlock functions happen in the same order and with the
  same arguments. Calls that may unwind return to blocks with one predecessor. As in the single passes,
  constant evaluation agrees with the run (\<open>eval_ok\<close>), statements for the borrow checker do nothing, and
  nothing unwinds when unwinding is switched off.\<close>

theorem early_passes_keep_runs:
  assumes "passes_fit (2 ^ 32 - 4) 0x7FFFFF7F b" and "all_kinds switch_ok b" and "all_kinds (assert_known ev) b"
    and "sem_ok sem" and "eval_ok sem ev" and "pads_ok sem obs" and "ghosts_ok sem"
    and "panics_abort sem \<or> \<not> nlp"
  shows "\<exists>N b' preds. (\<forall>n\<ge>N. res_for (early_passes nlp ev n) (\<lambda>pass. pass) b = Ok b') \<and> wf_body b' \<and>
    runs_like obs sem b b' \<and> calculate_predecessors b' = Ok preds \<and>
    (\<forall>d\<in>set (basic_blocks b'). \<forall>t m. terminator d = Some t \<longrightarrow> wanted CriticalCallEdges (term_kind t) \<longrightarrow>
       call_return (term_kind t) = Some m \<longrightarrow> length (preds ! m) = 1)"
proof -
  let ?b1 = "no_landing_pads nlp b"
  let ?b2 = "?b1\<lparr>basic_blocks := map (map_kind (branch_kind ev)) (basic_blocks ?b1)\<rparr>"
  note fit1 = no_landing_pads_fit [OF assms(1), of nlp]
  note kinds = no_landing_pads_kinds [OF assms(2,3), of nlp]
  note fit2 = simplify_branches_fit [OF fit1 kinds(1), of ev]
  have run2: "simplify_branches ev ?b1 = Ok ?b2" using kinds(1) passes_fitD(1) [OF fit1] by (rule simplify_branches_ok)
  have like2: "same_runs sem b ?b2"
    using no_landing_pads_runs [OF assms(8)] simplify_branches_runs [OF passes_fitD(1) [OF fit1] kinds assms(4,5)] run2
    by (auto intro: same_runs_trans)
  from remove_noop_fit [OF fit2 assms(4,6), of nlp] obtain b3 where
    b3: "remove_noop_landing_pads nlp ?b2 = Ok b3" "passes_fit (2 ^ 32 - 3) 0x7FFFFF80 b3" "runs_like obs sem ?b2 b3"
    by auto
  let ?b4 = "cleanup_non_codegen b3"
  note fit4 = passes_fitD [OF cleanup_fit [OF b3(2)]]
  from simplify_cfg_ok [OF fit4(1,2) _ _ assms(4)] fit4(3,4) obtain N b5 where
    b5: "\<forall>n\<ge>N. simplify_cfg n ?b4 = Ok b5" "wf_body b5" "same_runs sem ?b4 b5"
      "(cfg.edge b5)\<^sup>* `` {START_BLOCK} = {..<length (basic_blocks b5)}"
      "length (basic_blocks b5) \<le> length (basic_blocks ?b4)" by auto
  have "START_BLOCK \<in> {..<length (basic_blocks b5)}" unfolding b5(4) [symmetric] by blast
  then have "basic_blocks b5 \<noteq> []" by auto
  moreover have "2 * length (basic_blocks b5) \<le> 0xFFFFFF01" using b5(5) fit4(4) by simp
  ultimately obtain b6 preds where
    b6: "add_call_guards CriticalCallEdges b5 = Ok b6" "wf_body b6" "same_runs sem b5 b6"
      "calculate_predecessors b6 = Ok preds"
      "\<forall>d\<in>set (basic_blocks b6). \<forall>t m. terminator d = Some t \<longrightarrow> wanted CriticalCallEdges (term_kind t) \<longrightarrow>
       call_return (term_kind t) = Some m \<longrightarrow> length (preds ! m) = 1"
    using add_call_guards_ok [OF b5(2) _ _ assms(4), of CriticalCallEdges] by blast
  have "same_runs sem b3 b6"
    using cleanup_runs [OF assms(4,7)] b5(3) b6(3) same_runs_trans by blast
  then have "runs_like obs sem b b6"
    using same_runs_like [OF like2] b3(3) same_runs_like runs_like_trans by blast
  moreover have "res_for (early_passes nlp ev n) (\<lambda>pass. pass) b = Ok b6" if "n \<ge> N" for n
    using that run2 b3(1) b5(1) b6(1) by (simp add: early_passes_def)
  ultimately show ?thesis using b6(2,4,5) by (intro exI [of _ N] exI [of _ b6] exI [of _ preds]) blast
qed

section \<open>An example\<close>

text \<open>A lock call that may unwind, a branch with a known condition, a landing pad without effect, and
  statements that only the borrow checker needs.\<close>

definition locked_section :: body where
  "locked_section =
     body_of_blocks
       [sample_block [] (Call (Copy (place_from_local 1)) [] (Some (place_from_local 2, 1)) (Some 3) True),
        sample_block [] (SwitchInt (Constant \<lparr>const_span = 0, const_user_ty = None,
          const_literal = \<lparr>lit_ty = Uint_ty 0, lit_val = Scalar_usize 7\<rparr>\<rparr>) (Uint_ty 0) [5, 7] [1, 2, 1]),
        sample_block [4] Return, sample_block [3] (Goto 4), sample_block [] Resume]"

lemma eval_sem_pads: "pads_ok (eval_sem ev) log_visible" "ghosts_ok (eval_sem ev)"
proof -
  show "pads_ok (eval_sem ev) log_visible" using log_pads_ok by (simp add: pads_ok_def eval_sem_def)
  have "log_statement k s = s" if "non_codegen k" for k s
    using that by (cases k rule: non_codegen.cases) simp_all
  then show "ghosts_ok (eval_sem ev)" by (simp add: ghosts_ok_def eval_sem_def log_sem_def)
qed

theorem early_passes_keep_runs_witness:
  "passes_fit (2 ^ 32 - 4) 0x7FFFFF7F locked_section \<and> all_kinds switch_ok locked_section \<and>
   all_kinds (assert_known no_eval) locked_section \<and> sem_ok (eval_sem no_eval) \<and>
   eval_ok (eval_sem no_eval) no_eval \<and> pads_ok (eval_sem no_eval) log_visible \<and> ghosts_ok (eval_sem no_eval) \<and>
   (\<exists>N b'. res_for (early_passes False no_eval N) (\<lambda>pass. pass) locked_section = Ok b' \<and> wf_body b' \<and>
      runs_like log_visible (eval_sem no_eval) locked_section b')"
proof -
  have wf: "wf_body locked_section" "basic_blocks locked_section \<noteq> []" by code_simp+
  have "edge_count locked_section = 6" "length (basic_blocks locked_section) = 5" by code_simp+
  then have fit: "passes_fit (2 ^ 32 - 4) 0x7FFFFF7F locked_section" using wf by (simp add: passes_fit_def)
  have kinds: "all_kinds switch_ok locked_section" "all_kinds (assert_known no_eval) locked_section" by code_simp+
  have "panics_abort (eval_sem no_eval) \<or> \<not> False" by simp
  from early_passes_keep_runs [OF fit kinds eval_sem_ok eval_sem_pads this] obtain N b' where
    "\<forall>n\<ge>N. res_for (early_passes False no_eval n) (\<lambda>pass. pass) locked_section = Ok b'" "wf_body b'"
    "runs_like log_visible (eval_sem no_eval) locked_section b'" by blast
  then show ?thesis using fit kinds eval_sem_ok eval_sem_pads by blast
qed

end
