(* ===== verification/Hybrid_Set.thy ===== *)
theory Hybrid_Set
  imports Bit_Set
begin

text \<open>
  Sparse, hybrid and growable bit sets (\<open>src/librustc_index/bit_set.rs\<close>). A sparse set keeps up to
  eight elements in a sorted vector; a hybrid set starts sparse and becomes dense when the vector is
  full. The theorems show that all of them are sets, whatever their representation, and that the
  word-by-word merge of a sparse into a dense set reports correctly whether the sparse set gained
  elements.
\<close>

section \<open>Sets over a domain\<close>

text \<open>The loops that insert or remove the elements of a sequence one by one, collecting whether
  anything changed.\<close>

definition apply_all :: "('s \<Rightarrow> nat \<Rightarrow> ('s \<times> bool) res) \<Rightarrow> nat list \<Rightarrow> 's \<Rightarrow> ('s \<times> bool) res" where
  "apply_all f xs s =
     res_for xs (\<lambda>e (s, changed). res_bind (f s e) (\<lambda>(s', c). Ok (s', changed \<or> c))) (s, False)"

text \<open>What a set over a domain promises of its insertion and removal, and what follows for the
  loops.\<close>

locale domain_set =
  fixes ok :: "'s \<Rightarrow> bool" and els :: "'s \<Rightarrow> nat set" and dom_size :: "'s \<Rightarrow> nat"
    and ins :: "'s \<Rightarrow> nat \<Rightarrow> ('s \<times> bool) res" and rem :: "'s \<Rightarrow> nat \<Rightarrow> ('s \<times> bool) res"
  assumes ins_law: "ok s \<Longrightarrow> e < dom_size s \<Longrightarrow>
      \<exists>s'. ins s e = Ok (s', e \<notin> els s) \<and> ok s' \<and> els s' = insert e (els s) \<and> dom_size s' = dom_size s"
    and rem_law: "ok s \<Longrightarrow> e < dom_size s \<Longrightarrow>
      \<exists>s'. rem s e = Ok (s', e \<in> els s) \<and> ok s' \<and> els s' = els s - {e} \<and> dom_size s' = dom_size s"
begin

lemma ins_loop:
  assumes "ok s" and "set xs \<subseteq> {..<dom_size s}"
  shows "\<exists>s'. res_for xs (\<lambda>e (s, changed). res_bind (ins s e) (\<lambda>(s', c). Ok (s', changed \<or> c))) (s, ch) =
      Ok (s', ch \<or> \<not> set xs \<subseteq> els s) \<and> ok s' \<and> els s' = els s \<union> set xs \<and> dom_size s' = dom_size s"
  using assms
proof (induction xs arbitrary: s ch)
  case (Cons e xs)
  from Cons.prems(2) have "e < dom_size s" by simp
  with ins_law [OF Cons.prems(1)] obtain s1 where s1: "ins s e = Ok (s1, e \<notin> els s)" "ok s1"
    "els s1 = insert e (els s)" "dom_size s1 = dom_size s" by blast
  from Cons.IH [OF s1(2), of "ch \<or> e \<notin> els s"] Cons.prems(2) s1(4) obtain s2 where
    "res_for xs (\<lambda>e (s, changed). res_bind (ins s e) (\<lambda>(s', c). Ok (s', changed \<or> c))) (s1, ch \<or> e \<notin> els s) =
      Ok (s2, (ch \<or> e \<notin> els s) \<or> \<not> set xs \<subseteq> els s1)" "ok s2" "els s2 = els s1 \<union> set xs"
    "dom_size s2 = dom_size s1" by auto
  moreover have "((ch \<or> e \<notin> els s) \<or> \<not> set xs \<subseteq> els s1) = (ch \<or> \<not> set (e # xs) \<subseteq> els s)"
    using s1(3) by auto
  ultimately show ?case using s1 by (intro exI [of _ s2]) simp
qed auto

lemma rem_loop:
  assumes "ok s" and "set xs \<subseteq> {..<dom_size s}"
  shows "\<exists>s'. res_for xs (\<lambda>e (s, changed). res_bind (rem s e) (\<lambda>(s', c). Ok (s', changed \<or> c))) (s, ch) =
      Ok (s', ch \<or> els s \<inter> set xs \<noteq> {}) \<and> ok s' \<and> els s' = els s - set xs \<and> dom_size s' = dom_size s"
  using assms
proof (induction xs arbitrary: s ch)
  case (Cons e xs)
  from Cons.prems(2) have "e < dom_size s" by simp
  with rem_law [OF Cons.prems(1)] obtain s1 where s1: "rem s e = Ok (s1, e \<in> els s)" "ok s1"
    "els s1 = els s - {e}" "dom_size s1 = dom_size s" by blast
  from Cons.IH [OF s1(2), of "ch \<or> e \<in> els s"] Cons.prems(2) s1(4) obtain s2 where
    "res_for xs (\<lambda>e (s, changed). res_bind (rem s e) (\<lambda>(s', c). Ok (s', changed \<or> c))) (s1, ch \<or> e \<in> els s) =
      Ok (s2, (ch \<or> e \<in> els s) \<or> els s1 \<inter> set xs \<noteq> {})" "ok s2" "els s2 = els s1 - set xs"
    "dom_size s2 = dom_size s1" by auto
  moreover have "((ch \<or> e \<in> els s) \<or> els s1 \<inter> set xs \<noteq> {}) = (ch \<or> els s \<inter> set (e # xs) \<noteq> {})"
    using s1(3) by auto
  moreover have "els s1 - set xs = els s - set (e # xs)" using s1(3) by auto
  ultimately show ?case using s1 by (intro exI [of _ s2]) simp
qed auto

lemma insert_all_elems:
  assumes "ok s" and "set xs \<subseteq> {..<dom_size s}"
  shows "\<exists>s'. apply_all ins xs s = Ok (s', \<not> set xs \<subseteq> els s) \<and> ok s' \<and> els s' = els s \<union> set xs \<and>
    dom_size s' = dom_size s"
  unfolding apply_all_def using ins_loop [OF assms, of False] by simp

lemma remove_all_elems:
  assumes "ok s" and "set xs \<subseteq> {..<dom_size s}"
  shows "\<exists>s'. apply_all rem xs s = Ok (s', els s \<inter> set xs \<noteq> {}) \<and> ok s' \<and> els s' = els s - set xs \<and>
    dom_size s' = dom_size s"
  unfolding apply_all_def using rem_loop [OF assms, of False] by simp

end

interpretation dense: domain_set bs_ok bits domain_size bs_insert bs_remove
  by unfold_locales (rule bs_insert_ok bs_remove_ok; assumption)+

section \<open>Sparse sets\<close>

text \<open>\<open>Iterator::position\<close>.\<close>

fun position :: "('a \<Rightarrow> bool) \<Rightarrow> 'a list \<Rightarrow> nat option" where
  "position P [] = None"
| "position P (x # xs) = (if P x then Some 0 else map_option Suc (position P xs))"

definition SPARSE_MAX :: nat where
  "SPARSE_MAX = 8"

record sparse_bit_set =
  sp_domain_size :: nat
  elems :: "nat list"

definition sp_new_empty :: "nat \<Rightarrow> sparse_bit_set" where
  "sp_new_empty domain = \<lparr>sp_domain_size = domain, elems = []\<rparr>"

definition sp_len :: "sparse_bit_set \<Rightarrow> nat" where
  "sp_len s = length (elems s)"

definition sp_is_empty :: "sparse_bit_set \<Rightarrow> bool" where
  "sp_is_empty s = (length (elems s) = 0)"

definition sp_contains :: "sparse_bit_set \<Rightarrow> nat \<Rightarrow> bool res" where
  "sp_contains s elem =
     res_bind (assert_that (elem < sp_domain_size s)) (\<lambda>_. Ok (elem \<in> set (elems s)))"

definition sp_insert :: "sparse_bit_set \<Rightarrow> nat \<Rightarrow> (sparse_bit_set \<times> bool) res" where
  "sp_insert s elem =
     res_bind (assert_that (elem < sp_domain_size s)) (\<lambda>_.
       let (s', changed) =
         (case position (\<lambda>e. e \<ge> elem) (elems s) of
            Some i \<Rightarrow>
              if elems s ! i = elem then (s, False)
              else (s\<lparr>elems := take i (elems s) @ elem # drop i (elems s)\<rparr>, True)
          | None \<Rightarrow> (s\<lparr>elems := elems s @ [elem]\<rparr>, True))
       in res_bind (assert_that (sp_len s' \<le> SPARSE_MAX)) (\<lambda>_. Ok (s', changed)))"

definition sp_remove :: "sparse_bit_set \<Rightarrow> nat \<Rightarrow> (sparse_bit_set \<times> bool) res" where
  "sp_remove s elem =
     res_bind (assert_that (elem < sp_domain_size s)) (\<lambda>_.
       case position (\<lambda>e. e = elem) (elems s) of
         Some i \<Rightarrow> Ok (s\<lparr>elems := take i (elems s) @ drop (Suc i) (elems s)\<rparr>, True)
       | None \<Rightarrow> Ok (s, False))"

definition sp_to_dense :: "sparse_bit_set \<Rightarrow> bit_set res" where
  "sp_to_dense s =
     res_for (elems s) (\<lambda>elem dense. res_bind (bs_insert dense elem) (\<lambda>(d, _). Ok d))
       (bs_new_empty (sp_domain_size s))"

definition sp_union_into :: "sparse_bit_set \<Rightarrow> bit_set \<Rightarrow> (bit_set \<times> bool) res" where
  "sp_union_into s other =
     res_bind (assert_that (sp_domain_size s = domain_size other)) (\<lambda>_.
       apply_all bs_insert (elems s) other)"

definition sp_subtract_from :: "sparse_bit_set \<Rightarrow> bit_set \<Rightarrow> (bit_set \<times> bool) res" where
  "sp_subtract_from s other =
     res_bind (assert_that (sp_domain_size s = domain_size other)) (\<lambda>_.
       apply_all bs_remove (elems s) other)"

text \<open>The elements are sorted without duplicates, lie in the domain, and are at most eight.\<close>

definition sp_ok :: "sparse_bit_set \<Rightarrow> bool" where
  "sp_ok s \<longleftrightarrow>
     sorted_wrt (<) (elems s) \<and> set (elems s) \<subseteq> {..<sp_domain_size s} \<and> length (elems s) \<le> SPARSE_MAX"

lemma position_Some:
  "position P xs = Some i \<Longrightarrow> i < length xs \<and> P (xs ! i) \<and> (\<forall>j < i. \<not> P (xs ! j))"
proof (induction xs arbitrary: i)
  case (Cons x xs)
  show ?case
  proof (cases i)
    case (Suc j)
    with Cons show ?thesis by (auto split: if_splits simp: less_Suc_eq_0_disj)
  qed (use Cons.prems in \<open>simp split: if_splits\<close>)
qed simp

lemma position_None: "position P xs = None \<longleftrightarrow> (\<forall>x \<in> set xs. \<not> P x)"
  by (induction xs) auto

text \<open>Inserting in front of the first element that is not smaller keeps the vector sorted.\<close>

lemma insert_position:
  fixes x :: nat
  assumes "sorted_wrt (<) xs" and "position (\<lambda>e. e \<ge> x) xs = Some i" and "xs ! i \<noteq> x"
  shows "sorted_wrt (<) (take i xs @ x # drop i xs)" and "x \<notin> set xs"
proof -
  note i = position_Some [OF assms(2)]
  have low: "y < x" if "y \<in> set (take i xs)" for y
    using that i by (auto simp: in_set_conv_nth not_le)
  have high: "x < y" if "y \<in> set (drop i xs)" for y
  proof -
    from that obtain k where "k < length (drop i xs)" "y = drop i xs ! k" by (metis in_set_conv_nth)
    then have k: "i + k < length xs" "y = xs ! (i + k)" by simp_all
    have "xs ! i \<le> xs ! (i + k)"
      using sorted_wrt_nth_less [OF assms(1), of i "i + k"] k(1) by (cases k) auto
    with i assms(3) k(2) show ?thesis by simp
  qed
  have "sorted_wrt (<) (take i xs @ drop i xs)" using assms(1) by simp
  with low high show "sorted_wrt (<) (take i xs @ x # drop i xs)"
    unfolding sorted_wrt_append by (auto intro: less_trans)
  have "set xs = set (take i xs) \<union> set (drop i xs)" by (metis append_take_drop_id set_append)
  with low high show "x \<notin> set xs" by fastforce
qed

lemma sp_insert_ok:
  assumes "sp_ok s" and "e < sp_domain_size s" and "length (elems s) < SPARSE_MAX \<or> e \<in> set (elems s)"
  shows "\<exists>s'. sp_insert s e = Ok (s', e \<notin> set (elems s)) \<and> sp_ok s' \<and>
    set (elems s') = insert e (set (elems s)) \<and> sp_domain_size s' = sp_domain_size s"
proof (cases "position (\<lambda>x. x \<ge> e) (elems s)")
  case None
  then have low: "\<forall>x \<in> set (elems s). x < e" by (auto simp: position_None not_le)
  let ?s = "s\<lparr>elems := elems s @ [e]\<rparr>"
  have "e \<notin> set (elems s)" using low by auto
  moreover from this have "sp_ok ?s" using assms low by (auto simp: sp_ok_def sorted_wrt_append)
  ultimately show ?thesis
    using None assms by (intro exI [of _ ?s]) (simp add: sp_insert_def sp_len_def)
next
  case (Some i)
  note i = position_Some [OF Some]
  show ?thesis
  proof (cases "elems s ! i = e")
    case True
    then have "e \<in> set (elems s)" using i by auto
    with True Some assms show ?thesis
      by (intro exI [of _ s]) (simp add: sp_insert_def sp_len_def sp_ok_def insert_absorb)
  next
    case False
    let ?s = "s\<lparr>elems := take i (elems s) @ e # drop i (elems s)\<rparr>"
    have ins: "sorted_wrt (<) (elems ?s)" "e \<notin> set (elems s)"
      using insert_position [OF _ Some False] assms(1) by (simp_all add: sp_ok_def)
    have set: "set (elems ?s) = insert e (set (elems s))"
    proof -
      have "set (elems s) = set (take i (elems s)) \<union> set (drop i (elems s))"
        by (metis append_take_drop_id set_append)
      then show ?thesis by auto
    qed
    have "sp_ok ?s" using ins(1) set assms ins(2) i by (auto simp: sp_ok_def)
    moreover from this have "sp_len ?s \<le> SPARSE_MAX" by (simp add: sp_ok_def sp_len_def)
    ultimately show ?thesis
      using Some False assms ins(2) set
      by (intro exI [of _ ?s]) (simp add: sp_insert_def)
  qed
qed

lemma sp_remove_ok:
  assumes "sp_ok s" and "e < sp_domain_size s"
  shows "\<exists>s'. sp_remove s e = Ok (s', e \<in> set (elems s)) \<and> sp_ok s' \<and>
    set (elems s') = set (elems s) - {e} \<and> sp_domain_size s' = sp_domain_size s"
proof (cases "position (\<lambda>x. x = e) (elems s)")
  case None
  then have "e \<notin> set (elems s)" by (auto simp: position_None)
  with None assms show ?thesis by (intro exI [of _ s]) (simp add: sp_remove_def)
next
  case (Some i)
  note i = position_Some [OF Some]
  let ?s = "s\<lparr>elems := take i (elems s) @ drop (Suc i) (elems s)\<rparr>"
  have split: "elems s = take i (elems s) @ e # drop (Suc i) (elems s)"
    using i by (metis id_take_nth_drop)
  have sorted: "sorted_wrt (<) (take i (elems s) @ e # drop (Suc i) (elems s))"
    using assms(1) split by (simp add: sp_ok_def)
  then have "sorted_wrt (<) (elems ?s)" and e: "e \<notin> set (elems ?s)"
    by (auto simp: sorted_wrt_append)
  moreover have set: "set (elems s) = insert e (set (elems ?s))"
    by (subst split) simp
  ultimately have "sp_ok ?s" using assms(1) i by (auto simp: sp_ok_def)
  with Some assms(2) set e show ?thesis by (intro exI [of _ ?s]) (auto simp: sp_remove_def)
qed

lemma sp_to_dense_ok:
  assumes "sp_ok s"
  shows "\<exists>d. sp_to_dense s = Ok d \<and> bs_ok d \<and> bits d = set (elems s) \<and> domain_size d = sp_domain_size s"
proof -
  have "\<exists>d'. res_for xs (\<lambda>elem dense. res_bind (bs_insert dense elem) (\<lambda>(d, _). Ok d)) d = Ok d' \<and>
      bs_ok d' \<and> bits d' = bits d \<union> set xs \<and> domain_size d' = domain_size d"
    if "bs_ok d" "set xs \<subseteq> {..<domain_size d}" for xs d
    using that
  proof (induction xs arbitrary: d)
    case (Cons x xs)
    from Cons.prems(2) bs_insert_ok [OF Cons.prems(1), of x] obtain d1 where d1:
      "bs_insert d x = Ok (d1, x \<notin> bits d)" "bs_ok d1" "bits d1 = insert x (bits d)"
      "domain_size d1 = domain_size d" by auto
    from Cons.IH [OF d1(2)] Cons.prems(2) d1 show ?case by auto
  qed simp
  from this [of "bs_new_empty (sp_domain_size s)" "elems s"] assms show ?thesis
    unfolding sp_to_dense_def by (simp add: bs_new_empty_ok sp_ok_def) (simp add: bs_new_empty_def)
qed

lemma sp_union_into_ok:
  assumes "sp_ok s" "bs_ok d" "sp_domain_size s = domain_size d"
  shows "\<exists>d'. sp_union_into s d = Ok (d', \<not> set (elems s) \<subseteq> bits d) \<and> bs_ok d' \<and>
    bits d' = bits d \<union> set (elems s) \<and> domain_size d' = domain_size d"
  using dense.insert_all_elems [OF assms(2), of "elems s"] assms by (simp add: sp_union_into_def sp_ok_def)

lemma sp_subtract_from_ok:
  assumes "sp_ok s" "bs_ok d" "sp_domain_size s = domain_size d"
  shows "\<exists>d'. sp_subtract_from s d = Ok (d', bits d \<inter> set (elems s) \<noteq> {}) \<and> bs_ok d' \<and>
    bits d' = bits d - set (elems s) \<and> domain_size d' = domain_size d"
  using dense.remove_all_elems [OF assms(2), of "elems s"] assms by (simp add: sp_subtract_from_def sp_ok_def)

section \<open>Merging a sparse set into a dense one\<close>

text \<open>\<open>reverse_union_sparse\<close>. The state of its loop: the words, \<open>not_already\<close>, \<open>current_index\<close> and
  \<open>new_bit_mask\<close>.\<close>

type_synonym merge_state = "word64 list \<times> bool \<times> nat \<times> word64"

definition merge_word :: "merge_state \<Rightarrow> merge_state res" where
  "merge_word = (\<lambda>(ws, not_already, current_index, new_bit_mask).
     res_bind (index_vec ws current_index) (\<lambda>w.
       let w' = w OR new_bit_mask in
       Ok (ws[current_index := w'], not_already \<or> w' XOR new_bit_mask \<noteq> 0, current_index, new_bit_mask)))"

definition any_nonzero :: "word64 list \<Rightarrow> nat \<Rightarrow> nat \<Rightarrow> bool" where
  "any_nonzero ws i j = list_ex (\<lambda>w. w \<noteq> 0) (take (j - i) (drop i ws))"

definition merge_elem :: "nat \<Rightarrow> merge_state \<Rightarrow> merge_state res" where
  "merge_elem x = (\<lambda>(ws, not_already, current_index, new_bit_mask).
     let (word_index, mask') = word_index_and_mask x in
     if word_index > current_index
     then res_bind (merge_word (ws, not_already, current_index, new_bit_mask)) (\<lambda>(ws, not_already, _, _).
            if word_index \<le> length ws
            then Ok (ws, not_already \<or> any_nonzero ws (current_index + 1) word_index, word_index, mask')
            else Panic Index_Out_Of_Bounds)
     else Ok (ws, not_already, current_index, new_bit_mask OR mask'))"

definition reverse_union_sparse :: "bit_set \<Rightarrow> sparse_bit_set \<Rightarrow> (bit_set \<times> bool) res" where
  "reverse_union_sparse s sparse =
     res_bind (assert_that (sp_domain_size sparse = domain_size s)) (\<lambda>_.
       let s = clear_excess_bits s in
       res_bind (res_for (elems sparse) merge_elem (words s, False, 0, 0)) (\<lambda>state.
       res_bind (merge_word state) (\<lambda>(ws, not_already, current_index, _).
         Ok (s\<lparr>words := ws\<rparr>, not_already \<or> any_nonzero ws (current_index + 1) (length ws)))))"

text \<open>The invariant: the words below the current one are merged, the mask holds the elements of the
  current one, and \<open>not_already\<close> speaks of the words below it.\<close>

definition merge_inv :: "word64 list \<Rightarrow> nat set \<Rightarrow> merge_state \<Rightarrow> bool" where
  "merge_inv ws0 xs = (\<lambda>(ws, not_already, ci, m).
     length ws = length ws0 \<and> ci < length ws0 \<and> (\<forall>x \<in> xs. x div 64 \<le> ci) \<and>
     (ci = 0 \<or> (\<exists>x \<in> xs. x div 64 = ci)) \<and>
     word_bits ws = word_bits ws0 \<union> {x \<in> xs. x div 64 < ci} \<and>
     (\<forall>n < 64. bit m n \<longleftrightarrow> 64 * ci + n \<in> xs) \<and>
     (not_already \<longleftrightarrow> (\<exists>n \<in> word_bits ws0. n div 64 < ci \<and> n \<notin> xs)))"

lemma any_nonzero_iff:
  assumes "j \<le> length ws"
  shows "any_nonzero ws i j \<longleftrightarrow> (\<exists>n \<in> word_bits ws. i \<le> n div 64 \<and> n div 64 < j)"
proof -
  have "any_nonzero ws i j \<longleftrightarrow> (\<exists>k. i \<le> k \<and> k < j \<and> ws ! k \<noteq> 0)"
  proof -
    have "any_nonzero ws i j \<longleftrightarrow> (\<exists>l < j - i. ws ! (i + l) \<noteq> 0)"
      unfolding any_nonzero_def list_ex_length using assms by auto
    also have "\<dots> \<longleftrightarrow> (\<exists>k. i \<le> k \<and> k < j \<and> ws ! k \<noteq> 0)"
    proof
      assume "\<exists>l < j - i. ws ! (i + l) \<noteq> 0"
      then obtain l where "l < j - i" "ws ! (i + l) \<noteq> 0" by blast
      then show "\<exists>k. i \<le> k \<and> k < j \<and> ws ! k \<noteq> 0" by (intro exI [of _ "i + l"]) simp
    next
      assume "\<exists>k. i \<le> k \<and> k < j \<and> ws ! k \<noteq> 0"
      then obtain k where "i \<le> k" "k < j" "ws ! k \<noteq> 0" by blast
      then show "\<exists>l < j - i. ws ! (i + l) \<noteq> 0" by (intro exI [of _ "k - i"]) simp
    qed
    finally show ?thesis .
  qed
  also have "\<dots> \<longleftrightarrow> (\<exists>n \<in> word_bits ws. i \<le> n div 64 \<and> n div 64 < j)"
  proof
    assume "\<exists>k. i \<le> k \<and> k < j \<and> ws ! k \<noteq> 0"
    then obtain k where k: "i \<le> k" "k < j" "ws ! k \<noteq> 0" by blast
    then obtain b where "b < 64" "bit (ws ! k) b" by (auto simp: word64_zero_iff)
    with k assms show "\<exists>n \<in> word_bits ws. i \<le> n div 64 \<and> n div 64 < j"
      by (intro bexI [of _ "64 * k + b"]) (auto simp: word_bits_def)
  next
    assume "\<exists>n \<in> word_bits ws. i \<le> n div 64 \<and> n div 64 < j"
    then obtain n where n: "n \<in> word_bits ws" "i \<le> n div 64" "n div 64 < j" by blast
    then have "ws ! (n div 64) \<noteq> 0" by (auto simp: word_bits_def)
    with n show "\<exists>k. i \<le> k \<and> k < j \<and> ws ! k \<noteq> 0" by blast
  qed
  finally show ?thesis .
qed

lemma word_digit: "64 * (x div 64) + n = x \<longleftrightarrow> n = x mod (64 :: nat)"
  using mult_div_mod_eq [of 64 x] by linarith

lemma word_bits_merge:
  assumes "ci < length ws" and "\<forall>n < 64. bit m n \<longleftrightarrow> 64 * ci + n \<in> xs"
  shows "word_bits (ws[ci := ws ! ci OR m]) = word_bits ws \<union> {x \<in> xs. x div 64 = ci}"
proof (rule set_eqI)
  fix n :: nat
  have n: "64 * (n div 64) + n mod 64 = n" by simp
  show "n \<in> word_bits (ws[ci := ws ! ci OR m]) \<longleftrightarrow> n \<in> word_bits ws \<union> {x \<in> xs. x div 64 = ci}"
  proof (cases "n div 64 = ci")
    case True
    then have "bit m (n mod 64) \<longleftrightarrow> n \<in> xs" using assms(2) n by (metis mod_less_divisor zero_less_numeral)
    with True assms(1) show ?thesis by (auto simp: word_bits_def bit_or_iff)
  next
    case False
    then show ?thesis by (auto simp: word_bits_def)
  qed
qed

lemma merged_word_extra:
  assumes "\<forall>n < 64. bit m n \<longleftrightarrow> 64 * ci + n \<in> xs" and "ci < length ws"
  shows "(ws ! ci OR m) XOR m \<noteq> 0 \<longleftrightarrow> (\<exists>n \<in> word_bits ws. n div 64 = ci \<and> n \<notin> xs)"
proof -
  have "(ws ! ci OR m) XOR m \<noteq> 0 \<longleftrightarrow> (\<exists>b < 64. bit (ws ! ci) b \<and> \<not> bit m b)"
    by (auto simp: word64_zero_iff bit_xor_iff bit_or_iff)
  also have "\<dots> \<longleftrightarrow> (\<exists>n \<in> word_bits ws. n div 64 = ci \<and> n \<notin> xs)"
  proof
    assume "\<exists>b < 64. bit (ws ! ci) b \<and> \<not> bit m b"
    then obtain b where "b < 64" "bit (ws ! ci) b" "\<not> bit m b" by blast
    with assms show "\<exists>n \<in> word_bits ws. n div 64 = ci \<and> n \<notin> xs"
      by (intro bexI [of _ "64 * ci + b"]) (auto simp: word_bits_def)
  next
    assume "\<exists>n \<in> word_bits ws. n div 64 = ci \<and> n \<notin> xs"
    then obtain n where n: "n \<in> word_bits ws" "n div 64 = ci" "n \<notin> xs" by blast
    moreover have "64 * ci + n mod 64 = n" using n(2) by (metis mult_div_mod_eq)
    ultimately show "\<exists>b < 64. bit (ws ! ci) b \<and> \<not> bit m b"
      using assms(1) by (intro exI [of _ "n mod 64"]) (auto simp: word_bits_def)
  qed
  finally show ?thesis .
qed

text \<open>Merging the current word moves the bound of the invariant past it.\<close>

lemma merge_word_inv:
  assumes "merge_inv ws0 xs (ws, na, ci, m)"
  shows "\<exists>ws' na'. merge_word (ws, na, ci, m) = Ok (ws', na', ci, m) \<and> length ws' = length ws0 \<and>
    word_bits ws' = word_bits ws0 \<union> xs \<and> (na' \<longleftrightarrow> (\<exists>n \<in> word_bits ws0. n div 64 \<le> ci \<and> n \<notin> xs))"
proof -
  from assms have inv: "length ws = length ws0" "ci < length ws" "\<forall>x \<in> xs. x div 64 \<le> ci"
    "word_bits ws = word_bits ws0 \<union> {x \<in> xs. x div 64 < ci}" "\<forall>n < 64. bit m n \<longleftrightarrow> 64 * ci + n \<in> xs"
    "na \<longleftrightarrow> (\<exists>n \<in> word_bits ws0. n div 64 < ci \<and> n \<notin> xs)"
    by (simp_all add: merge_inv_def)
  let ?ws = "ws[ci := ws ! ci OR m]" and ?na = "na \<or> (ws ! ci OR m) XOR m \<noteq> 0"
  have "word_bits ?ws = word_bits ws0 \<union> xs"
    unfolding word_bits_merge [OF inv(2,5)] inv(4) using inv(3) by (auto simp: le_less)
  moreover have "?na \<longleftrightarrow> (\<exists>n \<in> word_bits ws0. n div 64 \<le> ci \<and> n \<notin> xs)"
    unfolding inv(6) merged_word_extra [OF inv(5,2)] inv(4) by (auto simp: le_less)
  ultimately show ?thesis using inv(1,2) by (intro exI [of _ ?ws] exI [of _ ?na]) (simp add: merge_word_def Let_def)
qed

lemma missing_below:
  fixes f :: "'a \<Rightarrow> nat"
  assumes "ci < f x" and "\<forall>y \<in> xs. f y \<le> ci"
  shows "(\<exists>n \<in> B. f n \<le> ci \<and> n \<notin> xs) \<or> (\<exists>n \<in> B. ci < f n \<and> f n < f x) \<longleftrightarrow>
    (\<exists>n \<in> B. f n < f x \<and> n \<notin> insert x xs)" (is "?L \<longleftrightarrow> ?R")
proof
  show "?L \<Longrightarrow> ?R" using assms by force
  assume ?R
  then obtain n where "n \<in> B" "f n < f x" "n \<notin> xs" by blast
  then show ?L by (cases "f n \<le> ci") auto
qed

lemma merge_elem_inv:
  assumes inv: "merge_inv ws0 xs (ws, na, ci, m)" and x: "x div 64 < length ws0" "\<forall>y \<in> xs. y < x"
  shows "\<exists>s. merge_elem x (ws, na, ci, m) = Ok s \<and> merge_inv ws0 (insert x xs) s"
proof (cases "x div 64 > ci")
  case True
  from merge_word_inv [OF inv] obtain ws' na' where w: "merge_word (ws, na, ci, m) = Ok (ws', na', ci, m)"
    "length ws' = length ws0" "word_bits ws' = word_bits ws0 \<union> xs"
    "na' \<longleftrightarrow> (\<exists>n \<in> word_bits ws0. n div 64 \<le> ci \<and> n \<notin> xs)" by blast
  have low: "\<forall>y \<in> xs. y div 64 \<le> ci" using inv by (simp add: merge_inv_def)
  let ?na = "na' \<or> any_nonzero ws' (ci + 1) (x div 64)"
  have "merge_elem x (ws, na, ci, m) = Ok (ws', ?na, x div 64, one_shl (x mod 64))"
    using True w(1,2) x(1) by (simp add: merge_elem_def word_index_and_mask_def WORD_BITS_def)
  moreover have "any_nonzero ws' (ci + 1) (x div 64) \<longleftrightarrow>
      (\<exists>n \<in> word_bits ws0. ci < n div 64 \<and> n div 64 < x div 64)"
  proof -
    have "any_nonzero ws' (ci + 1) (x div 64) \<longleftrightarrow>
        (\<exists>n \<in> word_bits ws0 \<union> xs. ci < n div 64 \<and> n div 64 < x div 64)"
      using any_nonzero_iff [of "x div 64" ws' "ci + 1"] x(1) w(2) unfolding w(3) by (simp add: Suc_le_eq)
    with low show ?thesis by (meson UnE UnI1 not_le)
  qed
  then have na: "?na \<longleftrightarrow> (\<exists>n \<in> word_bits ws0. n div 64 < x div 64 \<and> n \<notin> insert x xs)"
    unfolding w(4) using missing_below [of ci "\<lambda>n. n div 64", OF True low] by (simp only:)
  have "merge_inv ws0 (insert x xs) (ws', ?na, x div 64, one_shl (x mod 64))"
    unfolding merge_inv_def prod.case na
  proof (intro conjI allI impI)
    show "\<forall>y \<in> insert x xs. y div 64 \<le> x div 64" using low True by auto
    show "word_bits ws' = word_bits ws0 \<union> {y \<in> insert x xs. y div 64 < x div 64}"
      using w(3) low True by auto
    fix n :: nat assume "n < 64"
    moreover have "64 * (x div 64) + n \<notin> xs" using low True by (auto simp: not_le)
    ultimately show "bit (one_shl (x mod 64)) n \<longleftrightarrow> 64 * (x div 64) + n \<in> insert x xs"
      by (simp add: bit_one_shl word_digit)
  qed (use w(2) x(1) in simp_all)
  ultimately show ?thesis by blast
next
  case False
  from inv have i: "length ws = length ws0" "ci < length ws0" "\<forall>x \<in> xs. x div 64 \<le> ci"
    "word_bits ws = word_bits ws0 \<union> {x \<in> xs. x div 64 < ci}" "\<forall>n < 64. bit m n \<longleftrightarrow> 64 * ci + n \<in> xs"
    "na \<longleftrightarrow> (\<exists>n \<in> word_bits ws0. n div 64 < ci \<and> n \<notin> xs)"
    by (simp_all add: merge_inv_def)
  have here: "x div 64 = ci"
    using False x(2) inv div_le_mono [of _ x 64] unfolding merge_inv_def prod.case
    by (metis le_antisym less_imp_le not_less0 not_less)
  let ?m = "m OR one_shl (x mod 64)"
  have "merge_elem x (ws, na, ci, m) = Ok (ws, na, ci, ?m)"
    using False by (simp add: merge_elem_def word_index_and_mask_def WORD_BITS_def)
  moreover have "merge_inv ws0 (insert x xs) (ws, na, ci, ?m)"
    unfolding merge_inv_def prod.case
  proof (intro conjI allI impI)
    show "\<forall>y \<in> insert x xs. y div 64 \<le> ci" using i(3) here by simp
    show "ci = 0 \<or> (\<exists>y \<in> insert x xs. y div 64 = ci)" using here by simp
    show "word_bits ws = word_bits ws0 \<union> {y \<in> insert x xs. y div 64 < ci}" using i(4) here by auto
    show "na \<longleftrightarrow> (\<exists>n \<in> word_bits ws0. n div 64 < ci \<and> n \<notin> insert x xs)" using i(6) here by auto
    fix n :: nat assume "n < 64"
    then show "bit ?m n \<longleftrightarrow> 64 * ci + n \<in> insert x xs"
      using i(5) word_digit [of x n] here by (auto simp: bit_or_iff bit_one_shl)
  qed (use i in simp_all)
  ultimately show ?thesis by blast
qed

lemma merge_elems_inv:
  assumes "merge_inv ws0 xs s" and "sorted_wrt (<) ys" "\<forall>y \<in> set ys. y div 64 < length ws0"
    "\<forall>x \<in> xs. \<forall>y \<in> set ys. x < y"
  shows "\<exists>s'. res_for ys merge_elem s = Ok s' \<and> merge_inv ws0 (xs \<union> set ys) s'"
  using assms
proof (induction ys arbitrary: xs s)
  case (Cons y ys)
  obtain ws na ci m where s: "s = (ws, na, ci, m)" by (cases s)
  have "y div 64 < length ws0" "\<forall>x \<in> xs. x < y" using Cons.prems(3,4) by simp_all
  from merge_elem_inv [OF Cons.prems(1) [unfolded s] this] obtain s1 where
    s1: "merge_elem y s = Ok s1" "merge_inv ws0 (insert y xs) s1" unfolding s by blast
  have "\<forall>x \<in> insert y xs. \<forall>z \<in> set ys. x < z" using Cons.prems(2,4) by simp
  from Cons.IH [OF s1(2) _ _ this] Cons.prems(2,3) s1(1) show ?case by auto
qed simp

lemma clear_excess_bits_id:
  assumes "bs_ok s"
  shows "bs_ok (clear_excess_bits s)" "bits (clear_excess_bits s) = bits s"
    "domain_size (clear_excess_bits s) = domain_size s"
proof -
  have "length (words s) = num_words (domain_size s)" "bits s \<subseteq> {..<domain_size s}"
    using assms by (simp_all add: bs_ok_def)
  note clear = clear_excess_bits_ok [OF this(1)] this(2)
  show dom: "domain_size (clear_excess_bits s) = domain_size s"
    by (simp add: clear_excess_bits_def Let_def)
  show bits: "bits (clear_excess_bits s) = bits s" using clear by auto
  show "bs_ok (clear_excess_bits s)" using clear dom bits by (simp add: bs_ok_def)
qed

text \<open>The merge agrees with a plain union, and its flag says whether the dense set holds an element
  the sparse one lacks. On an empty domain there is no word to merge into and it panics.\<close>

lemma reverse_union_sparse_ok:
  assumes "bs_ok s" "sp_ok sparse" "sp_domain_size sparse = domain_size s" "0 < domain_size s"
  shows "\<exists>s'. reverse_union_sparse s sparse = Ok (s', \<not> bits s \<subseteq> set (elems sparse)) \<and> bs_ok s' \<and>
    bits s' = bits s \<union> set (elems sparse) \<and> domain_size s' = domain_size s"
proof -
  define c where "c = clear_excess_bits s"
  note c = clear_excess_bits_id [OF assms(1), folded c_def]
  have len: "length (words c) = num_words (domain_size s)" using c by (simp add: bs_ok_def)
  have "0 < length (words c)" using domain_lt_num_words [OF assms(4)] len by simp
  then have "merge_inv (words c) {} (words c, False, 0, 0)" by (simp add: merge_inv_def)
  moreover have "y div 64 < length (words c)" if "y \<in> set (elems sparse)" for y
    unfolding len by (rule domain_lt_num_words) (use that assms(2,3) in \<open>auto simp: sp_ok_def\<close>)
  ultimately obtain st where st: "res_for (elems sparse) merge_elem (words c, False, 0, 0) = Ok st"
    "merge_inv (words c) (set (elems sparse)) st"
    using merge_elems_inv [of "words c" "{}" "(words c, False, 0, 0)" "elems sparse"] assms(2) by (auto simp: sp_ok_def)
  obtain ws na ci m where s: "st = (ws, na, ci, m)" by (cases st)
  from merge_word_inv [OF st(2) [unfolded s]] obtain ws' na' where w:
    "merge_word st = Ok (ws', na', ci, m)" "length ws' = length (words c)"
    "word_bits ws' = bits c \<union> set (elems sparse)"
    "na' \<longleftrightarrow> (\<exists>n \<in> bits c. n div 64 \<le> ci \<and> n \<notin> set (elems sparse))" unfolding s by blast
  have low: "\<forall>x \<in> set (elems sparse). x div 64 \<le> ci" using st(2) by (simp add: s merge_inv_def)
  have "any_nonzero ws' (ci + 1) (length ws') \<longleftrightarrow> (\<exists>n \<in> bits c. ci < n div 64)"
  proof -
    have "any_nonzero ws' (ci + 1) (length ws') \<longleftrightarrow> (\<exists>n \<in> word_bits ws'. ci < n div 64)"
      unfolding any_nonzero_iff [OF order_refl] Suc_eq_plus1 [symmetric] Suc_le_eq
      by (rule bex_cong [OF refl]) (simp add: word_bits_def)
    then show ?thesis unfolding w(3) using low by (meson UnE UnI1 not_le)
  qed
  moreover have "(\<exists>n \<in> bits c. ci < n div 64) \<longleftrightarrow> (\<exists>n \<in> bits c. ci < n div 64 \<and> n \<notin> set (elems sparse))"
    using low by (meson not_le)
  ultimately have flag: "(na' \<or> any_nonzero ws' (ci + 1) (length ws')) = (\<not> bits s \<subseteq> set (elems sparse))"
    unfolding w(4) c(2) by (meson not_le subsetI subsetD)
  let ?s = "c\<lparr>words := ws'\<rparr>"
  have "reverse_union_sparse s sparse = Ok (?s, \<not> bits s \<subseteq> set (elems sparse))"
    by (simp add: reverse_union_sparse_def assms(3) c_def [symmetric] Let_def st(1) w(1) flag [symmetric])
  moreover have "bs_ok ?s"
    using c w(2,3) assms(2,3) by (auto simp: bs_ok_def sp_ok_def)
  ultimately show ?thesis using w(3) c by (intro exI [of _ ?s]) simp
qed

lemma reverse_union_sparse_empty_domain:
  assumes "bs_ok s" "sp_ok sparse" "sp_domain_size sparse = domain_size s" "domain_size s = 0"
  shows "reverse_union_sparse s sparse = Panic Index_Out_Of_Bounds"
proof -
  have "words (clear_excess_bits s) = []"
    using clear_excess_bits_id [OF assms(1)] assms(4) by (simp add: bs_ok_def num_words_def WORD_BITS_def)
  moreover have "elems sparse = []" using assms(2,3,4) by (simp add: sp_ok_def)
  ultimately show ?thesis
    using assms(3) by (simp add: reverse_union_sparse_def Let_def merge_word_def index_vec_def)
qed

section \<open>Hybrid sets\<close>

datatype hybrid_bit_set = Sparse sparse_bit_set | Dense bit_set

definition hs_new_empty :: "nat \<Rightarrow> hybrid_bit_set" where
  "hs_new_empty domain = Sparse (sp_new_empty domain)"

fun hs_domain_size :: "hybrid_bit_set \<Rightarrow> nat" where
  "hs_domain_size (Sparse sparse) = sp_domain_size sparse"
| "hs_domain_size (Dense dense) = domain_size dense"

definition hs_clear :: "hybrid_bit_set \<Rightarrow> hybrid_bit_set" where
  "hs_clear s = hs_new_empty (hs_domain_size s)"

fun hs_contains :: "hybrid_bit_set \<Rightarrow> nat \<Rightarrow> bool res" where
  "hs_contains (Sparse sparse) elem = sp_contains sparse elem"
| "hs_contains (Dense dense) elem = bs_contains dense elem"

fun hs_iter :: "hybrid_bit_set \<Rightarrow> nat list" where
  "hs_iter (Sparse sparse) = elems sparse"
| "hs_iter (Dense dense) = bs_iter dense"

text \<open>\<open>Iterator::all\<close> stops at the first element that fails.\<close>

fun all_res :: "('a \<Rightarrow> bool res) \<Rightarrow> 'a list \<Rightarrow> bool res" where
  "all_res P [] = Ok True"
| "all_res P (x # xs) = res_bind (P x) (\<lambda>b. if b then all_res P xs else Ok False)"

fun hs_superset :: "hybrid_bit_set \<Rightarrow> hybrid_bit_set \<Rightarrow> bool res" where
  "hs_superset (Dense self_dense) (Dense other_dense) = bs_superset self_dense other_dense"
| "hs_superset s other =
     res_bind (assert_that (hs_domain_size s = hs_domain_size other)) (\<lambda>_.
       all_res (hs_contains s) (hs_iter other))"

fun hs_is_empty :: "hybrid_bit_set \<Rightarrow> bool" where
  "hs_is_empty (Sparse sparse) = sp_is_empty sparse"
| "hs_is_empty (Dense dense) = bs_is_empty dense"

fun hs_insert :: "hybrid_bit_set \<Rightarrow> nat \<Rightarrow> (hybrid_bit_set \<times> bool) res" where
  "hs_insert (Sparse sparse) elem =
     (if sp_len sparse < SPARSE_MAX
      then res_bind (sp_insert sparse elem) (\<lambda>(s, changed). Ok (Sparse s, changed))
      else res_bind (sp_contains sparse elem) (\<lambda>c.
        if c then Ok (Sparse sparse, False)
        else res_bind (sp_to_dense sparse) (\<lambda>dense.
             res_bind (bs_insert dense elem) (\<lambda>(dense, changed).
             res_bind (assert_that changed) (\<lambda>_. Ok (Dense dense, changed))))))"
| "hs_insert (Dense dense) elem =
     res_bind (bs_insert dense elem) (\<lambda>(dense, changed). Ok (Dense dense, changed))"

fun hs_insert_all :: "hybrid_bit_set \<Rightarrow> hybrid_bit_set" where
  "hs_insert_all (Sparse sparse) = Dense (bs_new_filled (sp_domain_size sparse))"
| "hs_insert_all (Dense dense) = Dense (bs_insert_all dense)"

fun hs_remove :: "hybrid_bit_set \<Rightarrow> nat \<Rightarrow> (hybrid_bit_set \<times> bool) res" where
  "hs_remove (Sparse sparse) elem =
     res_bind (sp_remove sparse elem) (\<lambda>(s, changed). Ok (Sparse s, changed))"
| "hs_remove (Dense dense) elem =
     res_bind (bs_remove dense elem) (\<lambda>(s, changed). Ok (Dense s, changed))"

fun hs_union_into :: "hybrid_bit_set \<Rightarrow> bit_set \<Rightarrow> (bit_set \<times> bool) res" where
  "hs_union_into (Sparse sparse) other = sp_union_into sparse other"
| "hs_union_into (Dense dense) other = bs_union other dense"

fun hs_subtract_from :: "hybrid_bit_set \<Rightarrow> bit_set \<Rightarrow> (bit_set \<times> bool) res" where
  "hs_subtract_from (Sparse sparse) other = sp_subtract_from sparse other"
| "hs_subtract_from (Dense dense) other = bs_subtract other dense"

fun hs_union :: "hybrid_bit_set \<Rightarrow> hybrid_bit_set \<Rightarrow> (hybrid_bit_set \<times> bool) res" where
  "hs_union (Sparse self_sparse) (Sparse other_sparse) =
     res_bind (assert_that (sp_domain_size self_sparse = sp_domain_size other_sparse)) (\<lambda>_.
       apply_all hs_insert (elems other_sparse) (Sparse self_sparse))"
| "hs_union (Sparse self_sparse) (Dense other_dense) =
     res_bind (reverse_union_sparse other_dense self_sparse) (\<lambda>(new_dense, changed).
       Ok (Dense new_dense, changed))"
| "hs_union (Dense self_dense) other =
     res_bind (hs_union_into other self_dense) (\<lambda>(d, changed). Ok (Dense d, changed))"

fun hs_to_dense :: "hybrid_bit_set \<Rightarrow> bit_set res" where
  "hs_to_dense (Sparse sparse) = sp_to_dense sparse"
| "hs_to_dense (Dense dense) = Ok dense"

definition bs_to_hybrid :: "bit_set \<Rightarrow> hybrid_bit_set" where
  "bs_to_hybrid s = Dense s"

text \<open>The set a hybrid set stands for, and its well-formedness.\<close>

fun hs_els :: "hybrid_bit_set \<Rightarrow> nat set" where
  "hs_els (Sparse sparse) = set (elems sparse)"
| "hs_els (Dense dense) = bits dense"

fun hs_ok :: "hybrid_bit_set \<Rightarrow> bool" where
  "hs_ok (Sparse sparse) = sp_ok sparse"
| "hs_ok (Dense dense) = bs_ok dense"

lemma hs_new_empty_ok: "hs_ok (hs_new_empty d)" "hs_els (hs_new_empty d) = {}" "hs_domain_size (hs_new_empty d) = d"
  by (simp_all add: hs_new_empty_def sp_new_empty_def sp_ok_def)

lemma hs_els_domain: "hs_ok s \<Longrightarrow> hs_els s \<subseteq> {..<hs_domain_size s}"
  by (cases s) (simp_all add: sp_ok_def bs_ok_def)

lemma hs_contains_ok: "hs_ok s \<Longrightarrow> e < hs_domain_size s \<Longrightarrow> hs_contains s e = Ok (e \<in> hs_els s)"
  by (cases s) (simp_all add: sp_contains_def bs_contains_ok)

lemma hs_insert_ok:
  assumes "hs_ok s" and "e < hs_domain_size s"
  shows "\<exists>s'. hs_insert s e = Ok (s', e \<notin> hs_els s) \<and> hs_ok s' \<and> hs_els s' = insert e (hs_els s) \<and>
    hs_domain_size s' = hs_domain_size s"
proof (cases s)
  case (Dense d)
  with bs_insert_ok [of d e] assms obtain d' where "bs_insert d e = Ok (d', e \<notin> bits d)" "bs_ok d'"
    "bits d' = insert e (bits d)" "domain_size d' = domain_size d" by auto
  with Dense show ?thesis by (intro exI [of _ "Dense d'"]) simp
next
  case (Sparse p)
  show ?thesis
  proof (cases "sp_len p < SPARSE_MAX")
    case True
    with sp_insert_ok [of p e] Sparse assms obtain p' where "sp_insert p e = Ok (p', e \<notin> set (elems p))"
      "sp_ok p'" "set (elems p') = insert e (set (elems p))" "sp_domain_size p' = sp_domain_size p"
      by (auto simp: sp_len_def)
    with Sparse True show ?thesis by (intro exI [of _ "Sparse p'"]) simp
  next
    case full: False
    show ?thesis
    proof (cases "e \<in> set (elems p)")
      case True
      with Sparse full assms show ?thesis
        by (intro exI [of _ s]) (simp add: sp_contains_def insert_absorb)
    next
      case False
      from sp_to_dense_ok [of p] Sparse assms(1) obtain d where d: "sp_to_dense p = Ok d" "bs_ok d"
        "bits d = set (elems p)" "domain_size d = sp_domain_size p" by auto
      with bs_insert_ok [of d e] assms(2) Sparse False obtain d' where "bs_insert d e = Ok (d', True)" "bs_ok d'"
        "bits d' = insert e (bits d)" "domain_size d' = domain_size d" by auto
      with d Sparse full False assms(2) show ?thesis
        by (intro exI [of _ "Dense d'"]) (simp add: sp_contains_def)
    qed
  qed
qed

lemma hs_remove_ok:
  assumes "hs_ok s" and "e < hs_domain_size s"
  shows "\<exists>s'. hs_remove s e = Ok (s', e \<in> hs_els s) \<and> hs_ok s' \<and> hs_els s' = hs_els s - {e} \<and>
    hs_domain_size s' = hs_domain_size s"
proof (cases s)
  case (Dense d)
  with bs_remove_ok [of d e] assms obtain d' where "bs_remove d e = Ok (d', e \<in> bits d)" "bs_ok d'"
    "bits d' = bits d - {e}" "domain_size d' = domain_size d" by auto
  with Dense show ?thesis by (intro exI [of _ "Dense d'"]) simp
next
  case (Sparse p)
  with sp_remove_ok [of p e] assms obtain p' where "sp_remove p e = Ok (p', e \<in> set (elems p))" "sp_ok p'"
    "set (elems p') = set (elems p) - {e}" "sp_domain_size p' = sp_domain_size p" by auto
  with Sparse show ?thesis by (intro exI [of _ "Sparse p'"]) simp
qed

interpretation hybrid: domain_set hs_ok hs_els hs_domain_size hs_insert hs_remove
  by unfold_locales (rule hs_insert_ok hs_remove_ok; assumption)+

lemma hs_union_into_ok:
  assumes "hs_ok s" "bs_ok d" "hs_domain_size s = domain_size d"
  shows "\<exists>d'. hs_union_into s d = Ok (d', \<not> hs_els s \<subseteq> bits d) \<and> bs_ok d' \<and>
    bits d' = bits d \<union> hs_els s \<and> domain_size d' = domain_size d"
proof (cases s)
  case (Dense x)
  then show ?thesis using assms bs_union_ok [of d x] by simp
qed (use assms sp_union_into_ok in auto)

lemma hs_subtract_from_ok:
  assumes "hs_ok s" "bs_ok d" "hs_domain_size s = domain_size d"
  shows "\<exists>d'. hs_subtract_from s d = Ok (d', bits d \<inter> hs_els s \<noteq> {}) \<and> bs_ok d' \<and>
    bits d' = bits d - hs_els s \<and> domain_size d' = domain_size d"
proof (cases s)
  case (Dense x)
  then show ?thesis using assms bs_subtract_ok [of d x] by simp
qed (use assms sp_subtract_from_ok in auto)

lemma hs_union_ok:
  assumes "hs_ok s" "hs_ok t" "hs_domain_size s = hs_domain_size t" "0 < hs_domain_size s"
  shows "\<exists>s'. hs_union s t = Ok (s', \<not> hs_els t \<subseteq> hs_els s) \<and> hs_ok s' \<and>
    hs_els s' = hs_els s \<union> hs_els t \<and> hs_domain_size s' = hs_domain_size s"
proof (cases s)
  case (Dense d)
  with hs_union_into_ok [of t d] assms obtain d' where "hs_union_into t d = Ok (d', \<not> hs_els t \<subseteq> bits d)"
    "bs_ok d'" "bits d' = bits d \<union> hs_els t" "domain_size d' = domain_size d" by auto
  with Dense show ?thesis by (intro exI [of _ "Dense d'"]) simp
next
  case sparse: (Sparse p)
  show ?thesis
  proof (cases t)
    case (Sparse q)
    have "set (elems q) \<subseteq> {..<hs_domain_size s}" using assms(2,3) Sparse by (simp add: sp_ok_def)
    from hybrid.insert_all_elems [OF assms(1) this] show ?thesis
      using sparse Sparse assms(3) by simp
  next
    case (Dense d)
    have "bs_ok d" "sp_ok p" "sp_domain_size p = domain_size d" "0 < domain_size d"
      using assms sparse Dense by simp_all
    from reverse_union_sparse_ok [OF this] obtain d' where
      "reverse_union_sparse d p = Ok (d', \<not> bits d \<subseteq> set (elems p))" "bs_ok d'"
      "bits d' = bits d \<union> set (elems p)" "domain_size d' = domain_size d" by blast
    with sparse Dense assms(3) show ?thesis by (intro exI [of _ "Dense d'"]) (simp add: Un_commute)
  qed
qed

lemma all_res_Ok: "(\<And>x. x \<in> set xs \<Longrightarrow> P x = Ok (Q x)) \<Longrightarrow> all_res P xs = Ok (\<forall>x \<in> set xs. Q x)"
  by (induction xs) auto

lemma hs_iter_set:
  assumes "hs_ok s" and "hs_domain_size s < 2 ^ 63"
  shows "hs_iter s = sorted_list_of_set (hs_els s)"
proof (cases s)
  case (Sparse p)
  with assms(1) have "sorted_wrt (<) (elems p)" by (simp add: sp_ok_def)
  then have "sorted (elems p)" "distinct (elems p)" by (simp_all add: strict_sorted_iff)
  with Sparse show ?thesis by (simp add: sorted_list_of_set.idem_if_sorted_distinct)
next
  case (Dense d)
  have "64 * length (words d) < 2 ^ 64"
    using assms Dense by (simp add: bs_ok_def num_words_def WORD_BITS_def)
  then show ?thesis using Dense bs_iter_sorted by simp
qed

lemma hs_superset_ok:
  assumes "hs_ok s" "hs_ok t" "hs_domain_size s = hs_domain_size t" "hs_domain_size t < 2 ^ 63"
  shows "hs_superset s t = Ok (hs_els t \<subseteq> hs_els s)"
proof -
  have fin: "finite (hs_els t)" using hs_els_domain [OF assms(2)] finite_subset by blast
  have "hs_contains s e = Ok (e \<in> hs_els s)" if "e \<in> set (hs_iter t)" for e
    using that hs_els_domain [OF assms(2)] assms(1,3) fin unfolding hs_iter_set [OF assms(2,4)]
    by (intro hs_contains_ok) auto
  then have "all_res (hs_contains s) (hs_iter t) = Ok (\<forall>e \<in> set (hs_iter t). e \<in> hs_els s)"
    by (rule all_res_Ok)
  then have "all_res (hs_contains s) (hs_iter t) = Ok (hs_els t \<subseteq> hs_els s)"
    unfolding hs_iter_set [OF assms(2,4)] using fin by (simp add: subset_eq)
  with assms show ?thesis
    by (cases s; cases t) (simp_all add: bs_superset_ok)
qed

text \<open>(C33) A hybrid set is a set, whichever representation it has: for an element of the domain,
  membership, insertion and removal are those of sets, also when the ninth element turns the sorted
  vector into words; an element outside the domain makes them panic.\<close>

theorem hybrid_set_elements:
  assumes "hs_ok s"
  shows "if e < hs_domain_size s
    then hs_contains s e = Ok (e \<in> hs_els s) \<and>
      (\<exists>s'. hs_insert s e = Ok (s', e \<notin> hs_els s) \<and> hs_ok s' \<and> hs_els s' = insert e (hs_els s)) \<and>
      (\<exists>s'. hs_remove s e = Ok (s', e \<in> hs_els s) \<and> hs_ok s' \<and> hs_els s' = hs_els s - {e})
    else hs_contains s e = Panic Assert_Failed \<and> hs_insert s e = Panic Assert_Failed \<and>
      hs_remove s e = Panic Assert_Failed"
proof (cases "e < hs_domain_size s")
  case True
  then show ?thesis
    using hs_contains_ok [OF assms True] hs_insert_ok [OF assms True] hs_remove_ok [OF assms True] by auto
next
  case False
  then show ?thesis
    using bs_out_of_domain by (cases s) (simp_all add: sp_contains_def sp_insert_def sp_remove_def assert_that_def)
qed

text \<open>(C32) The union of two hybrid sets over one nonempty domain is their union, in all four
  combinations of representations, and the flag says exactly whether the first set gained elements.
  In particular the merge of a sparse set into a copy of the dense one, which skips over the words
  between the elements, reports the same as the plain loop would.\<close>

theorem hybrid_union_correct:
  assumes "hs_ok s" "hs_ok t" "hs_domain_size s = hs_domain_size t" "0 < hs_domain_size s"
  shows "\<exists>s'. hs_union s t = Ok (s', \<not> hs_els t \<subseteq> hs_els s) \<and> hs_ok s' \<and>
    hs_els s' = hs_els s \<union> hs_els t \<and> hs_domain_size s' = hs_domain_size s"
  using assms by (rule hs_union_ok)

text \<open>(C34) On an empty domain the union of a sparse set with a dense one panics, although both sets
  are well formed and have the same domain.\<close>

theorem hybrid_union_empty_domain:
  assumes "sp_ok p" "bs_ok d" "sp_domain_size p = 0" "domain_size d = 0"
  shows "hs_union (Sparse p) (Dense d) = Panic Index_Out_Of_Bounds"
  using reverse_union_sparse_empty_domain [OF assms(2,1)] assms(3,4) by simp

section \<open>Growable sets\<close>

record growable_bit_set =
  bit_set :: bit_set





definition gs_with_capacity :: "nat \<Rightarrow> growable_bit_set" where
  "gs_with_capacity capacity = \<lparr>bit_set = bs_new_empty capacity\<rparr>"








section \<open>Examples\<close>

definition sample_sparse :: sparse_bit_set where
  "sample_sparse = \<lparr>sp_domain_size = 70, elems = [0, 3, 5, 9, 20, 31, 64, 66]\<rparr>"

lemma sample_sparse_ok: "sp_ok sample_sparse"
  by (simp add: sp_ok_def sample_sparse_def SPARSE_MAX_def)

theorem hybrid_set_elements_witness:
  "\<exists>s'. hs_insert (Sparse sample_sparse) 40 = Ok (s', True) \<and> hs_ok s' \<and>
     hs_els s' = {0, 3, 5, 9, 20, 31, 40, 64, 66}"
  using hybrid_set_elements [of "Sparse sample_sparse" 40] sample_sparse_ok
  by (auto simp: sample_sparse_def)

theorem hybrid_union_correct_witness:
  "\<exists>s'. hs_union (Sparse sample_sparse) (Dense sample_bits) = Ok (s', True) \<and> hs_ok s' \<and>
     hs_els s' = hs_els (Sparse sample_sparse) \<union> bits sample_bits"
proof -
  have "2 \<in> bits sample_bits" by (simp add: word_bits_def sample_bits_def bit_numeral_rec)
  moreover have "2 \<notin> set (elems sample_sparse)" by (simp add: sample_sparse_def)
  ultimately have "(\<not> hs_els (Dense sample_bits) \<subseteq> hs_els (Sparse sample_sparse)) = True" by auto
  then show ?thesis
    using hybrid_union_correct [of "Sparse sample_sparse" "Dense sample_bits"] sample_sparse_ok sample_bits_ok
    by (auto simp: sample_sparse_def sample_bits_def)
qed

theorem hybrid_union_empty_domain_witness:
  "hs_union (hs_new_empty 0) (bs_to_hybrid (bs_new_empty 0)) = Panic Index_Out_Of_Bounds"
  using hybrid_union_empty_domain [of "sp_new_empty 0" "bs_new_empty 0"] bs_new_empty_ok
  by (simp add: hs_new_empty_def bs_to_hybrid_def sp_new_empty_def sp_ok_def bs_new_empty_def)


end
