(* ===== verification/Bit_Matrix.thy ===== *)
theory Bit_Matrix
  imports Hybrid_Set
begin

text \<open>
  Bit matrices (\<open>src/librustc_index/bit_set.rs\<close>): \<open>BitMatrix\<close> keeps the words of all rows in one
  vector, \<open>SparseBitMatrix\<close> keeps a hybrid set for every row that was touched. The theorems relate
  both to the relation between rows and columns that they stand for: an operation on one row has the
  effect of the set operation on that row and leaves every other row alone.
\<close>

section \<open>Dense matrices\<close>

record bit_matrix =
  num_rows :: nat
  num_columns :: nat
  mx_words :: "word64 list"

definition bm_new :: "nat \<Rightarrow> nat \<Rightarrow> bit_matrix" where
  "bm_new rows cols =
     \<lparr>num_rows = rows, num_columns = cols, mx_words = replicate (rows * num_words cols) 0\<rparr>"

definition bm_from_row_n :: "bit_set \<Rightarrow> nat \<Rightarrow> bit_matrix res" where
  "bm_from_row_n row rows =
     res_bind (assert_that (num_words (domain_size row) = length (words row))) (\<lambda>_.
       Ok \<lparr>num_rows = rows, num_columns = domain_size row, mx_words = concat (replicate rows (words row))\<rparr>)"

definition bm_range :: "bit_matrix \<Rightarrow> nat \<Rightarrow> nat \<times> nat" where
  "bm_range m row =
     (let words_per_row = num_words (num_columns m); start = row * words_per_row
      in (start, start + words_per_row))"

definition bm_insert :: "bit_matrix \<Rightarrow> nat \<Rightarrow> nat \<Rightarrow> (bit_matrix \<times> bool) res" where
  "bm_insert m row column =
     res_bind (assert_that (row < num_rows m \<and> column < num_columns m)) (\<lambda>_.
       let (start, _) = bm_range m row; (word_index, mask') = word_index_and_mask column in
       res_bind (index_vec (mx_words m) (start + word_index)) (\<lambda>word.
         let new_word = word OR mask' in
         Ok (m\<lparr>mx_words := (mx_words m)[start + word_index := new_word]\<rparr>, word \<noteq> new_word)))"

definition bm_contains :: "bit_matrix \<Rightarrow> nat \<Rightarrow> nat \<Rightarrow> bool res" where
  "bm_contains m row column =
     res_bind (assert_that (row < num_rows m \<and> column < num_columns m)) (\<lambda>_.
       let (start, _) = bm_range m row; (word_index, mask') = word_index_and_mask column in
       res_bind (index_vec (mx_words m) (start + word_index)) (\<lambda>word. Ok (word AND mask' \<noteq> 0)))"

text \<open>The inner loop of \<open>intersect_rows\<close>: \<open>k\<close> more bits of the word, of which the first is bit
  number \<open>b\<close>; it stops as soon as the rest is zero.\<close>

fun scan_bits :: "nat \<Rightarrow> nat \<Rightarrow> nat \<Rightarrow> word64 \<Rightarrow> nat list" where
  "scan_bits base b 0 v = []"
| "scan_bits base b (Suc k) v =
     (if v = 0 then []
      else (if v AND 1 \<noteq> 0 then [base * WORD_BITS + b] else []) @ scan_bits base (b + 1) k (drop_bit 1 v))"

definition bm_intersect_rows :: "bit_matrix \<Rightarrow> nat \<Rightarrow> nat \<Rightarrow> nat list res" where
  "bm_intersect_rows m row1 row2 =
     res_bind (assert_that (row1 < num_rows m \<and> row2 < num_rows m)) (\<lambda>_.
       let (row1_start, row1_end) = bm_range m row1; (row2_start, row2_end) = bm_range m row2 in
       res_for (enumerate 0 (zip [row1_start ..< row1_end] [row2_start ..< row2_end]))
         (\<lambda>(base, i, j) result.
            res_bind (index_vec (mx_words m) i) (\<lambda>v.
            res_bind (index_vec (mx_words m) j) (\<lambda>w.
              Ok (result @ scan_bits base 0 WORD_BITS (v AND w))))) [])"

definition bm_union_rows :: "bit_matrix \<Rightarrow> nat \<Rightarrow> nat \<Rightarrow> (bit_matrix \<times> bool) res" where
  "bm_union_rows m read write =
     res_bind (assert_that (read < num_rows m \<and> write < num_rows m)) (\<lambda>_.
       let (read_start, read_end) = bm_range m read; (write_start, write_end) = bm_range m write in
       res_bind (res_for (zip [read_start ..< read_end] [write_start ..< write_end])
         (\<lambda>(read_index, write_index) (ws, changed).
            res_bind (index_vec ws write_index) (\<lambda>word.
            res_bind (index_vec ws read_index) (\<lambda>r.
              let new_word = word OR r in
              Ok (ws[write_index := new_word], changed \<or> word \<noteq> new_word)))) (mx_words m, False))
         (\<lambda>(ws, changed). Ok (m\<lparr>mx_words := ws\<rparr>, changed)))"

definition bm_union_row_with :: "bit_matrix \<Rightarrow> bit_set \<Rightarrow> nat \<Rightarrow> (bit_matrix \<times> bool) res" where
  "bm_union_row_with m with_set write =
     res_bind (assert_that (write < num_rows m)) (\<lambda>_.
     res_bind (assert_that (domain_size with_set = num_columns m)) (\<lambda>_.
       let (write_start, write_end) = bm_range m write in
       res_bind (res_for (zip [0 ..< length (words with_set)] [write_start ..< write_end])
         (\<lambda>(read_index, write_index) (ws, changed).
            res_bind (index_vec ws write_index) (\<lambda>word.
            res_bind (index_vec (words with_set) read_index) (\<lambda>r.
              let new_word = word OR r in
              Ok (ws[write_index := new_word], changed \<or> word \<noteq> new_word)))) (mx_words m, False))
         (\<lambda>(ws, changed). Ok (m\<lparr>mx_words := ws\<rparr>, changed))))"

definition bm_clear_excess_bits :: "bit_matrix \<Rightarrow> nat \<Rightarrow> bit_matrix res" where
  "bm_clear_excess_bits m row =
     (let num_bits_in_final_word = num_columns m mod WORD_BITS in
      if num_bits_in_final_word > 0
      then let mask' = one_shl num_bits_in_final_word - 1; (_, end') = bm_range m row; final_word_idx = end' - 1
           in res_bind (index_vec (mx_words m) final_word_idx) (\<lambda>w.
                Ok (m\<lparr>mx_words := (mx_words m)[final_word_idx := w AND mask']\<rparr>))
      else Ok m)"

definition bm_insert_all_into_row :: "bit_matrix \<Rightarrow> nat \<Rightarrow> bit_matrix res" where
  "bm_insert_all_into_row m row =
     res_bind (assert_that (row < num_rows m)) (\<lambda>_.
       let (start, end') = bm_range m row in
       res_bind (res_for [start ..< end'] (\<lambda>index ws.
          res_bind (index_vec ws index) (\<lambda>_. Ok (ws[index := NOT 0]))) (mx_words m)) (\<lambda>ws.
         bm_clear_excess_bits (m\<lparr>mx_words := ws\<rparr>) row))"

text \<open>The slice of a row; slicing beyond the words panics.\<close>

definition bm_row_slice :: "bit_matrix \<Rightarrow> nat \<Rightarrow> word64 list res" where
  "bm_row_slice m row =
     (let (start, end') = bm_range m row in
      if end' \<le> length (mx_words m) then Ok (take (end' - start) (drop start (mx_words m)))
      else Panic Index_Out_Of_Bounds)"

definition bm_iter :: "bit_matrix \<Rightarrow> nat \<Rightarrow> nat list res" where
  "bm_iter m row =
     res_bind (assert_that (row < num_rows m)) (\<lambda>_.
     res_bind (bm_row_slice m row) (\<lambda>ws. Ok (bi_list (bi_new ws))))"

definition bm_count :: "bit_matrix \<Rightarrow> nat \<Rightarrow> nat res" where
  "bm_count m row = res_bind (bm_row_slice m row) (\<lambda>ws. Ok (sum_list (map count_ones ws)))"

section \<open>Rows of a dense matrix\<close>

definition row_words :: "bit_matrix \<Rightarrow> nat \<Rightarrow> word64 list" where
  "row_words m r = take (num_words (num_columns m)) (drop (r * num_words (num_columns m)) (mx_words m))"

abbreviation row_set :: "bit_matrix \<Rightarrow> nat \<Rightarrow> nat set" where
  "row_set m r \<equiv> word_bits (row_words m r)"

definition bm_ok :: "bit_matrix \<Rightarrow> bool" where
  "bm_ok m \<longleftrightarrow>
     length (mx_words m) = num_rows m * num_words (num_columns m) \<and>
     (\<forall>r < num_rows m. row_set m r \<subseteq> {..<num_columns m})"

text \<open>The vector of words is determined by its rows: what a change of the rows of a matrix means for
  the words, with \<open>k\<close> words in each row.\<close>

definition nth_row :: "nat \<Rightarrow> word64 list \<Rightarrow> nat \<Rightarrow> word64 list" where
  "nth_row k ws r = take k (drop (r * k) ws)"

lemma row_end: "r < n \<Longrightarrow> r * k + k \<le> n * (k :: nat)"
  by (metis Suc_leI add.commute mult_Suc mult_le_mono1)

lemma length_nth_row: "length ws = n * k \<Longrightarrow> r < n \<Longrightarrow> length (nth_row k ws r) = k"
  using row_end [of r n k] by (simp add: nth_row_def)

lemma nth_nth_row: "length ws = n * k \<Longrightarrow> r < n \<Longrightarrow> i < k \<Longrightarrow> nth_row k ws r ! i = ws ! (r * k + i)"
  using row_end [of r n k] by (simp add: nth_row_def)

lemma row_index_less: "r < n \<Longrightarrow> i < k \<Longrightarrow> r * k + i < n * (k :: nat)"
  using row_end [of r n k] by linarith

lemma row_index_inject:
  assumes "i < k" "j < (k :: nat)"
  shows "r * k + i = s * k + j \<longleftrightarrow> r = s \<and> i = j"
proof
  assume eq: "r * k + i = s * k + j"
  have "(r * k + i) div k = r" "(s * k + j) div k = s" using assms by simp_all
  with eq show "r = s \<and> i = j" by (metis add_left_cancel)
qed simp

lemma nth_row_update:
  assumes "length ws = n * k" "r < n" "s < n" "i < k"
  shows "nth_row k (ws[r * k + i := w]) s = (if s = r then (nth_row k ws r)[i := w] else nth_row k ws s)"
proof (rule nth_equalityI)
  show "length (nth_row k (ws[r * k + i := w]) s) =
      length (if s = r then (nth_row k ws r)[i := w] else nth_row k ws s)"
    using assms by (simp add: length_nth_row [of _ n])
next
  fix j assume "j < length (nth_row k (ws[r * k + i := w]) s)"
  then have j: "j < k" using assms by (simp add: length_nth_row [of _ n])
  have "nth_row k (ws[r * k + i := w]) s ! j = ws[r * k + i := w] ! (s * k + j)"
    using assms(1,3) j by (intro nth_nth_row [of _ n]) simp_all
  also have "\<dots> = (if s = r \<and> j = i then w else ws ! (s * k + j))"
    using row_index_inject [OF assms(4) j, of r s] row_index_less [OF assms(2,4)] assms(1)
    by (auto simp: nth_list_update)
  also have "\<dots> = (if s = r then (nth_row k ws r)[i := w] else nth_row k ws s) ! j"
    using nth_nth_row [OF assms(1,3) j] length_nth_row [OF assms(1,2)] j assms(4)
    by (auto simp: nth_list_update)
  finally show "nth_row k (ws[r * k + i := w]) s ! j =
      (if s = r then (nth_row k ws r)[i := w] else nth_row k ws s) ! j" .
qed

lemma row_words_nth_row: "row_words m r = nth_row (num_words (num_columns m)) (mx_words m) r"
  by (simp add: row_words_def nth_row_def)

text \<open>A change of one row, and what it means for the matrix.\<close>

definition row_changed :: "bit_matrix \<Rightarrow> nat \<Rightarrow> nat set \<Rightarrow> bit_matrix \<Rightarrow> bool" where
  "row_changed m r S m' \<longleftrightarrow>
     num_rows m' = num_rows m \<and> num_columns m' = num_columns m \<and>
     (\<forall>s < num_rows m. row_set m' s = (if s = r then S else row_set m s))"

lemma bm_okD:
  assumes "bm_ok m"
  shows "length (mx_words m) = num_rows m * num_words (num_columns m)"
    and "r < num_rows m \<Longrightarrow> row_set m r \<subseteq> {..<num_columns m}"
    and "r < num_rows m \<Longrightarrow> length (row_words m r) = num_words (num_columns m)"
  using assms length_nth_row [of "mx_words m" "num_rows m"] by (auto simp: bm_ok_def row_words_nth_row)

lemma bm_ok_changed:
  assumes "bm_ok m" "row_changed m r S m'" "S \<subseteq> {..<num_columns m}"
    "length (mx_words m') = length (mx_words m)"
  shows "bm_ok m'"
  using assms unfolding bm_ok_def row_changed_def by simp

lemma row_words_update:
  assumes "bm_ok m" "r < num_rows m" "s < num_rows m" "i < num_words (num_columns m)"
  shows "row_words (m\<lparr>mx_words := (mx_words m)[r * num_words (num_columns m) + i := w]\<rparr>) s =
    (if s = r then (row_words m r)[i := w] else row_words m s)"
  using nth_row_update [OF bm_okD(1) [OF assms(1)] assms(2,3,4)] by (simp add: row_words_nth_row)

lemma row_word:
  assumes "bm_ok m" "r < num_rows m" "i < num_words (num_columns m)"
  shows "index_vec (mx_words m) (r * num_words (num_columns m) + i) = Ok (row_words m r ! i)"
proof -
  have "r * num_words (num_columns m) + i < length (mx_words m)"
    using row_index_less [OF assms(2,3)] bm_okD(1) [OF assms(1)] by simp
  then show ?thesis using nth_nth_row [OF bm_okD(1) [OF assms(1)] assms(2,3)] by (simp add: row_words_nth_row)
qed

lemma bm_insert_ok:
  assumes "bm_ok m" "r < num_rows m" "c < num_columns m"
  shows "\<exists>m'. bm_insert m r c = Ok (m', c \<notin> row_set m r) \<and> bm_ok m' \<and> row_changed m r (insert c (row_set m r)) m'"
proof -
  let ?k = "num_words (num_columns m)"
  have i: "c div 64 < ?k" using assms(3) by (rule domain_lt_num_words)
  have len: "c div 64 < length (row_words m r)" using i bm_okD(3) [OF assms(1,2)] by simp
  let ?w = "row_words m r ! (c div 64) OR one_shl (c mod 64)"
  let ?m = "m\<lparr>mx_words := (mx_words m)[r * ?k + c div 64 := ?w]\<rparr>"
  have "bm_insert m r c = Ok (?m, row_words m r ! (c div 64) \<noteq> ?w)"
    using assms row_word [OF assms(1,2) i]
    by (simp add: bm_insert_def bm_range_def Let_def word_index_and_mask_def WORD_BITS_def)
  moreover have "(row_words m r ! (c div 64) \<noteq> ?w) = (c \<notin> row_set m r)"
    using or_mask_changed [OF len] by (metis)
  moreover have changed: "row_changed m r (insert c (row_set m r)) ?m"
    unfolding row_changed_def using row_words_update [OF assms(1,2) _ i] word_bits_set [OF len] by simp
  moreover have "bm_ok ?m"
    using assms bm_okD(2) [OF assms(1,2)] by (intro bm_ok_changed [OF assms(1) changed]) auto
  ultimately show ?thesis by (intro exI [of _ ?m]) simp
qed

lemma bm_contains_ok:
  assumes "bm_ok m" "r < num_rows m" "c < num_columns m"
  shows "bm_contains m r c = Ok (c \<in> row_set m r)"
proof -
  have i: "c div 64 < num_words (num_columns m)" using assms(3) by (rule domain_lt_num_words)
  have "w AND one_shl (c mod 64) \<noteq> 0 \<longleftrightarrow> bit w (c mod 64)" for w
    by (auto simp: word64_zero_iff bit_and_iff bit_one_shl)
  then show ?thesis
    using assms row_word [OF assms(1,2) i] bm_okD(3) [OF assms(1,2)] i
    by (simp add: bm_contains_def bm_range_def Let_def word_index_and_mask_def WORD_BITS_def word_bits_def)
qed

section \<open>Unions of rows\<close>

lemma zip_ranges: "zip [a ..< a + k] [b ..< b + k] = map (\<lambda>i. (a + i, b + i)) [0 ..< k]"
  by (rule nth_equalityI) simp_all

lemma word_bits_or:
  assumes "length ws = length vs"
  shows "word_bits (map2 (OR) ws vs) = word_bits ws \<union> word_bits vs"
    and "map2 (OR) ws vs \<noteq> ws \<longleftrightarrow> \<not> word_bits vs \<subseteq> word_bits ws"
proof -
  show bits: "word_bits (map2 (OR) ws vs) = word_bits ws \<union> word_bits vs"
    using assms by (auto simp: word_bits_def bit_or_iff)
  have "map2 (OR) ws vs = ws \<longleftrightarrow> word_bits (map2 (OR) ws vs) = word_bits ws"
    using assms by (intro word_bits_inject [symmetric]) simp
  then show "map2 (OR) ws vs \<noteq> ws \<longleftrightarrow> \<not> word_bits vs \<subseteq> word_bits ws" unfolding bits by auto
qed

text \<open>The loop that ors words into a row, one by one, reading each new word through \<open>rd\<close> while the
  row is being written.\<close>

definition or_step ::
    "nat \<Rightarrow> (word64 list \<Rightarrow> nat \<Rightarrow> word64 res) \<Rightarrow> nat \<Rightarrow> word64 list \<times> bool \<Rightarrow> (word64 list \<times> bool) res" where
  "or_step start rd i = (\<lambda>(ws, changed).
     res_bind (index_vec ws (start + i)) (\<lambda>word.
     res_bind (rd ws i) (\<lambda>r.
       Ok (ws[start + i := word OR r], changed \<or> word \<noteq> word OR r))))"

lemma or_loop:
  assumes ws: "length ws = n * k" "r < n" and v: "length v = k"
    and rd: "\<And>ws' i. i < k \<Longrightarrow> length ws' = n * k \<Longrightarrow>
      (\<And>s. s < n \<Longrightarrow> s \<noteq> r \<Longrightarrow> nth_row k ws' s = nth_row k ws s) \<Longrightarrow>
      nth_row k ws' r ! i = nth_row k ws r ! i \<Longrightarrow> rd ws' i = Ok (v ! i)"
    and "j \<le> k"
  shows "\<exists>ws'. res_for [0 ..< j] (or_step (r * k) rd) (ws, False) =
      Ok (ws', take j (map2 (OR) (nth_row k ws r) v) \<noteq> take j (nth_row k ws r)) \<and> length ws' = n * k \<and>
      (\<forall>s < n. nth_row k ws' s =
        (if s = r then take j (map2 (OR) (nth_row k ws r) v) @ drop j (nth_row k ws r) else nth_row k ws s))"
  using \<open>j \<le> k\<close>
proof (induction j)
  case 0
  then show ?case using ws by simp
next
  case (Suc j)
  let ?row = "nth_row k ws r"
  let ?or = "map2 (OR) ?row v"
  from Suc obtain ws' where ws': "res_for [0 ..< j] (or_step (r * k) rd) (ws, False) =
      Ok (ws', take j ?or \<noteq> take j ?row)" "length ws' = n * k"
    "\<And>s. s < n \<Longrightarrow> nth_row k ws' s = (if s = r then take j ?or @ drop j ?row else nth_row k ws s)" by auto
  have j: "j < k" using Suc.prems by simp
  have len: "length ?row = k" "length ?or = k" using length_nth_row [OF ws] v by simp_all
  have row_j: "nth_row k ws' r ! j = ?row ! j"
    using ws'(3) [OF ws(2)] len j by (simp add: nth_append)
  then have word: "index_vec ws' (r * k + j) = Ok (?row ! j)"
    using nth_nth_row [OF ws'(2) ws(2) j] row_index_less [OF ws(2) j] ws'(2) by simp
  have read: "rd ws' j = Ok (v ! j)" using rd [OF j ws'(2)] ws'(3) row_j by simp
  let ?new = "?row ! j OR v ! j"
  let ?ws = "ws'[r * k + j := ?new]"
  have new: "?or ! j = ?new" using len v j by simp
  have "or_step (r * k) rd j (ws', take j ?or \<noteq> take j ?row) =
      Ok (?ws, take (Suc j) ?or \<noteq> take (Suc j) ?row)"
    using j len new by (simp add: or_step_def word read take_Suc_conv_app_nth) auto
  moreover have "nth_row k ?ws s =
      (if s = r then take (Suc j) ?or @ drop (Suc j) ?row else nth_row k ws s)" if "s < n" for s
    using nth_row_update [OF ws'(2) ws(2) that j, of ?new] ws'(3) [OF that] ws'(3) [OF ws(2)] j len new
    by (auto simp: list_update_append take_Suc_conv_app_nth Cons_nth_drop_Suc [symmetric])
  ultimately show ?case using ws'(1,2) by (simp add: res_for_append)
qed

lemma or_row:
  assumes ok: "bm_ok m" "r < num_rows m" and v: "length v = num_words (num_columns m)"
    "word_bits v \<subseteq> {..<num_columns m}"
    and rd: "\<And>ws' i. i < num_words (num_columns m) \<Longrightarrow> length ws' = length (mx_words m) \<Longrightarrow>
      (\<And>s. s < num_rows m \<Longrightarrow> s \<noteq> r \<Longrightarrow> row_words (m\<lparr>mx_words := ws'\<rparr>) s = row_words m s) \<Longrightarrow>
      row_words (m\<lparr>mx_words := ws'\<rparr>) r ! i = row_words m r ! i \<Longrightarrow> rd ws' i = Ok (v ! i)"
  shows "\<exists>ws'. res_for [0 ..< num_words (num_columns m)] (or_step (r * num_words (num_columns m)) rd) (mx_words m, False) =
      Ok (ws', \<not> word_bits v \<subseteq> row_set m r) \<and> bm_ok (m\<lparr>mx_words := ws'\<rparr>) \<and>
      row_changed m r (row_set m r \<union> word_bits v) (m\<lparr>mx_words := ws'\<rparr>)"
proof -
  let ?k = "num_words (num_columns m)"
  note len = bm_okD(1) [OF ok(1)]
  have row: "length (row_words m r) = ?k" by (rule bm_okD(3) [OF ok])
  have rd': "rd ws' i = Ok (v ! i)" if "i < ?k" "length ws' = num_rows m * ?k"
    "\<And>s. s < num_rows m \<Longrightarrow> s \<noteq> r \<Longrightarrow> nth_row ?k ws' s = nth_row ?k (mx_words m) s"
    "nth_row ?k ws' r ! i = nth_row ?k (mx_words m) r ! i" for ws' i
    using that len by (intro rd) (simp_all add: row_words_nth_row)
  let ?row = "nth_row ?k (mx_words m) r"
  have "\<exists>ws'. res_for [0 ..< ?k] (or_step (r * ?k) rd) (mx_words m, False) =
      Ok (ws', take ?k (map2 (OR) ?row v) \<noteq> take ?k ?row) \<and> length ws' = num_rows m * ?k \<and>
      (\<forall>s < num_rows m. nth_row ?k ws' s =
        (if s = r then take ?k (map2 (OR) ?row v) @ drop ?k ?row else nth_row ?k (mx_words m) s))"
    by (rule or_loop [OF len ok(2) v(1) _ order_refl]) (rule rd')
  moreover have "take ?k (map2 (OR) ?row v) = map2 (OR) ?row v" "take ?k ?row = ?row" "drop ?k ?row = []"
    using row v(1) by (simp_all add: row_words_nth_row)
  ultimately obtain ws' where ws': "res_for [0 ..< ?k] (or_step (r * ?k) rd) (mx_words m, False) =
      Ok (ws', map2 (OR) (row_words m r) v \<noteq> row_words m r)" "length ws' = num_rows m * ?k"
    "\<And>s. s < num_rows m \<Longrightarrow> nth_row ?k ws' s =
      (if s = r then map2 (OR) (row_words m r) v else nth_row ?k (mx_words m) s)"
    by (simp only: row_words_nth_row append_Nil2) blast
  note bits = word_bits_or [of "row_words m r" v, unfolded row v(1), OF refl]
  let ?m = "m\<lparr>mx_words := ws'\<rparr>"
  have changed: "row_changed m r (row_set m r \<union> word_bits v) ?m"
    unfolding row_changed_def using ws'(3) bits(1) by (simp add: row_words_nth_row)
  moreover have "bm_ok ?m"
    using bm_okD(2) [OF ok] v(2) ws'(2) len by (intro bm_ok_changed [OF ok(1) changed]) auto
  ultimately show ?thesis using ws'(1) unfolding bits(2) by blast
qed

lemma bm_union_rows_ok:
  assumes "bm_ok m" "read < num_rows m" "write < num_rows m"
  shows "\<exists>m'. bm_union_rows m read write = Ok (m', \<not> row_set m read \<subseteq> row_set m write) \<and> bm_ok m' \<and>
    row_changed m write (row_set m write \<union> row_set m read) m'"
proof -
  let ?k = "num_words (num_columns m)"
  let ?rd = "\<lambda>ws i. index_vec ws (read * ?k + i)"
  have "?rd ws' i = Ok (row_words m read ! i)" if i: "i < ?k" and len: "length ws' = length (mx_words m)"
    and other: "\<And>s. s < num_rows m \<Longrightarrow> s \<noteq> write \<Longrightarrow> row_words (m\<lparr>mx_words := ws'\<rparr>) s = row_words m s"
    and same: "row_words (m\<lparr>mx_words := ws'\<rparr>) write ! i = row_words m write ! i" for ws' i
  proof -
    have l: "length ws' = num_rows m * ?k" using len bm_okD(1) [OF assms(1)] by simp
    have "row_words (m\<lparr>mx_words := ws'\<rparr>) read ! i = row_words m read ! i"
      using other [OF assms(2)] same by (cases "read = write") simp_all
    then show ?thesis
      using nth_nth_row [OF l assms(2) i] row_index_less [OF assms(2) i] l by (simp add: row_words_nth_row)
  qed
  from or_row [where rd = ?rd, OF assms(1,3) bm_okD(3,2) [OF assms(1,2)] this] obtain ws' where
    ws': "res_for [0 ..< ?k] (or_step (write * ?k) ?rd) (mx_words m, False) =
      Ok (ws', \<not> row_set m read \<subseteq> row_set m write)" "bm_ok (m\<lparr>mx_words := ws'\<rparr>)"
    "row_changed m write (row_set m write \<union> row_set m read) (m\<lparr>mx_words := ws'\<rparr>)" by blast
  have "bm_union_rows m read write = Ok (m\<lparr>mx_words := ws'\<rparr>, \<not> row_set m read \<subseteq> row_set m write)"
    using ws'(1) assms(2,3)
    by (simp add: bm_union_rows_def bm_range_def Let_def zip_ranges res_for_map or_step_def [abs_def])
  with ws' show ?thesis by blast
qed

lemma bm_union_row_with_ok:
  assumes "bm_ok m" "bs_ok s" "domain_size s = num_columns m" "write < num_rows m"
  shows "\<exists>m'. bm_union_row_with m s write = Ok (m', \<not> bits s \<subseteq> row_set m write) \<and> bm_ok m' \<and>
    row_changed m write (row_set m write \<union> bits s) m'"
proof -
  let ?k = "num_words (num_columns m)"
  let ?rd = "\<lambda>ws i. index_vec (words s) i"
  have s: "length (words s) = ?k" "bits s \<subseteq> {..<num_columns m}" using assms(2,3) by (simp_all add: bs_ok_def)
  have "?rd ws' i = Ok (words s ! i)" if "i < ?k" for ws' :: "word64 list" and i using that s(1) by simp
  from or_row [where rd = ?rd, OF assms(1,4) s this] obtain ws' where
    ws': "res_for [0 ..< ?k] (or_step (write * ?k) ?rd) (mx_words m, False) =
      Ok (ws', \<not> bits s \<subseteq> row_set m write)" "bm_ok (m\<lparr>mx_words := ws'\<rparr>)"
    "row_changed m write (row_set m write \<union> bits s) (m\<lparr>mx_words := ws'\<rparr>)" by blast
  have "zip [0 ..< length (words s)] [write * ?k ..< write * ?k + ?k] = map (\<lambda>i. (i, write * ?k + i)) [0 ..< ?k]"
    using zip_ranges [of 0 ?k "write * ?k"] s(1) by simp
  then have "bm_union_row_with m s write = Ok (m\<lparr>mx_words := ws'\<rparr>, \<not> bits s \<subseteq> row_set m write)"
    using ws'(1) assms(3,4)
    by (simp add: bm_union_row_with_def bm_range_def Let_def res_for_map or_step_def [abs_def])
  with ws' show ?thesis by blast
qed

section \<open>Other operations on rows\<close>

lemma scan_bits_eq: "scan_bits base b k v = map (\<lambda>n. base * 64 + b + n) (filter (bit v) [0 ..< k])"
proof (induction k arbitrary: b v)
  case (Suc k)
  have odd: "v AND 1 \<noteq> 0 \<longleftrightarrow> bit v 0" by (simp add: and_one_eq bit_0 odd_iff_mod_2_eq_one)
  have "filter (bit v) [0 ..< Suc k] = (if bit v 0 then [0] else []) @ map Suc (filter (\<lambda>n. bit v (Suc n)) [0 ..< k])"
    by (simp add: upt_conv_Cons map_Suc_upt [symmetric] filter_map comp_def del: upt_Suc)
  moreover have "bit (drop_bit 1 v) = (\<lambda>n. bit v (Suc n))" by (simp add: fun_eq_iff bit_drop_bit_eq)
  ultimately show ?case using odd by (auto simp: Suc WORD_BITS_def)
qed simp

lemma bm_intersect_rows_ok:
  assumes "bm_ok m" "r < num_rows m" "s < num_rows m"
  shows "bm_intersect_rows m r s = Ok (sorted_list_of_set (row_set m r \<inter> row_set m s))"
proof -
  let ?k = "num_words (num_columns m)"
  let ?rs = "row_words m r" and ?ss = "row_words m s"
  let ?g = "\<lambda>i. scan_bits i 0 WORD_BITS (?rs ! i AND ?ss ! i)"
  have len: "length ?rs = ?k" "length ?ss = ?k" using bm_okD(3) assms by simp_all
  have "res_for (map (\<lambda>i. (i, r * ?k + i, s * ?k + i)) [0 ..< j])
      (\<lambda>(base, i, j) result. res_bind (index_vec (mx_words m) i) (\<lambda>v. res_bind (index_vec (mx_words m) j) (\<lambda>w.
        Ok (result @ scan_bits base 0 WORD_BITS (v AND w))))) [] = Ok (concat (map ?g [0 ..< j]))" if "j \<le> ?k" for j
    using that
  proof (induction j)
    case (Suc j)
    then show ?case using row_word [OF assms(1,2), of j] row_word [OF assms(1,3), of j]
      by (simp add: res_for_append)
  qed simp
  moreover have "enumerate 0 (zip [r * ?k ..< r * ?k + ?k] [s * ?k ..< s * ?k + ?k]) =
      map (\<lambda>i. (i, r * ?k + i, s * ?k + i)) [0 ..< ?k]"
    by (rule nth_equalityI) (simp_all add: zip_ranges nth_enumerate_eq)
  ultimately have "bm_intersect_rows m r s = Ok (concat (map ?g [0 ..< ?k]))"
    using assms(2,3) by (simp add: bm_intersect_rows_def bm_range_def Let_def)
  also have "concat (map ?g [0 ..< ?k]) = filter (\<lambda>n. n \<in> row_set m r \<inter> row_set m s) [0 ..< 64 * ?k]"
    unfolding filter_upt_blocks scan_bits_eq WORD_BITS_def
    by (intro arg_cong [where f = concat] map_cong refl)
       (auto simp: word_bits_def len bit_and_iff intro!: map_cong filter_cong)
  also have "\<dots> = sorted_list_of_set (row_set m r \<inter> row_set m s)"
  proof -
    let ?L = "filter (\<lambda>n. n \<in> row_set m r \<inter> row_set m s) [0 ..< 64 * ?k]"
    have "row_set m r \<inter> row_set m s = set ?L" using len by (auto simp: word_bits_def)
    moreover have "sorted ?L" "distinct ?L" by (rule sorted_wrt_filter, simp_all)
    ultimately show ?thesis by (metis sorted_list_of_set.idem_if_sorted_distinct)
  qed
  finally show ?thesis .
qed

lemma bm_row_slice_ok:
  assumes "bm_ok m" "r < num_rows m"
  shows "bm_row_slice m r = Ok (row_words m r)"
  using row_end [OF assms(2), of "num_words (num_columns m)"] bm_okD(1) [OF assms(1)]
  by (simp add: bm_row_slice_def bm_range_def Let_def row_words_def)

lemma fill_loop:
  assumes "length ws = n * k" "r < n" "j \<le> k"
  shows "\<exists>ws'. res_for [r * k ..< r * k + j] (\<lambda>index ws. res_bind (index_vec ws index) (\<lambda>_. Ok (ws[index := NOT 0]))) ws =
      Ok ws' \<and> length ws' = n * k \<and>
      (\<forall>s < n. nth_row k ws' s = (if s = r then replicate j (NOT 0) @ drop j (nth_row k ws r) else nth_row k ws s))"
  using assms(3)
proof (induction j)
  case 0
  then show ?case using assms by simp
next
  case (Suc j)
  then obtain ws' where ws': "res_for [r * k ..< r * k + j] (\<lambda>index ws. res_bind (index_vec ws index) (\<lambda>_. Ok (ws[index := NOT 0]))) ws = Ok ws'"
    "length ws' = n * k"
    "\<And>s. s < n \<Longrightarrow> nth_row k ws' s = (if s = r then replicate j (NOT 0) @ drop j (nth_row k ws r) else nth_row k ws s)"
    by auto
  have j: "j < k" using Suc.prems by simp
  have len: "length (nth_row k ws r) = k" using length_nth_row [OF assms(1,2)] .
  let ?ws = "ws'[r * k + j := NOT 0]"
  have "r * k + j < length ws'" using row_index_less [OF assms(2) j] ws'(2) by simp
  moreover have "nth_row k ?ws s = (if s = r then replicate (Suc j) (NOT 0) @ drop (Suc j) (nth_row k ws r) else nth_row k ws s)"
    if "s < n" for s
    using nth_row_update [OF ws'(2) assms(2) that j, of "NOT 0"] ws'(3) [OF that] ws'(3) [OF assms(2)] j len
    by (auto simp: list_update_append replicate_append_same [symmetric] Cons_nth_drop_Suc [symmetric])
  ultimately show ?case using ws'(1,2) by (simp add: res_for_append)
qed

text \<open>The last word of a row and the clearing of its excess bits are those of the bit set that the
  row is.\<close>

definition row_bit_set :: "bit_matrix \<Rightarrow> nat \<Rightarrow> bit_set" where
  "row_bit_set m r = \<lparr>domain_size = num_columns m, words = row_words m r\<rparr>"

lemma bm_clear_excess_bits_row:
  assumes "length (mx_words m) = num_rows m * num_words (num_columns m)" "r < num_rows m"
  shows "\<exists>m'. bm_clear_excess_bits m r = Ok m' \<and> length (mx_words m') = length (mx_words m) \<and>
    row_changed m r (bits (clear_excess_bits (row_bit_set m r))) m'"
proof (cases "num_columns m mod 64 > 0")
  case False
  then show ?thesis
    by (intro exI [of _ m])
       (simp add: bm_clear_excess_bits_def clear_excess_bits_def WORD_BITS_def row_changed_def row_bit_set_def)
next
  case True
  let ?k = "num_words (num_columns m)" and ?mask = "one_shl (num_columns m mod 64) - 1"
  have k: "?k = Suc (num_columns m div 64)" using True by (intro num_words_Suc) simp
  then have pos: "?k - 1 < ?k" by simp
  have idx: "r * ?k + ?k - 1 = r * ?k + (?k - 1)" using k by simp
  have len: "length (row_words m r) = ?k"
    using length_nth_row [OF assms] by (simp add: row_words_nth_row)
  have "index_vec (mx_words m) (r * ?k + (?k - 1)) = Ok (row_words m r ! (?k - 1))"
    using nth_nth_row [OF assms pos] row_index_less [OF assms(2) pos] assms(1) by (simp add: row_words_nth_row)
  moreover define w where "w = row_words m r ! (?k - 1) AND ?mask"
  ultimately have "bm_clear_excess_bits m r = Ok (m\<lparr>mx_words := (mx_words m)[r * ?k + (?k - 1) := w]\<rparr>)"
    using True idx by (simp add: bm_clear_excess_bits_def bm_range_def Let_def WORD_BITS_def)
  moreover have "row_words (m\<lparr>mx_words := (mx_words m)[r * ?k + (?k - 1) := w]\<rparr>) s =
      (if s = r then (row_words m r)[?k - 1 := w] else row_words m s)" if "s < num_rows m" for s
    using nth_row_update [OF assms that pos] by (simp add: row_words_nth_row)
  moreover have "words (clear_excess_bits (row_bit_set m r)) = (row_words m r)[?k - 1 := w]"
    using True len by (simp add: clear_excess_bits_def row_bit_set_def Let_def WORD_BITS_def w_def)
  ultimately show ?thesis
    by (intro exI [of _ "m\<lparr>mx_words := (mx_words m)[r * ?k + (?k - 1) := w]\<rparr>"]) (simp add: row_changed_def)
qed

lemma bm_insert_all_into_row_ok:
  assumes "bm_ok m" "r < num_rows m"
  shows "\<exists>m'. bm_insert_all_into_row m r = Ok m' \<and> bm_ok m' \<and> row_changed m r {..<num_columns m} m'"
proof -
  let ?k = "num_words (num_columns m)"
  note len = bm_okD(1) [OF assms(1)]
  have row: "length (nth_row ?k (mx_words m) r) = ?k" by (rule length_nth_row [OF len assms(2)])
  from fill_loop [OF len assms(2) order_refl] row obtain ws where ws:
    "res_for [r * ?k ..< r * ?k + ?k] (\<lambda>index ws. res_bind (index_vec ws index) (\<lambda>_. Ok (ws[index := NOT 0]))) (mx_words m) = Ok ws"
    "length ws = num_rows m * ?k"
    "\<And>s. s < num_rows m \<Longrightarrow> nth_row ?k ws s = (if s = r then replicate ?k (NOT 0) else nth_row ?k (mx_words m) s)"
    by auto
  let ?m = "m\<lparr>mx_words := ws\<rparr>"
  have "length (mx_words ?m) = num_rows ?m * num_words (num_columns ?m)" "r < num_rows ?m"
    using ws(2) assms(2) by simp_all
  from bm_clear_excess_bits_row [OF this] obtain m' where m': "bm_clear_excess_bits ?m r = Ok m'"
    "length (mx_words m') = length ws" "row_changed ?m r (bits (clear_excess_bits (row_bit_set ?m r))) m'" by auto
  have "row_bit_set ?m r = \<lparr>domain_size = num_columns m, words = replicate ?k (NOT 0)\<rparr>"
    using ws(3) [OF assms(2)] by (simp add: row_bit_set_def row_words_nth_row)
  then have "clear_excess_bits (row_bit_set ?m r) = bs_new_filled (num_columns m)"
    by (simp add: bs_new_filled_def)
  then have changed: "row_changed m r {..<num_columns m} m'"
    using m'(3) ws(3) bs_new_filled_ok(2) by (auto simp: row_changed_def row_words_nth_row)
  moreover have "bm_ok m'"
    using m'(2) ws(2) len by (intro bm_ok_changed [OF assms(1) changed]) auto
  moreover have "bm_insert_all_into_row m r = Ok m'"
    using ws(1) m'(1) assms(2) by (simp add: bm_insert_all_into_row_def bm_range_def Let_def)
  ultimately show ?thesis by blast
qed

lemma bm_new_ok: "bm_ok (bm_new rows cols)" "r < rows \<Longrightarrow> row_set (bm_new rows cols) r = {}"
proof -
  have "row_set (bm_new rows cols) r = {}" if "r < rows" for r
    using row_end [OF that, of "num_words cols"] by (simp add: row_words_def bm_new_def)
  then show "bm_ok (bm_new rows cols)" "r < rows \<Longrightarrow> row_set (bm_new rows cols) r = {}"
    by (simp_all add: bm_ok_def) (simp_all add: bm_new_def)
qed

text \<open>(C36) The operations of a well-formed bit matrix act on the set of columns of one row, tell
  whether that row changed, and leave all other rows alone: insertion of a cell, union of one row
  into another (also of a row into itself), union of a bit set into a row, and filling a row.\<close>

theorem bit_matrix_rows:
  assumes "bm_ok m" "r < num_rows m" "s < num_rows m" "c < num_columns m" "bs_ok b" "domain_size b = num_columns m"
  shows "bm_contains m r c = Ok (c \<in> row_set m r) \<and>
    (\<exists>m'. bm_insert m r c = Ok (m', c \<notin> row_set m r) \<and> bm_ok m' \<and>
      row_changed m r (insert c (row_set m r)) m') \<and>
    (\<exists>m'. bm_union_rows m s r = Ok (m', \<not> row_set m s \<subseteq> row_set m r) \<and> bm_ok m' \<and>
      row_changed m r (row_set m r \<union> row_set m s) m') \<and>
    (\<exists>m'. bm_union_row_with m b r = Ok (m', \<not> bits b \<subseteq> row_set m r) \<and> bm_ok m' \<and>
      row_changed m r (row_set m r \<union> bits b) m') \<and>
    (\<exists>m'. bm_insert_all_into_row m r = Ok m' \<and> bm_ok m' \<and> row_changed m r {..<num_columns m} m') \<and>
    bm_intersect_rows m r s = Ok (sorted_list_of_set (row_set m r \<inter> row_set m s)) \<and>
    bm_count m r = Ok (card (row_set m r))"
  using bm_contains_ok [OF assms(1,2,4)] bm_insert_ok [OF assms(1,2,4)] bm_union_rows_ok [OF assms(1,3,2)]
    bm_union_row_with_ok [OF assms(1,5,6,2)] bm_insert_all_into_row_ok [OF assms(1,2)]
    bm_intersect_rows_ok [OF assms(1-3)] bm_row_slice_ok [OF assms(1,2)] card_word_bits
  by (simp add: bm_count_def)

section \<open>Sparse matrices\<close>

record sparse_bit_matrix =
  sm_columns :: nat
  sm_rows :: "hybrid_bit_set option list"

definition sm_new :: "nat \<Rightarrow> sparse_bit_matrix" where
  "sm_new cols = \<lparr>sm_columns = cols, sm_rows = []\<rparr>"

text \<open>\<open>ensure_row\<close> returns a reference into the matrix; here it returns the matrix in which the row
  exists, together with the row.\<close>

definition sm_ensure_row :: "sparse_bit_matrix \<Rightarrow> nat \<Rightarrow> sparse_bit_matrix \<times> hybrid_bit_set" where
  "sm_ensure_row m row =
     (let rows = (if length (sm_rows m) < row + 1
                  then sm_rows m @ replicate (row + 1 - length (sm_rows m)) None else sm_rows m);
          r = (case rows ! row of Some r \<Rightarrow> r | None \<Rightarrow> hs_new_empty (sm_columns m))
      in (m\<lparr>sm_rows := rows[row := Some r]\<rparr>, r))"

definition sm_set_row :: "sparse_bit_matrix \<Rightarrow> nat \<Rightarrow> hybrid_bit_set \<Rightarrow> sparse_bit_matrix" where
  "sm_set_row m row r = m\<lparr>sm_rows := (sm_rows m)[row := Some r]\<rparr>"

definition sm_row :: "sparse_bit_matrix \<Rightarrow> nat \<Rightarrow> hybrid_bit_set option" where
  "sm_row m row = (if row < length (sm_rows m) then sm_rows m ! row else None)"

definition sm_insert :: "sparse_bit_matrix \<Rightarrow> nat \<Rightarrow> nat \<Rightarrow> (sparse_bit_matrix \<times> bool) res" where
  "sm_insert m row column =
     (let (m', r) = sm_ensure_row m row in
      res_bind (hs_insert r column) (\<lambda>(r', changed). Ok (sm_set_row m' row r', changed)))"

definition sm_contains :: "sparse_bit_matrix \<Rightarrow> nat \<Rightarrow> nat \<Rightarrow> bool res" where
  "sm_contains m row column =
     (case sm_row m row of None \<Rightarrow> Ok False | Some r \<Rightarrow> hs_contains r column)"

definition sm_union_rows :: "sparse_bit_matrix \<Rightarrow> nat \<Rightarrow> nat \<Rightarrow> (sparse_bit_matrix \<times> bool) res" where
  "sm_union_rows m read write =
     (if read = write \<or> sm_row m read = None then Ok (m, False)
      else let (m', _) = sm_ensure_row m write in
        (case (sm_row m' read, sm_row m' write) of
           (Some read_row, Some write_row) \<Rightarrow>
             res_bind (hs_union write_row read_row) (\<lambda>(r, changed). Ok (sm_set_row m' write r, changed))
         | _ \<Rightarrow> Panic (Explicit_Panic ''unreachable'')))"

definition sm_union_into_row :: "sparse_bit_matrix \<Rightarrow> nat \<Rightarrow> hybrid_bit_set \<Rightarrow> (sparse_bit_matrix \<times> bool) res" where
  "sm_union_into_row m into from_set =
     (let (m', r) = sm_ensure_row m into in
      res_bind (hs_union r from_set) (\<lambda>(r', changed). Ok (sm_set_row m' into r', changed)))"

definition sm_insert_all_into_row :: "sparse_bit_matrix \<Rightarrow> nat \<Rightarrow> sparse_bit_matrix" where
  "sm_insert_all_into_row m row =
     (let (m', r) = sm_ensure_row m row in sm_set_row m' row (hs_insert_all r))"

definition sm_rows_iter :: "sparse_bit_matrix \<Rightarrow> nat list" where
  "sm_rows_iter m = [0 ..< length (sm_rows m)]"

definition sm_iter :: "sparse_bit_matrix \<Rightarrow> nat \<Rightarrow> nat list" where
  "sm_iter m row = (case sm_row m row of None \<Rightarrow> [] | Some r \<Rightarrow> hs_iter r)"

text \<open>The relation a sparse matrix stands for.\<close>

definition sm_ok :: "sparse_bit_matrix \<Rightarrow> bool" where
  "sm_ok m \<longleftrightarrow> (\<forall>r. Some r \<in> set (sm_rows m) \<longrightarrow> hs_ok r \<and> hs_domain_size r = sm_columns m)"

definition sm_cols :: "sparse_bit_matrix \<Rightarrow> nat \<Rightarrow> nat set" where
  "sm_cols m row = (case sm_row m row of None \<Rightarrow> {} | Some r \<Rightarrow> hs_els r)"

lemma sm_rowD: "sm_ok m \<Longrightarrow> sm_row m i = Some r \<Longrightarrow> hs_ok r \<and> hs_domain_size r = sm_columns m"
  unfolding sm_ok_def sm_row_def by (metis nth_mem option.distinct(1))

lemma sm_ensure_row_props:
  assumes "sm_ok m" "sm_ensure_row m row = (m', r)"
  shows "hs_ok r" "hs_domain_size r = sm_columns m" "hs_els r = sm_cols m row"
    "sm_columns m' = sm_columns m" "row < length (sm_rows m')" "sm_row m' row = Some r"
    "i \<noteq> row \<Longrightarrow> sm_row m' i = sm_row m i"
proof -
  define rows where "rows = (if length (sm_rows m) < row + 1
                  then sm_rows m @ replicate (row + 1 - length (sm_rows m)) None else sm_rows m)"
  have r: "r = (case sm_row m row of Some r \<Rightarrow> r | None \<Rightarrow> hs_new_empty (sm_columns m))"
    and m': "m' = m\<lparr>sm_rows := rows[row := Some r]\<rparr>"
    using assms(2) by (auto simp: sm_ensure_row_def Let_def rows_def sm_row_def nth_append)
  have len: "row < length rows" by (simp add: rows_def)
  show "hs_ok r" "hs_domain_size r = sm_columns m" "hs_els r = sm_cols m row"
    using sm_rowD [OF assms(1), of row] r hs_new_empty_ok by (auto simp: sm_cols_def split: option.split)
  show "sm_columns m' = sm_columns m" "row < length (sm_rows m')" "sm_row m' row = Some r"
    using len by (simp_all add: m' sm_row_def)
  show "sm_row m' i = sm_row m i" if "i \<noteq> row"
    using that by (simp add: m' sm_row_def rows_def nth_append)
qed

text \<open>Storing a row: the other rows keep their columns.\<close>

lemma sm_set_row_props:
  assumes "sm_ok m" "sm_ensure_row m row = (m', r)" "hs_ok r'" "hs_domain_size r' = sm_columns m"
  shows "sm_ok (sm_set_row m' row r')" "sm_columns (sm_set_row m' row r') = sm_columns m"
    "sm_cols (sm_set_row m' row r') i = (if i = row then hs_els r' else sm_cols m i)"
proof -
  note e = sm_ensure_row_props [OF assms(1,2)]
  have row: "sm_row (sm_set_row m' row r') i = (if i = row then Some r' else sm_row m i)" for i
  proof (cases "i = row")
    case True
    then show ?thesis using e(5) by (simp add: sm_row_def sm_set_row_def)
  next
    case False
    then have "sm_row (sm_set_row m' row r') i = sm_row m' i" by (simp add: sm_row_def sm_set_row_def)
    then show ?thesis using False sm_ensure_row_props(7) [OF assms(1,2) False] by simp
  qed
  show col: "sm_columns (sm_set_row m' row r') = sm_columns m" using e(4) by (simp add: sm_set_row_def)
  show "sm_cols (sm_set_row m' row r') i = (if i = row then hs_els r' else sm_cols m i)"
    by (simp add: sm_cols_def row)
  show "sm_ok (sm_set_row m' row r')"
    unfolding sm_ok_def
  proof (intro allI impI)
    fix q assume "Some q \<in> set (sm_rows (sm_set_row m' row r'))"
    then have "\<exists>i. sm_row (sm_set_row m' row r') i = Some q"
      unfolding in_set_conv_nth sm_row_def by auto
    then obtain i where "sm_row (sm_set_row m' row r') i = Some q" ..
    then show "hs_ok q \<and> hs_domain_size q = sm_columns (sm_set_row m' row r')"
      using sm_rowD [OF assms(1)] assms(3,4) unfolding row col by (auto split: if_splits)
  qed
qed

text \<open>(C37) The operations of a sparse matrix act on the relation between rows and columns: a row
  that was never touched has no columns, insertion and union create rows as needed, tell whether the
  row gained columns, and leave every other row alone.\<close>

theorem sparse_matrix_rows:
  assumes "sm_ok m" "c < sm_columns m"
  shows "sm_contains m r c = Ok (c \<in> sm_cols m r) \<and>
    (\<exists>m'. sm_insert m r c = Ok (m', c \<notin> sm_cols m r) \<and> sm_ok m' \<and>
      (\<forall>i. sm_cols m' i = (if i = r then insert c (sm_cols m r) else sm_cols m i))) \<and>
    (\<exists>m'. sm_union_rows m s r = Ok (m', \<not> sm_cols m s \<subseteq> sm_cols m r) \<and> sm_ok m' \<and>
      (\<forall>i. sm_cols m' i = (if i = r then sm_cols m r \<union> sm_cols m s else sm_cols m i)))"
proof (intro conjI)
  show "sm_contains m r c = Ok (c \<in> sm_cols m r)"
    using sm_rowD [OF assms(1), of r] hs_contains_ok assms(2)
    by (auto simp: sm_contains_def sm_cols_def split: option.split)
  obtain m1 q where e: "sm_ensure_row m r = (m1, q)" by (cases "sm_ensure_row m r")
  note p = sm_ensure_row_props [OF assms(1) e]
  from hs_insert_ok [OF p(1), of c] p(2,3) assms(2) obtain q' where q': "hs_insert q c = Ok (q', c \<notin> sm_cols m r)"
    "hs_ok q'" "hs_els q' = insert c (sm_cols m r)" "hs_domain_size q' = sm_columns m" by auto
  from sm_set_row_props [OF assms(1) e q'(2,4)] q' e
  show "\<exists>m'. sm_insert m r c = Ok (m', c \<notin> sm_cols m r) \<and> sm_ok m' \<and>
      (\<forall>i. sm_cols m' i = (if i = r then insert c (sm_cols m r) else sm_cols m i))"
    by (intro exI [of _ "sm_set_row m1 r q'"]) (simp add: sm_insert_def)
  show "\<exists>m'. sm_union_rows m s r = Ok (m', \<not> sm_cols m s \<subseteq> sm_cols m r) \<and> sm_ok m' \<and>
      (\<forall>i. sm_cols m' i = (if i = r then sm_cols m r \<union> sm_cols m s else sm_cols m i))"
  proof (cases "s = r \<or> sm_row m s = None")
    case True
    then show ?thesis using assms(1) by (intro exI [of _ m]) (auto simp: sm_union_rows_def sm_cols_def)
  next
    case False
    then obtain v where v: "sm_row m s = Some v" "s \<noteq> r" by blast
    note v_ok = sm_rowD [OF assms(1) v(1)]
    from hs_union_ok [OF p(1), of v] v_ok p(2,3) assms(2) v(1) obtain q' where
      q': "hs_union q v = Ok (q', \<not> sm_cols m s \<subseteq> sm_cols m r)" "hs_ok q'"
      "hs_els q' = sm_cols m r \<union> sm_cols m s" "hs_domain_size q' = sm_columns m"
      by (auto simp: sm_cols_def)
    from sm_set_row_props [OF assms(1) e q'(2,4)] q' e v p(6,7)
    show ?thesis by (intro exI [of _ "sm_set_row m1 r q'"]) (simp add: sm_union_rows_def)
  qed
qed

section \<open>Examples\<close>

theorem bit_matrix_rows_witness:
  "\<exists>m'. bm_insert (bm_new 3 70) 1 66 = Ok (m', True) \<and> bm_ok m' \<and> row_changed (bm_new 3 70) 1 {66} m'"
proof -
  have dims: "1 < num_rows (bm_new 3 70)" "66 < num_columns (bm_new 3 70)" "70 = num_columns (bm_new 3 70)"
    by (simp_all add: bm_new_def)
  have "row_set (bm_new 3 70) 1 = {}" by (rule bm_new_ok(2)) simp
  then show ?thesis
    using bit_matrix_rows [of "bm_new 3 70" 1 1 66 "bs_new_empty 70"] bm_new_ok(1) bs_new_empty_ok(1) dims
    by (auto simp: bs_new_empty_def)
qed

theorem sparse_matrix_rows_witness:
  "\<exists>m'. sm_insert (sm_new 70) 5 66 = Ok (m', True) \<and> sm_cols m' 5 = {66} \<and> sm_cols m' 4 = {}"
proof -
  have empty: "sm_cols (sm_new 70) i = {}" for i by (simp add: sm_cols_def sm_row_def sm_new_def)
  have "sm_ok (sm_new 70)" "66 < sm_columns (sm_new 70)" by (simp_all add: sm_ok_def sm_new_def)
  from sparse_matrix_rows [OF this, of 5 0] show ?thesis unfolding empty by auto
qed

end
