(* ===== verification/Simplify_Locals.thy ===== *)
theory Simplify_Locals
  imports Dead_Blocks Mir_Visit
begin

text \<open>
  Removal of unused locals (\<open>SimplifyLocals\<close> of \<open>src/librustc_mir/transform/simplify.rs\<close>): locals that
  are only marked as live or dead, or only assigned constants, lose their declarations and these
  statements, and the other locals are renumbered. The theorems say that the pass never unwraps a
  missing entry, that every local that is left is declared with the declaration it had before, and that
  the blocks keep their edges.
\<close>

section \<open>The pass\<close>

definition RETURN_PLACE :: nat where
  "RETURN_PLACE = 0"

text \<open>The store of a constant to a local.\<close>

fun const_store :: "statement_kind \<Rightarrow> bool" where
  "const_store (Assign p (Use (Constant _))) = (as_local p \<noteq> None)"
| "const_store _ = False"

definition mark_local :: "nat \<Rightarrow> bit_set \<Rightarrow> bit_set res" where
  "mark_local l locals = res_bind (bs_insert locals l) (\<lambda>(locals', _). Ok locals')"

definition marker_visit_local :: "body \<Rightarrow> nat \<times> place_context \<times> location \<Rightarrow> bit_set \<Rightarrow> bit_set res" where
  "marker_visit_local b = (\<lambda>(l, ctx, loc) locals.
     if is_storage_marker ctx then Ok locals
     else if ctx = MutatingUse Store
     then res_bind (index_vec (basic_blocks b) (loc_block loc)) (\<lambda>d.
          res_bind (index_vec (statements d) (loc_statement_index loc)) (\<lambda>stmt.
            if const_store (stmt_kind stmt) then Ok locals else mark_local l locals))
     else mark_local l locals)"

text \<open>\<open>full_debuginfo\<close> is the session option that keeps user variables.\<close>

definition used_locals :: "bool \<Rightarrow> body \<Rightarrow> bit_set res" where
  "used_locals full_debuginfo b =
     res_bind (res_for (super_body b) (marker_visit_local b) (bs_new_empty (length (local_decls b)))) (\<lambda>marked.
     res_bind (mark_local RETURN_PLACE marked) (\<lambda>marked1.
     res_bind (res_for (args_iter b) mark_local marked1) (\<lambda>marked2.
       if full_debuginfo then res_for (vars_iter b) mark_local marked2 else Ok marked2)))"

text \<open>The counter of kept locals is a natural number; the check of \<open>increment_by\<close> on the type \<open>Local\<close>, which
  could fail only if all the locals a body can have were declared and kept, is left out.\<close>

definition make_local_map :: "local_decl list \<Rightarrow> bit_set \<Rightarrow> (local_decl list \<times> nat option list) res" where
  "make_local_map decls marked =
     res_bind (res_for (bs_iter marked) (compact_step Some) (decls, replicate (length decls) None, 0))
       (\<lambda>(decls', lmap, used). Ok (take used decls', lmap))"

text \<open>The updater: which statements stay, and the rewriting of the locals of one statement or
  terminator, which looks up every local it visits.\<close>

definition is_mapped :: "nat option list \<Rightarrow> nat \<Rightarrow> bool res" where
  "is_mapped lmap l = res_bind (index_vec lmap l) (\<lambda>e. Ok (e \<noteq> None))"

fun keep_statement :: "nat option list \<Rightarrow> statement_kind \<Rightarrow> bool res" where
  "keep_statement lmap (StorageLive l) = is_mapped lmap l"
| "keep_statement lmap (StorageDead l) = is_mapped lmap l"
| "keep_statement lmap (Assign p _) =
     (case as_local p of Some l \<Rightarrow> is_mapped lmap l | None \<Rightarrow> Ok True)"
| "keep_statement lmap _ = Ok True"

fun res_filter :: "('a \<Rightarrow> bool res) \<Rightarrow> 'a list \<Rightarrow> 'a list res" where
  "res_filter f [] = Ok []"
| "res_filter f (x # xs) =
     res_bind (f x) (\<lambda>keep. res_bind (res_filter f xs) (\<lambda>ys. Ok (if keep then x # ys else ys)))"

definition lookup_locals :: "nat option list \<Rightarrow> local_visits \<Rightarrow> nat list res" where
  "lookup_locals lmap = res_map (\<lambda>(l, _). res_bind (index_vec lmap l) unwrap)"

abbreviation new_local_of :: "nat option list \<Rightarrow> nat \<Rightarrow> nat" where
  "new_local_of lmap l \<equiv> the (lmap ! l)"

definition update_statement :: "nat option list \<Rightarrow> statement \<Rightarrow> statement res" where
  "update_statement lmap st =
     res_bind (lookup_locals lmap (super_statement (stmt_kind st))) (\<lambda>_.
       Ok (st\<lparr>stmt_kind := mut_statement (new_local_of lmap) (stmt_kind st)\<rparr>))"

definition update_terminator :: "nat option list \<Rightarrow> Mir.terminator \<Rightarrow> Mir.terminator res" where
  "update_terminator lmap t =
     res_bind (lookup_locals lmap (super_terminator_kind (term_kind t))) (\<lambda>_.
       Ok (t\<lparr>term_kind := mut_terminator_kind (new_local_of lmap) (term_kind t)\<rparr>))"

definition update_block_locals :: "nat option list \<Rightarrow> basic_block_data \<Rightarrow> basic_block_data res" where
  "update_block_locals lmap d =
     res_bind (res_filter (\<lambda>st. keep_statement lmap (stmt_kind st)) (statements d)) (\<lambda>sts.
     res_bind (res_map (update_statement lmap) sts) (\<lambda>sts'.
       case terminator d of
         None \<Rightarrow> Ok (d\<lparr>statements := sts'\<rparr>)
       | Some t \<Rightarrow> res_bind (update_terminator lmap t) (\<lambda>t'.
           Ok (d\<lparr>statements := sts', terminator := Some t'\<rparr>))))"

definition simplify_locals :: "bool \<Rightarrow> body \<Rightarrow> body res" where
  "simplify_locals full_debuginfo b =
     res_bind (used_locals full_debuginfo b) (\<lambda>locals.
     res_bind (make_local_map (local_decls b) locals) (\<lambda>(decls, lmap).
     res_bind (res_map (update_block_locals lmap) (basic_blocks b)) (\<lambda>bs.
       Ok (b\<lparr>local_decls := decls, basic_blocks := bs\<rparr>))))"

section \<open>Which locals are used\<close>

text \<open>A visit that counts as a use.\<close>

definition counts_as_use :: "body \<Rightarrow> nat \<times> place_context \<times> location \<Rightarrow> bool" where
  "counts_as_use b = (\<lambda>(l, ctx, loc). \<not> is_storage_marker ctx \<and>
     \<not> (ctx = MutatingUse Store \<and>
        const_store (stmt_kind (statements (basic_blocks b ! loc_block loc) ! loc_statement_index loc))))"

definition used_set :: "bool \<Rightarrow> body \<Rightarrow> nat set" where
  "used_set full b =
     fst ` {v \<in> set (super_body b). counts_as_use b v} \<union> {..arg_count b} \<union> (if full then set (vars_iter b) else {})"

lemma mark_local_ok:
  assumes "bs_ok s" "l < domain_size s"
  shows "\<exists>s'. mark_local l s = Ok s' \<and> bs_ok s' \<and> bits s' = insert l (bits s) \<and> domain_size s' = domain_size s"
  using bs_insert_ok [OF assms] by (auto simp: mark_local_def)

lemma mark_locals_ok:
  assumes "bs_ok s" "\<forall>l\<in>set ls. l < domain_size s"
  shows "\<exists>s'. res_for ls mark_local s = Ok s' \<and> bs_ok s' \<and> bits s' = bits s \<union> set ls \<and> domain_size s' = domain_size s"
  using assms
proof (induction ls arbitrary: s)
  case (Cons l ls)
  then obtain s1 where "mark_local l s = Ok s1" "bs_ok s1" "bits s1 = insert l (bits s)" "domain_size s1 = domain_size s"
    using mark_local_ok [of s l] by auto
  with Cons.IH [of s1] Cons.prems(2) show ?case by auto
qed simp

text \<open>Only statements store.\<close>

lemma base_context: "(l, c) \<in> set (super_place_base pb ctx) \<Longrightarrow> c = ctx"
  by (cases pb) simp_all

lemma elem_context: "(l, c) \<in> set (super_projection_elem e) \<Longrightarrow> c = NonMutatingUse Copy_use"
  by (cases e) simp_all

lemma place_store: "(l, MutatingUse Store) \<in> set (super_place p ctx) \<Longrightarrow> ctx = MutatingUse Store"
  by (auto simp: super_place_def Let_def super_projection_def split: if_splits dest: base_context elem_context)

lemma operand_store: "(l, MutatingUse Store) \<notin> set (super_operand op)"
  by (cases op) (auto dest: place_store)

lemma rvalue_store: "(l, MutatingUse Store) \<notin> set (super_rvalue rv)"
proof (cases rv)
  case (Ref r bk p)
  then show ?thesis by (cases bk) (auto dest: place_store)
qed (auto simp: operand_store dest: place_store)

lemma terminator_store: "(l, MutatingUse Store) \<notin> set (super_terminator_kind k)"
proof (cases k)
  case (Assert c e m t u)
  then show ?thesis by (cases m) (auto simp: operand_store)
qed (auto simp: operand_store dest: place_store split: option.splits)

lemma visit_location:
  assumes "(l, MutatingUse Store, loc) \<in> set (super_body b)"
  shows "loc_block loc < length (basic_blocks b)"
    "loc_statement_index loc < length (statements (basic_blocks b ! loc_block loc))"
  using assms terminator_store unfolding body_visits_iff block_visits_iff by auto

lemma marker_ok:
  assumes "bs_ok s" "\<forall>v\<in>set vs. v \<in> set (super_body b) \<and> fst v < domain_size s"
  shows "\<exists>s'. res_for vs (marker_visit_local b) s = Ok s' \<and> bs_ok s' \<and>
    bits s' = bits s \<union> fst ` {v \<in> set vs. counts_as_use b v} \<and> domain_size s' = domain_size s"
  using assms
proof (induction vs arbitrary: s)
  case (Cons v vs)
  obtain l ctx loc where v: "v = (l, ctx, loc)" by (cases v) auto
  have visit: "marker_visit_local b v s = (if counts_as_use b v then mark_local l s else Ok s)"
    using Cons.prems(2) visit_location [of l loc b] v
    by (auto simp: marker_visit_local_def counts_as_use_def)
  show ?case
  proof (cases "counts_as_use b v")
    case True
    then have "{w \<in> set (v # vs). counts_as_use b w} = insert v {w \<in> set vs. counts_as_use b w}" by auto
    moreover from True obtain s1 where "mark_local l s = Ok s1" "bs_ok s1" "bits s1 = insert l (bits s)" "domain_size s1 = domain_size s"
      using mark_local_ok [of s l] Cons.prems v by auto
    ultimately show ?thesis using Cons.IH [of s1] Cons.prems(2) visit v True by auto
  next
    case False
    then have "{w \<in> set (v # vs). counts_as_use b w} = {w \<in> set vs. counts_as_use b w}" by auto
    with False Cons.IH [OF Cons.prems(1)] Cons.prems(2) visit show ?thesis by auto
  qed
qed simp

text \<open>The locals that are marked.\<close>

definition locals_ok :: "body \<Rightarrow> bool" where
  "locals_ok b \<longleftrightarrow> locals_declared b \<and> arg_count b < length (local_decls b) \<and> length (local_decls b) < 2 ^ 32"

lemma used_locals_ok:
  assumes "locals_ok b"
  shows "\<exists>s. used_locals full b = Ok s \<and> bs_ok s \<and> bits s = used_set full b \<and> domain_size s = length (local_decls b)"
proof -
  let ?n = "length (local_decls b)"
  have empty: "bs_ok (bs_new_empty ?n)" "bits (bs_new_empty ?n) = {}" "domain_size (bs_new_empty ?n) = ?n"
    using bs_new_empty_ok [of ?n] by (simp_all add: bs_new_empty_def)
  have "\<forall>v\<in>set (super_body b). v \<in> set (super_body b) \<and> fst v < domain_size (bs_new_empty ?n)"
    using assms empty(3) by (simp add: locals_ok_def locals_declared_def list_all_iff)
  from marker_ok [OF empty(1) this] obtain s0 where
    s0: "res_for (super_body b) (marker_visit_local b) (bs_new_empty ?n) = Ok s0" "bs_ok s0" "domain_size s0 = ?n"
      "bits s0 = fst ` {v \<in> set (super_body b). counts_as_use b v}" using empty(2,3) by auto
  have args: "arg_count b < ?n" using assms by (simp add: locals_ok_def)
  then have "RETURN_PLACE < domain_size s0" unfolding s0(3) RETURN_PLACE_def by linarith
  from mark_local_ok [OF s0(2) this] obtain s1 where s1: "mark_local RETURN_PLACE s0 = Ok s1" "bs_ok s1"
    "domain_size s1 = ?n" "bits s1 = insert 0 (bits s0)" using s0(3) by (auto simp: RETURN_PLACE_def)
  have "\<forall>l\<in>set (args_iter b). l < domain_size s1" using args s1(3) by (auto simp: args_iter_def)
  from mark_locals_ok [OF s1(2) this] obtain s2 where
    s2: "res_for (args_iter b) mark_local s1 = Ok s2" "bs_ok s2" "domain_size s2 = ?n"
      "bits s2 = bits s1 \<union> set (args_iter b)" using s1(3) by auto
  have "\<forall>l\<in>set (vars_iter b). l < domain_size s2" using s2(3) by (auto simp: vars_iter_def)
  from mark_locals_ok [OF s2(2) this] obtain s3 where
    s3: "res_for (vars_iter b) mark_local s2 = Ok s3" "bs_ok s3" "domain_size s3 = ?n"
      "bits s3 = bits s2 \<union> set (vars_iter b)" using s2(3) by auto
  have "insert 0 (set (args_iter b)) = {..arg_count b}" by (auto simp: args_iter_def)
  moreover have "bits s2 = bits s0 \<union> insert 0 (set (args_iter b))" using s1(4) s2(4) by auto
  ultimately have "bits s2 = used_set False b" unfolding used_set_def s0(4) by simp
  moreover from this have "bits s3 = used_set True b" using s3(4) by (auto simp: used_set_def)
  ultimately show ?thesis using s0(1) s1(1) s2 s3 by (cases full) (simp_all add: used_locals_def)
qed

lemma used_set_declared: "locals_ok b \<Longrightarrow> used_set full b \<subseteq> {..<length (local_decls b)}"
  by (auto simp: used_set_def locals_ok_def locals_declared_def list_all_iff vars_iter_def)

text \<open>The new numbers of the locals that stay: their positions among them.\<close>

lemma make_local_map_ok:
  assumes "bs_ok s" "domain_size s = length decls" "length decls < 2 ^ 32" "bits s = U" "U \<subseteq> {..<length decls}"
  shows "\<exists>lmap. make_local_map decls s = Ok (map ((!) decls) (sorted_list_of_set U), lmap) \<and>
    length lmap = length decls \<and> (\<forall>j<card U. lmap ! (sorted_list_of_set U ! j) = Some j) \<and>
    (\<forall>l<length decls. l \<notin> U \<longrightarrow> lmap ! l = None)"
proof -
  have fin: "finite U" using assms(5) finite_subset by blast
  have iter: "bs_iter s = sorted_list_of_set U" using bs_iter_small [OF assms(1)] assms(2-4) by simp
  have "sorted_wrt (<) (sorted_list_of_set U)" "\<forall>i\<in>set (sorted_list_of_set U). i < length decls"
    using fin assms(5) by auto
  from compact_ok [OF this, of "replicate (length decls) None" Some] obtain decls' lmap where
    "res_for (sorted_list_of_set U) (compact_step Some) (decls, replicate (length decls) None, 0) =
      Ok (decls', lmap, length (sorted_list_of_set U))"
    "take (length (sorted_list_of_set U)) decls' = map ((!) decls) (sorted_list_of_set U)"
    "length lmap = length decls" "\<forall>j<length (sorted_list_of_set U). lmap ! (sorted_list_of_set U ! j) = Some j"
    "\<forall>i<length decls. i \<notin> set (sorted_list_of_set U) \<longrightarrow> lmap ! i = replicate (length decls) None ! i" by auto
  then show ?thesis using fin iter by (intro exI [of _ lmap]) (simp add: make_local_map_def)
qed

section \<open>Rewriting the body\<close>

fun kept :: "nat set \<Rightarrow> statement_kind \<Rightarrow> bool" where
  "kept U (StorageLive l) = (l \<in> U)"
| "kept U (StorageDead l) = (l \<in> U)"
| "kept U (Assign p _) = (case as_local p of Some l \<Rightarrow> l \<in> U | None \<Rightarrow> True)"
| "kept U _ = True"

definition place_contexts :: "place_context \<Rightarrow> place_context set" where
  "place_contexts ctx =
     {ctx, MutatingUse M_Projection, NonMutatingUse NM_Projection, NonMutatingUse Copy_use}"

lemma place_context: "(l, c) \<in> set (super_place p ctx) \<Longrightarrow> c \<in> place_contexts ctx"
  by (auto simp: super_place_def Let_def super_projection_def place_contexts_def split: if_splits
      dest: base_context elem_context)

lemma place_no_marker: "(l, c) \<in> set (super_place p ctx) \<Longrightarrow> \<not> is_storage_marker ctx \<Longrightarrow> \<not> is_storage_marker c"
  using place_context by (fastforce simp: place_contexts_def)

lemma operand_no_marker: "(l, c) \<in> set (super_operand op) \<Longrightarrow> \<not> is_storage_marker c"
  by (cases op) (auto dest: place_no_marker)

lemma rvalue_no_marker: "(l, c) \<in> set (super_rvalue rv) \<Longrightarrow> \<not> is_storage_marker c"
proof (cases rv)
  case (Ref r bk p)
  moreover assume "(l, c) \<in> set (super_rvalue rv)"
  moreover have "\<not> is_storage_marker (borrow_context bk)" by (cases bk) simp_all
  ultimately show ?thesis by (auto dest: place_no_marker)
qed (auto dest: place_no_marker operand_no_marker)

lemma terminator_no_marker: "(l, c) \<in> set (super_terminator_kind k) \<Longrightarrow> \<not> is_storage_marker c"
proof (cases k)
  case (Assert cond e m t u)
  moreover assume "(l, c) \<in> set (super_terminator_kind k)"
  ultimately show ?thesis by (cases m) (auto dest: operand_no_marker)
qed (auto dest: place_no_marker operand_no_marker split: option.splits)

text \<open>A statement that stays has only used locals.\<close>

lemma kept_used:
  assumes n: "n < length (basic_blocks b)" "i < length (statements (basic_blocks b ! n))"
    and k: "k = stmt_kind (statements (basic_blocks b ! n) ! i)" "kept (used_set full b) k"
    and l: "(l, c) \<in> set (super_statement k)"
  shows "l \<in> used_set full b"
proof -
  let ?loc = "\<lparr>loc_block = n, loc_statement_index = i\<rparr>"
  have "(l, c, ?loc) \<in> set (super_body b)"
    unfolding body_visits_iff block_visits_iff using n k(1) l by auto
  then have used: "l \<in> used_set full b" if "\<not> is_storage_marker c" "\<not> (c = MutatingUse Store \<and> const_store k)"
    using that k(1) unfolding used_set_def counts_as_use_def by force
  show ?thesis
  proof (cases k)
    case (Assign p rv)
    show ?thesis
    proof (cases "as_local p")
      case None
      then have "\<not> const_store k" using Assign by (cases rv rule: rvalue.exhaust) (auto elim: const_store.elims)
      moreover have "\<not> is_storage_marker c"
        using l Assign by (auto simp: super_assign_def dest: place_no_marker rvalue_no_marker)
      ultimately show ?thesis using used by blast
    next
      case (Some m)
      then have p: "place_base p = Local m" "place_projection p = []"
        by (auto simp: as_local_def split: place_base.splits list.splits)
      then have "(l, c) = (m, MutatingUse Store) \<or> (l, c) \<in> set (super_rvalue rv)"
        using l Assign by (auto simp: super_assign_def super_place_def super_projection_def)
      then show ?thesis
      proof
        assume "(l, c) = (m, MutatingUse Store)"
        then show ?thesis using k(2) Assign Some by simp
      next
        assume "(l, c) \<in> set (super_rvalue rv)"
        then show ?thesis using used rvalue_no_marker rvalue_store by blast
      qed
    qed
  qed (use l used k(2) in \<open>auto dest: place_no_marker operand_no_marker place_store\<close>)
qed

lemma terminator_used:
  assumes "n < length (basic_blocks b)" "terminator (basic_blocks b ! n) = Some t"
    "(l, c) \<in> set (super_terminator_kind (term_kind t))"
  shows "l \<in> used_set full b"
proof -
  let ?loc = "\<lparr>loc_block = n, loc_statement_index = length (statements (basic_blocks b ! n))\<rparr>"
  have "(l, c, ?loc) \<in> set (super_body b)" unfolding body_visits_iff block_visits_iff using assms by auto
  moreover have "\<not> is_storage_marker c" "c \<noteq> MutatingUse Store"
    using assms(3) terminator_no_marker terminator_store by blast+
  ultimately show ?thesis unfolding used_set_def counts_as_use_def by force
qed

lemma res_filter_ok: "(\<And>x. x \<in> set xs \<Longrightarrow> f x = Ok (p x)) \<Longrightarrow> res_filter f xs = Ok (filter p xs)"
  by (induction xs) simp_all

lemma lookup_locals_ok:
  assumes "\<forall>v\<in>set vs. fst v \<in> U" "\<And>l. l \<in> U \<Longrightarrow> l < length lmap \<and> lmap ! l \<noteq> None"
  shows "\<exists>ls. lookup_locals lmap vs = Ok ls"
proof -
  have "(case v of (l, _) \<Rightarrow> res_bind (index_vec lmap l) unwrap) = Ok (new_local_of lmap (fst v))" if "v \<in> set vs" for v
    using assms(1) assms(2) [of "fst v"] that by (auto simp: case_prod_beta)
  then show ?thesis unfolding lookup_locals_def by (intro exI) (rule res_map_ok)
qed

definition kept_block :: "nat set \<Rightarrow> basic_block_data \<Rightarrow> basic_block_data" where
  "kept_block U d = d\<lparr>statements := filter (\<lambda>st. kept U (stmt_kind st)) (statements d)\<rparr>"

lemma keep_statement_ok:
  assumes "\<And>l c. (l, c) \<in> set (super_statement k) \<Longrightarrow> l < length lmap"
    and "\<And>l. l < length lmap \<Longrightarrow> lmap ! l \<noteq> None \<longleftrightarrow> l \<in> U"
  shows "keep_statement lmap k = Ok (kept U k)"
proof (cases k)
  case (Assign p rv)
  show ?thesis
  proof (cases "as_local p")
    case (Some m)
    then have "(m, MutatingUse Store) \<in> set (super_statement k)"
      using Assign by (auto simp: super_assign_def super_place_def as_local_def split: place_base.splits list.splits)
    then show ?thesis using assms(1) assms(2) [of m] Assign Some by (auto simp: is_mapped_def)
  qed (simp add: Assign)
qed (use assms in \<open>auto simp: is_mapped_def\<close>)

lemma update_block_locals_ok:
  assumes lmap: "\<And>l. l < length lmap \<Longrightarrow> lmap ! l \<noteq> None \<longleftrightarrow> l \<in> U" and U: "U \<subseteq> {..<length lmap}"
    and decl: "\<And>st l c. st \<in> set (statements d) \<Longrightarrow> (l, c) \<in> set (super_statement (stmt_kind st)) \<Longrightarrow> l < length lmap"
    and stmts: "\<And>st l c. st \<in> set (statements d) \<Longrightarrow> kept U (stmt_kind st) \<Longrightarrow>
      (l, c) \<in> set (super_statement (stmt_kind st)) \<Longrightarrow> l \<in> U"
    and term_used: "\<And>t l c. terminator d = Some t \<Longrightarrow> (l, c) \<in> set (super_terminator_kind (term_kind t)) \<Longrightarrow> l \<in> U"
  shows "update_block_locals lmap d = Ok (mut_block (new_local_of lmap) (kept_block U d))"
proof -
  let ?r = "new_local_of lmap"
  have some: "l < length lmap \<and> lmap ! l \<noteq> None" if "l \<in> U" for l using that U lmap by blast
  let ?sts = "filter (\<lambda>st. kept U (stmt_kind st)) (statements d)"
  have filter: "res_filter (\<lambda>st. keep_statement lmap (stmt_kind st)) (statements d) = Ok ?sts"
    using decl lmap by (intro res_filter_ok keep_statement_ok) auto
  have "update_statement lmap st = Ok (st\<lparr>stmt_kind := mut_statement ?r (stmt_kind st)\<rparr>)" if st: "st \<in> set ?sts" for st
  proof -
    have "\<forall>v\<in>set (super_statement (stmt_kind st)). fst v \<in> U" using stmts st by auto
    from lookup_locals_ok [OF this some] show ?thesis by (auto simp: update_statement_def)
  qed
  then have sts: "res_map (update_statement lmap) ?sts =
      Ok (map (\<lambda>st. st\<lparr>stmt_kind := mut_statement ?r (stmt_kind st)\<rparr>) ?sts)" by (rule res_map_ok)
  have upd: "update_terminator lmap t = Ok (t\<lparr>term_kind := mut_terminator_kind ?r (term_kind t)\<rparr>)"
    if t: "terminator d = Some t" for t
  proof -
    have "\<forall>v\<in>set (super_terminator_kind (term_kind t)). fst v \<in> U" using term_used [OF t] by auto
    from lookup_locals_ok [OF this some] show ?thesis by (auto simp: update_terminator_def)
  qed
  show ?thesis
    using filter sts upd by (cases "terminator d") (simp_all add: update_block_locals_def mut_block_def kept_block_def)
qed

lemma update_blocks_ok:
  assumes "locals_ok b" and lmap: "length lmap = length (local_decls b)"
    and U: "U = used_set full b" "\<And>l. l < length lmap \<Longrightarrow> lmap ! l \<noteq> None \<longleftrightarrow> l \<in> U"
  shows "res_map (update_block_locals lmap) (basic_blocks b) =
    Ok (map (mut_block (new_local_of lmap) \<circ> kept_block U) (basic_blocks b))"
proof (rule res_map_ok)
  fix d assume "d \<in> set (basic_blocks b)"
  then obtain n where n: "n < length (basic_blocks b)" "d = basic_blocks b ! n" by (auto simp: in_set_conv_nth)
  have declared: "l < length lmap" if "(l, c, loc) \<in> set (super_body b)" for l c loc
    using assms(1) that lmap by (auto simp: locals_ok_def locals_declared_def list_all_iff)
  have "update_block_locals lmap d = Ok (mut_block (new_local_of lmap) (kept_block U d))"
  proof (rule update_block_locals_ok [OF U(2)])
    show "U \<subseteq> {..<length lmap}" using used_set_declared [OF assms(1)] lmap U(1) by simp
    fix st l c assume st: "st \<in> set (statements d)" and l: "(l, c) \<in> set (super_statement (stmt_kind st))"
    then obtain i where i: "i < length (statements d)" "st = statements d ! i" by (auto simp: in_set_conv_nth)
    have "(l, c, \<lparr>loc_block = n, loc_statement_index = i\<rparr>) \<in> set (super_body b)"
      unfolding body_visits_iff block_visits_iff using n i l by auto
    then show "l < length lmap" by (rule declared)
    show "l \<in> U" if "kept U (stmt_kind st)"
      using kept_used [OF n(1), of i _ full] that i l n(2) U(1) by auto
  next
    show "\<And>t l c. terminator d = Some t \<Longrightarrow> (l, c) \<in> set (super_terminator_kind (term_kind t)) \<Longrightarrow> l \<in> U"
      using terminator_used [OF n(1)] n(2) U(1) by blast
  qed
  then show "update_block_locals lmap d = Ok ((mut_block (new_local_of lmap) \<circ> kept_block U) d)" by simp
qed

text \<open>Locals below which nothing is removed keep their numbers.\<close>

lemma places_prefix:
  fixes U :: "nat set"
  assumes "finite U" "\<forall>j<card U. r (sorted_list_of_set U ! j) = j" "{..k} \<subseteq> U" "l \<le> k"
  shows "r l = l"
  using assms(4)
proof (induction l rule: less_induct)
  case (less l)
  note P = sorted_places [OF assms(1,2)]
  have l: "l \<in> U" using less.prems assms(3) by auto
  have "r l \<le> l" using sorted_index_le [of "sorted_list_of_set U" "r l"] P(1) [OF l] assms(1) by simp
  moreover have "\<not> r l < l"
  proof
    assume lt: "r l < l"
    then have "r (r l) = r l" using less.IH less.prems by simp
    moreover have "r l \<in> U" using lt less.prems assms(3) by auto
    ultimately have "r l = l" using inj_onD [OF P(2)] l by blast
    with lt show False by simp
  qed
  ultimately show ?case by simp
qed

lemma kept_declared:
  assumes blocks: "basic_blocks b' = map (mut_block r \<circ> kept_block (used_set full b)) (basic_blocks b)"
    and r: "\<And>l. l \<in> used_set full b \<Longrightarrow> r l < length (local_decls b')"
  shows "locals_declared b'"
  unfolding locals_declared_def list_all_iff
proof
  fix v assume "v \<in> set (super_body b')"
  obtain l c loc where v: "v = (l, c, loc)" by (cases v) auto
  then obtain n where n: "n < length (basic_blocks b)"
    "(l, c, loc) \<in> set (super_basic_block_data n (mut_block r (kept_block (used_set full b) (basic_blocks b ! n))))"
    using \<open>v \<in> _\<close> unfolding body_visits_iff blocks by auto
  let ?d = "basic_blocks b ! n"
  from n(2) consider
    (stmt) st where "st \<in> set (statements ?d)" "kept (used_set full b) (stmt_kind st)"
      "(l, c) \<in> set (super_statement (mut_statement r (stmt_kind st)))"
    | (last) t where "terminator ?d = Some t" "(l, c) \<in> set (super_terminator_kind (mut_terminator_kind r (term_kind t)))"
    unfolding block_visits_iff using nth_mem [of "loc_statement_index loc" "statements (kept_block (used_set full b) ?d)"]
    by (auto simp: mut_block_def kept_block_def)
  then show "fst v < length (local_decls b')"
  proof cases
    case stmt
    then obtain i l0 where "i < length (statements ?d)" "st = statements ?d ! i" "l = r l0"
      "(l0, c) \<in> set (super_statement (stmt_kind st))"
      by (auto simp: super_statement_mut in_set_conv_nth [of st])
    then show ?thesis using kept_used [OF n(1), of i _ full] stmt(2) r v by auto
  next
    case last
    then obtain l0 where "l = r l0" "(l0, c) \<in> set (super_terminator_kind (term_kind t))"
      by (auto simp: super_terminator_kind_mut)
    then show ?thesis using terminator_used [OF n(1) last(1)] r v by auto
  qed
qed

text \<open>(C19) Removing the unused locals of a body whose locals are declared returns, and there is a
  renumbering of the used locals onto the declarations that are left under which every local keeps its
  declaration, and so its type; the return place and the arguments keep their numbers. The blocks are
  the old ones without the storage markers and assignments of unused locals, with their locals
  renumbered, and every local in them is declared.\<close>

theorem simplify_locals_correct:
  assumes "locals_ok b"
  shows "\<exists>b' r. simplify_locals full b = Ok b' \<and> inj_on r (used_set full b) \<and>
    r ` used_set full b = {..<length (local_decls b')} \<and>
    (\<forall>l\<in>used_set full b. local_decls b' ! r l = local_decls b ! l) \<and> (\<forall>l\<le>arg_count b. r l = l) \<and>
    basic_blocks b' = map (mut_block r \<circ> kept_block (used_set full b)) (basic_blocks b) \<and> locals_declared b'"
proof -
  let ?U = "used_set full b"
  let ?is = "sorted_list_of_set ?U"
  from used_locals_ok [OF assms] obtain s where s: "used_locals full b = Ok s" "bs_ok s" "bits s = ?U"
    "domain_size s = length (local_decls b)" by blast
  note U = used_set_declared [OF assms, of full]
  have fin: "finite ?U" using U finite_subset by blast
  have "length (local_decls b) < 2 ^ 32" using assms by (simp add: locals_ok_def)
  from make_local_map_ok [OF s(2,4) this s(3) U] obtain lmap where
    m: "make_local_map (local_decls b) s = Ok (map ((!) (local_decls b)) ?is, lmap)"
      "length lmap = length (local_decls b)" "\<forall>j<card ?U. lmap ! (?is ! j) = Some j"
      "\<forall>l<length (local_decls b). l \<notin> ?U \<longrightarrow> lmap ! l = None" by blast
  let ?r = "new_local_of lmap"
  have r: "\<forall>j<card ?U. ?r (?is ! j) = j" using m(3) by simp
  note P = sorted_places [OF fin r]
  have "lmap ! l \<noteq> None \<longleftrightarrow> l \<in> ?U" if "l < length lmap" for l
  proof
    assume "l \<in> ?U"
    then show "lmap ! l \<noteq> None" using P(1) m(3) by (metis option.distinct(1))
  qed (use m(2,4) that in auto)
  from update_blocks_ok [OF assms m(2) refl this] have bs:
    "res_map (update_block_locals lmap) (basic_blocks b) = Ok (map (mut_block ?r \<circ> kept_block ?U) (basic_blocks b))" .
  let ?b = "b\<lparr>local_decls := map ((!) (local_decls b)) ?is,
    basic_blocks := map (mut_block ?r \<circ> kept_block ?U) (basic_blocks b)\<rparr>"
  have "simplify_locals full b = Ok ?b" using s(1) m(1) bs by (simp add: simplify_locals_def)
  moreover have "\<forall>l\<in>?U. local_decls ?b ! ?r l = local_decls b ! l" using P(1) by simp
  moreover have "{..arg_count b} \<subseteq> ?U" by (auto simp: used_set_def)
  then have "\<forall>l\<le>arg_count b. ?r l = l" using places_prefix [OF fin r] by blast
  moreover have "locals_declared ?b" 
  proof (rule kept_declared)
    show "basic_blocks ?b = map (mut_block ?r \<circ> kept_block ?U) (basic_blocks b)" by simp
    show "?r l < length (local_decls ?b)" if "l \<in> ?U" for l using P(1) [OF that] by simp
  qed
  ultimately show ?thesis using P(2,3) by (intro exI [of _ ?b] exI [of _ ?r]) simp
qed

section \<open>An example\<close>

text \<open>Local 2 is only assigned a constant.\<close>

definition unused_local :: body where
  "unused_local =
     (body_of_blocks [\<lparr>statements = [
         \<lparr>stmt_source_info = sample_info 0, stmt_kind = StorageLive 2\<rparr>,
         \<lparr>stmt_source_info = sample_info 0, stmt_kind = Assign (place_from_local 2)
            (Use (Constant \<lparr>const_span = 0, const_user_ty = None,
              const_literal = \<lparr>lit_ty = Bool_ty, lit_val = Other_val 1\<rparr>\<rparr>))\<rparr>,
         \<lparr>stmt_source_info = sample_info 0, stmt_kind = Assign (place_from_local 3) (Use (Copy (place_from_local 1)))\<rparr>],
       terminator = Some \<lparr>term_source_info = sample_info 0, term_kind = Return\<rparr>, is_cleanup = False\<rparr>])
     \<lparr>local_decls := [ld_new_temp Bool_ty 0, ld_new_temp Bool_ty 1, ld_new_temp Char_ty 2, ld_new_temp Bool_ty 3],
      arg_count := 1\<rparr>"

theorem simplify_locals_correct_witness:
  "locals_ok unused_local \<and>
   (\<exists>b' r. simplify_locals False unused_local = Ok b' \<and> inj_on r (used_set False unused_local) \<and>
      r ` used_set False unused_local = {..<length (local_decls b')} \<and> r 1 = 1 \<and> locals_declared b')"
proof -
  have "locals_declared unused_local" "arg_count unused_local = 1" "length (local_decls unused_local) = 4" by code_simp+
  then have ok: "locals_ok unused_local" "1 \<le> arg_count unused_local" by (simp_all add: locals_ok_def)
  then show ?thesis using simplify_locals_correct [OF ok(1), of False] by blast
qed

end
