(* ===== verification/Syntax_Trees.thy ===== *)
theory Syntax_Trees
  imports Prelude
begin

text \<open>
  The trees before and after lowering: the syntax tree of \<open>libsyntax/ast.rs\<close> and the HIR of
  \<open>librustc/hir/mod.rs\<close>, restricted to expressions, statements, blocks and patterns without types,
  items, closures and generic arguments. The trees are nested through types that have the
  expressions as a parameter, so each \<open>struct\<close> and \<open>enum\<close> of the source is a type of its own. The
  constructors of the two trees have the same names; those of the HIR are written with their type,
  as the source writes them with the module. Of a span its two ends are kept.
\<close>

section \<open>Spans, names and operators\<close>

record span =
  lo :: nat
  hi :: nat

definition DUMMY_SP :: span where
  "DUMMY_SP = \<lparr>lo = 0, hi = 0\<rparr>"

definition span_contains :: "span \<Rightarrow> span \<Rightarrow> bool" where
  "span_contains sp other \<longleftrightarrow> lo sp \<le> lo other \<and> hi other \<le> hi sp"

record ident =
  ident_name :: nat
  ident_span :: span

record label =
  label_ident :: ident

type_synonym attribute = nat
type_synonym node_id = nat

datatype lit_kind = Str_lit nat | ByteStr_lit "nat list" | Byte_lit nat | Char_lit nat | Int_lit nat nat
  | Float_lit nat nat | FloatUnsuffixed_lit nat | Bool_lit bool | Err_lit nat

record lit =
  lit_kind :: lit_kind
  lit_span :: span

definition MAX_INDEX :: nat where
  "MAX_INDEX = 0xFFFFFF00"

definition DUMMY_NODE_ID :: node_id where
  "DUMMY_NODE_ID = MAX_INDEX"

section \<open>The HIR\<close>

record hir_id =
  owner :: nat
  local_id :: nat

definition DUMMY_HIR_ID :: hir_id where
  "DUMMY_HIR_ID = \<lparr>owner = 0, local_id = MAX_INDEX\<rparr>"

text \<open>The resolutions of a path to a value that has no lifetime parameters.\<close>

datatype def_kind = Fn_def | Const_def | Static_def

datatype 'id resolution = Def_res def_kind nat | Local_res 'id | Err_res

datatype hir_mutability = MutMutable | MutImmutable

datatype hir_bin_op_kind = Add | Sub | Mul | Div | Rem | And | Or | BitXor | BitAnd | BitOr | Shl | Shr
  | Eq | Lt | Le | Ne | Ge | Gt

record hir_bin_op =
  hir_binop_node :: hir_bin_op_kind
  hir_binop_span :: span

datatype hir_un_op = UnDeref | UnNot | UnNeg

datatype hir_unsafe_source = CompilerGenerated | UserProvided

datatype hir_block_check_mode = DefaultBlock | UnsafeBlock hir_unsafe_source

datatype binding_annotation = Unannotated | Mutable | Ref | RefMut

datatype hir_range_end = Included | Excluded

datatype local_source = Normal | ForLoopDesugar | AsyncFn | AwaitDesugar

datatype match_source = NormalMatch | IfDesugar bool | IfLetDesugar bool | WhileDesugar | WhileLetDesugar

datatype loop_source = LoopLoop | WhileLoop | WhileLetLoop | ForLoopLoop

datatype loop_id_error = OutsideLoopScope | UnlabeledCfInWhileCondition | UnresolvedLabel

record destination =
  dest_label :: "label option"
  target_id :: "loop_id_error + hir_id"

record hir_path_segment =
  seg_ident :: ident
  seg_hir_id :: "hir_id option"
  seg_res :: "hir_id resolution option"
  infer_args :: bool

record hir_path =
  path_span :: span
  path_res :: "hir_id resolution"
  path_segments :: "hir_path_segment list"

datatype ('e, 'p) hir_pat_kind =
    Wild
  | Binding binding_annotation hir_id ident "'p option"
  | Or "'p list"
  | Path hir_path
  | Tuple "'p list" "nat option"
  | Box 'p
  | Ref 'p hir_mutability
  | Lit 'e
  | Range 'e 'e hir_range_end
  | Slice "'p list" "'p option" "'p list"

datatype 'e hir_pat = Pat (hpat_id: hir_id) (hpat_kind: "('e, 'e hir_pat) hir_pat_kind") (hpat_span: span)

datatype 'e hir_local = Local (hlocal_id: hir_id) (hlocal_pat: "'e hir_pat") (hlocal_init: "'e option")
  (hlocal_span: span) (hlocal_attrs: "attribute list") (hlocal_source: local_source)

datatype 'e hir_stmt_kind = Local "'e hir_local" | Expr 'e | Semi 'e

datatype 'e hir_stmt = Stmt (hstmt_id: hir_id) (hstmt_kind: "'e hir_stmt_kind") (hstmt_span: span)

datatype 'e hir_block = Block (hblock_id: hir_id) (hblock_stmts: "'e hir_stmt list") (hblock_expr: "'e option")
  (hblock_rules: hir_block_check_mode) (hblock_span: span) (targeted_by_break: bool)

datatype 'e hir_arm = Arm (harm_id: hir_id) (harm_attrs: "attribute list") (harm_pat: "'e hir_pat")
  (harm_guard: "'e option") (harm_body: 'e) (harm_span: span)

datatype 'e hir_expr_kind =
    Box 'e
  | Array "'e list"
  | Call 'e "'e list"
  | Tup "'e list"
  | Binary hir_bin_op 'e 'e
  | Unary hir_un_op 'e
  | Lit lit
  | DropTemps 'e
  | Loop "'e hir_block" "label option" loop_source
  | Match 'e "'e hir_arm list" match_source
  | Block "'e hir_block" "label option"
  | Assign 'e 'e
  | AssignOp hir_bin_op 'e 'e
  | Field 'e ident
  | Index 'e 'e
  | Path hir_path
  | AddrOf hir_mutability 'e
  | Break destination "'e option"
  | Continue destination
  | Ret "'e option"
  | Lock
  | Unlock
  | Err

datatype hir_expr = Expr (hexpr_id: hir_id) (hexpr_kind: "hir_expr hir_expr_kind") (hexpr_span: span)
  (hexpr_attrs: "attribute list")

section \<open>The syntax tree\<close>

datatype ast_mutability = Mutable | Immutable

datatype ast_bin_op_kind = Add | Sub | Mul | Div | Rem | And | Or | BitXor | BitAnd | BitOr | Shl | Shr
  | Eq | Lt | Le | Ne | Ge | Gt

record ast_bin_op =
  binop_node :: ast_bin_op_kind
  binop_span :: span

datatype ast_un_op = Deref | Not_op | Neg

datatype ast_unsafe_source = CompilerGenerated | UserProvided

datatype ast_block_check_mode = Default | Unsafe ast_unsafe_source

datatype binding_mode = ByRef ast_mutability | ByValue ast_mutability

datatype range_syntax = DotDotDot | DotDotEq

datatype ast_range_end = Included range_syntax | Excluded

record ast_path_segment =
  segment_ident :: ident
  segment_id :: node_id

record ast_path =
  ast_path_span :: span
  segments :: "ast_path_segment list"

datatype ('e, 'p) ast_pat_kind =
    Wild
  | Ident binding_mode ident "'p option"
  | Or "'p list"
  | Tuple "'p list"
  | Box 'p
  | Ref 'p ast_mutability
  | Lit 'e
  | Range 'e 'e ast_range_end
  | Slice "'p list"
  | Rest
  | Paren 'p
  | Mac

datatype 'e ast_pat = Pat (pat_id: node_id) (pat_kind: "('e, 'e ast_pat) ast_pat_kind") (pat_span: span)

datatype 'e ast_local = Local (alocal_id: node_id) (alocal_pat: "'e ast_pat") (alocal_init: "'e option")
  (alocal_span: span) (alocal_attrs: "attribute list")

datatype 'e ast_stmt_kind = Local "'e ast_local" | Expr 'e | Semi 'e | Mac

datatype 'e ast_stmt = Stmt (astmt_id: node_id) (astmt_kind: "'e ast_stmt_kind") (astmt_span: span)

datatype 'e ast_block = Block (ablock_stmts: "'e ast_stmt list") (ablock_id: node_id)
  (ablock_rules: ast_block_check_mode) (ablock_span: span)

datatype 'e ast_arm = Arm (aarm_attrs: "attribute list") (aarm_pat: "'e ast_pat") (aarm_guard: "'e option")
  (aarm_body: 'e) (aarm_span: span)

datatype 'e ast_expr_kind =
    Box 'e
  | Array "'e list"
  | Call 'e "'e list"
  | Tup "'e list"
  | Binary ast_bin_op 'e 'e
  | Unary ast_un_op 'e
  | Lit lit
  | Let_expr "'e ast_pat" 'e
  | If_expr 'e "'e ast_block" "'e option"
  | While 'e "'e ast_block" "label option"
  | Loop "'e ast_block" "label option"
  | Match 'e "'e ast_arm list"
  | Block "'e ast_block" "label option"
  | TransactionBlock "'e ast_block"
  | Assign 'e 'e
  | AssignOp ast_bin_op 'e 'e
  | Field 'e ident
  | Index 'e 'e
  | Path ast_path
  | AddrOf ast_mutability 'e
  | Break "label option" "'e option"
  | Continue "label option"
  | Ret "'e option"
  | Mac
  | Paren 'e
  | Lock
  | Unlock
  | Err

datatype ast_expr = Expr (expr_id: node_id) (expr_kind: "ast_expr ast_expr_kind") (expr_span: span)
  (expr_attrs: "attribute list")

definition is_rest :: "'e ast_pat \<Rightarrow> bool" where
  "is_rest p \<longleftrightarrow> (case pat_kind p of Rest \<Rightarrow> True | _ \<Rightarrow> False)"

section \<open>Subexpressions\<close>

text \<open>The expressions directly below an expression, through its blocks, arms and patterns.\<close>

definition sub_expr :: "(ast_expr \<times> ast_expr) set" where
  "sub_expr = {(x, e). x \<in> set_ast_expr_kind (expr_kind e)}"

lemma wf_sub_expr: "wf sub_expr"
proof (rule wfUNIVI)
  fix P :: "ast_expr \<Rightarrow> bool" and e
  assume step: "\<forall>e. (\<forall>x. (x, e) \<in> sub_expr \<longrightarrow> P x) \<longrightarrow> P e"
  show "P e" by (induction e) (use step in \<open>simp add: sub_expr_def\<close>)
qed

definition hir_sub_expr :: "(hir_expr \<times> hir_expr) set" where
  "hir_sub_expr = {(x, e). x \<in> set_hir_expr_kind (hexpr_kind e)}"

lemma wf_hir_sub_expr: "wf hir_sub_expr"
proof (rule wfUNIVI)
  fix P :: "hir_expr \<Rightarrow> bool" and e
  assume step: "\<forall>e. (\<forall>x. (x, e) \<in> hir_sub_expr \<longrightarrow> P x) \<longrightarrow> P e"
  show "P e" by (induction e) (use step in \<open>simp add: hir_sub_expr_def\<close>)
qed

end
