(* ===== verification/Lowering.thy ===== *)
theory Lowering
  imports Syntax_Trees
begin

text \<open>
  Lowering of expressions, statements, blocks and patterns to HIR (\<open>librustc/hir/lowering.rs\<close> and
  \<open>lowering/expr.rs\<close>), with the lowering of transaction blocks: \<open>transaction { ... }\<close> becomes a block
  of three statements, the lock, the block itself and the unlock. The state of the lowering
  context is threaded through every operation. Functions that call \<open>lower_expr\<close> have it as their
  first argument \<open>le\<close>; the recursion is closed in \<open>lower_expr\<close>.

  Desugaring marks on spans (\<open>mark_span_with_reason\<close>) change the syntax context of a span and leave
  its two ends, which are the part of a span kept here. Of the context the fields are kept that the
  numbering of nodes, loops and diagnostics use; debug assertions are left out. The resolver is a
  trait object in the source and an argument here; its answers are the full resolutions of a path.
\<close>

section \<open>The context\<close>

datatype diagnostic = ExtraRestPat span span string | IllegalRestPat span | LetNotSupported span

record lctx =
  next_node_id :: node_id
  node_id_to_hir_id :: "hir_id list"
  current_hir_id_owner :: "(nat \<times> nat) list"
  item_local_id_counters :: "node_id \<Rightarrow> nat option"
  loop_scopes :: "node_id list"
  is_in_loop_condition :: bool
  emitted :: "diagnostic list"

record resolver =
  get_partial_res :: "node_id \<Rightarrow> node_id resolution option"
  get_label_res :: "node_id \<Rightarrow> node_id option"
  opt_def_index :: "node_id \<Rightarrow> nat option"

type_synonym 'a lower = "lctx \<Rightarrow> ('a \<times> lctx) res"

definition lower_return :: "'a \<Rightarrow> 'a lower" where
  "lower_return x c = Ok (x, c)"

definition lower_bind :: "'a lower \<Rightarrow> ('a \<Rightarrow> 'b lower) \<Rightarrow> 'b lower" where
  "lower_bind m f c = res_bind (m c) (\<lambda>(x, c'). f x c')"

definition lower_panic :: "panic \<Rightarrow> 'a lower" where
  "lower_panic p c = Panic p"

definition lower_emit :: "diagnostic \<Rightarrow> unit lower" where
  "lower_emit d c = Ok ((), c\<lparr>emitted := emitted c @ [d]\<rparr>)"

text \<open>\<open>iter().map(..).collect()\<close> and \<open>as_ref().map(..)\<close> with a function that changes the context.\<close>

fun lower_map :: "('a \<Rightarrow> 'b lower) \<Rightarrow> 'a list \<Rightarrow> 'b list lower" where
  "lower_map f [] = lower_return []"
| "lower_map f (x # xs) = lower_bind (f x) (\<lambda>y. lower_bind (lower_map f xs) (\<lambda>ys. lower_return (y # ys)))"

fun lower_opt :: "('a \<Rightarrow> 'b lower) \<Rightarrow> 'a option \<Rightarrow> 'b option lower" where
  "lower_opt f None = lower_return None"
| "lower_opt f (Some x) = lower_bind (f x) (\<lambda>y. lower_return (Some y))"

lemma lower_map_cong [fundef_cong]:
  "xs = ys \<Longrightarrow> (\<And>x. x \<in> set ys \<Longrightarrow> f x = g x) \<Longrightarrow> lower_map f xs = lower_map g ys"
proof (induction ys arbitrary: xs)
  case (Cons y ys)
  have "lower_map f ys = lower_map g ys" by (rule Cons.IH) (simp_all add: Cons.prems)
  with Cons.prems show ?case by simp
qed simp

lemma lower_opt_cong [fundef_cong]:
  "x = y \<Longrightarrow> (\<And>z. z \<in> set_option y \<Longrightarrow> f z = g z) \<Longrightarrow> lower_opt f x = lower_opt g y"
  by (cases y) simp_all

section \<open>Node numbers\<close>

definition sess_next_node_id :: "node_id lower" where
  "sess_next_node_id c =
     (let i = next_node_id c in
      res_bind (assert_that (i + 1 \<le> MAX_INDEX)) (\<lambda>_. Ok (i, c\<lparr>next_node_id := i + 1\<rparr>)))"

definition lower_node_id_generic :: "hir_id lower \<Rightarrow> node_id \<Rightarrow> hir_id lower" where
  "lower_node_id_generic alloc_hir_id i c =
     (if i = DUMMY_NODE_ID then Ok (DUMMY_HIR_ID, c)
      else
        let tab = node_id_to_hir_id c;
            min_size = i + 1;
            tab = (if min_size > length tab then tab @ replicate (min_size - length tab) DUMMY_HIR_ID else tab);
            c = c\<lparr>node_id_to_hir_id := tab\<rparr>;
            existing_hir_id = tab ! i
        in if existing_hir_id = DUMMY_HIR_ID
           then lower_bind alloc_hir_id
                  (\<lambda>h c. Ok (h, c\<lparr>node_id_to_hir_id := (node_id_to_hir_id c)[i := h]\<rparr>)) c
           else Ok (existing_hir_id, c))"

definition alloc_local :: "hir_id lower" where
  "alloc_local c =
     (if current_hir_id_owner c = [] then Panic Unwrap_None
      else let (def_index, k) = last (current_hir_id_owner c);
               c = c\<lparr>current_hir_id_owner := butlast (current_hir_id_owner c) @ [(def_index, k + 1)]\<rparr>
           in res_bind (assert_that (k \<le> MAX_INDEX)) (\<lambda>_. Ok (\<lparr>owner = def_index, local_id = k\<rparr>, c)))"

definition lower_node_id :: "node_id \<Rightarrow> hir_id lower" where
  "lower_node_id = lower_node_id_generic alloc_local"

definition alloc_with_owner :: "resolver \<Rightarrow> node_id \<Rightarrow> hir_id lower" where
  "alloc_with_owner r ow c =
     (case item_local_id_counters c ow of
        None \<Rightarrow> Panic Unwrap_None
      | Some k \<Rightarrow>
          (case opt_def_index r ow of
             None \<Rightarrow> Panic Unwrap_None
           | Some d \<Rightarrow> res_bind (assert_that (k \<le> MAX_INDEX)) (\<lambda>_.
               Ok (\<lparr>owner = d, local_id = k\<rparr>,
                   c\<lparr>item_local_id_counters := (item_local_id_counters c)(ow \<mapsto> k + 1)\<rparr>))))"

definition lower_node_id_with_owner :: "resolver \<Rightarrow> node_id \<Rightarrow> node_id \<Rightarrow> hir_id lower" where
  "lower_node_id_with_owner r i ow = lower_node_id_generic (alloc_with_owner r ow) i"

definition allocate_hir_id_counter :: "resolver \<Rightarrow> node_id \<Rightarrow> hir_id lower" where
  "allocate_hir_id_counter r ow c =
     (let k = (case item_local_id_counters c ow of None \<Rightarrow> 0 | Some k \<Rightarrow> k)
      in lower_node_id_with_owner r ow ow
           (c\<lparr>item_local_id_counters := (item_local_id_counters c)(ow \<mapsto> k)\<rparr>))"

definition HIR_ID_COUNTER_LOCKED :: nat where
  "HIR_ID_COUNTER_LOCKED = 0xFFFFFFFF"

definition with_hir_id_owner :: "resolver \<Rightarrow> node_id \<Rightarrow> 'a lower \<Rightarrow> 'a lower" where
  "with_hir_id_owner r ow f c =
     (case item_local_id_counters c ow of
        None \<Rightarrow> Panic (Explicit_Panic ''no item_local_id_counters entry'')
      | Some counter \<Rightarrow>
          res_bind (unwrap (opt_def_index r ow)) (\<lambda>def_index.
          res_bind (f (c\<lparr>item_local_id_counters := (item_local_id_counters c)(ow \<mapsto> HIR_ID_COUNTER_LOCKED),
                         current_hir_id_owner := current_hir_id_owner c @ [(def_index, counter)]\<rparr>))
            (\<lambda>(ret, c). if current_hir_id_owner c = [] then Panic Unwrap_None
              else let new_counter = snd (last (current_hir_id_owner c))
                   in res_bind (unwrap (item_local_id_counters c ow)) (\<lambda>prev.
                      Ok (ret, c\<lparr>item_local_id_counters := (item_local_id_counters c)(ow \<mapsto> new_counter),
                                 current_hir_id_owner := butlast (current_hir_id_owner c)\<rparr>)))))"

definition next_id :: "hir_id lower" where
  "next_id = lower_bind sess_next_node_id lower_node_id"

fun lower_res :: "node_id resolution \<Rightarrow> hir_id resolution lower" where
  "lower_res (Local_res i) =
     lower_bind (lower_node_id_generic (lower_panic (Explicit_Panic ''expected NodeId to be lowered already'')) i)
       (\<lambda>h. lower_return (Local_res h))"
| "lower_res (Def_res k d) = lower_return (Def_res k d)"
| "lower_res Err_res = lower_return Err_res"

definition expect_full_res :: "resolver \<Rightarrow> node_id \<Rightarrow> node_id resolution" where
  "expect_full_res r i = (case get_partial_res r i of None \<Rightarrow> Err_res | Some pr \<Rightarrow> pr)"

section \<open>Paths and labels\<close>

definition lower_path_segment :: "resolver \<Rightarrow> ast_path_segment \<Rightarrow> hir_path_segment lower" where
  "lower_path_segment r segment =
     (let res = expect_full_res r (segment_id segment)
      in lower_bind (lower_node_id (segment_id segment)) (\<lambda>i.
         lower_bind (lower_res res) (\<lambda>res.
         lower_return \<lparr>seg_ident = segment_ident segment, seg_hir_id = Some i, seg_res = Some res, infer_args = True\<rparr>)))"

definition lower_qpath :: "resolver \<Rightarrow> node_id \<Rightarrow> ast_path \<Rightarrow> hir_path lower" where
  "lower_qpath r i p =
     (let partial_res = (case get_partial_res r i of None \<Rightarrow> Err_res | Some pr \<Rightarrow> pr)
      in lower_bind (lower_res partial_res) (\<lambda>res.
         lower_bind (lower_map (lower_path_segment r) (segments p)) (\<lambda>segs.
         lower_return \<lparr>path_span = ast_path_span p, path_res = res, path_segments = segs\<rparr>)))"

definition segment_from_ident :: "ident \<Rightarrow> hir_path_segment" where
  "segment_from_ident x = \<lparr>seg_ident = x, seg_hir_id = None, seg_res = None, infer_args = True\<rparr>"

definition lower_label :: "label option \<Rightarrow> label option" where
  "lower_label l = map_option (\<lambda>l. \<lparr>label_ident = label_ident l\<rparr>) l"

definition lower_loop_destination :: "resolver \<Rightarrow> (node_id \<times> label) option \<Rightarrow> destination lower" where
  "lower_loop_destination r dest =
     lower_bind
       (case dest of
          Some (i, _) \<Rightarrow>
            (case get_label_res r i of
               Some loop_id \<Rightarrow> lower_bind (lower_node_id loop_id) (\<lambda>h. lower_return (Inr h))
             | None \<Rightarrow> lower_return (Inl UnresolvedLabel))
        | None \<Rightarrow> (\<lambda>c. if loop_scopes c = [] then Ok (Inl OutsideLoopScope, c)
                       else lower_bind (lower_node_id (last (loop_scopes c))) (\<lambda>h. lower_return (Inr h)) c))
       (\<lambda>target. lower_return \<lparr>dest_label = lower_label (map_option snd dest), target_id = target\<rparr>)"

definition lower_jump_destination :: "resolver \<Rightarrow> node_id \<Rightarrow> label option \<Rightarrow> destination lower" where
  "lower_jump_destination r i opt_label c =
     (if is_in_loop_condition c \<and> opt_label = None
      then Ok (\<lparr>dest_label = None, target_id = Inl UnlabeledCfInWhileCondition\<rparr>, c)
      else lower_loop_destination r (map_option (\<lambda>l. (i, l)) opt_label) c)"

definition with_loop_scope :: "node_id \<Rightarrow> 'a lower \<Rightarrow> 'a lower" where
  "with_loop_scope loop_id f c =
     (let was_in_loop_condition = is_in_loop_condition c; len = length (loop_scopes c)
      in res_bind (f (c\<lparr>is_in_loop_condition := False, loop_scopes := loop_scopes c @ [loop_id]\<rparr>)) (\<lambda>(result, c).
         res_bind (assert_that (len + 1 = length (loop_scopes c))) (\<lambda>_.
         Ok (result, c\<lparr>loop_scopes := butlast (loop_scopes c), is_in_loop_condition := was_in_loop_condition\<rparr>))))"

definition with_loop_condition_scope :: "'a lower \<Rightarrow> 'a lower" where
  "with_loop_condition_scope f c =
     (let was_in_loop_condition = is_in_loop_condition c
      in res_bind (f (c\<lparr>is_in_loop_condition := True\<rparr>)) (\<lambda>(result, c).
         Ok (result, c\<lparr>is_in_loop_condition := was_in_loop_condition\<rparr>)))"

section \<open>Operators and modes\<close>

fun lower_mutability :: "ast_mutability \<Rightarrow> hir_mutability" where
  "lower_mutability Mutable = MutMutable"
| "lower_mutability Immutable = MutImmutable"

fun lower_binop_kind :: "ast_bin_op_kind \<Rightarrow> hir_bin_op_kind" where
  "lower_binop_kind Add = hir_bin_op_kind.Add"
| "lower_binop_kind Sub = hir_bin_op_kind.Sub"
| "lower_binop_kind Mul = hir_bin_op_kind.Mul"
| "lower_binop_kind Div = hir_bin_op_kind.Div"
| "lower_binop_kind Rem = hir_bin_op_kind.Rem"
| "lower_binop_kind And = hir_bin_op_kind.And"
| "lower_binop_kind ast_bin_op_kind.Or = hir_bin_op_kind.Or"
| "lower_binop_kind BitXor = hir_bin_op_kind.BitXor"
| "lower_binop_kind BitAnd = hir_bin_op_kind.BitAnd"
| "lower_binop_kind BitOr = hir_bin_op_kind.BitOr"
| "lower_binop_kind Shl = hir_bin_op_kind.Shl"
| "lower_binop_kind Shr = hir_bin_op_kind.Shr"
| "lower_binop_kind Eq = hir_bin_op_kind.Eq"
| "lower_binop_kind Lt = hir_bin_op_kind.Lt"
| "lower_binop_kind Le = hir_bin_op_kind.Le"
| "lower_binop_kind Ne = hir_bin_op_kind.Ne"
| "lower_binop_kind Ge = hir_bin_op_kind.Ge"
| "lower_binop_kind Gt = hir_bin_op_kind.Gt"

definition lower_binop :: "ast_bin_op \<Rightarrow> hir_bin_op" where
  "lower_binop b = \<lparr>hir_binop_node = lower_binop_kind (binop_node b), hir_binop_span = binop_span b\<rparr>"

fun lower_unop :: "ast_un_op \<Rightarrow> hir_un_op" where
  "lower_unop Deref = UnDeref"
| "lower_unop Not_op = UnNot"
| "lower_unop Neg = UnNeg"

fun lower_unsafe_source :: "ast_unsafe_source \<Rightarrow> hir_unsafe_source" where
  "lower_unsafe_source CompilerGenerated = hir_unsafe_source.CompilerGenerated"
| "lower_unsafe_source UserProvided = hir_unsafe_source.UserProvided"

fun lower_block_check_mode :: "ast_block_check_mode \<Rightarrow> hir_block_check_mode" where
  "lower_block_check_mode Default = DefaultBlock"
| "lower_block_check_mode (Unsafe u) = UnsafeBlock (lower_unsafe_source u)"

fun lower_binding_mode :: "binding_mode \<Rightarrow> binding_annotation" where
  "lower_binding_mode (ByValue Immutable) = Unannotated"
| "lower_binding_mode (ByRef Immutable) = binding_annotation.Ref"
| "lower_binding_mode (ByValue Mutable) = binding_annotation.Mutable"
| "lower_binding_mode (ByRef Mutable) = RefMut"

fun lower_range_end :: "ast_range_end \<Rightarrow> hir_range_end" where
  "lower_range_end (Included _) = hir_range_end.Included"
| "lower_range_end Excluded = hir_range_end.Excluded"

section \<open>Building HIR\<close>

definition mk_expr :: "span \<Rightarrow> hir_expr hir_expr_kind \<Rightarrow> attribute list \<Rightarrow> hir_expr lower" where
  "mk_expr sp kind attrs = lower_bind next_id (\<lambda>i. lower_return (hir_expr.Expr i kind sp attrs))"

definition expr_bool :: "span \<Rightarrow> bool \<Rightarrow> hir_expr lower" where
  "expr_bool sp val = mk_expr sp (hir_expr_kind.Lit \<lparr>lit_kind = Bool_lit val, lit_span = sp\<rparr>) []"

definition expr_drop_temps :: "span \<Rightarrow> hir_expr \<Rightarrow> attribute list \<Rightarrow> hir_expr lower" where
  "expr_drop_temps sp e attrs = mk_expr sp (DropTemps e) attrs"

definition expr_match :: "span \<Rightarrow> hir_expr \<Rightarrow> hir_expr hir_arm list \<Rightarrow> match_source \<Rightarrow> hir_expr lower" where
  "expr_match sp arg arms source = mk_expr sp (hir_expr_kind.Match arg arms source) []"

definition expr_break :: "resolver \<Rightarrow> span \<Rightarrow> attribute list \<Rightarrow> hir_expr lower" where
  "expr_break r sp attrs =
     lower_bind (lower_loop_destination r None) (\<lambda>d. mk_expr sp (hir_expr_kind.Break d None) attrs)"

definition block_all :: "span \<Rightarrow> hir_expr hir_stmt list \<Rightarrow> hir_expr option \<Rightarrow> hir_expr hir_block lower" where
  "block_all sp stmts e =
     lower_bind next_id (\<lambda>i. lower_return (hir_block.Block i stmts e DefaultBlock sp False))"

definition block_expr :: "hir_expr \<Rightarrow> hir_expr hir_block lower" where
  "block_expr e = block_all (hexpr_span e) [] (Some e)"

definition expr_block :: "hir_expr hir_block \<Rightarrow> attribute list \<Rightarrow> hir_expr lower" where
  "expr_block b attrs = mk_expr (hblock_span b) (hir_expr_kind.Block b None) attrs"

definition expr_block_empty :: "span \<Rightarrow> hir_expr lower" where
  "expr_block_empty sp = lower_bind (block_all sp [] None) (\<lambda>blk. expr_block blk [])"

definition mk_arm :: "hir_expr hir_pat \<Rightarrow> hir_expr \<Rightarrow> hir_expr hir_arm lower" where
  "mk_arm p e = lower_bind next_id (\<lambda>i. lower_return (hir_arm.Arm i [] p None e (hexpr_span e)))"

definition mk_stmt :: "span \<Rightarrow> hir_expr hir_stmt_kind \<Rightarrow> hir_expr hir_stmt lower" where
  "mk_stmt sp kind = lower_bind next_id (\<lambda>i. lower_return (hir_stmt.Stmt i kind sp))"

definition stmt_expr :: "span \<Rightarrow> hir_expr \<Rightarrow> hir_expr hir_stmt lower" where
  "stmt_expr sp e = mk_stmt sp (hir_stmt_kind.Expr e)"

definition mk_pat :: "span \<Rightarrow> (hir_expr, hir_expr hir_pat) hir_pat_kind \<Rightarrow> hir_expr hir_pat lower" where
  "mk_pat sp kind = lower_bind next_id (\<lambda>i. lower_return (hir_pat.Pat i kind sp))"

definition pat_wild :: "span \<Rightarrow> hir_expr hir_pat lower" where
  "pat_wild sp = mk_pat sp hir_pat_kind.Wild"

definition pat_bool :: "span \<Rightarrow> bool \<Rightarrow> hir_expr hir_pat lower" where
  "pat_bool sp val = lower_bind (expr_bool sp val) (\<lambda>e. mk_pat sp (hir_pat_kind.Lit e))"

section \<open>Patterns\<close>

definition pat_with_node_id_of ::
  "ast_expr ast_pat \<Rightarrow> (hir_expr, hir_expr hir_pat) hir_pat_kind \<Rightarrow> hir_expr hir_pat lower" where
  "pat_with_node_id_of p kind =
     lower_bind (lower_node_id (pat_id p)) (\<lambda>i. lower_return (hir_pat.Pat i kind (pat_span p)))"

definition pat_wild_with_node_id_of :: "ast_expr ast_pat \<Rightarrow> hir_expr hir_pat lower" where
  "pat_wild_with_node_id_of p = pat_with_node_id_of p hir_pat_kind.Wild"

definition ban_extra_rest_pat :: "span \<Rightarrow> span \<Rightarrow> string \<Rightarrow> unit lower" where
  "ban_extra_rest_pat sp prev_sp ctx = lower_emit (ExtraRestPat sp prev_sp ctx)"

definition ban_illegal_rest_pat :: "span \<Rightarrow> (hir_expr, hir_expr hir_pat) hir_pat_kind lower" where
  "ban_illegal_rest_pat sp = lower_bind (lower_emit (IllegalRestPat sp)) (\<lambda>_. lower_return hir_pat_kind.Wild)"

definition lower_pat_ident ::
  "resolver \<Rightarrow> node_id \<Rightarrow> binding_mode \<Rightarrow> ident \<Rightarrow> hir_expr hir_pat option lower
     \<Rightarrow> (hir_expr, hir_expr hir_pat) hir_pat_kind lower" where
  "lower_pat_ident r i bm x lower_sub =
     (let binding = (\<lambda>canonical_id.
            lower_bind (lower_node_id canonical_id) (\<lambda>h.
            lower_bind lower_sub (\<lambda>sub. lower_return (Binding (lower_binding_mode bm) h x sub))))
      in case get_partial_res r i of
           None \<Rightarrow> binding i
         | Some (Local_res j) \<Rightarrow> binding j
         | Some res \<Rightarrow> lower_bind (lower_res res) (\<lambda>res. lower_return
             (hir_pat_kind.Path \<lparr>path_span = ident_span x, path_res = res, path_segments = [segment_from_ident x]\<rparr>)))"

text \<open>The two loops over a tuple pattern: up to the first \<open>..\<close> and behind it.\<close>

fun lower_pat_tuple_after ::
  "(ast_expr ast_pat \<Rightarrow> hir_expr hir_pat lower) \<Rightarrow> string \<Rightarrow> span \<Rightarrow> ast_expr ast_pat list
     \<Rightarrow> hir_expr hir_pat list lower" where
  "lower_pat_tuple_after lp ctx rest [] = lower_return []"
| "lower_pat_tuple_after lp ctx rest (p # ps) =
     (if is_rest p then lower_bind (ban_extra_rest_pat (pat_span p) rest ctx) (\<lambda>_. lower_pat_tuple_after lp ctx rest ps)
      else lower_bind (lp p) (\<lambda>q. lower_bind (lower_pat_tuple_after lp ctx rest ps) (\<lambda>qs. lower_return (q # qs))))"

fun lower_pat_tuple_from ::
  "(ast_expr ast_pat \<Rightarrow> hir_expr hir_pat lower) \<Rightarrow> string \<Rightarrow> nat \<Rightarrow> ast_expr ast_pat list
     \<Rightarrow> (hir_expr hir_pat list \<times> nat option) lower" where
  "lower_pat_tuple_from lp ctx idx [] = lower_return ([], None)"
| "lower_pat_tuple_from lp ctx idx (p # ps) =
     (if is_rest p
      then lower_bind (lower_pat_tuple_after lp ctx (pat_span p) ps) (\<lambda>qs. lower_return (qs, Some idx))
      else lower_bind (lp p) (\<lambda>q.
           lower_bind (lower_pat_tuple_from lp ctx (idx + 1) ps) (\<lambda>(qs, rest). lower_return (q # qs, rest))))"

definition lower_pat_tuple ::
  "(ast_expr ast_pat \<Rightarrow> hir_expr hir_pat lower) \<Rightarrow> ast_expr ast_pat list \<Rightarrow> string
     \<Rightarrow> (hir_expr hir_pat list \<times> nat option) lower" where
  "lower_pat_tuple lp pats ctx = lower_pat_tuple_from lp ctx 0 pats"

text \<open>The rest patterns of a slice: \<open>..\<close> and \<open>x @ ..\<close>.\<close>

definition sub_rest :: "ast_expr ast_pat \<Rightarrow> (binding_mode \<times> ident \<times> ast_expr ast_pat) option" where
  "sub_rest p =
     (case pat_kind p of Ident bm x (Some sub) \<Rightarrow> if is_rest sub then Some (bm, x, sub) else None | _ \<Rightarrow> None)"

fun lower_pat_slice_after ::
  "(ast_expr ast_pat \<Rightarrow> hir_expr hir_pat lower) \<Rightarrow> span \<Rightarrow> ast_expr ast_pat list \<Rightarrow> hir_expr hir_pat list lower" where
  "lower_pat_slice_after lp prev [] = lower_return []"
| "lower_pat_slice_after lp prev (p # ps) =
     (if is_rest p
      then lower_bind (ban_extra_rest_pat (pat_span p) prev ''slice'') (\<lambda>_. lower_pat_slice_after lp prev ps)
      else case sub_rest p of
        Some (bm, x, sub) \<Rightarrow>
          lower_bind (pat_wild_with_node_id_of p) (\<lambda>q.
          lower_bind (ban_extra_rest_pat (pat_span sub) prev ''slice'') (\<lambda>_.
          lower_bind (lower_pat_slice_after lp prev ps) (\<lambda>qs. lower_return (q # qs))))
      | None \<Rightarrow> lower_bind (lp p) (\<lambda>q. lower_bind (lower_pat_slice_after lp prev ps) (\<lambda>qs. lower_return (q # qs))))"

fun lower_pat_slice_from ::
  "resolver \<Rightarrow> (ast_expr ast_pat \<Rightarrow> hir_expr hir_pat lower) \<Rightarrow> hir_expr hir_pat list \<Rightarrow> ast_expr ast_pat list
     \<Rightarrow> (hir_expr, hir_expr hir_pat) hir_pat_kind lower" where
  "lower_pat_slice_from r lp before [] = lower_return (hir_pat_kind.Slice before None [])"
| "lower_pat_slice_from r lp before (p # ps) =
     (if is_rest p
      then lower_bind (pat_wild_with_node_id_of p) (\<lambda>slice.
           lower_bind (lower_pat_slice_after lp (pat_span p) ps) (\<lambda>after.
           lower_return (hir_pat_kind.Slice before (Some slice) after)))
      else case sub_rest p of
        Some (bm, x, sub) \<Rightarrow>
          lower_bind (lower_pat_ident r (pat_id p) bm x
            (lower_bind (pat_wild_with_node_id_of sub) (\<lambda>q. lower_return (Some q)))) (\<lambda>node.
          lower_bind (pat_with_node_id_of p node) (\<lambda>slice.
          lower_bind (lower_pat_slice_after lp (pat_span sub) ps) (\<lambda>after.
          lower_return (hir_pat_kind.Slice before (Some slice) after))))
      | None \<Rightarrow> lower_bind (lp p) (\<lambda>q. lower_pat_slice_from r lp (before @ [q]) ps))"

definition lower_pat_slice ::
  "resolver \<Rightarrow> (ast_expr ast_pat \<Rightarrow> hir_expr hir_pat lower) \<Rightarrow> ast_expr ast_pat list
     \<Rightarrow> (hir_expr, hir_expr hir_pat) hir_pat_kind lower" where
  "lower_pat_slice r lp pats = lower_pat_slice_from r lp [] pats"

lemma lower_pat_tuple_after_cong:
  "(\<And>p. p \<in> set ps \<Longrightarrow> lp p = lp' p) \<Longrightarrow>
     lower_pat_tuple_after lp ctx rest ps = lower_pat_tuple_after lp' ctx rest ps"
  by (induction ps) simp_all

lemma lower_pat_tuple_from_cong:
  "(\<And>p. p \<in> set ps \<Longrightarrow> lp p = lp' p) \<Longrightarrow>
     lower_pat_tuple_from lp ctx idx ps = lower_pat_tuple_from lp' ctx idx ps"
proof (induction ps arbitrary: idx)
  case (Cons p ps)
  have "lower_pat_tuple_from lp ctx n ps = lower_pat_tuple_from lp' ctx n ps" for n
    by (rule Cons.IH) (simp add: Cons.prems)
  moreover have "lower_pat_tuple_after lp ctx rest ps = lower_pat_tuple_after lp' ctx rest ps" for rest
    by (rule lower_pat_tuple_after_cong) (simp add: Cons.prems)
  ultimately show ?case using Cons.prems [of p] by (simp only: lower_pat_tuple_from.simps list.set_intros)
qed simp

lemma lower_pat_tuple_cong [fundef_cong]:
  "ps = qs \<Longrightarrow> ctx = ctx' \<Longrightarrow> (\<And>p. p \<in> set qs \<Longrightarrow> lp p = lp' p) \<Longrightarrow> lower_pat_tuple lp ps ctx = lower_pat_tuple lp' qs ctx'"
  unfolding lower_pat_tuple_def using lower_pat_tuple_from_cong [of qs lp lp'] by blast

lemma lower_pat_slice_after_cong:
  "(\<And>p. p \<in> set ps \<Longrightarrow> lp p = lp' p) \<Longrightarrow> lower_pat_slice_after lp prev ps = lower_pat_slice_after lp' prev ps"
  by (induction ps) (simp_all split: option.splits)

lemma lower_pat_slice_from_cong:
  "(\<And>p. p \<in> set ps \<Longrightarrow> lp p = lp' p) \<Longrightarrow> lower_pat_slice_from r lp before ps = lower_pat_slice_from r lp' before ps"
proof (induction ps arbitrary: before)
  case (Cons p ps)
  have "lower_pat_slice_from r lp before ps = lower_pat_slice_from r lp' before ps" for before
    by (rule Cons.IH) (simp add: Cons.prems)
  moreover have "lower_pat_slice_after lp prev ps = lower_pat_slice_after lp' prev ps" for prev
    by (rule lower_pat_slice_after_cong) (simp add: Cons.prems)
  ultimately show ?case using Cons.prems [of p] by (simp only: lower_pat_slice_from.simps list.set_intros)
qed simp

lemma lower_pat_slice_cong [fundef_cong]:
  "r = r' \<Longrightarrow> ps = qs \<Longrightarrow> (\<And>p. p \<in> set qs \<Longrightarrow> lp p = lp' p) \<Longrightarrow> lower_pat_slice r lp ps = lower_pat_slice r' lp' qs"
  unfolding lower_pat_slice_def using lower_pat_slice_from_cong [of qs lp lp'] by blast

fun lower_pat :: "resolver \<Rightarrow> (ast_expr \<Rightarrow> hir_expr lower) \<Rightarrow> ast_expr ast_pat \<Rightarrow> hir_expr hir_pat lower" where
  "lower_pat r le (Pat i k sp) =
     (let p = Pat i k sp; finish = (\<lambda>m. lower_bind m (pat_with_node_id_of p))
      in case k of
        Wild \<Rightarrow> finish (lower_return hir_pat_kind.Wild)
      | Ident bm x sub \<Rightarrow> finish (lower_pat_ident r i bm x (lower_opt (lower_pat r le) sub))
      | ast_pat_kind.Lit e \<Rightarrow> finish (lower_bind (le e) (\<lambda>e. lower_return (hir_pat_kind.Lit e)))
      | ast_pat_kind.Or pats \<Rightarrow>
          finish (lower_bind (lower_map (lower_pat r le) pats) (\<lambda>pats. lower_return (hir_pat_kind.Or pats)))
      | Tuple pats \<Rightarrow>
          finish (lower_bind (lower_pat_tuple (lower_pat r le) pats ''tuple'') (\<lambda>(pats, ddpos).
            lower_return (hir_pat_kind.Tuple pats ddpos)))
      | ast_pat_kind.Box inner \<Rightarrow>
          finish (lower_bind (lower_pat r le inner) (\<lambda>q. lower_return (hir_pat_kind.Box q)))
      | ast_pat_kind.Ref inner mutbl \<Rightarrow>
          finish (lower_bind (lower_pat r le inner) (\<lambda>q. lower_return (hir_pat_kind.Ref q (lower_mutability mutbl))))
      | Range e1 e2 end' \<Rightarrow>
          finish (lower_bind (le e1) (\<lambda>e1. lower_bind (le e2) (\<lambda>e2.
            lower_return (hir_pat_kind.Range e1 e2 (lower_range_end end')))))
      | Slice pats \<Rightarrow> finish (lower_pat_slice r (lower_pat r le) pats)
      | Rest \<Rightarrow> finish (ban_illegal_rest_pat sp)
      | ast_pat_kind.Paren inner \<Rightarrow> lower_pat r le inner
      | ast_pat_kind.Mac \<Rightarrow> lower_panic (Explicit_Panic ''Shouldn't exist here''))"

lemma lower_pat_cong [fundef_cong]:
  assumes "r = r'" and "p = q" and "\<And>e. e \<in> set_ast_pat q \<Longrightarrow> le e = le' e"
  shows "lower_pat r le p = lower_pat r' le' q"
  using assms
proof (induction q arbitrary: p)
  case (Pat i k sp)
  have IH: "lower_pat r le x = lower_pat r' le' x" if "x \<in> set2_ast_pat_kind k" for x
    by (rule Pat.IH [OF that]) (use Pat.prems that in auto)
  show ?case
    using Pat.prems IH
    by (cases k) (auto intro!: lower_map_cong lower_opt_cong lower_pat_tuple_cong lower_pat_slice_cong
        arg_cong2 [where f = lower_bind] arg_cong [where f = "lower_pat_ident r' i bm x" for bm x])
qed

section \<open>Statements and blocks\<close>

definition parent_def_id :: "nat lower" where
  "parent_def_id c =
     (if current_hir_id_owner c = [] then Panic Unwrap_None else Ok (fst (last (current_hir_id_owner c)), c))"

definition lower_local :: "resolver \<Rightarrow> (ast_expr \<Rightarrow> hir_expr lower) \<Rightarrow> ast_expr ast_local \<Rightarrow> hir_expr hir_local lower" where
  "lower_local r le l =
     lower_bind parent_def_id (\<lambda>_.
     lower_bind (lower_node_id (alocal_id l)) (\<lambda>i.
     lower_bind (lower_pat r le (alocal_pat l)) (\<lambda>p.
     lower_bind (lower_opt le (alocal_init l)) (\<lambda>init.
     lower_return (hir_local.Local i p init (alocal_span l) (alocal_attrs l) Normal)))))"

definition lower_stmt :: "resolver \<Rightarrow> (ast_expr \<Rightarrow> hir_expr lower) \<Rightarrow> ast_expr ast_stmt \<Rightarrow> hir_expr hir_stmt list lower" where
  "lower_stmt r le s =
     lower_bind
       (case astmt_kind s of
          ast_stmt_kind.Local l \<Rightarrow> lower_bind (lower_local r le l) (\<lambda>l. lower_return (hir_stmt_kind.Local l))
        | ast_stmt_kind.Expr e \<Rightarrow> lower_bind (le e) (\<lambda>e. lower_return (hir_stmt_kind.Expr e))
        | Semi e \<Rightarrow> lower_bind (le e) (\<lambda>e. lower_return (hir_stmt_kind.Semi e))
        | ast_stmt_kind.Mac \<Rightarrow> lower_panic (Explicit_Panic ''shouldn't exist here''))
       (\<lambda>kind. lower_bind (lower_node_id (astmt_id s)) (\<lambda>i. lower_return [hir_stmt.Stmt i kind (astmt_span s)]))"

text \<open>The statements of a block: an expression in the last place becomes the value of the block.\<close>

fun lower_stmts ::
  "resolver \<Rightarrow> (ast_expr \<Rightarrow> hir_expr lower) \<Rightarrow> ast_expr ast_stmt list \<Rightarrow> (hir_expr hir_stmt list \<times> hir_expr option) lower" where
  "lower_stmts r le [] = lower_return ([], None)"
| "lower_stmts r le [s] =
     (case astmt_kind s of
        ast_stmt_kind.Expr e \<Rightarrow> lower_bind (le e) (\<lambda>e. lower_return ([], Some e))
      | _ \<Rightarrow> lower_bind (lower_stmt r le s) (\<lambda>stmts. lower_return (stmts, None)))"
| "lower_stmts r le (s # s' # ss) =
     lower_bind (lower_stmt r le s) (\<lambda>stmts.
     lower_bind (lower_stmts r le (s' # ss)) (\<lambda>(stmts', e). lower_return (stmts @ stmts', e)))"

definition lower_block :: "resolver \<Rightarrow> (ast_expr \<Rightarrow> hir_expr lower) \<Rightarrow> ast_expr ast_block \<Rightarrow> bool \<Rightarrow> hir_expr hir_block lower" where
  "lower_block r le b targeted =
     lower_bind (lower_stmts r le (ablock_stmts b)) (\<lambda>(stmts, e).
     lower_bind (lower_node_id (ablock_id b)) (\<lambda>i.
     lower_return (hir_block.Block i stmts e (lower_block_check_mode (ablock_rules b)) (ablock_span b) targeted)))"

definition lower_block_expr :: "resolver \<Rightarrow> (ast_expr \<Rightarrow> hir_expr lower) \<Rightarrow> ast_expr ast_block \<Rightarrow> hir_expr lower" where
  "lower_block_expr r le b = lower_bind (lower_block r le b False) (\<lambda>block. expr_block block [])"

definition lower_transaction_block ::
  "resolver \<Rightarrow> (ast_expr \<Rightarrow> hir_expr lower) \<Rightarrow> ast_expr ast_block \<Rightarrow> bool \<Rightarrow> hir_expr hir_block lower" where
  "lower_transaction_block r le b targeted =
     lower_bind sess_next_node_id (\<lambda>lock_id.
     let lock_expr = Expr lock_id Lock DUMMY_SP [] in
     lower_bind sess_next_node_id (\<lambda>lock_stmt_id.
     let lock_stmt = Stmt lock_stmt_id (ast_stmt_kind.Expr lock_expr) DUMMY_SP in
     lower_bind (lower_stmt r le lock_stmt) (\<lambda>lowered_lock_stmt.
     lower_bind (lower_block r le b targeted) (\<lambda>body_block.
     lower_bind (expr_block body_block []) (\<lambda>body_expr.
     lower_bind (stmt_expr (ablock_span b) body_expr) (\<lambda>body_stmt.
     lower_bind sess_next_node_id (\<lambda>unlock_id.
     let unlock_expr = Expr unlock_id Unlock DUMMY_SP [] in
     lower_bind sess_next_node_id (\<lambda>unlock_stmt_id.
     let unlock_stmt = Stmt unlock_stmt_id (ast_stmt_kind.Expr unlock_expr) DUMMY_SP in
     lower_bind (lower_stmt r le unlock_stmt) (\<lambda>lowered_unlock_stmt.
     lower_bind next_id (\<lambda>i.
     lower_return (hir_block.Block i (lowered_lock_stmt @ [body_stmt] @ lowered_unlock_stmt) None
       (lower_block_check_mode (ablock_rules b)) (ablock_span b) targeted)))))))))))"

lemma lower_local_cong:
  "(\<And>e. e \<in> set_ast_local l \<Longrightarrow> le e = le' e) \<Longrightarrow> lower_local r le l = lower_local r le' l"
  by (cases l; cases "alocal_init l") (auto simp: lower_local_def cong: lower_pat_cong)

lemma lower_stmt_cong:
  "(\<And>e. e \<in> set_ast_stmt s \<Longrightarrow> le e = le' e) \<Longrightarrow> lower_stmt r le s = lower_stmt r le' s"
  by (cases s; cases "astmt_kind s") (auto simp: lower_stmt_def cong: lower_local_cong)

lemma lower_stmts_cong:
  "(\<And>s e. s \<in> set ss \<Longrightarrow> e \<in> set_ast_stmt s \<Longrightarrow> le e = le' e) \<Longrightarrow> lower_stmts r le ss = lower_stmts r le' ss"
proof (induction ss rule: induct_list012)
  case (2 s)
  have "lower_stmt r le s = lower_stmt r le' s" by (rule lower_stmt_cong) (simp add: 2)
  then show ?case using 2 by (cases s; cases "astmt_kind s") auto
next
  case (3 s s' ss)
  have "lower_stmt r le s = lower_stmt r le' s" by (rule lower_stmt_cong) (use 3(3) in auto)
  moreover have "lower_stmts r le (s' # ss) = lower_stmts r le' (s' # ss)" by (rule 3(2)) (use 3(3) in auto)
  ultimately show ?case by simp
qed simp

lemma lower_block_cong [fundef_cong]:
  "r = r' \<Longrightarrow> b = b' \<Longrightarrow> t = t' \<Longrightarrow> (\<And>e. e \<in> set_ast_block b' \<Longrightarrow> le e = le' e) \<Longrightarrow>
     lower_block r le b t = lower_block r' le' b' t'"
  by (cases b') (auto simp: lower_block_def intro!: arg_cong2 [where f = lower_bind] lower_stmts_cong)

section \<open>Expressions\<close>

definition lower_arm :: "resolver \<Rightarrow> (ast_expr \<Rightarrow> hir_expr lower) \<Rightarrow> ast_expr ast_arm \<Rightarrow> hir_expr hir_arm lower" where
  "lower_arm r le arm =
     lower_bind next_id (\<lambda>i.
     lower_bind (lower_pat r le (aarm_pat arm)) (\<lambda>p.
     lower_bind (lower_opt le (aarm_guard arm)) (\<lambda>guard.
     lower_bind (le (aarm_body arm)) (\<lambda>body.
     lower_return (hir_arm.Arm i (aarm_attrs arm) p guard body (aarm_span arm))))))"

definition lower_expr_let ::
  "resolver \<Rightarrow> (ast_expr \<Rightarrow> hir_expr lower) \<Rightarrow> span \<Rightarrow> ast_expr ast_pat \<Rightarrow> ast_expr \<Rightarrow> hir_expr hir_expr_kind lower" where
  "lower_expr_let r le sp p scrutinee =
     lower_bind (lower_emit (LetNotSupported sp)) (\<lambda>_.
     lower_bind (le scrutinee) (\<lambda>scrutinee.
     lower_bind (lower_pat r le p) (\<lambda>p.
     lower_bind (expr_bool sp True) (\<lambda>e.
     lower_bind (mk_arm p e) (\<lambda>then_arm.
     lower_bind (pat_wild sp) (\<lambda>p.
     lower_bind (expr_bool sp False) (\<lambda>e.
     lower_bind (mk_arm p e) (\<lambda>else_arm.
     lower_return (hir_expr_kind.Match scrutinee [then_arm, else_arm] NormalMatch)))))))))"

definition lower_expr_if ::
  "resolver \<Rightarrow> (ast_expr \<Rightarrow> hir_expr lower) \<Rightarrow> span \<Rightarrow> ast_expr \<Rightarrow> ast_expr ast_block \<Rightarrow> ast_expr option
     \<Rightarrow> hir_expr hir_expr_kind lower" where
  "lower_expr_if r le sp cond then_block else_opt =
     lower_bind (pat_wild sp) (\<lambda>else_pat.
     lower_bind (case else_opt of
                   None \<Rightarrow> lower_bind (expr_block_empty sp) (\<lambda>e. lower_return (e, False))
                 | Some els \<Rightarrow> lower_bind (le els) (\<lambda>e. lower_return (e, True))) (\<lambda>(else_expr, contains_else_clause).
     lower_bind (mk_arm else_pat else_expr) (\<lambda>else_arm.
     lower_bind (lower_block_expr r le then_block) (\<lambda>then_expr.
     lower_bind (case expr_kind cond of
                   Let_expr p scrutinee \<Rightarrow>
                     lower_bind (le scrutinee) (\<lambda>scrutinee.
                     lower_bind (lower_pat r le p) (\<lambda>p.
                     lower_return (p, scrutinee, IfLetDesugar contains_else_clause)))
                 | _ \<Rightarrow>
                     lower_bind (le cond) (\<lambda>cond.
                     lower_bind (expr_drop_temps (hexpr_span cond) cond []) (\<lambda>cond.
                     lower_bind (pat_bool sp True) (\<lambda>p.
                     lower_return (p, cond, IfDesugar contains_else_clause))))) (\<lambda>(then_pat, scrutinee, desugar).
     lower_bind (mk_arm then_pat then_expr) (\<lambda>then_arm.
     lower_return (hir_expr_kind.Match scrutinee [then_arm, else_arm] desugar)))))))"

definition lower_expr_while_in_loop_scope ::
  "resolver \<Rightarrow> (ast_expr \<Rightarrow> hir_expr lower) \<Rightarrow> span \<Rightarrow> ast_expr \<Rightarrow> ast_expr ast_block \<Rightarrow> label option
     \<Rightarrow> hir_expr hir_expr_kind lower" where
  "lower_expr_while_in_loop_scope r le sp cond body opt_label =
     lower_bind (pat_wild sp) (\<lambda>else_pat.
     lower_bind (expr_break r sp []) (\<lambda>else_expr.
     lower_bind (mk_arm else_pat else_expr) (\<lambda>else_arm.
     lower_bind (lower_block_expr r le body) (\<lambda>then_expr.
     lower_bind (case expr_kind cond of
                   Let_expr p scrutinee \<Rightarrow>
                     lower_bind (with_loop_condition_scope (le scrutinee)) (\<lambda>scrutinee.
                     lower_bind (lower_pat r le p) (\<lambda>p.
                     lower_return (p, scrutinee, WhileLetDesugar, WhileLetLoop)))
                 | _ \<Rightarrow>
                     lower_bind (with_loop_condition_scope (le cond)) (\<lambda>cond.
                     lower_bind (expr_drop_temps (hexpr_span cond) cond []) (\<lambda>cond.
                     lower_bind (pat_bool sp True) (\<lambda>p.
                     lower_return (p, cond, WhileDesugar, WhileLoop))))) (\<lambda>(then_pat, scrutinee, desugar, source).
     lower_bind (mk_arm then_pat then_expr) (\<lambda>then_arm.
     lower_bind (expr_match (hexpr_span scrutinee) scrutinee [then_arm, else_arm] desugar) (\<lambda>match_expr.
     lower_bind (block_expr match_expr) (\<lambda>block.
     lower_return (hir_expr_kind.Loop block (lower_label opt_label) source)))))))))"

definition lower_expr_txn_block ::
  "resolver \<Rightarrow> (ast_expr \<Rightarrow> hir_expr lower) \<Rightarrow> ast_expr ast_block \<Rightarrow> hir_expr hir_expr_kind lower" where
  "lower_expr_txn_block r le body =
     lower_bind (lower_transaction_block r le body True) (\<lambda>block. lower_return (hir_expr_kind.Block block None))"

text \<open>The body of \<open>lower_expr\<close>, with the recursive calls as an argument. Parentheses return the
  lowered inner expression; all other kinds end with the construction of the HIR expression. The arms
  for \<open>Repeat\<close>, \<open>MethodCall\<close>, \<open>Cast\<close>, \<open>Type\<close>, \<open>TryBlock\<close>, \<open>Async\<close>, \<open>Await\<close>, \<open>Closure\<close>, \<open>Range\<close>, \<open>InlineAsm\<close>,
  \<open>Struct\<close>, \<open>Yield\<close>, \<open>ForLoop\<close> and \<open>Try\<close> are left out, with these kinds of the syntax tree.\<close>

definition lower_expr_with :: "resolver \<Rightarrow> (ast_expr \<Rightarrow> hir_expr lower) \<Rightarrow> ast_expr \<Rightarrow> hir_expr lower" where
  "lower_expr_with r le e =
     (let finish = (\<lambda>m. lower_bind m (\<lambda>kind. lower_bind (lower_node_id (expr_id e)) (\<lambda>i.
            lower_return (hir_expr.Expr i kind (expr_span e) (expr_attrs e)))))
      in case expr_kind e of
        Box inner \<Rightarrow> finish (lower_bind (le inner) (\<lambda>x. lower_return (hir_expr_kind.Box x)))
      | Array exprs \<Rightarrow> finish (lower_bind (lower_map le exprs) (\<lambda>xs. lower_return (hir_expr_kind.Array xs)))
      | Tup elts \<Rightarrow> finish (lower_bind (lower_map le elts) (\<lambda>xs. lower_return (hir_expr_kind.Tup xs)))
      | Call f args \<Rightarrow>
          finish (lower_bind (le f) (\<lambda>f. lower_bind (lower_map le args) (\<lambda>args. lower_return (hir_expr_kind.Call f args))))
      | Binary binop lhs rhs \<Rightarrow>
          finish (lower_bind (le lhs) (\<lambda>lhs. lower_bind (le rhs) (\<lambda>rhs.
            lower_return (hir_expr_kind.Binary (lower_binop binop) lhs rhs))))
      | Unary op ohs \<Rightarrow> finish (lower_bind (le ohs) (\<lambda>ohs. lower_return (hir_expr_kind.Unary (lower_unop op) ohs)))
      | Lit l \<Rightarrow> finish (lower_return (hir_expr_kind.Lit \<lparr>lit_kind = lit_kind l, lit_span = lit_span l\<rparr>))
      | AddrOf m ohs \<Rightarrow>
          finish (lower_bind (le ohs) (\<lambda>ohs. lower_return (hir_expr_kind.AddrOf (lower_mutability m) ohs)))
      | Let_expr p scrutinee \<Rightarrow> finish (lower_expr_let r le (expr_span e) p scrutinee)
      | If_expr cond then_block else_opt \<Rightarrow> finish (lower_expr_if r le (expr_span e) cond then_block else_opt)
      | While cond body opt_label \<Rightarrow>
          finish (with_loop_scope (expr_id e)
            (lower_expr_while_in_loop_scope r le (expr_span e) cond body opt_label))
      | Loop body opt_label \<Rightarrow>
          finish (with_loop_scope (expr_id e)
            (lower_bind (lower_block r le body False) (\<lambda>b.
             lower_return (hir_expr_kind.Loop b (lower_label opt_label) LoopLoop))))
      | Match x arms \<Rightarrow>
          finish (lower_bind (le x) (\<lambda>x. lower_bind (lower_map (lower_arm r le) arms) (\<lambda>arms.
            lower_return (hir_expr_kind.Match x arms NormalMatch))))
      | Block blk opt_label \<Rightarrow>
          finish (lower_bind (lower_block r le blk (opt_label \<noteq> None)) (\<lambda>b.
            lower_return (hir_expr_kind.Block b (lower_label opt_label))))
      | TransactionBlock body \<Rightarrow> finish (lower_expr_txn_block r le body)
      | Lock \<Rightarrow> finish (lower_return hir_expr_kind.Lock)
      | Unlock \<Rightarrow> finish (lower_return hir_expr_kind.Unlock)
      | Assign el er \<Rightarrow>
          finish (lower_bind (le el) (\<lambda>el. lower_bind (le er) (\<lambda>er. lower_return (hir_expr_kind.Assign el er))))
      | AssignOp op el er \<Rightarrow>
          finish (lower_bind (le el) (\<lambda>el. lower_bind (le er) (\<lambda>er.
            lower_return (hir_expr_kind.AssignOp (lower_binop op) el er))))
      | Field el x \<Rightarrow> finish (lower_bind (le el) (\<lambda>el. lower_return (hir_expr_kind.Field el x)))
      | Index el er \<Rightarrow>
          finish (lower_bind (le el) (\<lambda>el. lower_bind (le er) (\<lambda>er. lower_return (hir_expr_kind.Index el er))))
      | Path p \<Rightarrow> finish (lower_bind (lower_qpath r (expr_id e) p) (\<lambda>q. lower_return (hir_expr_kind.Path q)))
      | Break opt_label opt_expr \<Rightarrow>
          finish (lower_bind (lower_jump_destination r (expr_id e) opt_label) (\<lambda>d.
            lower_bind (lower_opt le opt_expr) (\<lambda>x. lower_return (hir_expr_kind.Break d x))))
      | Continue opt_label \<Rightarrow>
          finish (lower_bind (lower_jump_destination r (expr_id e) opt_label) (\<lambda>d.
            lower_return (hir_expr_kind.Continue d)))
      | Ret opt_expr \<Rightarrow> finish (lower_bind (lower_opt le opt_expr) (\<lambda>x. lower_return (hir_expr_kind.Ret x)))
      | Paren inner \<Rightarrow>
          lower_bind (le inner) (\<lambda>ex.
          let sp = (if span_contains (expr_span e) (hexpr_span ex) then expr_span e else hexpr_span ex)
          in lower_return (hir_expr.Expr (hexpr_id ex) (hexpr_kind ex) sp (expr_attrs e @ hexpr_attrs ex)))
      | Err \<Rightarrow> finish (lower_return hir_expr_kind.Err)
      | Mac \<Rightarrow> lower_panic (Explicit_Panic ''Shouldn't exist here''))"

text \<open>The calls of \<open>lower_expr\<close> go to subexpressions, and from a transaction block to the lock and
  unlock expressions it makes up.\<close>

definition is_lock :: "ast_expr \<Rightarrow> bool" where
  "is_lock e \<longleftrightarrow> expr_kind e = Lock \<or> expr_kind e = Unlock"

definition lower_calls :: "(ast_expr \<times> ast_expr) set" where
  "lower_calls = sub_expr\<^sup>+ \<union> {(x, e). is_lock x \<and> \<not> is_lock e}"

lemma no_call_of_lock: "is_lock e \<Longrightarrow> (x, e) \<notin> lower_calls"
  by (auto simp: lower_calls_def is_lock_def sub_expr_def elim: tranclE)

lemma wf_lower_calls: "wf lower_calls"
proof (rule wfUNIVI)
  fix P :: "ast_expr \<Rightarrow> bool" and e
  assume step: "\<forall>e. (\<forall>x. (x, e) \<in> lower_calls \<longrightarrow> P x) \<longrightarrow> P e"
  have lock: "P x" if "is_lock x" for x using step no_call_of_lock [OF that] by blast
  show "P e"
  proof (induction e rule: wf_induct [OF wf_trancl [OF wf_sub_expr]])
    case (1 e)
    with lock have "P x" if "(x, e) \<in> lower_calls" for x using that by (auto simp: lower_calls_def)
    with step show ?case by blast
  qed
qed

lemma lower_calls_sub: "x \<in> set_ast_expr_kind (expr_kind e) \<Longrightarrow> (x, e) \<in> lower_calls"
  by (auto simp: lower_calls_def sub_expr_def)

lemma lower_calls_sub2:
  assumes "x \<in> set_ast_expr_kind (expr_kind y)" and "y \<in> set_ast_expr_kind (expr_kind e)"
  shows "(x, e) \<in> lower_calls"
proof -
  have "(x, y) \<in> sub_expr" "(y, e) \<in> sub_expr" using assms by (simp_all add: sub_expr_def)
  then show ?thesis by (auto simp: lower_calls_def intro: trancl_trans)
qed

lemma lower_arm_cong:
  assumes "\<And>e. e \<in> set_ast_arm arm \<Longrightarrow> le e = le' e"
  shows "lower_arm r le arm = lower_arm r le' arm"
proof (cases arm)
  case (Arm as p g b sp)
  have "lower_pat r le p = lower_pat r le' p" by (rule lower_pat_cong) (use assms Arm in simp_all)
  moreover have "lower_opt le g = lower_opt le' g" by (rule lower_opt_cong) (use assms Arm in simp_all)
  moreover have "le b = le' b" using assms Arm by simp
  ultimately show ?thesis by (simp add: lower_arm_def Arm)
qed

lemma lower_transaction_block_cong:
  assumes "\<And>e. e \<in> set_ast_block b \<Longrightarrow> le e = le' e" and "\<And>e. is_lock e \<Longrightarrow> le e = le' e"
  shows "lower_transaction_block r le b t = lower_transaction_block r le' b t"
proof -
  have "lower_block r le b t = lower_block r le' b t" by (rule lower_block_cong) (use assms(1) in simp_all)
  moreover have "lower_stmt r le (Stmt i (ast_stmt_kind.Expr (Expr j k DUMMY_SP [])) DUMMY_SP) =
      lower_stmt r le' (Stmt i (ast_stmt_kind.Expr (Expr j k DUMMY_SP [])) DUMMY_SP)" if "k = Lock \<or> k = Unlock" for i j k
    by (rule lower_stmt_cong) (use assms(2) that in \<open>simp add: is_lock_def\<close>)
  ultimately show ?thesis by (simp add: lower_transaction_block_def)
qed

text \<open>The condition of an \<open>if\<close> or \<open>while\<close> is lowered as a whole, or in its two parts when it is a \<open>let\<close>.\<close>

lemma lower_expr_if_cong:
  assumes "\<And>x. x = cond \<or> x \<in> set_ast_expr_kind (expr_kind cond) \<or> x \<in> set_ast_block b \<or> x \<in> set_option els \<Longrightarrow> le x = le' x"
  shows "lower_expr_if r le sp cond b els = lower_expr_if r le' sp cond b els"
proof -
  have b: "lower_block r le b False = lower_block r le' b False"
    by (rule lower_block_cong) (use assms in simp_all)
  have p: "lower_pat r le p = lower_pat r le' p" "le x = le' x" if "expr_kind cond = Let_expr p x" for p x
    using assms that by (auto intro!: lower_pat_cong)
  have "le cond = le' cond" using assms by simp
  moreover have "le x = le' x" if "els = Some x" for x using assms that by simp
  ultimately show ?thesis
    unfolding lower_expr_if_def lower_block_expr_def b
    by (cases "expr_kind cond"; cases els) (simp_all add: p)
qed

lemma lower_expr_while_cong:
  assumes "\<And>x. x = cond \<or> x \<in> set_ast_expr_kind (expr_kind cond) \<or> x \<in> set_ast_block b \<Longrightarrow> le x = le' x"
  shows "lower_expr_while_in_loop_scope r le sp cond b l = lower_expr_while_in_loop_scope r le' sp cond b l"
proof -
  have b: "lower_block r le b False = lower_block r le' b False"
    by (rule lower_block_cong) (use assms in simp_all)
  have p: "lower_pat r le p = lower_pat r le' p" "le x = le' x" if "expr_kind cond = Let_expr p x" for p x
    using assms that by (auto intro!: lower_pat_cong)
  have "le cond = le' cond" using assms by simp
  then show ?thesis
    unfolding lower_expr_while_in_loop_scope_def lower_block_expr_def b
    by (cases "expr_kind cond") (simp_all add: p)
qed

lemma lower_expr_with_cong [fundef_cong]:
  assumes "r = r'" and "e = e'" and le: "\<And>x. (x, e') \<in> lower_calls \<Longrightarrow> le x = le' x"
  shows "lower_expr_with r le e = lower_expr_with r' le' e'"
proof -
  have sub: "le x = le' x" if "x \<in> set_ast_expr_kind (expr_kind e')" for x
    using le lower_calls_sub [OF that] by blast
  have sub2: "le x = le' x" if "x \<in> set_ast_expr_kind (expr_kind y)" "y \<in> set_ast_expr_kind (expr_kind e')" for x y
    using le lower_calls_sub2 [OF that] by blast
  have lock: "le x = le' x" if "is_lock x" "expr_kind e' \<noteq> Lock" "expr_kind e' \<noteq> Unlock" for x
    using le [of x] that by (simp add: lower_calls_def is_lock_def)
  have maps: "lower_map le xs = lower_map le' xs" if "set xs \<subseteq> set_ast_expr_kind (expr_kind e')" for xs
    by (rule lower_map_cong) (use sub that in auto)
  have opts: "lower_opt le x = lower_opt le' x" if "set_option x \<subseteq> set_ast_expr_kind (expr_kind e')" for x
    by (rule lower_opt_cong) (use sub that in auto)
  have blocks: "lower_block r' le b t = lower_block r' le' b t"
    if "set_ast_block b \<subseteq> set_ast_expr_kind (expr_kind e')" for b t
    by (rule lower_block_cong) (use sub that in auto)
  have pats: "lower_pat r' le p = lower_pat r' le' p" if "set_ast_pat p \<subseteq> set_ast_expr_kind (expr_kind e')" for p
    by (rule lower_pat_cong) (use sub that in auto)
  have arms: "lower_map (lower_arm r' le) as = lower_map (lower_arm r' le') as"
    if "\<Union> (set_ast_arm ` set as) \<subseteq> set_ast_expr_kind (expr_kind e')" for as
    by (rule lower_map_cong) (use sub that in \<open>auto intro!: lower_arm_cong\<close>)
  have ifs: "lower_expr_if r' le sp c b els = lower_expr_if r' le' sp c b els" if "expr_kind e' = If_expr c b els" for sp c b els
    by (rule lower_expr_if_cong) (use sub sub2 [of _ c] that in auto)
  have whiles: "lower_expr_while_in_loop_scope r' le sp c b l = lower_expr_while_in_loop_scope r' le' sp c b l"
    if "expr_kind e' = While c b l" for sp c b l
    by (rule lower_expr_while_cong) (use sub sub2 [of _ c] that in auto)
  have txns: "lower_transaction_block r' le b t = lower_transaction_block r' le' b t"
    if "expr_kind e' = TransactionBlock b" for b t
    by (rule lower_transaction_block_cong) (use sub lock that in auto)
  show ?thesis
    unfolding assms(1,2) lower_expr_with_def
    by (cases "expr_kind e'")
      (simp_all add: sub maps opts blocks pats arms ifs whiles txns lower_expr_let_def lower_expr_txn_block_def
        subset_insertI subset_insertI2)
qed

function lower_expr :: "resolver \<Rightarrow> ast_expr \<Rightarrow> hir_expr lower" where
  "lower_expr r e = lower_expr_with r (lower_expr r) e"
  by pat_completeness auto

termination lower_expr
  by (relation "inv_image lower_calls snd") (simp_all add: wf_lower_calls)

declare lower_expr.simps [simp del]

end
