(* ===== verification/Lowering_Ids.thy ===== *)
theory Lowering_Ids
  imports Lowering
begin

text \<open>
  The numbers of HIR nodes. Lowering gives every node of the tree it returns a number of its own:
  the numbers are pairwise different, belong to the current owner and are dense, which is what the
  validator of HIR numbers demands. The node numbers that lowering passes through are collected by
  \<open>lowered_ids\<close>; all other numbers in the tree are fresh. Together with it goes the fact that lowering
  returns for every expanded tree, as long as the node numbers suffice.
\<close>

section \<open>The numbers in a lowered tree\<close>

text \<open>The numbers a visitor of HIR meets.\<close>

definition path_hir_ids :: "hir_path \<Rightarrow> hir_id list" where
  "path_hir_ids p = List.map_filter seg_hir_id (path_segments p)"

fun pat_hir_ids :: "(hir_expr \<Rightarrow> hir_id list) \<Rightarrow> hir_expr hir_pat \<Rightarrow> hir_id list" where
  "pat_hir_ids f (hir_pat.Pat i k sp) = i #
     (case k of
        hir_pat_kind.Wild \<Rightarrow> []
      | Binding _ _ _ sub \<Rightarrow> (case sub of None \<Rightarrow> [] | Some p \<Rightarrow> pat_hir_ids f p)
      | hir_pat_kind.Or pats \<Rightarrow> concat (map (pat_hir_ids f) pats)
      | hir_pat_kind.Path p \<Rightarrow> path_hir_ids p
      | hir_pat_kind.Tuple pats _ \<Rightarrow> concat (map (pat_hir_ids f) pats)
      | hir_pat_kind.Box p \<Rightarrow> pat_hir_ids f p
      | hir_pat_kind.Ref p _ \<Rightarrow> pat_hir_ids f p
      | hir_pat_kind.Lit e \<Rightarrow> f e
      | hir_pat_kind.Range e1 e2 _ \<Rightarrow> f e1 @ f e2
      | hir_pat_kind.Slice before slice after \<Rightarrow>
          concat (map (pat_hir_ids f) before) @ (case slice of None \<Rightarrow> [] | Some p \<Rightarrow> pat_hir_ids f p) @
          concat (map (pat_hir_ids f) after))"

definition opt_hir_ids :: "(hir_expr \<Rightarrow> hir_id list) \<Rightarrow> hir_expr option \<Rightarrow> hir_id list" where
  "opt_hir_ids f x = (case x of None \<Rightarrow> [] | Some e \<Rightarrow> f e)"

definition stmt_hir_ids :: "(hir_expr \<Rightarrow> hir_id list) \<Rightarrow> hir_expr hir_stmt \<Rightarrow> hir_id list" where
  "stmt_hir_ids f s = hstmt_id s #
     (case hstmt_kind s of
        hir_stmt_kind.Local l \<Rightarrow> opt_hir_ids f (hlocal_init l) @ hlocal_id l # pat_hir_ids f (hlocal_pat l)
      | hir_stmt_kind.Expr e \<Rightarrow> f e
      | hir_stmt_kind.Semi e \<Rightarrow> f e)"

definition block_hir_ids :: "(hir_expr \<Rightarrow> hir_id list) \<Rightarrow> hir_expr hir_block \<Rightarrow> hir_id list" where
  "block_hir_ids f b = hblock_id b # concat (map (stmt_hir_ids f) (hblock_stmts b)) @ opt_hir_ids f (hblock_expr b)"

definition arm_hir_ids :: "(hir_expr \<Rightarrow> hir_id list) \<Rightarrow> hir_expr hir_arm \<Rightarrow> hir_id list" where
  "arm_hir_ids f a = harm_id a # pat_hir_ids f (harm_pat a) @ opt_hir_ids f (harm_guard a) @ f (harm_body a)"

fun kind_hir_ids :: "(hir_expr \<Rightarrow> hir_id list) \<Rightarrow> hir_expr hir_expr_kind \<Rightarrow> hir_id list" where
  "kind_hir_ids f (hir_expr_kind.Box e) = f e"
| "kind_hir_ids f (hir_expr_kind.Array es) = concat (map f es)"
| "kind_hir_ids f (hir_expr_kind.Tup es) = concat (map f es)"
| "kind_hir_ids f (hir_expr_kind.Call e es) = f e @ concat (map f es)"
| "kind_hir_ids f (hir_expr_kind.Binary _ l r) = f l @ f r"
| "kind_hir_ids f (hir_expr_kind.Unary _ e) = f e"
| "kind_hir_ids f (hir_expr_kind.AddrOf _ e) = f e"
| "kind_hir_ids f (DropTemps e) = f e"
| "kind_hir_ids f (hir_expr_kind.Loop b _ _) = block_hir_ids f b"
| "kind_hir_ids f (hir_expr_kind.Match e arms _) = f e @ concat (map (arm_hir_ids f) arms)"
| "kind_hir_ids f (hir_expr_kind.Block b _) = block_hir_ids f b"
| "kind_hir_ids f (hir_expr_kind.Assign l r) = f r @ f l"
| "kind_hir_ids f (hir_expr_kind.AssignOp _ l r) = f r @ f l"
| "kind_hir_ids f (hir_expr_kind.Field e _) = f e"
| "kind_hir_ids f (hir_expr_kind.Index l r) = f l @ f r"
| "kind_hir_ids f (hir_expr_kind.Path p) = path_hir_ids p"
| "kind_hir_ids f (hir_expr_kind.Break _ x) = opt_hir_ids f x"
| "kind_hir_ids f (hir_expr_kind.Continue _) = []"
| "kind_hir_ids f (hir_expr_kind.Ret x) = opt_hir_ids f x"
| "kind_hir_ids f (hir_expr_kind.Lit _) = []"
| "kind_hir_ids f hir_expr_kind.Lock = []"
| "kind_hir_ids f hir_expr_kind.Unlock = []"
| "kind_hir_ids f hir_expr_kind.Err = []"

lemma concat_map_cong: "xs = ys \<Longrightarrow> (\<And>x. x \<in> set ys \<Longrightarrow> f x = g x) \<Longrightarrow> concat (map f xs) = concat (map g ys)"
  by (auto cong: map_cong)

lemma pat_hir_ids_cong:
  "(\<And>e. e \<in> set_hir_pat p \<Longrightarrow> f e = g e) \<Longrightarrow> pat_hir_ids f p = pat_hir_ids g p"
proof (induction p)
  case (Pat i k sp)
  have IH: "pat_hir_ids f x = pat_hir_ids g x" if "x \<in> set2_hir_pat_kind k" for x
    by (rule Pat.IH [OF that]) (use Pat.prems that in auto)
  show ?case using Pat.prems IH by (cases k) (auto split: option.splits intro!: concat_map_cong arg_cong2 [where f = append])
qed

lemma stmt_hir_ids_cong:
  assumes "\<And>e. e \<in> set_hir_stmt s \<Longrightarrow> f e = g e"
  shows "stmt_hir_ids f s = stmt_hir_ids g s"
proof (cases s)
  case (Stmt i k sp)
  show ?thesis
  proof (cases k)
    case (Local l)
    then show ?thesis using assms unfolding Stmt
      by (cases l) (auto simp: stmt_hir_ids_def opt_hir_ids_def split: option.splits intro!: pat_hir_ids_cong)
  qed (use assms in \<open>auto simp: Stmt stmt_hir_ids_def\<close>)
qed

lemma block_hir_ids_cong:
  "(\<And>e. e \<in> set_hir_block b \<Longrightarrow> f e = g e) \<Longrightarrow> block_hir_ids f b = block_hir_ids g b"
  by (cases b) (auto simp: block_hir_ids_def opt_hir_ids_def split: option.splits
      intro!: concat_map_cong stmt_hir_ids_cong arg_cong2 [where f = append])

lemma arm_hir_ids_cong:
  "(\<And>e. e \<in> set_hir_arm a \<Longrightarrow> f e = g e) \<Longrightarrow> arm_hir_ids f a = arm_hir_ids g a"
  by (cases a) (auto simp: arm_hir_ids_def opt_hir_ids_def split: option.splits intro!: pat_hir_ids_cong)

lemma kind_hir_ids_cong [fundef_cong]:
  "k = k' \<Longrightarrow> (\<And>e. e \<in> set_hir_expr_kind k' \<Longrightarrow> f e = g e) \<Longrightarrow> kind_hir_ids f k = kind_hir_ids g k'"
  by (cases k') (auto simp: opt_hir_ids_def split: option.splits
      intro!: concat_map_cong block_hir_ids_cong arm_hir_ids_cong)

function hir_ids :: "hir_expr \<Rightarrow> hir_id list" where
  "hir_ids (hir_expr.Expr i k sp as) = i # kind_hir_ids hir_ids k"
  by pat_completeness auto

termination hir_ids
proof (relation hir_sub_expr)
  show "wf hir_sub_expr" by (rule wf_hir_sub_expr)
qed (simp add: hir_sub_expr_def)


section \<open>The nodes that lowering passes through\<close>

text \<open>The node numbers of a tree that get a HIR number. Parentheses, rest patterns in the wrong
  place, a statement that is the value of its block and a \<open>let\<close> in a condition have none.\<close>

definition binds :: "resolver \<Rightarrow> node_id \<Rightarrow> bool" where
  "binds r i \<longleftrightarrow> (case get_partial_res r i of None \<Rightarrow> True | Some (Local_res _) \<Rightarrow> True | _ \<Rightarrow> False)"

fun slice_after_ids :: "(ast_expr ast_pat \<Rightarrow> node_id list) \<Rightarrow> ast_expr ast_pat list \<Rightarrow> node_id list" where
  "slice_after_ids g [] = []"
| "slice_after_ids g (p # ps) =
     (if is_rest p then [] else case sub_rest p of Some _ \<Rightarrow> [pat_id p] | None \<Rightarrow> g p) @ slice_after_ids g ps"

fun slice_ids :: "resolver \<Rightarrow> (ast_expr ast_pat \<Rightarrow> node_id list) \<Rightarrow> ast_expr ast_pat list \<Rightarrow> node_id list" where
  "slice_ids r g [] = []"
| "slice_ids r g (p # ps) =
     (if is_rest p then pat_id p # slice_after_ids g ps
      else case sub_rest p of
        Some (_, _, sub) \<Rightarrow> (if binds r (pat_id p) then [pat_id sub] else []) @ pat_id p # slice_after_ids g ps
      | None \<Rightarrow> g p @ slice_ids r g ps)"

definition tuple_ids :: "(ast_expr ast_pat \<Rightarrow> node_id list) \<Rightarrow> ast_expr ast_pat list \<Rightarrow> node_id list" where
  "tuple_ids g ps = concat (map g (filter (\<lambda>p. \<not> is_rest p) ps))"

lemma slice_after_ids_cong:
  "(\<And>p. p \<in> set ps \<Longrightarrow> g p = h p) \<Longrightarrow> slice_after_ids g ps = slice_after_ids h ps"
  by (induction ps) (auto split: option.splits)

lemma slice_ids_cong [fundef_cong]:
  "ps = qs \<Longrightarrow> (\<And>p. p \<in> set qs \<Longrightarrow> g p = h p) \<Longrightarrow> slice_ids r g ps = slice_ids r h qs"
proof (induction qs arbitrary: ps)
  case (Cons q qs)
  have "slice_after_ids g qs = slice_after_ids h qs" by (rule slice_after_ids_cong) (simp add: Cons.prems)
  moreover have "slice_ids r g qs = slice_ids r h qs" by (rule Cons.IH) (simp_all add: Cons.prems)
  ultimately show ?case using Cons.prems by (simp split: option.splits)
qed simp

lemma tuple_ids_cong [fundef_cong]:
  "ps = qs \<Longrightarrow> (\<And>p. p \<in> set qs \<Longrightarrow> g p = h p) \<Longrightarrow> tuple_ids g ps = tuple_ids h qs"
  by (auto simp: tuple_ids_def intro!: concat_map_cong)

fun pat_ids :: "resolver \<Rightarrow> (ast_expr \<Rightarrow> node_id list) \<Rightarrow> ast_expr ast_pat \<Rightarrow> node_id list" where
  "pat_ids r f (Pat i k sp) =
     (case k of
        Wild \<Rightarrow> [i]
      | Ident _ _ sub \<Rightarrow>
          (case sub of None \<Rightarrow> [] | Some p \<Rightarrow> if binds r i then pat_ids r f p else []) @ [i]
      | ast_pat_kind.Lit e \<Rightarrow> f e @ [i]
      | ast_pat_kind.Or pats \<Rightarrow> concat (map (pat_ids r f) pats) @ [i]
      | Tuple pats \<Rightarrow> tuple_ids (pat_ids r f) pats @ [i]
      | ast_pat_kind.Box p \<Rightarrow> pat_ids r f p @ [i]
      | ast_pat_kind.Ref p _ \<Rightarrow> pat_ids r f p @ [i]
      | Range e1 e2 _ \<Rightarrow> f e1 @ f e2 @ [i]
      | Slice pats \<Rightarrow> slice_ids r (pat_ids r f) pats @ [i]
      | Rest \<Rightarrow> [i]
      | ast_pat_kind.Paren p \<Rightarrow> pat_ids r f p
      | ast_pat_kind.Mac \<Rightarrow> [])"

lemma pat_ids_cong:
  "(\<And>e. e \<in> set_ast_pat p \<Longrightarrow> f e = g e) \<Longrightarrow> pat_ids r f p = pat_ids r g p"
proof (induction p)
  case (Pat i k sp)
  have IH: "pat_ids r f x = pat_ids r g x" if "x \<in> set2_ast_pat_kind k" for x
    by (rule Pat.IH [OF that]) (use Pat.prems that in auto)
  show ?case using Pat.prems IH
    by (cases k) (auto split: option.splits intro!: concat_map_cong tuple_ids_cong slice_ids_cong)
qed

definition opt_ids :: "(ast_expr \<Rightarrow> node_id list) \<Rightarrow> ast_expr option \<Rightarrow> node_id list" where
  "opt_ids f x = (case x of None \<Rightarrow> [] | Some e \<Rightarrow> f e)"

definition stmt_ids :: "resolver \<Rightarrow> (ast_expr \<Rightarrow> node_id list) \<Rightarrow> ast_expr ast_stmt \<Rightarrow> node_id list" where
  "stmt_ids r f s =
     (case astmt_kind s of
        ast_stmt_kind.Local l \<Rightarrow> alocal_id l # pat_ids r f (alocal_pat l) @ opt_ids f (alocal_init l)
      | ast_stmt_kind.Expr e \<Rightarrow> f e
      | Semi e \<Rightarrow> f e
      | ast_stmt_kind.Mac \<Rightarrow> []) @ [astmt_id s]"

fun stmts_ids :: "resolver \<Rightarrow> (ast_expr \<Rightarrow> node_id list) \<Rightarrow> ast_expr ast_stmt list \<Rightarrow> node_id list" where
  "stmts_ids r f [] = []"
| "stmts_ids r f [s] = (case astmt_kind s of ast_stmt_kind.Expr e \<Rightarrow> f e | _ \<Rightarrow> stmt_ids r f s)"
| "stmts_ids r f (s # s' # ss) = stmt_ids r f s @ stmts_ids r f (s' # ss)"

definition block_ids :: "resolver \<Rightarrow> (ast_expr \<Rightarrow> node_id list) \<Rightarrow> ast_expr ast_block \<Rightarrow> node_id list" where
  "block_ids r f b = stmts_ids r f (ablock_stmts b) @ [ablock_id b]"

definition arm_ids :: "resolver \<Rightarrow> (ast_expr \<Rightarrow> node_id list) \<Rightarrow> ast_expr ast_arm \<Rightarrow> node_id list" where
  "arm_ids r f a = pat_ids r f (aarm_pat a) @ opt_ids f (aarm_guard a) @ f (aarm_body a)"

definition cond_ids :: "resolver \<Rightarrow> (ast_expr \<Rightarrow> node_id list) \<Rightarrow> ast_expr \<Rightarrow> node_id list" where
  "cond_ids r f cond = (case expr_kind cond of Let_expr p x \<Rightarrow> f x @ pat_ids r f p | _ \<Rightarrow> f cond)"

definition expr_ids_with :: "resolver \<Rightarrow> (ast_expr \<Rightarrow> node_id list) \<Rightarrow> ast_expr \<Rightarrow> node_id list" where
  "expr_ids_with r f e =
     (case expr_kind e of
        Box x \<Rightarrow> f x @ [expr_id e]
      | Array xs \<Rightarrow> concat (map f xs) @ [expr_id e]
      | Tup xs \<Rightarrow> concat (map f xs) @ [expr_id e]
      | Call x xs \<Rightarrow> f x @ concat (map f xs) @ [expr_id e]
      | Binary _ x y \<Rightarrow> f x @ f y @ [expr_id e]
      | Unary _ x \<Rightarrow> f x @ [expr_id e]
      | Lit _ \<Rightarrow> [expr_id e]
      | AddrOf _ x \<Rightarrow> f x @ [expr_id e]
      | Let_expr p x \<Rightarrow> f x @ pat_ids r f p @ [expr_id e]
      | If_expr c b els \<Rightarrow> opt_ids f els @ block_ids r f b @ cond_ids r f c @ [expr_id e]
      | While c b _ \<Rightarrow> block_ids r f b @ cond_ids r f c @ [expr_id e]
      | Loop b _ \<Rightarrow> block_ids r f b @ [expr_id e]
      | Match x arms \<Rightarrow> f x @ concat (map (arm_ids r f) arms) @ [expr_id e]
      | Block b _ \<Rightarrow> block_ids r f b @ [expr_id e]
      | TransactionBlock b \<Rightarrow> block_ids r f b @ [expr_id e]
      | Assign x y \<Rightarrow> f x @ f y @ [expr_id e]
      | AssignOp _ x y \<Rightarrow> f x @ f y @ [expr_id e]
      | Field x _ \<Rightarrow> f x @ [expr_id e]
      | Index x y \<Rightarrow> f x @ f y @ [expr_id e]
      | Path p \<Rightarrow> map segment_id (segments p) @ [expr_id e]
      | Break _ x \<Rightarrow> opt_ids f x @ [expr_id e]
      | Continue _ \<Rightarrow> [expr_id e]
      | Ret x \<Rightarrow> opt_ids f x @ [expr_id e]
      | Paren x \<Rightarrow> f x
      | Lock \<Rightarrow> [expr_id e]
      | Unlock \<Rightarrow> [expr_id e]
      | Err \<Rightarrow> [expr_id e]
      | Mac \<Rightarrow> [])"

lemma stmt_ids_cong:
  assumes "\<And>e. e \<in> set_ast_stmt s \<Longrightarrow> f e = g e"
  shows "stmt_ids r f s = stmt_ids r g s"
proof (cases s)
  case (Stmt i k sp)
  show ?thesis
  proof (cases k)
    case (Local l)
    then show ?thesis using assms unfolding Stmt
      by (cases l) (auto simp: stmt_ids_def opt_ids_def split: option.splits intro!: pat_ids_cong)
  qed (use assms in \<open>auto simp: Stmt stmt_ids_def\<close>)
qed

lemma stmts_ids_cong:
  "(\<And>s e. s \<in> set ss \<Longrightarrow> e \<in> set_ast_stmt s \<Longrightarrow> f e = g e) \<Longrightarrow> stmts_ids r f ss = stmts_ids r g ss"
proof (induction ss rule: induct_list012)
  case (2 s)
  have "stmt_ids r f s = stmt_ids r g s" by (rule stmt_ids_cong) (simp add: 2)
  then show ?case using 2 by (cases s; cases "astmt_kind s") auto
next
  case (3 s s' ss)
  have "stmt_ids r f s = stmt_ids r g s" by (rule stmt_ids_cong) (use 3(3) in auto)
  moreover have "stmts_ids r f (s' # ss) = stmts_ids r g (s' # ss)" by (rule 3(2)) (use 3(3) in auto)
  ultimately show ?case by simp
qed simp

lemma block_ids_cong: "(\<And>e. e \<in> set_ast_block b \<Longrightarrow> f e = g e) \<Longrightarrow> block_ids r f b = block_ids r g b"
  by (cases b) (auto simp: block_ids_def intro!: stmts_ids_cong)

lemma arm_ids_cong: "(\<And>e. e \<in> set_ast_arm a \<Longrightarrow> f e = g e) \<Longrightarrow> arm_ids r f a = arm_ids r g a"
  by (cases a) (auto simp: arm_ids_def opt_ids_def split: option.splits intro!: pat_ids_cong)

lemma cond_ids_cong:
  "(\<And>e. e = c \<or> e \<in> set_ast_expr_kind (expr_kind c) \<Longrightarrow> f e = g e) \<Longrightarrow> cond_ids r f c = cond_ids r g c"
  by (cases "expr_kind c") (auto simp: cond_ids_def intro!: pat_ids_cong)

lemma expr_ids_with_cong [fundef_cong]:
  assumes "r = r'" and "e = e'" and f: "\<And>x. (x, e') \<in> lower_calls \<Longrightarrow> f x = g x"
  shows "expr_ids_with r f e = expr_ids_with r' g e'"
proof -
  have sub: "f x = g x" if "x \<in> set_ast_expr_kind (expr_kind e')" for x
    using f lower_calls_sub [OF that] by blast
  have sub2: "f x = g x" if "x \<in> set_ast_expr_kind (expr_kind y)" "y \<in> set_ast_expr_kind (expr_kind e')" for x y
    using f lower_calls_sub2 [OF that] by blast
  have conds: "cond_ids r' f c = cond_ids r' g c" if "c \<in> set_ast_expr_kind (expr_kind e')" for c
    by (rule cond_ids_cong) (use sub sub2 that in auto)
  show ?thesis
    unfolding assms(1,2)
    using sub conds by (cases "expr_kind e'") (auto simp: expr_ids_with_def opt_ids_def split: option.splits
        intro!: concat_map_cong pat_ids_cong block_ids_cong arm_ids_cong)
qed

function lowered_ids :: "resolver \<Rightarrow> ast_expr \<Rightarrow> node_id list" where
  "lowered_ids r e = expr_ids_with r (lowered_ids r) e"
  by pat_completeness auto

termination lowered_ids
  by (relation "inv_image lower_calls snd") (simp_all add: wf_lower_calls)

declare lowered_ids.simps [simp del]

text \<open>Macros are gone when a tree is lowered.\<close>

inductive pat_expanded :: "'e ast_pat \<Rightarrow> bool" where
  "k \<noteq> ast_pat_kind.Mac \<Longrightarrow> (\<And>q. q \<in> set2_ast_pat_kind k \<Longrightarrow> pat_expanded q) \<Longrightarrow> pat_expanded (Pat i k sp)"

inductive_simps pat_expanded_iff: "pat_expanded (Pat i k sp)"

definition stmt_expanded :: "'e ast_stmt \<Rightarrow> bool" where
  "stmt_expanded s \<longleftrightarrow>
     (case astmt_kind s of ast_stmt_kind.Mac \<Rightarrow> False | ast_stmt_kind.Local l \<Rightarrow> pat_expanded (alocal_pat l) | _ \<Rightarrow> True)"

definition block_expanded :: "'e ast_block \<Rightarrow> bool" where
  "block_expanded b \<longleftrightarrow> list_all stmt_expanded (ablock_stmts b)"

definition kind_expanded :: "'e ast_expr_kind \<Rightarrow> bool" where
  "kind_expanded k \<longleftrightarrow>
     (case k of
        Mac \<Rightarrow> False
      | Let_expr p _ \<Rightarrow> pat_expanded p
      | If_expr _ b _ \<Rightarrow> block_expanded b
      | While _ b _ \<Rightarrow> block_expanded b
      | Loop b _ \<Rightarrow> block_expanded b
      | Match _ arms \<Rightarrow> list_all (\<lambda>a. pat_expanded (aarm_pat a)) arms
      | Block b _ \<Rightarrow> block_expanded b
      | TransactionBlock b \<Rightarrow> block_expanded b
      | _ \<Rightarrow> True)"

inductive expanded :: "ast_expr \<Rightarrow> bool" where
  "kind_expanded k \<Longrightarrow> (\<And>x. x \<in> set_ast_expr_kind k \<Longrightarrow> expanded x) \<Longrightarrow> expanded (Expr i k sp as)"

inductive_simps expanded_iff: "expanded (Expr i k sp as)"


section \<open>Well-formed contexts\<close>

definition hid :: "lctx \<Rightarrow> node_id \<Rightarrow> hir_id" where
  "hid c i = (if i < length (node_id_to_hir_id c) then node_id_to_hir_id c ! i else DUMMY_HIR_ID)"

definition lowered :: "lctx \<Rightarrow> node_id set" where
  "lowered c = {i. hid c i \<noteq> DUMMY_HIR_ID}"

definition cur_owner :: "lctx \<Rightarrow> nat" where
  "cur_owner c = fst (last (current_hir_id_owner c))"

definition cur_counter :: "lctx \<Rightarrow> nat" where
  "cur_counter c = snd (last (current_hir_id_owner c))"

lemma ctx_updates [simp]:
  "hid (c\<lparr>next_node_id := n\<rparr>) = hid c" "lowered (c\<lparr>next_node_id := n\<rparr>) = lowered c"
  "hid (c\<lparr>emitted := d\<rparr>) = hid c" "lowered (c\<lparr>emitted := d\<rparr>) = lowered c"
  "hid (c\<lparr>loop_scopes := l\<rparr>) = hid c" "lowered (c\<lparr>loop_scopes := l\<rparr>) = lowered c"
  "hid (c\<lparr>is_in_loop_condition := b\<rparr>) = hid c" "lowered (c\<lparr>is_in_loop_condition := b\<rparr>) = lowered c"
  "cur_owner (c\<lparr>next_node_id := n\<rparr>) = cur_owner c" "cur_counter (c\<lparr>next_node_id := n\<rparr>) = cur_counter c"
  "cur_owner (c\<lparr>emitted := d\<rparr>) = cur_owner c" "cur_counter (c\<lparr>emitted := d\<rparr>) = cur_counter c"
  "cur_owner (c\<lparr>loop_scopes := l\<rparr>) = cur_owner c" "cur_counter (c\<lparr>loop_scopes := l\<rparr>) = cur_counter c"
  "cur_owner (c\<lparr>is_in_loop_condition := b\<rparr>) = cur_owner c" "cur_counter (c\<lparr>is_in_loop_condition := b\<rparr>) = cur_counter c"
  by (auto simp: hid_def lowered_def fun_eq_iff cur_owner_def cur_counter_def)

text \<open>The numbers the current owner has given away are the ones below its counter, each to one node.\<close>

definition table_ok :: "lctx \<Rightarrow> bool" where
  "table_ok c \<longleftrightarrow> current_hir_id_owner c \<noteq> [] \<and> length (node_id_to_hir_id c) \<le> next_node_id c \<and>
     next_node_id c \<le> MAX_INDEX \<and> inj_on (hid c) (lowered c) \<and>
     {h \<in> hid c ` lowered c. owner h = cur_owner c} = (\<lambda>k. \<lparr>owner = cur_owner c, local_id = k\<rparr>) ` {..<cur_counter c}"

text \<open>The nodes that lowering may number before it reaches them: targets of jumps and bindings.\<close>

definition mentions_ok :: "resolver \<Rightarrow> node_id set \<Rightarrow> lctx \<Rightarrow> bool" where
  "mentions_ok r E c \<longleftrightarrow> E \<subseteq> {..<next_node_id c} \<and> set (loop_scopes c) \<subseteq> E \<and>
     (\<forall>i\<in>E. \<forall>j. get_label_res r i = Some j \<longrightarrow> j \<in> E) \<and>
     (\<forall>i j. get_partial_res r i = Some (Local_res j) \<longrightarrow> j \<in> lowered c)"

text \<open>What a step of lowering leaves alone.\<close>

definition keeps :: "lctx \<Rightarrow> lctx \<Rightarrow> bool" where
  "keeps c c' \<longleftrightarrow> next_node_id c \<le> next_node_id c' \<and> (\<forall>i\<in>lowered c. hid c' i = hid c i) \<and>
     loop_scopes c' = loop_scopes c \<and> is_in_loop_condition c' = is_in_loop_condition c \<and>
     butlast (current_hir_id_owner c') = butlast (current_hir_id_owner c) \<and> cur_owner c' = cur_owner c \<and>
     item_local_id_counters c' = item_local_id_counters c \<and>
     (\<forall>i\<in>lowered c' - lowered c. owner (hid c' i) = cur_owner c)"

lemma ctx_keeps_refl [simp]: "keeps c c"
  by (simp add: keeps_def)

lemma keeps_lowered: "keeps c c' \<Longrightarrow> lowered c \<subseteq> lowered c'"
  unfolding keeps_def lowered_def by (metis (mono_tags, lifting) mem_Collect_eq subsetI)

lemma ctx_keeps_trans:
  assumes cd: "keeps c d" and de: "keeps d e"
  shows "keeps c e"
proof -
  have "owner (hid e i) = cur_owner c" if "i \<in> lowered e - lowered c" for i
    using that cd de by (cases "i \<in> lowered d") (simp_all add: keeps_def)
  moreover have "hid e i = hid c i" if "i \<in> lowered c" for i
    using that cd de keeps_lowered [OF cd] by (auto simp: keeps_def)
  ultimately show ?thesis using cd de by (simp add: keeps_def)
qed

lemma keeps_mentions: "keeps c c' \<Longrightarrow> mentions_ok r E c \<Longrightarrow> mentions_ok r E c'"
  using keeps_lowered [of c c'] by (force simp: mentions_ok_def keeps_def)

section \<open>Specifications of lowering steps\<close>

text \<open>
  \<open>lowers r E N K A ids m\<close>: in every well-formed context in which the node numbers suffice for \<open>K\<close> fresh
  ones, \<open>m\<close> returns; the numbers in its result are those in \<open>A\<close> and the ones of the nodes \<open>N\<close> and of the
  fresh nodes, each once; and it numbers no other nodes but those in \<open>E\<close>.
\<close>

definition lowers ::
  "resolver \<Rightarrow> node_id set \<Rightarrow> node_id list \<Rightarrow> nat \<Rightarrow> hir_id multiset \<Rightarrow> ('a \<Rightarrow> hir_id multiset) \<Rightarrow> 'a lower \<Rightarrow> bool" where
  "lowers r E N K A ids m \<longleftrightarrow>
     (\<forall>c. table_ok c \<longrightarrow> mentions_ok r E c \<longrightarrow> set N \<subseteq> {..<next_node_id c} \<longrightarrow> next_node_id c + K \<le> MAX_INDEX \<longrightarrow>
        (\<exists>x c'. m c = Ok (x, c') \<and> table_ok c' \<and> keeps c c' \<and> next_node_id c' \<le> next_node_id c + K \<and>
           set N \<union> {next_node_id c..<next_node_id c'} \<subseteq> lowered c' \<and>
           lowered c' \<subseteq> lowered c \<union> E \<union> set N \<union> {next_node_id c..<next_node_id c'} \<and>
           ids x = A + image_mset (hid c') (mset (N @ [next_node_id c..<next_node_id c']))))"

lemma lowersI:
  assumes "\<And>c. table_ok c \<Longrightarrow> mentions_ok r E c \<Longrightarrow> set N \<subseteq> {..<next_node_id c} \<Longrightarrow> next_node_id c + K \<le> MAX_INDEX \<Longrightarrow>
    \<exists>x c'. m c = Ok (x, c') \<and> table_ok c' \<and> keeps c c' \<and> next_node_id c' \<le> next_node_id c + K \<and>
      set N \<union> {next_node_id c..<next_node_id c'} \<subseteq> lowered c' \<and>
      lowered c' \<subseteq> lowered c \<union> E \<union> set N \<union> {next_node_id c..<next_node_id c'} \<and>
      ids x = A + image_mset (hid c') (mset (N @ [next_node_id c..<next_node_id c']))"
  shows "lowers r E N K A ids m"
  using assms unfolding lowers_def by blast

lemma lowersE:
  assumes "lowers r E N K A ids m" and "table_ok c" and "mentions_ok r E c"
    and "set N \<subseteq> {..<next_node_id c}" and "next_node_id c + K \<le> MAX_INDEX"
  obtains x c' where "m c = Ok (x, c')" and "table_ok c'" and "keeps c c'" and "next_node_id c' \<le> next_node_id c + K"
    and "set N \<union> {next_node_id c..<next_node_id c'} \<subseteq> lowered c'"
    and "lowered c' \<subseteq> lowered c \<union> E \<union> set N \<union> {next_node_id c..<next_node_id c'}"
    and "ids x = A + image_mset (hid c') (mset (N @ [next_node_id c..<next_node_id c']))"
  using assms unfolding lowers_def by blast

lemma lowers_return: "ids x = A \<Longrightarrow> lowers r E [] K A ids (lower_return x)"
  by (rule lowersI) (auto simp: lower_return_def)

lemma lowers_emit: "lowers r E [] K {#} (\<lambda>_. {#}) (lower_emit d)"
  by (rule lowersI) (auto simp: lower_emit_def table_ok_def keeps_def)

lemma image_hid_keeps:
  assumes "keeps c c'" and "set_mset M \<subseteq> lowered c"
  shows "image_mset (hid c') M = image_mset (hid c) M"
  using assms by (auto simp: keeps_def intro!: image_mset_cong)

lemma upt_split: "a \<le> b \<Longrightarrow> b \<le> c \<Longrightarrow> mset [a..<c] = mset [a..<b] + mset [b..<c]"
  by (metis le_Suc_ex mset_append upt_add_eq_append)

lemma lowers_bind:
  assumes m: "lowers r E N1 K1 {#} ids1 m" and f: "\<And>x. lowers r E N2 K2 (A + ids1 x) ids (f x)"
    and N: "mset N = mset N1 + mset N2" and K: "K1 + K2 \<le> K"
  shows "lowers r E N K A ids (lower_bind m f)"
proof (rule lowersI)
  fix c
  assume c: "table_ok c" "mentions_ok r E c" "set N \<subseteq> {..<next_node_id c}" "next_node_id c + K \<le> MAX_INDEX"
  have setN: "set N = set N1 \<union> set N2" using N by (metis set_mset_mset set_mset_union)
  then have N1: "set N1 \<subseteq> {..<next_node_id c}" using c(3) by simp
  have K1: "next_node_id c + K1 \<le> MAX_INDEX" using c(4) K by simp
  obtain x d where d: "m c = Ok (x, d)" "table_ok d" "keeps c d" "next_node_id d \<le> next_node_id c + K1"
    "set N1 \<union> {next_node_id c..<next_node_id d} \<subseteq> lowered d"
    "lowered d \<subseteq> lowered c \<union> E \<union> set N1 \<union> {next_node_id c..<next_node_id d}"
    "ids1 x = {#} + image_mset (hid d) (mset (N1 @ [next_node_id c..<next_node_id d]))"
    using lowersE [OF m c(1,2) N1 K1] by metis
  have cd: "next_node_id c \<le> next_node_id d" using d(3) by (simp add: keeps_def)
  have N2: "set N2 \<subseteq> {..<next_node_id d}" using c(3) setN cd by auto
  have K2: "next_node_id d + K2 \<le> MAX_INDEX" using c(4) d(4) K by linarith
  obtain y e where e: "f x d = Ok (y, e)" "table_ok e" "keeps d e" "next_node_id e \<le> next_node_id d + K2"
    "set N2 \<union> {next_node_id d..<next_node_id e} \<subseteq> lowered e"
    "lowered e \<subseteq> lowered d \<union> E \<union> set N2 \<union> {next_node_id d..<next_node_id e}"
    "ids y = A + ids1 x + image_mset (hid e) (mset (N2 @ [next_node_id d..<next_node_id e]))"
    using lowersE [OF f d(2) keeps_mentions [OF d(3) c(2)] N2 K2] by metis
  have de: "next_node_id d \<le> next_node_id e" using e(3) by (simp add: keeps_def)
  have "image_mset (hid d) (mset (N1 @ [next_node_id c..<next_node_id d])) =
      image_mset (hid e) (mset (N1 @ [next_node_id c..<next_node_id d]))"
    using image_hid_keeps [OF e(3), of "mset (N1 @ [next_node_id c..<next_node_id d])"] d(5) by simp
  then have "ids y = A + image_mset (hid e) (mset (N @ [next_node_id c..<next_node_id e]))"
    using d(7) e(7) N upt_split [OF cd de] by (simp add: ac_simps)
  moreover have "set N \<union> {next_node_id c..<next_node_id e} \<subseteq> lowered e"
    using d(5) e(5) setN keeps_lowered [OF e(3)] ivl_disj_un_two(3) [OF cd de] by blast
  moreover have "lowered e \<subseteq> lowered c \<union> E \<union> set N \<union> {next_node_id c..<next_node_id e}"
    using d(6) e(6) setN ivl_disj_un_two(3) [OF cd de] by blast
  ultimately show "\<exists>x c'. lower_bind m f c = Ok (x, c') \<and> table_ok c' \<and> keeps c c' \<and> next_node_id c' \<le> next_node_id c + K \<and>
      set N \<union> {next_node_id c..<next_node_id c'} \<subseteq> lowered c' \<and>
      lowered c' \<subseteq> lowered c \<union> E \<union> set N \<union> {next_node_id c..<next_node_id c'} \<and>
      ids x = A + image_mset (hid c') (mset (N @ [next_node_id c..<next_node_id c']))"
    using d(1,4) e(1,2,4) ctx_keeps_trans [OF d(3) e(3)] K by (auto simp: lower_bind_def)
qed

text \<open>A fresh node is one more node to be lowered.\<close>

lemma lowers_fresh:
  assumes f: "\<And>i. lowers r E (i # N) K A ids (f i)" and K: "K + 1 \<le> K'"
  shows "lowers r E N K' A ids (lower_bind sess_next_node_id f)"
proof (rule lowersI)
  fix c
  assume c: "table_ok c" "mentions_ok r E c" "set N \<subseteq> {..<next_node_id c}" "next_node_id c + K' \<le> MAX_INDEX"
  let ?n = "next_node_id c" and ?d = "c\<lparr>next_node_id := next_node_id c + 1\<rparr>"
  have d: "table_ok ?d" "mentions_ok r E ?d" "keeps c ?d"
    using c K by (auto simp: table_ok_def mentions_ok_def keeps_def)
  have "set (?n # N) \<subseteq> {..<next_node_id ?d}" "next_node_id ?d + K \<le> MAX_INDEX" using c(3,4) K by auto
  then obtain y e where e: "f ?n ?d = Ok (y, e)" "table_ok e" "keeps ?d e" "next_node_id e \<le> next_node_id ?d + K"
    "set (?n # N) \<union> {next_node_id ?d..<next_node_id e} \<subseteq> lowered e"
    "lowered e \<subseteq> lowered ?d \<union> E \<union> set (?n # N) \<union> {next_node_id ?d..<next_node_id e}"
    "ids y = A + image_mset (hid e) (mset ((?n # N) @ [next_node_id ?d..<next_node_id e]))"
    using lowersE [OF f d(1,2)] by metis
  have n: "?n < next_node_id e" using e(3) by (simp add: keeps_def)
  have upt: "[?n..<next_node_id e] = ?n # [next_node_id ?d..<next_node_id e]" using n by (simp add: upt_conv_Cons)
  have range: "{?n..<next_node_id e} = insert ?n {next_node_id ?d..<next_node_id e}" using n by auto
  have "sess_next_node_id c = Ok (?n, ?d)" using c(4) K by (simp add: sess_next_node_id_def assert_that_def Let_def)
  then show "\<exists>x c'. lower_bind sess_next_node_id f c = Ok (x, c') \<and> table_ok c' \<and> keeps c c' \<and>
      next_node_id c' \<le> ?n + K' \<and> set N \<union> {?n..<next_node_id c'} \<subseteq> lowered c' \<and>
      lowered c' \<subseteq> lowered c \<union> E \<union> set N \<union> {?n..<next_node_id c'} \<and>
      ids x = A + image_mset (hid c') (mset (N @ [?n..<next_node_id c']))"
    using e(1,2,4-7) ctx_keeps_trans [OF d(3) e(3)] K
    by (intro exI [of _ y] exI [of _ e]) (auto simp: lower_bind_def upt range ac_simps)
qed


section \<open>Numbering a node\<close>

lemma lowered_bound: "lowered c \<subseteq> {..<length (node_id_to_hir_id c)}"
  by (auto simp: lowered_def hid_def split: if_splits)

lemma counter_bound:
  assumes "table_ok c" and "i \<notin> lowered c" and "i < next_node_id c"
  shows "cur_counter c < MAX_INDEX"
proof -
  have fin: "finite (lowered c)" using lowered_bound [of c] finite_subset by blast
  have "cur_counter c = card ((\<lambda>k. \<lparr>owner = cur_owner c, local_id = k\<rparr>) ` {..<cur_counter c})"
    by (subst card_image) (auto simp: inj_on_def)
  also have "\<dots> = card {h \<in> hid c ` lowered c. owner h = cur_owner c}" using assms(1) by (simp add: table_ok_def)
  also have "\<dots> \<le> card (hid c ` lowered c)" using fin by (auto intro: card_mono)
  also have "\<dots> \<le> card (lowered c)" using fin by (rule card_image_le)
  also have "card (lowered c) < card {..<next_node_id c}"
  proof (rule psubset_card_mono)
    show "lowered c \<subset> {..<next_node_id c}"
      using lowered_bound [of c] assms by (force simp: table_ok_def)
  qed simp
  also have "card {..<next_node_id c} = next_node_id c" by simp
  also have "\<dots> \<le> MAX_INDEX" using assms(1) by (simp add: table_ok_def)
  finally show ?thesis .
qed

text \<open>The context after a new number has been given to node \<open>i\<close>.\<close>

lemma lower_node_id_new:
  assumes c: "table_ok c" and i: "i < next_node_id c" "i \<notin> lowered c"
  shows "\<exists>c'. lower_node_id i c = Ok (\<lparr>owner = cur_owner c, local_id = cur_counter c\<rparr>, c') \<and>
    hid c' = (hid c)(i := \<lparr>owner = cur_owner c, local_id = cur_counter c\<rparr>) \<and>
    lowered c' = insert i (lowered c) \<and> cur_owner c' = cur_owner c \<and> cur_counter c' = cur_counter c + 1 \<and>
    length (node_id_to_hir_id c') \<le> next_node_id c \<and> current_hir_id_owner c' \<noteq> [] \<and>
    next_node_id c' = next_node_id c \<and> loop_scopes c' = loop_scopes c \<and>
    is_in_loop_condition c' = is_in_loop_condition c \<and>
    butlast (current_hir_id_owner c') = butlast (current_hir_id_owner c) \<and>
    item_local_id_counters c' = item_local_id_counters c"
proof -
  let ?h = "\<lparr>owner = cur_owner c, local_id = cur_counter c\<rparr>"
  define tab where "tab = (if i + 1 > length (node_id_to_hir_id c)
    then node_id_to_hir_id c @ replicate (i + 1 - length (node_id_to_hir_id c)) DUMMY_HIR_ID else node_id_to_hir_id c)"
  let ?c = "c\<lparr>node_id_to_hir_id := tab[i := ?h],
    current_hir_id_owner := butlast (current_hir_id_owner c) @ [(cur_owner c, Suc (cur_counter c))]\<rparr>"
  have owners: "current_hir_id_owner c \<noteq> []" using c by (simp add: table_ok_def)
  have last: "last (current_hir_id_owner c) = (cur_owner c, cur_counter c)"
    by (simp add: cur_owner_def cur_counter_def)
  have bound: "cur_counter c < MAX_INDEX" using counter_bound [OF c i(2,1)] .
  have h: "?h \<noteq> DUMMY_HIR_ID" using bound by (simp add: DUMMY_HIR_ID_def)
  have len: "i < length tab" "length tab \<le> next_node_id c" using c i(1) by (auto simp: tab_def table_ok_def)
  have nth: "hid c j = (if j < length tab then tab ! j else DUMMY_HIR_ID)" for j
    by (auto simp: hid_def tab_def nth_append)
  then have old: "tab ! i = DUMMY_HIR_ID" using i(2) len(1) by (auto simp: lowered_def)
  have "i \<noteq> DUMMY_NODE_ID" using c i(1) by (simp add: table_ok_def DUMMY_NODE_ID_def)
  then have run: "lower_node_id i c = Ok (?h, ?c)"
    unfolding lower_node_id_def lower_node_id_generic_def Let_def tab_def [symmetric]
    using old owners last bound by (simp add: lower_bind_def alloc_local_def assert_that_def)
  have hid: "hid ?c = (hid c)(i := ?h)"
  proof
    fix j show "hid ?c j = ((hid c)(i := ?h)) j"
      unfolding fun_upd_apply nth using len(1) by (simp add: hid_def nth_list_update)
  qed
  have "lowered ?c = insert i (lowered c)" using h by (auto simp: lowered_def hid)
  then show ?thesis using run hid owners len(2)
    by (intro exI [of _ ?c]) (simp add: cur_owner_def cur_counter_def)
qed

lemma lower_node_id_old:
  assumes c: "table_ok c" and i: "i \<in> lowered c"
  shows "lower_node_id_generic alloc i c = Ok (hid c i, c)"
proof -
  have "i < length (node_id_to_hir_id c)" using lowered_bound [of c] i by auto
  moreover have "i \<noteq> DUMMY_NODE_ID" using calculation c by (simp add: table_ok_def DUMMY_NODE_ID_def)
  ultimately show ?thesis using i by (auto simp: lower_node_id_generic_def lowered_def hid_def Let_def)
qed

lemma lower_node_id_ok:
  assumes c: "table_ok c" and i: "i < next_node_id c"
  shows "\<exists>c'. lower_node_id i c = Ok (hid c' i, c') \<and> table_ok c' \<and> keeps c c' \<and> next_node_id c' = next_node_id c \<and>
    i \<in> lowered c' \<and> lowered c' \<subseteq> insert i (lowered c)"
proof (cases "i \<in> lowered c")
  case True
  with lower_node_id_old [OF c True, of alloc_local] c show ?thesis by (auto simp: lower_node_id_def)
next
  case False
  let ?h = "\<lparr>owner = cur_owner c, local_id = cur_counter c\<rparr>"
  from lower_node_id_new [OF c i False] obtain c' where c': "lower_node_id i c = Ok (?h, c')"
    "hid c' = (hid c)(i := ?h)" "lowered c' = insert i (lowered c)" "cur_owner c' = cur_owner c"
    "cur_counter c' = cur_counter c + 1" "length (node_id_to_hir_id c') \<le> next_node_id c"
    "current_hir_id_owner c' \<noteq> []" "next_node_id c' = next_node_id c" "loop_scopes c' = loop_scopes c"
    "is_in_loop_condition c' = is_in_loop_condition c"
    "butlast (current_hir_id_owner c') = butlast (current_hir_id_owner c)"
    "item_local_id_counters c' = item_local_id_counters c"
    by blast
  have own: "{h \<in> hid c ` lowered c. owner h = cur_owner c} = (\<lambda>k. \<lparr>owner = cur_owner c, local_id = k\<rparr>) ` {..<cur_counter c}"
    using c by (simp add: table_ok_def)
  have new: "?h \<notin> hid c ` lowered c"
  proof
    assume "?h \<in> hid c ` lowered c"
    then have "?h \<in> {h \<in> hid c ` lowered c. owner h = cur_owner c}" by simp
    then show False unfolding own by auto
  qed
  have img: "hid c' ` lowered c' = insert ?h (hid c ` lowered c)"
  proof -
    have "hid c' ` lowered c = hid c ` lowered c" using False by (intro image_cong) (auto simp: c'(2))
    moreover have "hid c' i = ?h" by (simp add: c'(2))
    ultimately show ?thesis unfolding c'(3) image_insert by simp
  qed
  have "{h \<in> hid c' ` lowered c'. owner h = cur_owner c} = insert ?h {h \<in> hid c ` lowered c. owner h = cur_owner c}"
    unfolding img by auto
  also have "\<dots> = (\<lambda>k. \<lparr>owner = cur_owner c, local_id = k\<rparr>) ` {..<cur_counter c'}"
    unfolding own c'(5) by (simp add: lessThan_Suc)
  finally have dense: "{h \<in> hid c' ` lowered c'. owner h = cur_owner c'} =
      (\<lambda>k. \<lparr>owner = cur_owner c', local_id = k\<rparr>) ` {..<cur_counter c'}" unfolding c'(4) .
  have "inj_on (hid c') (lowered c)" using c False by (auto simp: table_ok_def c'(2) inj_on_def)
  moreover have "hid c' i \<notin> hid c' ` lowered c" using new False by (auto simp: c'(2) image_iff)
  ultimately have "inj_on (hid c') (lowered c')" using False by (simp add: c'(3))
  then have "table_ok c'" using c c'(6-8) dense by (simp add: table_ok_def)
  moreover have "keeps c c'" using c' False by (auto simp: keeps_def)
  ultimately show ?thesis using c' by auto
qed

lemma lowers_node: "N = [i] \<Longrightarrow> (\<And>h. ids h = A + {#h#}) \<Longrightarrow> lowers r E N K A ids (lower_node_id i)"
  using lower_node_id_ok by (intro lowersI) fastforce

lemma lowers_node_mentioned: "i \<in> E \<Longrightarrow> lowers r E [] K {#} (\<lambda>_. {#}) (lower_node_id i)"
proof (rule lowersI)
  fix c assume i: "i \<in> E" and c: "table_ok c" "mentions_ok r E c"
  then have "i < next_node_id c" by (auto simp: mentions_ok_def)
  from lower_node_id_ok [OF c(1) this] i
  show "\<exists>x c'. lower_node_id i c = Ok (x, c') \<and> table_ok c' \<and> keeps c c' \<and> next_node_id c' \<le> next_node_id c + K \<and>
    set [] \<union> {next_node_id c..<next_node_id c'} \<subseteq> lowered c' \<and>
    lowered c' \<subseteq> lowered c \<union> E \<union> set [] \<union> {next_node_id c..<next_node_id c'} \<and>
    {#} = {#} + image_mset (hid c') (mset ([] @ [next_node_id c..<next_node_id c']))"
    by fastforce
qed

lemma lowers_next_id: "(\<And>h. ids h = A + {#h#}) \<Longrightarrow> 1 \<le> K \<Longrightarrow> lowers r E [] K A ids next_id"
  unfolding next_id_def by (rule lowers_fresh [where K = 0]) (auto intro: lowers_node)

lemma lowers_res: "(\<And>j. res = Local_res j \<Longrightarrow> \<exists>i. get_partial_res r i = Some (Local_res j)) \<Longrightarrow>
  lowers r E [] K {#} (\<lambda>_. {#}) (lower_res res)"
proof (cases res)
  case (Local_res j)
  assume "\<And>j. res = Local_res j \<Longrightarrow> \<exists>i. get_partial_res r i = Some (Local_res j)"
  with Local_res have j: "j \<in> lowered c" if "mentions_ok r E c" for c using that by (auto simp: mentions_ok_def)
  show ?thesis unfolding Local_res
    by (rule lowersI) (auto simp: lower_bind_def lower_return_def lower_node_id_old [OF _ j])
qed (auto intro: lowers_return)


section \<open>Composed steps\<close>

lemma lowers_weaken:
  "lowers r E N' K' A ids m \<Longrightarrow> mset N = mset N' \<Longrightarrow> K' \<le> K \<Longrightarrow> lowers r E N K A ids m"
  using mset_eq_setD [of N N'] unfolding lowers_def mset_append
  by (elim all_forward imp_forward ex_forward conj_forward) auto

lemma lowers_done: "ids x = A \<Longrightarrow> lowers r E [] 0 A ids (lower_return x)"
  by (rule lowers_return)

lemma lowers_seq:
  "lowers r E N1 K1 {#} ids1 m \<Longrightarrow> (\<And>x. lowers r E N2 K2 (A + ids1 x) ids (f x)) \<Longrightarrow>
     lowers r E (N1 @ N2) (K1 + K2) A ids (lower_bind m f)"
  by (rule lowers_bind) (assumption | rule mset_append | rule order_refl)+

lemma lowers_with_loop_scope:
  assumes f: "lowers r E N K A ids f" and i: "i \<in> E"
  shows "lowers r E N K A ids (with_loop_scope i f)"
proof (rule lowersI)
  fix c
  assume c: "table_ok c" "mentions_ok r E c" "set N \<subseteq> {..<next_node_id c}" "next_node_id c + K \<le> MAX_INDEX"
  let ?d = "c\<lparr>is_in_loop_condition := False, loop_scopes := loop_scopes c @ [i]\<rparr>"
  have "table_ok ?d" "mentions_ok r E ?d" using c(1,2) i by (auto simp: table_ok_def mentions_ok_def)
  then obtain x e where e: "f ?d = Ok (x, e)" "table_ok e" "keeps ?d e" "next_node_id e \<le> next_node_id c + K"
    "set N \<union> {next_node_id c..<next_node_id e} \<subseteq> lowered e"
    "lowered e \<subseteq> lowered c \<union> E \<union> set N \<union> {next_node_id c..<next_node_id e}"
    "ids x = A + image_mset (hid e) (mset (N @ [next_node_id c..<next_node_id e]))"
    using lowersE [OF f, of ?d] c(3,4) by auto
  let ?e = "e\<lparr>loop_scopes := butlast (loop_scopes e), is_in_loop_condition := is_in_loop_condition c\<rparr>"
  have "loop_scopes e = loop_scopes c @ [i]" using e(3) by (simp add: keeps_def)
  then have "with_loop_scope i f c = Ok (x, ?e)" using e(1) by (simp add: with_loop_scope_def Let_def)
  moreover have "table_ok ?e" "keeps c ?e" using e(2,3) by (auto simp: table_ok_def keeps_def)
  ultimately show "\<exists>x c'. with_loop_scope i f c = Ok (x, c') \<and> table_ok c' \<and> keeps c c' \<and>
      next_node_id c' \<le> next_node_id c + K \<and> set N \<union> {next_node_id c..<next_node_id c'} \<subseteq> lowered c' \<and>
      lowered c' \<subseteq> lowered c \<union> E \<union> set N \<union> {next_node_id c..<next_node_id c'} \<and>
      ids x = A + image_mset (hid c') (mset (N @ [next_node_id c..<next_node_id c']))"
    using e(4-7) by (intro exI [of _ x] exI [of _ ?e]) simp
qed

lemma lowers_with_loop_condition:
  assumes f: "lowers r E N K A ids f"
  shows "lowers r E N K A ids (with_loop_condition_scope f)"
proof (rule lowersI)
  fix c
  assume c: "table_ok c" "mentions_ok r E c" "set N \<subseteq> {..<next_node_id c}" "next_node_id c + K \<le> MAX_INDEX"
  let ?d = "c\<lparr>is_in_loop_condition := True\<rparr>"
  have "table_ok ?d" "mentions_ok r E ?d" using c(1,2) by (auto simp: table_ok_def mentions_ok_def)
  then obtain x e where e: "f ?d = Ok (x, e)" "table_ok e" "keeps ?d e" "next_node_id e \<le> next_node_id c + K"
    "set N \<union> {next_node_id c..<next_node_id e} \<subseteq> lowered e"
    "lowered e \<subseteq> lowered c \<union> E \<union> set N \<union> {next_node_id c..<next_node_id e}"
    "ids x = A + image_mset (hid e) (mset (N @ [next_node_id c..<next_node_id e]))"
    using lowersE [OF f, of ?d] c(3,4) by auto
  let ?e = "e\<lparr>is_in_loop_condition := is_in_loop_condition c\<rparr>"
  have "with_loop_condition_scope f c = Ok (x, ?e)" using e(1) by (simp add: with_loop_condition_scope_def Let_def)
  moreover have "table_ok ?e" "keeps c ?e" using e(2,3) by (auto simp: table_ok_def keeps_def)
  ultimately show "\<exists>x c'. with_loop_condition_scope f c = Ok (x, c') \<and> table_ok c' \<and> keeps c c' \<and>
      next_node_id c' \<le> next_node_id c + K \<and> set N \<union> {next_node_id c..<next_node_id c'} \<subseteq> lowered c' \<and>
      lowered c' \<subseteq> lowered c \<union> E \<union> set N \<union> {next_node_id c..<next_node_id c'} \<and>
      ids x = A + image_mset (hid c') (mset (N @ [next_node_id c..<next_node_id c']))"
    using e(4-7) by (intro exI [of _ x] exI [of _ ?e]) simp
qed

text \<open>A step that looks at the context first.\<close>

lemma lowers_case:
  assumes "\<And>c. table_ok c \<Longrightarrow> mentions_ok r E c \<Longrightarrow> \<exists>m'. m c = m' c \<and> lowers r E N K A ids m'"
  shows "lowers r E N K A ids m"
  using assms unfolding lowers_def by metis

lemma lowers_loop_destination:
  assumes "\<And>i l j. d = Some (i, l) \<Longrightarrow> get_label_res r i = Some j \<Longrightarrow> j \<in> E"
  shows "lowers r E [] 0 {#} (\<lambda>_. {#}) (lower_loop_destination r d)"
proof -
  have node: "lowers r E [] 0 {#} (\<lambda>_. {#}) (lower_bind (lower_node_id i) (\<lambda>h. lower_return (Inr h)))" if "i \<in> E" for i
    by (rule lowers_bind [OF lowers_node_mentioned [OF that, where K = 0] lowers_done]) simp_all
  have none: "lowers r E [] 0 {#} (\<lambda>_. {#})
    (\<lambda>c. if loop_scopes c = [] then Ok (Inl OutsideLoopScope, c)
          else lower_bind (lower_node_id (last (loop_scopes c))) (\<lambda>h. lower_return (Inr h)) c)"
  proof (rule lowers_case)
    fix c assume "mentions_ok r E c"
    then have last: "last (loop_scopes c) \<in> E" if "loop_scopes c \<noteq> []" using that by (auto simp: mentions_ok_def)
    show "\<exists>m'. (if loop_scopes c = [] then Ok (Inl OutsideLoopScope, c)
          else lower_bind (lower_node_id (last (loop_scopes c))) (\<lambda>h. lower_return (Inr h)) c) = m' c \<and>
        lowers r E [] 0 {#} (\<lambda>_. {#}) m'"
    proof (cases "loop_scopes c = []")
      case True
      then show ?thesis
        by (intro exI [of _ "lower_return (Inl OutsideLoopScope)"]) (simp add: lower_return_def [symmetric] lowers_done)
    next
      case False
      with last show ?thesis using node [of "last (loop_scopes c)"] by auto
    qed
  qed
  show ?thesis
    unfolding lower_loop_destination_def
    by (rule lowers_bind [where ?ids1.0 = "\<lambda>_. {#}" and ?K1.0 = 0 and ?N1.0 = "[]", OF _ lowers_done])
      (auto split: option.split intro!: none lowers_done node assms)
qed

lemma lowers_jump_destination:
  assumes "\<And>j. get_label_res r i = Some j \<Longrightarrow> j \<in> E"
  shows "lowers r E [] 0 {#} (\<lambda>_. {#}) (lower_jump_destination r i l)"
proof (rule lowers_case)
  fix c
  show "\<exists>m'. lower_jump_destination r i l c = m' c \<and> lowers r E [] 0 {#} (\<lambda>_. {#}) m'"
  proof (cases "is_in_loop_condition c \<and> l = None")
    case True
    then show ?thesis
      by (intro exI [of _ "lower_return \<lparr>dest_label = None, target_id = Inl UnlabeledCfInWhileCondition\<rparr>"])
        (simp add: lower_jump_destination_def lower_return_def [symmetric] lowers_done)
  next
    case False
    then show ?thesis
      by (intro exI [of _ "lower_loop_destination r (map_option (\<lambda>l. (i, l)) l)"])
        (auto simp: lower_jump_destination_def intro!: lowers_loop_destination assms)
  qed
qed

lemma lowers_map:
  assumes "\<And>x. x \<in> set xs \<Longrightarrow> lowers r E (g x) (10 * length (g x)) {#} (\<lambda>y. mset (h y)) (f x)"
  shows "lowers r E (concat (map g xs)) (10 * length (concat (map g xs))) {#} (\<lambda>ys. mset (concat (map h ys))) (lower_map f xs)"
  using assms
proof (induction xs)
  case Nil
  then show ?case by (simp add: lowers_done)
next
  case (Cons x xs)
  have x: "lowers r E (g x) (10 * length (g x)) {#} (\<lambda>y. mset (h y)) (f x)" by (rule Cons.prems) simp
  have xs: "lowers r E (concat (map g xs)) (10 * length (concat (map g xs))) {#} (\<lambda>ys. mset (concat (map h ys))) (lower_map f xs)"
    by (rule Cons.IH) (simp add: Cons.prems)
  show ?case unfolding lower_map.simps
    by (rule lowers_weaken, rule lowers_seq [OF x], rule lowers_seq [OF xs], rule lowers_done) simp_all
qed

lemma lowers_path_segment:
  "lowers r E [segment_id s] 0 {#} (\<lambda>s. mset (case seg_hir_id s of None \<Rightarrow> [] | Some i \<Rightarrow> [i])) (lower_path_segment r s)"
proof -
  have res: "lowers r E [] 0 {#} (\<lambda>_. {#}) (lower_res (expect_full_res r i))" for i
    by (rule lowers_res) (auto simp: expect_full_res_def split: option.splits)
  have node: "lowers r E [i] 0 {#} (\<lambda>h. {#h#}) (lower_node_id i)" for i by (rule lowers_node) simp_all
  show ?thesis
    unfolding lower_path_segment_def Let_def
    by (rule lowers_weaken, rule lowers_seq [OF node], rule lowers_seq [OF res], rule lowers_done) simp_all
qed

lemma path_hir_ids_concat: "path_hir_ids p = concat (map (\<lambda>s. case seg_hir_id s of None \<Rightarrow> [] | Some i \<Rightarrow> [i]) (path_segments p))"
proof -
  have "List.map_filter seg_hir_id ss = concat (map (\<lambda>s. case seg_hir_id s of None \<Rightarrow> [] | Some i \<Rightarrow> [i]) ss)" for ss
    by (induction ss) (auto split: option.splits)
  then show ?thesis by (simp add: path_hir_ids_def)
qed

lemma lowers_qpath:
  "lowers r E (map segment_id (segments p)) (10 * length (segments p)) {#} (\<lambda>q. mset (path_hir_ids q)) (lower_qpath r i p)"
proof -
  have res: "lowers r E [] 0 {#} (\<lambda>_. {#}) (lower_res (case get_partial_res r i of None \<Rightarrow> Err_res | Some pr \<Rightarrow> pr))"
    by (rule lowers_res) (auto split: option.splits)
  have segs: "lowers r E (concat (map (\<lambda>s. [segment_id s]) (segments p))) (10 * length (concat (map (\<lambda>s. [segment_id s]) (segments p)))) {#}
    (\<lambda>ss. mset (concat (map (\<lambda>s. case seg_hir_id s of None \<Rightarrow> [] | Some i \<Rightarrow> [i]) ss))) (lower_map (lower_path_segment r) (segments p))"
    by (rule lowers_map, rule lowers_weaken [OF lowers_path_segment]) simp_all
  show ?thesis
    unfolding lower_qpath_def Let_def
    by (rule lowers_weaken, rule lowers_seq [OF res], rule lowers_seq [OF segs], rule lowers_done)
      (simp_all add: path_hir_ids_concat length_concat o_def sum_list_triv concat_map_singleton)
qed


section \<open>Patterns\<close>

lemma lower_bind_assoc: "lower_bind (lower_bind m f) g = lower_bind m (\<lambda>x. lower_bind (f x) g)"
proof
  fix c show "lower_bind (lower_bind m f) g c = lower_bind m (\<lambda>x. lower_bind (f x) g) c"
    by (cases "m c") (auto simp: lower_bind_def split: prod.splits)
qed

lemma lower_bind_return: "lower_bind (lower_return x) f = f x"
  by (simp add: lower_bind_def lower_return_def fun_eq_iff)

lemmas lower_bind_laws = lower_bind_assoc lower_bind_return

lemma lowers_node1: "lowers r E [i] 0 {#} (\<lambda>h. {#h#}) (lower_node_id i)"
  by (rule lowers_node) simp_all

lemma lowers_next1: "lowers r E [] 1 {#} (\<lambda>h. {#h#}) next_id"
  by (rule lowers_next_id) simp_all

lemma lowers_emit0: "lowers r E [] 0 {#} (\<lambda>_. {#}) (lower_emit d)"
  by (rule lowers_emit)

lemma lowers_node_known:
  assumes "get_partial_res r i = Some (Local_res j)"
  shows "lowers r E [] 0 {#} (\<lambda>_. {#}) (lower_node_id j)"
proof -
  have "j \<in> lowered c" if "mentions_ok r E c" for c using that assms by (auto simp: mentions_ok_def)
  then show ?thesis by (intro lowersI) (auto simp: lower_node_id_def lower_node_id_old)
qed

text \<open>The numbers below a pattern.\<close>

definition pat_kind_hir_ids :: "(hir_expr, hir_expr hir_pat) hir_pat_kind \<Rightarrow> hir_id list" where
  "pat_kind_hir_ids k = tl (pat_hir_ids hir_ids (hir_pat.Pat DUMMY_HIR_ID k DUMMY_SP))"

lemma pat_hir_ids_kind: "pat_hir_ids hir_ids (hir_pat.Pat i k sp) = i # pat_kind_hir_ids k"
  by (simp add: pat_kind_hir_ids_def)

abbreviation lowers_pat :: "resolver \<Rightarrow> node_id set \<Rightarrow> node_id list \<Rightarrow> hir_expr hir_pat lower \<Rightarrow> bool" where
  "lowers_pat r E N m \<equiv> lowers r E N (10 * length N) {#} (\<lambda>q. mset (pat_hir_ids hir_ids q)) m"

abbreviation lowers_pats :: "resolver \<Rightarrow> node_id set \<Rightarrow> node_id list \<Rightarrow> hir_expr hir_pat list lower \<Rightarrow> bool" where
  "lowers_pats r E N m \<equiv> lowers r E N (10 * length N) {#} (\<lambda>qs. mset (concat (map (pat_hir_ids hir_ids) qs))) m"

abbreviation lowers_pat_kind ::
  "resolver \<Rightarrow> node_id set \<Rightarrow> node_id list \<Rightarrow> (hir_expr, hir_expr hir_pat) hir_pat_kind lower \<Rightarrow> bool" where
  "lowers_pat_kind r E N m \<equiv> lowers r E N (10 * length N) {#} (\<lambda>k. mset (pat_kind_hir_ids k)) m"

lemma lowers_pat_finish:
  assumes "lowers_pat_kind r E N m"
  shows "lowers r E (N @ [pat_id p]) (10 * length N) {#} (\<lambda>q. mset (pat_hir_ids hir_ids q)) (lower_bind m (pat_with_node_id_of p))"
  unfolding pat_with_node_id_of_def
  by (rule lowers_weaken, rule lowers_seq [OF assms], rule lowers_seq [OF lowers_node1], rule lowers_done)
    (simp_all add: pat_hir_ids_kind del: pat_hir_ids.simps)

lemma lowers_pat_wild: "lowers_pat r E [pat_id p] (pat_wild_with_node_id_of p)"
  unfolding pat_wild_with_node_id_of_def pat_with_node_id_of_def
  by (rule lowers_weaken, rule lowers_seq [OF lowers_node1], rule lowers_done)
    simp_all

lemma lowers_pat_ident:
  assumes sub: "lowers r E N (10 * length N) {#} (\<lambda>q. mset (case q of None \<Rightarrow> [] | Some p \<Rightarrow> pat_hir_ids hir_ids p)) m"
    and i: "i \<in> E"
  shows "lowers_pat_kind r E (if binds r i then N else []) (lower_pat_ident r i bm x m)"
proof -
  have binding: "lowers_pat_kind r E N (lower_bind (lower_node_id j) (\<lambda>h.
      lower_bind m (\<lambda>s. lower_return (Binding (lower_binding_mode bm) h x s))))"
    if "lowers r E [] 0 {#} (\<lambda>_. {#}) (lower_node_id j)" for j
    by (rule lowers_weaken, rule lowers_seq [OF that], rule lowers_seq [OF sub], rule lowers_done)
      (auto simp: pat_kind_hir_ids_def split: option.splits)
  have path: "lowers_pat_kind r E [] (lower_bind (lower_res res) (\<lambda>res. lower_return
      (hir_pat_kind.Path \<lparr>path_span = ident_span x, path_res = res, path_segments = [segment_from_ident x]\<rparr>)))"
    if "\<And>j. res \<noteq> Local_res j" for res
    by (rule lowers_weaken, rule lowers_seq [OF lowers_res], use that in simp, rule lowers_done)
      (auto simp: pat_kind_hir_ids_def path_hir_ids_def segment_from_ident_def)
  show ?thesis
  proof (cases "get_partial_res r i")
    case None
    with binding [OF lowers_node_mentioned [OF i]] show ?thesis by (simp add: lower_pat_ident_def binds_def)
  next
    case (Some res)
    then show ?thesis
      using binding [OF lowers_node_known] path
      by (cases res) (auto simp: lower_pat_ident_def binds_def Let_def simp del: lower_res.simps)
  qed
qed

lemma lowers_pat_opt:
  assumes "\<And>q. s = Some q \<Longrightarrow> lowers_pat r E (g q) (lp q)"
  shows "lowers r E (case s of None \<Rightarrow> [] | Some q \<Rightarrow> g q) (10 * length (case s of None \<Rightarrow> [] | Some q \<Rightarrow> g q)) {#}
    (\<lambda>q. mset (case q of None \<Rightarrow> [] | Some p \<Rightarrow> pat_hir_ids hir_ids p)) (lower_opt lp s)"
proof (cases s)
  case (Some q)
  show ?thesis unfolding Some lower_opt.simps option.case
    by (rule lowers_weaken, rule lowers_seq [OF assms [OF Some]], rule lowers_done) simp_all
qed (simp add: lowers_done)

lemma lowers_tuple_after:
  assumes "\<And>q. q \<in> set ps \<Longrightarrow> \<not> is_rest q \<Longrightarrow> lowers_pat r E (g q) (lp q)"
  shows "lowers_pats r E (tuple_ids g ps) (lower_pat_tuple_after lp ctx rest ps)"
  using assms
proof (induction ps)
  case (Cons p ps)
  have IH: "lowers_pats r E (tuple_ids g ps) (lower_pat_tuple_after lp ctx rest ps)"
    by (rule Cons.IH) (simp add: Cons.prems)
  show ?case
  proof (cases "is_rest p")
    case True
    have "lowers_pats r E (tuple_ids g ps) (lower_bind (ban_extra_rest_pat (pat_span p) rest ctx)
        (\<lambda>_. lower_pat_tuple_after lp ctx rest ps))"
      unfolding ban_extra_rest_pat_def using lowers_seq [OF lowers_emit0, of r E _ _ "{#}"] IH by force
    with True show ?thesis by (simp add: tuple_ids_def)
  next
    case False
    then have p: "lowers_pat r E (g p) (lp p)" using Cons.prems by simp
    have "lowers_pats r E (g p @ tuple_ids g ps)
        (lower_bind (lp p) (\<lambda>q. lower_bind (lower_pat_tuple_after lp ctx rest ps) (\<lambda>qs. lower_return (q # qs))))"
      by (rule lowers_weaken, rule lowers_seq [OF p], rule lowers_seq [OF IH], rule lowers_done) simp_all
    with False show ?thesis by (simp add: tuple_ids_def)
  qed
qed (simp add: tuple_ids_def lowers_done)

lemma lowers_tuple_from:
  assumes "\<And>q. q \<in> set ps \<Longrightarrow> \<not> is_rest q \<Longrightarrow> lowers_pat r E (g q) (lp q)"
  shows "lowers r E (tuple_ids g ps) (10 * length (tuple_ids g ps)) {#}
    (\<lambda>(qs, _). mset (concat (map (pat_hir_ids hir_ids) qs))) (lower_pat_tuple_from lp ctx idx ps)"
  using assms
proof (induction ps arbitrary: idx)
  case (Cons p ps)
  show ?case
  proof (cases "is_rest p")
    case True
    have after: "lowers_pats r E (tuple_ids g ps) (lower_pat_tuple_after lp ctx (pat_span p) ps)"
      by (rule lowers_tuple_after) (simp add: Cons.prems)
    have "lowers r E (tuple_ids g ps) (10 * length (tuple_ids g ps)) {#} (\<lambda>(qs, _). mset (concat (map (pat_hir_ids hir_ids) qs)))
        (lower_bind (lower_pat_tuple_after lp ctx (pat_span p) ps) (\<lambda>qs. lower_return (qs, Some idx)))"
      by (rule lowers_weaken, rule lowers_seq [OF after], rule lowers_done) simp_all
    with True show ?thesis by (simp add: tuple_ids_def)
  next
    case False
    then have p: "lowers_pat r E (g p) (lp p)" using Cons.prems by simp
    have IH: "lowers r E (tuple_ids g ps) (10 * length (tuple_ids g ps)) {#}
        (\<lambda>(qs, _). mset (concat (map (pat_hir_ids hir_ids) qs))) (lower_pat_tuple_from lp ctx (idx + 1) ps)"
      by (rule Cons.IH) (simp add: Cons.prems)
    have "lowers r E (g p @ tuple_ids g ps) (10 * length (g p @ tuple_ids g ps)) {#}
        (\<lambda>(qs, _). mset (concat (map (pat_hir_ids hir_ids) qs)))
        (lower_bind (lp p) (\<lambda>q. lower_bind (lower_pat_tuple_from lp ctx (idx + 1) ps) (\<lambda>(qs, rest). lower_return (q # qs, rest))))"
      by (rule lowers_weaken, rule lowers_seq [OF p], rule lowers_seq [OF IH]) (auto intro!: lowers_done)
    with False show ?thesis by (simp add: tuple_ids_def)
  qed
qed (simp add: tuple_ids_def lowers_done)


lemma lowers_emit_then:
  assumes "lowers r E N K A ids m"
  shows "lowers r E N K A ids (lower_bind (lower_emit d) (\<lambda>_. m))"
  using lowers_seq [OF lowers_emit0, of r E N K A ids "\<lambda>_. m" d] assms by simp

lemma lowers_slice_after:
  assumes "\<And>q. q \<in> set ps \<Longrightarrow> \<not> is_rest q \<Longrightarrow> sub_rest q = None \<Longrightarrow> lowers_pat r E (g q) (lp q)"
  shows "lowers_pats r E (slice_after_ids g ps) (lower_pat_slice_after lp prev ps)"
  using assms
proof (induction ps)
  case (Cons p ps)
  have IH: "lowers_pats r E (slice_after_ids g ps) (lower_pat_slice_after lp prev ps)"
    by (rule Cons.IH) (simp add: Cons.prems)
  consider "is_rest p" | "\<not> is_rest p" "sub_rest p = None" | bm x s where "\<not> is_rest p" "sub_rest p = Some (bm, x, s)"
    by (cases "sub_rest p") auto
  then show ?case
  proof cases
    case 1
    with lowers_emit_then [OF IH] show ?thesis by (simp add: ban_extra_rest_pat_def)
  next
    case 2
    then have p: "lowers_pat r E (g p) (lp p)" using Cons.prems by simp
    have "lowers_pats r E (g p @ slice_after_ids g ps)
        (lower_bind (lp p) (\<lambda>q. lower_bind (lower_pat_slice_after lp prev ps) (\<lambda>qs. lower_return (q # qs))))"
      by (rule lowers_weaken, rule lowers_seq [OF p], rule lowers_seq [OF IH], rule lowers_done) simp_all
    with 2 show ?thesis by simp
  next
    case 3
    have "lowers_pats r E ([pat_id p] @ slice_after_ids g ps)
        (lower_bind (pat_wild_with_node_id_of p) (\<lambda>q. lower_bind (ban_extra_rest_pat (pat_span s) prev ''slice'')
          (\<lambda>_. lower_bind (lower_pat_slice_after lp prev ps) (\<lambda>qs. lower_return (q # qs)))))"
      unfolding ban_extra_rest_pat_def
      by (rule lowers_weaken, rule lowers_seq [OF lowers_pat_wild], rule lowers_emit_then, rule lowers_seq [OF IH],
          rule lowers_done) simp_all
    with 3 show ?thesis by simp
  qed
qed (simp add: lowers_done)

lemma lowers_slice_from:
  assumes "\<And>q. q \<in> set ps \<Longrightarrow> \<not> is_rest q \<Longrightarrow> sub_rest q = None \<Longrightarrow> lowers_pat r E (g q) (lp q)"
    and "set (slice_ids r g ps) \<subseteq> E"
  shows "lowers r E (slice_ids r g ps) (10 * length (slice_ids r g ps)) (mset (concat (map (pat_hir_ids hir_ids) before)))
    (\<lambda>k. mset (pat_kind_hir_ids k)) (lower_pat_slice_from r lp before ps)"
  using assms
proof (induction ps arbitrary: before)
  case Nil
  then show ?case by (auto simp: pat_kind_hir_ids_def intro!: lowers_done)
next
  case (Cons p ps)
  let ?B = "mset (concat (map (pat_hir_ids hir_ids) before))"
  have after: "lowers_pats r E (slice_after_ids g ps) (lower_pat_slice_after lp prev ps)" for prev
    by (rule lowers_slice_after) (simp add: Cons.prems)
  consider "is_rest p" | "\<not> is_rest p" "sub_rest p = None" | bm x s where "\<not> is_rest p" "sub_rest p = Some (bm, x, s)"
    by (cases "sub_rest p") auto
  then show ?case
  proof cases
    case 1
    have "lowers r E ([pat_id p] @ slice_after_ids g ps) (10 * length ([pat_id p] @ slice_after_ids g ps)) ?B
        (\<lambda>k. mset (pat_kind_hir_ids k)) (lower_bind (pat_wild_with_node_id_of p) (\<lambda>slice.
           lower_bind (lower_pat_slice_after lp (pat_span p) ps) (\<lambda>after.
           lower_return (hir_pat_kind.Slice before (Some slice) after))))"
      by (rule lowers_weaken, rule lowers_seq [OF lowers_pat_wild], rule lowers_seq [OF after], rule lowers_done)
        (simp_all add: pat_kind_hir_ids_def)
    with 1 show ?thesis by simp
  next
    case 2
    then have p: "lowers_pat r E (g p) (lp p)" using Cons.prems by simp
    have IH: "lowers r E (slice_ids r g ps) (10 * length (slice_ids r g ps)) (?B + mset (pat_hir_ids hir_ids q))
        (\<lambda>k. mset (pat_kind_hir_ids k)) (lower_pat_slice_from r lp (before @ [q]) ps)" for q
      using Cons.IH [of "before @ [q]"] Cons.prems 2 by simp
    have "lowers r E (g p @ slice_ids r g ps) (10 * length (g p @ slice_ids r g ps)) ?B (\<lambda>k. mset (pat_kind_hir_ids k))
        (lower_bind (lp p) (\<lambda>q. lower_pat_slice_from r lp (before @ [q]) ps))"
      by (rule lowers_weaken, rule lowers_seq [OF p IH]) simp_all
    with 2 show ?thesis by simp
  next
    case 3
    then have "pat_id p \<in> E" using Cons.prems(2) by (auto split: if_splits)
    moreover have "lowers r E [pat_id s] (10 * length [pat_id s]) {#}
        (\<lambda>q. mset (case q of None \<Rightarrow> [] | Some p \<Rightarrow> pat_hir_ids hir_ids p))
        (lower_bind (pat_wild_with_node_id_of s) (\<lambda>q. lower_return (Some q)))"
      by (rule lowers_weaken, rule lowers_seq [OF lowers_pat_wild], rule lowers_done) simp_all
    ultimately have ident: "lowers_pat_kind r E (if binds r (pat_id p) then [pat_id s] else []) (lower_pat_ident r (pat_id p) bm x
        (lower_bind (pat_wild_with_node_id_of s) (\<lambda>q. lower_return (Some q))))"
      by (rule lowers_pat_ident [rotated])
    let ?N = "((if binds r (pat_id p) then [pat_id s] else []) @ [pat_id p]) @ slice_after_ids g ps"
    have "lowers r E ?N (10 * length ?N) ?B (\<lambda>k. mset (pat_kind_hir_ids k))
        (lower_bind (lower_bind (lower_pat_ident r (pat_id p) bm x
            (lower_bind (pat_wild_with_node_id_of s) (\<lambda>q. lower_return (Some q)))) (pat_with_node_id_of p)) (\<lambda>slice.
          lower_bind (lower_pat_slice_after lp (pat_span s) ps) (\<lambda>after.
          lower_return (hir_pat_kind.Slice before (Some slice) after))))"
      by (rule lowers_weaken, rule lowers_seq [OF lowers_pat_finish [OF ident]], rule lowers_seq [OF after], rule lowers_done)
        (simp_all add: pat_kind_hir_ids_def)
    with 3 show ?thesis by (simp add: lower_bind_assoc)
  qed
qed

lemma slice_after_ids_mem:
  "q \<in> set ps \<Longrightarrow> \<not> is_rest q \<Longrightarrow> sub_rest q = None \<Longrightarrow> set (g q) \<subseteq> set (slice_after_ids g ps)"
  by (induction ps) (auto split: option.splits)

lemma slice_ids_mem:
  "q \<in> set ps \<Longrightarrow> \<not> is_rest q \<Longrightarrow> sub_rest q = None \<Longrightarrow> set (g q) \<subseteq> set (slice_ids r g ps)"
proof (induction ps)
  case (Cons p ps)
  then show ?case using slice_after_ids_mem [of q ps g] by (auto split: option.splits)
qed simp

lemma lowers_pat_ident_opt:
  assumes i: "i \<in> E" and lp: "\<And>q. s = Some q \<Longrightarrow> binds r i \<Longrightarrow> lowers_pat r E (g q) (lp q)"
  shows "lowers_pat_kind r E (case s of None \<Rightarrow> [] | Some q \<Rightarrow> if binds r i then g q else [])
    (lower_pat_ident r i bm x (lower_opt lp s))"
proof (cases "binds r i")
  case True
  then have "lowers r E (case s of None \<Rightarrow> [] | Some q \<Rightarrow> g q) (10 * length (case s of None \<Rightarrow> [] | Some q \<Rightarrow> g q))
      {#} (\<lambda>q. mset (case q of None \<Rightarrow> [] | Some p \<Rightarrow> pat_hir_ids hir_ids p)) (lower_opt lp s)"
    using lp by (intro lowers_pat_opt) auto
  from lowers_pat_ident [OF this i] True show ?thesis by (auto split: option.splits)
next
  case False
  then obtain res where res: "get_partial_res r i = Some res" "\<And>j. res \<noteq> Local_res j"
    by (auto simp: binds_def split: option.splits resolution.splits)
  have same: "lower_pat_ident r i bm x m = lower_pat_ident r i bm x (lower_return None)" for m
    using res by (cases res) (auto simp: lower_pat_ident_def Let_def)
  have "lowers r E [] (10 * length []) {#} (\<lambda>q. mset (case q of None \<Rightarrow> [] | Some p \<Rightarrow> pat_hir_ids hir_ids p))
      (lower_return None)"
    by (simp add: lowers_done)
  from lowers_pat_ident [OF this i, of bm x] False show ?thesis
    unfolding same [of "lower_opt lp s"] by (auto split: option.splits)
qed

text \<open>The node of a pattern itself needs no fresh number.\<close>

lemma lowers_lower_pat_slack:
  assumes "\<And>e. e \<in> set_ast_pat p \<Longrightarrow> set (f e) \<subseteq> E \<Longrightarrow> lowers r E (f e) (10 * length (f e)) {#} (\<lambda>h. mset (hir_ids h)) (le e)"
    and "pat_expanded p" and "set (pat_ids r f p) \<subseteq> E"
  shows "lowers r E (pat_ids r f p) (10 * (length (pat_ids r f p) - 1)) {#} (\<lambda>q. mset (pat_hir_ids hir_ids q)) (lower_pat r le p)"
  using assms
proof (induction p)
  case (Pat i k sp)
  let ?p = "Pat i k sp"
  have le: "lowers r E (f e) (10 * length (f e)) {#} (\<lambda>h. mset (hir_ids h)) (le e)" if "e \<in> set1_ast_pat_kind k" "set (f e) \<subseteq> E" for e
    using Pat.prems(1) that by simp
  have k: "k \<noteq> ast_pat_kind.Mac" and sub_exp: "\<And>q. q \<in> set2_ast_pat_kind k \<Longrightarrow> pat_expanded q"
    using Pat.prems(2) by (auto simp: pat_expanded_iff)
  have IH: "lowers_pat r E (pat_ids r f q) (lower_pat r le q)"
    if "q \<in> set2_ast_pat_kind k" "set (pat_ids r f q) \<subseteq> E" for q
    by (rule lowers_weaken, rule Pat.IH [OF that(1)]) (use Pat.prems(1) sub_exp that in auto)
  note finish = lowers_pat_finish [where p = ?p, unfolded ast_pat.sel]
  note E = Pat.prems(3)
  show ?case
  proof (cases k)
    case Wild
    have "lowers_pat_kind r E [] (lower_return hir_pat_kind.Wild)"
      by (auto simp: pat_kind_hir_ids_def intro!: lowers_done)
    from finish [OF this] Wild show ?thesis by simp
  next
    case (Ident bm x s)
    have kind: "lowers_pat_kind r E (case s of None \<Rightarrow> [] | Some q \<Rightarrow> if binds r i then pat_ids r f q else [])
        (lower_pat_ident r i bm x (lower_opt (lower_pat r le) s))"
      by (rule lowers_pat_ident_opt) (use IH E Ident in auto)
    from finish [OF kind] Ident show ?thesis by simp
  next
    case (Or ps)
    have "lowers_pats r E (concat (map (pat_ids r f) ps)) (lower_map (lower_pat r le) ps)"
      by (rule lowers_map) (use IH E Or in auto)
    from lowers_seq [OF this lowers_done] have "lowers_pat_kind r E (concat (map (pat_ids r f) ps))
        (lower_bind (lower_map (lower_pat r le) ps) (\<lambda>pats. lower_return (hir_pat_kind.Or pats)))"
      by (rule lowers_weaken) (simp_all add: pat_kind_hir_ids_def)
    from finish [OF this] Or show ?thesis by simp
  next
    case (Tuple ps)
    have "lowers r E (tuple_ids (pat_ids r f) ps) (10 * length (tuple_ids (pat_ids r f) ps)) {#}
        (\<lambda>(qs, _). mset (concat (map (pat_hir_ids hir_ids) qs))) (lower_pat_tuple (lower_pat r le) ps ''tuple'')"
      unfolding lower_pat_tuple_def by (rule lowers_tuple_from) (use IH E Tuple in \<open>auto simp: tuple_ids_def\<close>)
    then have "lowers_pat_kind r E (tuple_ids (pat_ids r f) ps)
        (lower_bind (lower_pat_tuple (lower_pat r le) ps ''tuple'') (\<lambda>(pats, d). lower_return (hir_pat_kind.Tuple pats d)))"
      by (rule lowers_weaken [OF lowers_seq [where ?N2.0 = "[]" and ?K2.0 = 0]]) (auto simp: pat_kind_hir_ids_def intro!: lowers_done)
    from finish [OF this] Tuple show ?thesis by simp
  next
    case (Box q)
    then have q: "lowers_pat r E (pat_ids r f q) (lower_pat r le q)" using IH [of q] E by auto
    have "lowers_pat_kind r E (pat_ids r f q) (lower_bind (lower_pat r le q) (\<lambda>q. lower_return (hir_pat_kind.Box q)))"
      by (rule lowers_weaken, rule lowers_seq [OF q], rule lowers_done) (simp_all add: pat_kind_hir_ids_def)
    from finish [OF this] Box show ?thesis by simp
  next
    case (Ref q m)
    then have q: "lowers_pat r E (pat_ids r f q) (lower_pat r le q)" using IH [of q] E by auto
    have "lowers_pat_kind r E (pat_ids r f q)
        (lower_bind (lower_pat r le q) (\<lambda>q. lower_return (hir_pat_kind.Ref q (lower_mutability m))))"
      by (rule lowers_weaken, rule lowers_seq [OF q], rule lowers_done) (simp_all add: pat_kind_hir_ids_def)
    from finish [OF this] Ref show ?thesis by simp
  next
    case (Lit e)
    have "lowers_pat_kind r E (f e) (lower_bind (le e) (\<lambda>e. lower_return (hir_pat_kind.Lit e)))"
      by (rule lowers_weaken, rule lowers_seq [OF le], use Lit E in simp, use Lit E in simp, rule lowers_done) (simp_all add: pat_kind_hir_ids_def)
    from finish [OF this] Lit show ?thesis by simp
  next
    case (Range e1 e2 d)
    have "lowers_pat_kind r E (f e1 @ f e2) (lower_bind (le e1) (\<lambda>e1. lower_bind (le e2) (\<lambda>e2.
        lower_return (hir_pat_kind.Range e1 e2 (lower_range_end d)))))"
      by (rule lowers_weaken, rule lowers_seq [OF le [of e1]], use Range E in simp, use Range E in simp,
          rule lowers_seq [OF le [of e2]], use Range E in simp, use Range E in simp,
          rule lowers_done) (simp_all add: pat_kind_hir_ids_def)
    from finish [OF this] Range show ?thesis by simp
  next
    case (Slice ps)
    have "lowers r E (slice_ids r (pat_ids r f) ps) (10 * length (slice_ids r (pat_ids r f) ps))
        (mset (concat (map (pat_hir_ids hir_ids) []))) (\<lambda>k. mset (pat_kind_hir_ids k)) (lower_pat_slice_from r (lower_pat r le) [] ps)"
      by (rule lowers_slice_from) (use IH E Slice slice_ids_mem [where r = r and g = "pat_ids r f"] in \<open>force+\<close>)
    then have "lowers_pat_kind r E (slice_ids r (pat_ids r f) ps) (lower_pat_slice r (lower_pat r le) ps)"
      by (simp add: lower_pat_slice_def)
    from finish [OF this] Slice show ?thesis by simp
  next
    case Rest
    have "lowers_pat_kind r E [] (ban_illegal_rest_pat sp)"
      unfolding ban_illegal_rest_pat_def by (rule lowers_emit_then) (auto simp: pat_kind_hir_ids_def intro!: lowers_done)
    from finish [OF this] Rest show ?thesis by simp
  next
    case (Paren q)
    with Pat.IH [of q] Pat.prems(1) sub_exp E show ?thesis by simp
  qed (use k in simp)
qed

lemma lowers_lower_pat:
  assumes "\<And>e. e \<in> set_ast_pat p \<Longrightarrow> set (f e) \<subseteq> E \<Longrightarrow> lowers r E (f e) (10 * length (f e)) {#} (\<lambda>h. mset (hir_ids h)) (le e)"
    and "pat_expanded p" and "set (pat_ids r f p) \<subseteq> E"
  shows "lowers_pat r E (pat_ids r f p) (lower_pat r le p)"
  by (rule lowers_weaken [OF lowers_lower_pat_slack [OF assms]]) simp_all

lemma pat_ids_nonempty: "pat_expanded p \<Longrightarrow> pat_ids r f p \<noteq> []"
proof (induction rule: pat_expanded.induct)
  case (1 k i sp)
  then show ?case by (cases k) simp_all
qed


section \<open>Statements and blocks\<close>

abbreviation lowers_expr :: "resolver \<Rightarrow> node_id set \<Rightarrow> node_id list \<Rightarrow> hir_expr lower \<Rightarrow> bool" where
  "lowers_expr r E N m \<equiv> lowers r E N (10 * length N) {#} (\<lambda>h. mset (hir_ids h)) m"

abbreviation lowers_stmts :: "resolver \<Rightarrow> node_id set \<Rightarrow> node_id list \<Rightarrow> hir_expr hir_stmt list lower \<Rightarrow> bool" where
  "lowers_stmts r E N m \<equiv> lowers r E N (10 * length N) {#} (\<lambda>ss. mset (concat (map (stmt_hir_ids hir_ids) ss))) m"

abbreviation lowers_block :: "resolver \<Rightarrow> node_id set \<Rightarrow> node_id list \<Rightarrow> nat \<Rightarrow> hir_expr hir_block lower \<Rightarrow> bool" where
  "lowers_block r E N K m \<equiv> lowers r E N (10 * length N + K) {#} (\<lambda>b. mset (block_hir_ids hir_ids b)) m"

lemma lowers_expr_opt:
  assumes "\<And>e. x = Some e \<Longrightarrow> lowers_expr r E (f e) (le e)"
  shows "lowers r E (opt_ids f x) (10 * length (opt_ids f x)) {#} (\<lambda>y. mset (opt_hir_ids hir_ids y)) (lower_opt le x)"
proof (cases x)
  case (Some e)
  show ?thesis unfolding Some opt_ids_def option.case lower_opt.simps
    by (rule lowers_weaken, rule lowers_seq [OF assms [OF Some]], rule lowers_done) (simp_all add: opt_hir_ids_def)
qed (simp add: lowers_done opt_ids_def opt_hir_ids_def)

lemma lowers_parent_def_id: "lowers r E [] 0 {#} (\<lambda>_. {#}) parent_def_id"
  by (rule lowersI) (simp add: parent_def_id_def table_ok_def)

lemma lowers_lower_local:
  assumes le: "\<And>e. e \<in> set_ast_local l \<Longrightarrow> set (f e) \<subseteq> E \<Longrightarrow> lowers_expr r E (f e) (le e)"
    and p: "pat_expanded (alocal_pat l)" "set (pat_ids r f (alocal_pat l)) \<subseteq> E" and x: "set (opt_ids f (alocal_init l)) \<subseteq> E"
  shows "lowers r E (alocal_id l # pat_ids r f (alocal_pat l) @ opt_ids f (alocal_init l))
    (10 * length (pat_ids r f (alocal_pat l) @ opt_ids f (alocal_init l))) {#}
    (\<lambda>l. mset (opt_hir_ids hir_ids (hlocal_init l) @ hlocal_id l # pat_hir_ids hir_ids (hlocal_pat l))) (lower_local r le l)"
proof -
  have pat: "lowers_pat r E (pat_ids r f (alocal_pat l)) (lower_pat r le (alocal_pat l))"
    by (rule lowers_lower_pat [OF _ p]) (use le in \<open>cases l, simp\<close>)
  have init: "lowers r E (opt_ids f (alocal_init l)) (10 * length (opt_ids f (alocal_init l))) {#}
      (\<lambda>y. mset (opt_hir_ids hir_ids y)) (lower_opt le (alocal_init l))"
    by (rule lowers_expr_opt) (use le x in \<open>cases l, simp add: opt_ids_def\<close>)
  show ?thesis unfolding lower_local_def
    by (rule lowers_weaken, rule lowers_seq [OF lowers_parent_def_id], rule lowers_seq [OF lowers_node1],
        rule lowers_seq [OF pat], rule lowers_seq [OF init], rule lowers_done) simp_all
qed

lemma lowers_lower_stmt:
  assumes le: "\<And>e. e \<in> set_ast_stmt s \<Longrightarrow> set (f e) \<subseteq> E \<Longrightarrow> lowers_expr r E (f e) (le e)"
    and "stmt_expanded s" and E: "set (stmt_ids r f s) \<subseteq> E"
  shows "lowers_stmts r E (stmt_ids r f s) (lower_stmt r le s)"
proof (cases s)
  case (Stmt i k sp)
  have finish: "lowers_stmts r E (N @ [i]) (lower_bind (lower_bind m (\<lambda>x. lower_return (g x)))
      (\<lambda>kind. lower_bind (lower_node_id i) (\<lambda>i. lower_return [hir_stmt.Stmt i kind sp])))"
    if m: "lowers r E N (10 * length N) {#} ids m" and "\<And>x j. mset (stmt_hir_ids hir_ids (hir_stmt.Stmt j (g x) sp)) = add_mset j (ids x)"
    for N ids g and m :: "'x lower"
    unfolding lower_bind_laws
    by (rule lowers_weaken, rule lowers_seq [OF m], rule lowers_seq [OF lowers_node1], rule lowers_done) (simp_all add: that(2))
  have sub: "lowers_expr r E (f e) (le e)" if "e \<in> set_ast_stmt_kind k" "set (f e) \<subseteq> E" for e
    using le that by (simp add: Stmt)
  show ?thesis
  proof (cases k)
    case (Local l)
    have "lowers r E (alocal_id l # pat_ids r f (alocal_pat l) @ opt_ids f (alocal_init l))
        (10 * length (pat_ids r f (alocal_pat l) @ opt_ids f (alocal_init l))) {#}
        (\<lambda>l. mset (opt_hir_ids hir_ids (hlocal_init l) @ hlocal_id l # pat_hir_ids hir_ids (hlocal_pat l))) (lower_local r le l)"
      by (rule lowers_lower_local) (use sub assms(2) E in \<open>auto simp: Local Stmt stmt_expanded_def stmt_ids_def\<close>)
    then have "lowers r E (alocal_id l # pat_ids r f (alocal_pat l) @ opt_ids f (alocal_init l))
        (10 * length (alocal_id l # pat_ids r f (alocal_pat l) @ opt_ids f (alocal_init l))) {#}
        (\<lambda>l. mset (opt_hir_ids hir_ids (hlocal_init l) @ hlocal_id l # pat_hir_ids hir_ids (hlocal_pat l))) (lower_local r le l)"
      by (rule lowers_weaken) simp_all
    from finish [OF this, of hir_stmt_kind.Local] show ?thesis
      by (simp add: Stmt Local lower_stmt_def stmt_ids_def stmt_hir_ids_def)
  next
    case (Expr e)
    from finish [OF sub, of e hir_stmt_kind.Expr] E show ?thesis
      by (simp add: Stmt Expr lower_stmt_def stmt_ids_def stmt_hir_ids_def)
  next
    case (Semi e)
    from finish [OF sub, of e hir_stmt_kind.Semi] E show ?thesis
      by (simp add: Stmt Semi lower_stmt_def stmt_ids_def stmt_hir_ids_def)
  qed (use assms(2) in \<open>simp add: Stmt stmt_expanded_def\<close>)
qed

lemma lowers_lower_stmts:
  assumes "\<And>s e. s \<in> set ss \<Longrightarrow> e \<in> set_ast_stmt s \<Longrightarrow> set (f e) \<subseteq> E \<Longrightarrow> lowers_expr r E (f e) (le e)"
    and "list_all stmt_expanded ss" and "set (stmts_ids r f ss) \<subseteq> E"
  shows "lowers r E (stmts_ids r f ss) (10 * length (stmts_ids r f ss)) {#}
    (\<lambda>(ss, e). mset (concat (map (stmt_hir_ids hir_ids) ss)) + mset (opt_hir_ids hir_ids e)) (lower_stmts r le ss)"
  using assms
proof (induction ss rule: induct_list012)
  case 1
  then show ?case by (simp add: lowers_done opt_hir_ids_def)
next
  case (2 s)
  show ?case
  proof (cases "\<exists>e. astmt_kind s = ast_stmt_kind.Expr e")
    case True
    then obtain e where e: "astmt_kind s = ast_stmt_kind.Expr e" by blast
    have "lowers_expr r E (f e) (le e)" by (rule 2(1)) (use e ast_stmt.set_sel [of e s] 2(3) in auto)
    then show ?thesis unfolding lower_stmts.simps stmts_ids.simps e ast_stmt_kind.case
      by (rule lowers_weaken [OF lowers_seq [OF _ lowers_done]]) (simp_all add: opt_hir_ids_def)
  next
    case False
    then have s: "stmts_ids r f [s] = stmt_ids r f s"
      "lower_stmts r le [s] = lower_bind (lower_stmt r le s) (\<lambda>stmts. lower_return (stmts, None))"
      by (cases "astmt_kind s"; auto)+
    have "lowers_stmts r E (stmt_ids r f s) (lower_stmt r le s)"
      by (rule lowers_lower_stmt) (use 2 s(1) in auto)
    then show ?thesis unfolding s
      by (rule lowers_weaken [OF lowers_seq [OF _ lowers_done]]) (simp_all add: opt_hir_ids_def)
  qed
next
  case (3 s s' ss)
  have s: "lowers_stmts r E (stmt_ids r f s) (lower_stmt r le s)"
    by (rule lowers_lower_stmt) (use 3(3-5) in auto)
  have ss: "lowers r E (stmts_ids r f (s' # ss)) (10 * length (stmts_ids r f (s' # ss))) {#}
      (\<lambda>(ss, e). mset (concat (map (stmt_hir_ids hir_ids) ss)) + mset (opt_hir_ids hir_ids e)) (lower_stmts r le (s' # ss))"
    by (rule 3(2)) (use 3(3-5) in auto)
  show ?case unfolding lower_stmts.simps stmts_ids.simps
    by (rule lowers_weaken, rule lowers_seq [OF s], rule lowers_seq [OF ss, where ?N2.0 = "[]" and ?K2.0 = 0])
      (auto intro!: lowers_done)
qed

lemma lowers_lower_block:
  assumes le: "\<And>e. e \<in> set_ast_block b \<Longrightarrow> set (f e) \<subseteq> E \<Longrightarrow> lowers_expr r E (f e) (le e)"
    and "block_expanded b" and "set (block_ids r f b) \<subseteq> E"
  shows "lowers_block r E (block_ids r f b) 0 (lower_block r le b t)"
proof -
  have "lowers r E (stmts_ids r f (ablock_stmts b)) (10 * length (stmts_ids r f (ablock_stmts b))) {#}
      (\<lambda>(ss, e). mset (concat (map (stmt_hir_ids hir_ids) ss)) + mset (opt_hir_ids hir_ids e))
      (lower_stmts r le (ablock_stmts b))"
    by (rule lowers_lower_stmts)
      (use le [OF ast_block.set_sel] assms(2,3) in \<open>auto simp: block_expanded_def block_ids_def\<close>)
  then show ?thesis unfolding lower_block_def block_ids_def
    by (rule lowers_weaken [OF lowers_seq [where ?N2.0 = "[ablock_id b]" and ?K2.0 = 0]])
      (auto simp: block_hir_ids_def split: prod.splits intro!: lowers_weaken [OF lowers_seq [OF lowers_node1 lowers_done]])
qed


section \<open>Expressions\<close>

abbreviation lowers_kind :: "resolver \<Rightarrow> node_id set \<Rightarrow> node_id list \<Rightarrow> nat \<Rightarrow> hir_expr hir_expr_kind lower \<Rightarrow> bool" where
  "lowers_kind r E N K m \<equiv> lowers r E N (10 * length N + K) {#} (\<lambda>k. mset (kind_hir_ids hir_ids k)) m"

lemma lowers_expr_finish:
  assumes "lowers_kind r E N K m" and "K \<le> 10"
  shows "lowers_expr r E (N @ [i]) (lower_bind m (\<lambda>kind. lower_bind (lower_node_id i) (\<lambda>i.
    lower_return (hir_expr.Expr i kind sp as))))"
  by (rule lowers_weaken, rule lowers_seq [OF assms(1)], rule lowers_seq [OF lowers_node1], rule lowers_done)
    (use assms(2) in simp_all)

lemma lowers_fresh2:
  assumes "\<And>i j. lowers r E ([i, j] @ N) K A ids (f i j)"
  shows "lowers r E N (K + 2) A ids (lower_bind sess_next_node_id (\<lambda>i. lower_bind sess_next_node_id (f i)))"
proof (rule lowers_fresh [where K = "K + 1"])
  fix i
  show "lowers r E (i # N) (K + 1) A ids (lower_bind sess_next_node_id (f i))"
    by (rule lowers_fresh [where K = K], rule lowers_weaken [OF assms]) simp_all
qed simp

lemma lowers_lower_block_expr:
  assumes "lowers_block r E N 0 (lower_block r le b False)"
  shows "lowers r E N (10 * length N + 1) {#} (\<lambda>h. mset (hir_ids h)) (lower_block_expr r le b)"
  unfolding lower_block_expr_def expr_block_def mk_expr_def lower_bind_laws
  by (rule lowers_weaken, rule lowers_seq [OF assms], rule lowers_seq [OF lowers_next1], rule lowers_done)
    simp_all

lemma lowers_lock_stmt:
  assumes le: "lowers r E [i] 0 {#} (\<lambda>h. mset (hir_ids h)) (le (Expr i k DUMMY_SP []))"
  shows "lowers r E [i, j] 0 {#} (\<lambda>ss. mset (concat (map (stmt_hir_ids hir_ids) ss)))
    (lower_stmt r le (Stmt j (ast_stmt_kind.Expr (Expr i k DUMMY_SP [])) DUMMY_SP))"
  unfolding lower_stmt_def ast_stmt.sel ast_stmt_kind.case lower_bind_laws
  by (rule lowers_weaken, rule lowers_seq [OF le], rule lowers_seq [OF lowers_node1], rule lowers_done)
    (simp_all add: stmt_hir_ids_def)

lemma lowers_lower_transaction_block:
  assumes b: "lowers_block r E N 0 (lower_block r le b t)"
    and lock: "\<And>i k. k = Lock \<or> k = Unlock \<Longrightarrow> lowers r E [i] 0 {#} (\<lambda>h. mset (hir_ids h)) (le (Expr i k DUMMY_SP []))"
  shows "lowers_block r E N 7 (lower_transaction_block r le b t)"
proof -
  let ?S = "\<lambda>i j k. lower_stmt r le (Stmt j (ast_stmt_kind.Expr (Expr i k DUMMY_SP [])) DUMMY_SP)"
  have stmt: "lowers r E [i, j] 0 {#} (\<lambda>ss. mset (concat (map (stmt_hir_ids hir_ids) ss))) (?S i j k)"
    if "k = Lock \<or> k = Unlock" for i j k
    by (rule lowers_lock_stmt) (rule lock [OF that])
  have unlock: "lowers r E [] 3 A (\<lambda>b. mset (block_hir_ids hir_ids b))
      (lower_bind sess_next_node_id (\<lambda>i. lower_bind sess_next_node_id (\<lambda>j. lower_bind (?S i j Unlock) (\<lambda>ss.
       lower_bind next_id (\<lambda>h. lower_return (hir_block.Block h (ls @ [s] @ ss) None rules sp t))))))"
    if "A = mset (concat (map (stmt_hir_ids hir_ids) (ls @ [s])))" for A ls s rules sp
    by (rule lowers_weaken [OF lowers_fresh2 [where K = 1]], rule lowers_weaken, rule lowers_seq [OF stmt], simp,
        rule lowers_seq [OF lowers_next1], rule lowers_done)
      (simp_all add: that block_hir_ids_def opt_hir_ids_def)
  have "lowers r E N (10 * length N + 5 + 2) {#} (\<lambda>b. mset (block_hir_ids hir_ids b))
      (lower_bind sess_next_node_id (\<lambda>i. lower_bind sess_next_node_id (\<lambda>j. lower_bind (?S i j Lock) (\<lambda>ls.
       lower_bind (lower_block r le b t) (\<lambda>body. lower_bind next_id (\<lambda>h1. lower_bind next_id (\<lambda>h2.
       lower_bind sess_next_node_id (\<lambda>i. lower_bind sess_next_node_id (\<lambda>j. lower_bind (?S i j Unlock) (\<lambda>ss.
       lower_bind next_id (\<lambda>h. lower_return (hir_block.Block h (ls @ [hir_stmt.Stmt h2 (hir_stmt_kind.Expr
         (hir_expr.Expr h1 (hir_expr_kind.Block body None) (hblock_span body) [])) (ablock_span b)] @ ss) None
         (lower_block_check_mode (ablock_rules b)) (ablock_span b) t))))))))))))"
    by (rule lowers_fresh2, rule lowers_weaken, rule lowers_seq [OF stmt], simp, rule lowers_seq [OF b],
        rule lowers_seq [OF lowers_next1], rule lowers_seq [OF lowers_next1], rule unlock)
      (simp_all add: stmt_hir_ids_def)
  then show ?thesis
    unfolding lower_transaction_block_def Let_def expr_block_def mk_expr_def stmt_expr_def mk_stmt_def lower_bind_laws
    by (rule lowers_weaken) simp_all
qed

text \<open>The two parts of a condition, and the pattern and scrutinee they become.\<close>

lemma lowers_condition:
  assumes c: "expr_kind cond \<noteq> Mac \<Longrightarrow> (\<And>p x. expr_kind cond \<noteq> Let_expr p x) \<Longrightarrow> lowers_expr r E (f cond) (w (le cond))"
    and p: "\<And>p x. expr_kind cond = Let_expr p x \<Longrightarrow> lowers_expr r E (f x) (w (le x)) \<and> lowers_pat r E (pat_ids r f p) (lower_pat r le p)"
    and "expr_kind cond \<noteq> Mac"
  shows "lowers r E (cond_ids r f cond) (10 * length (cond_ids r f cond) + 3) {#}
    (\<lambda>(q, x, _). mset (pat_hir_ids hir_ids q) + mset (hir_ids x))
    (case expr_kind cond of
       Let_expr p x \<Rightarrow> lower_bind (w (le x)) (\<lambda>x. lower_bind (lower_pat r le p) (\<lambda>p. lower_return (p, x, d1)))
     | _ \<Rightarrow> lower_bind (w (le cond)) (\<lambda>cond. lower_bind (expr_drop_temps (hexpr_span cond) cond []) (\<lambda>cond.
           lower_bind (pat_bool sp True) (\<lambda>p. lower_return (p, cond, d2)))))"
proof (cases "\<exists>p x. expr_kind cond = Let_expr p x")
  case True
  then obtain p x where px: "expr_kind cond = Let_expr p x" by blast
  note parts = p [OF px]
  show ?thesis unfolding px ast_expr_kind.case cond_ids_def
    by (rule lowers_weaken, rule lowers_seq [OF conjunct1 [OF parts]], rule lowers_seq [OF conjunct2 [OF parts]],
        rule lowers_done) simp_all
next
  case False
  then have cond: "lowers_expr r E (f cond) (w (le cond))" using c assms(3) by blast
  have "lowers r E (f cond) (10 * length (f cond) + 3) {#} (\<lambda>(q, x, _). mset (pat_hir_ids hir_ids q) + mset (hir_ids x))
      (lower_bind (w (le cond)) (\<lambda>cond. lower_bind (expr_drop_temps (hexpr_span cond) cond []) (\<lambda>cond.
        lower_bind (pat_bool sp True) (\<lambda>p. lower_return (p, cond, d2)))))"
    unfolding expr_drop_temps_def pat_bool_def expr_bool_def mk_expr_def mk_pat_def lower_bind_laws
    by (rule lowers_weaken, rule lowers_seq [OF cond], rule lowers_seq [OF lowers_next1], rule lowers_seq [OF lowers_next1],
        rule lowers_seq [OF lowers_next1], rule lowers_done) simp_all
  with False show ?thesis by (cases "expr_kind cond") (auto simp: cond_ids_def)
qed

lemma lowers_lower_arm:
  assumes le: "\<And>e. e \<in> set_ast_arm a \<Longrightarrow> set (f e) \<subseteq> E \<Longrightarrow> lowers_expr r E (f e) (le e)"
    and p: "pat_expanded (aarm_pat a)" "set (pat_ids r f (aarm_pat a)) \<subseteq> E" and E: "set (arm_ids r f a) \<subseteq> E"
  shows "lowers r E (arm_ids r f a) (10 * length (arm_ids r f a)) {#} (\<lambda>a. mset (arm_hir_ids hir_ids a)) (lower_arm r le a)"
proof -
  have pat: "lowers r E (pat_ids r f (aarm_pat a)) (10 * (length (pat_ids r f (aarm_pat a)) - 1)) {#}
      (\<lambda>q. mset (pat_hir_ids hir_ids q)) (lower_pat r le (aarm_pat a))"
    by (rule lowers_lower_pat_slack [OF _ p]) (rule le [OF ast_arm.set_sel(1)])
  have guard: "lowers r E (opt_ids f (aarm_guard a)) (10 * length (opt_ids f (aarm_guard a))) {#}
      (\<lambda>y. mset (opt_hir_ids hir_ids y)) (lower_opt le (aarm_guard a))"
    by (rule lowers_expr_opt, rule le [OF ast_arm.set_sel(2)]) (use E in \<open>auto simp: arm_ids_def opt_ids_def\<close>)
  have body: "lowers_expr r E (f (aarm_body a)) (le (aarm_body a))" by (rule le [OF ast_arm.set_sel(3)]) (use E in \<open>auto simp: arm_ids_def\<close>)
  have "Suc (10 * (length (pat_ids r f (aarm_pat a)) - Suc 0)) \<le> 10 * length (pat_ids r f (aarm_pat a))"
    using pat_ids_nonempty [OF p(1), of r f] by (cases "pat_ids r f (aarm_pat a)") simp_all
  then show ?thesis unfolding lower_arm_def
    by - (rule lowers_weaken, rule lowers_seq [OF lowers_next1], rule lowers_seq [OF pat], rule lowers_seq [OF guard],
        rule lowers_seq [OF body], rule lowers_done, simp_all add: arm_hir_ids_def arm_ids_def)
qed

lemma lowers_lower_let:
  assumes x: "lowers_expr r E (f x) (le x)" and p: "lowers_pat r E (pat_ids r f p) (lower_pat r le p)"
  shows "lowers_kind r E (f x @ pat_ids r f p) 5 (lower_expr_let r le sp p x)"
  unfolding lower_expr_let_def expr_bool_def mk_expr_def mk_arm_def pat_wild_def mk_pat_def lower_bind_laws
  by (rule lowers_emit_then, rule lowers_weaken, rule lowers_seq [OF x], rule lowers_seq [OF p], rule lowers_seq [OF lowers_next1],
      rule lowers_seq [OF lowers_next1], rule lowers_seq [OF lowers_next1], rule lowers_seq [OF lowers_next1],
      rule lowers_seq [OF lowers_next1], rule lowers_done)
    (simp_all add: arm_hir_ids_def opt_hir_ids_def)

lemma lowers_seq_pair:
  "lowers r E N1 K1 {#} (\<lambda>(x, _). ids1 x) m \<Longrightarrow> (\<And>x y. lowers r E N2 K2 (A + ids1 x) ids (f x y)) \<Longrightarrow>
     lowers r E (N1 @ N2) (K1 + K2) A ids (lower_bind m (\<lambda>(x, y). f x y))"
  by (rule lowers_seq) auto

lemma lowers_seq_triple:
  "lowers r E N1 K1 {#} (\<lambda>(q, x, _). ids1 q x) m \<Longrightarrow> (\<And>q x d. lowers r E N2 K2 (A + ids1 q x) ids (f q x d)) \<Longrightarrow>
     lowers r E (N1 @ N2) (K1 + K2) A ids (lower_bind m (\<lambda>(q, x, d). f q x d))"
  by (rule lowers_seq) auto

lemma lowers_seq_quad:
  "lowers r E N1 K1 {#} (\<lambda>(q, x, _). ids1 q x) m \<Longrightarrow> (\<And>q x d s. lowers r E N2 K2 (A + ids1 q x) ids (f q x d s)) \<Longrightarrow>
     lowers r E (N1 @ N2) (K1 + K2) A ids (lower_bind m (\<lambda>(q, x, d, s). f q x d s))"
  by (rule lowers_seq) auto

lemma lowers_lower_if:
  assumes els: "\<And>x. els = Some x \<Longrightarrow> lowers_expr r E (f x) (le x)"
    and b: "lowers_block r E (block_ids r f b) 0 (lower_block r le b False)"
    and c: "\<And>d1 d2 :: match_source. lowers r E (cond_ids r f cond) (10 * length (cond_ids r f cond) + 3) {#}
      (\<lambda>(q, x, _). mset (pat_hir_ids hir_ids q) + mset (hir_ids x))
      (case expr_kind cond of
         Let_expr p x \<Rightarrow> lower_bind (le x) (\<lambda>x. lower_bind (lower_pat r le p) (\<lambda>p. lower_return (p, x, d1)))
       | _ \<Rightarrow> lower_bind (le cond) (\<lambda>cond. lower_bind (expr_drop_temps (hexpr_span cond) cond []) (\<lambda>cond.
             lower_bind (pat_bool sp True) (\<lambda>p. lower_return (p, cond, d2)))))"
  shows "lowers_kind r E (opt_ids f els @ block_ids r f b @ cond_ids r f cond) 9 (lower_expr_if r le sp cond b els)"
proof -
  have els': "lowers r E (opt_ids f els) (10 * length (opt_ids f els) + 2) {#} (\<lambda>(x, _). mset (hir_ids x))
      (case els of None \<Rightarrow> lower_bind (expr_block_empty sp) (\<lambda>e. lower_return (e, False))
       | Some els \<Rightarrow> lower_bind (le els) (\<lambda>e. lower_return (e, True)))"
  proof (cases els)
    case None
    show ?thesis unfolding None option.case expr_block_empty_def block_all_def expr_block_def mk_expr_def lower_bind_laws
      by (rule lowers_weaken, rule lowers_seq [OF lowers_next1], rule lowers_seq [OF lowers_next1], rule lowers_done)
        (simp_all add: opt_ids_def opt_hir_ids_def block_hir_ids_def)
  next
    case (Some x)
    show ?thesis unfolding Some option.case
      by (rule lowers_weaken, rule lowers_seq [OF els [OF Some]], rule lowers_done) (simp_all add: opt_ids_def)
  qed
  show ?thesis
    unfolding lower_expr_if_def pat_wild_def mk_pat_def mk_arm_def lower_bind_laws
    by (rule lowers_weaken, rule lowers_seq [OF lowers_next1], rule lowers_seq_pair [OF els'], rule lowers_seq [OF lowers_next1],
        rule lowers_seq [OF lowers_lower_block_expr [OF b]], rule lowers_seq_triple [OF c], rule lowers_seq [OF lowers_next1],
        rule lowers_done)
      (simp_all add: arm_hir_ids_def opt_hir_ids_def)
qed

lemma lowers_lower_while:
  assumes b: "lowers_block r E (block_ids r f b) 0 (lower_block r le b False)"
    and c: "\<And>d1 d2 :: match_source \<times> loop_source. lowers r E (cond_ids r f cond) (10 * length (cond_ids r f cond) + 3) {#}
      (\<lambda>(q, x, _). mset (pat_hir_ids hir_ids q) + mset (hir_ids x))
      (case expr_kind cond of
         Let_expr p x \<Rightarrow> lower_bind (with_loop_condition_scope (le x)) (\<lambda>x. lower_bind (lower_pat r le p) (\<lambda>p. lower_return (p, x, d1)))
       | _ \<Rightarrow> lower_bind (with_loop_condition_scope (le cond)) (\<lambda>cond. lower_bind (expr_drop_temps (hexpr_span cond) cond []) (\<lambda>cond.
             lower_bind (pat_bool sp True) (\<lambda>p. lower_return (p, cond, d2)))))"
  shows "lowers_kind r E (block_ids r f b @ cond_ids r f cond) 10 (lower_expr_while_in_loop_scope r le sp cond b l)"
proof -
  show ?thesis
    unfolding lower_expr_while_in_loop_scope_def pat_wild_def mk_pat_def mk_arm_def expr_break_def mk_expr_def expr_match_def
      block_expr_def block_all_def lower_bind_laws
    by (rule lowers_weaken, rule lowers_seq [OF lowers_next1], rule lowers_seq [OF lowers_loop_destination], simp,
        rule lowers_seq [OF lowers_next1], rule lowers_seq [OF lowers_next1],
        rule lowers_seq [OF lowers_lower_block_expr [OF b]], rule lowers_seq_quad [OF c], rule lowers_seq [OF lowers_next1],
        rule lowers_seq [OF lowers_next1], rule lowers_seq [OF lowers_next1], rule lowers_done)
      (simp_all add: arm_hir_ids_def opt_hir_ids_def block_hir_ids_def)
qed

lemma expanded_sub: "expanded e \<Longrightarrow> (x, e) \<in> sub_expr\<^sup>+ \<Longrightarrow> expanded x"
proof (induction rule: expanded.induct)
  case (1 k i sp as)
  from \<open>(x, Expr i k sp as) \<in> sub_expr\<^sup>+\<close> show ?case
    by (rule tranclE) (use 1 in \<open>auto simp: sub_expr_def\<close>)
qed

lemma expanded_kind: "expanded e \<Longrightarrow> kind_expanded (expr_kind e)"
  by (cases e) (simp add: expanded_iff)

lemma sub_exprI: "x \<in> set_ast_expr_kind (expr_kind e) \<Longrightarrow> (x, e) \<in> sub_expr\<^sup>+"
  by (auto simp: sub_expr_def)

lemma sub_expr2I:
  "x \<in> set_ast_expr_kind (expr_kind y) \<Longrightarrow> y \<in> set_ast_expr_kind (expr_kind e) \<Longrightarrow> (x, e) \<in> sub_expr\<^sup>+"
  using trancl_trans [OF sub_exprI sub_exprI] .

lemma lowers_cond_of:
  assumes le: "\<And>x. (x, e) \<in> sub_expr\<^sup>+ \<Longrightarrow> set (f x) \<subseteq> E \<Longrightarrow> lowers_expr r E (f x) (le x)"
    and exp: "expanded e" and c: "c \<in> set_ast_expr_kind (expr_kind e)" and cE: "set (cond_ids r f c) \<subseteq> E"
    and w: "\<And>N m. lowers_expr r E N m \<Longrightarrow> lowers_expr r E N (w m)"
  shows "lowers r E (cond_ids r f c) (10 * length (cond_ids r f c) + 3) {#}
    (\<lambda>(q, x, _). mset (pat_hir_ids hir_ids q) + mset (hir_ids x))
    (case expr_kind c of
       Let_expr p x \<Rightarrow> lower_bind (w (le x)) (\<lambda>x. lower_bind (lower_pat r le p) (\<lambda>p. lower_return (p, x, d1)))
     | _ \<Rightarrow> lower_bind (w (le c)) (\<lambda>cond. lower_bind (expr_drop_temps (hexpr_span cond) cond []) (\<lambda>cond.
           lower_bind (pat_bool sp True) (\<lambda>p. lower_return (p, cond, d2)))))"
proof (rule lowers_condition)
  have kc: "kind_expanded (expr_kind c)" using expanded_kind [OF expanded_sub [OF exp sub_exprI [OF c]]] .
  then show "expr_kind c \<noteq> Mac" by (auto simp: kind_expanded_def)
  show "lowers_expr r E (f c) (w (le c))" if "\<And>p x. expr_kind c \<noteq> Let_expr p x"
    using that cE by (intro w le sub_exprI c) (cases "expr_kind c"; auto simp: cond_ids_def)
  show "lowers_expr r E (f x) (w (le x)) \<and> lowers_pat r E (pat_ids r f p) (lower_pat r le p)"
    if px: "expr_kind c = Let_expr p x" for p x
  proof
    show "lowers_expr r E (f x) (w (le x))"
      using px cE by (intro w le sub_expr2I [OF _ c]) (auto simp: cond_ids_def)
    show "lowers_pat r E (pat_ids r f p) (lower_pat r le p)"
      using px cE kc by (intro lowers_lower_pat le sub_expr2I [OF _ c]) (auto simp: cond_ids_def kind_expanded_def)
  qed
qed

text \<open>What is known of the recursive calls that lower an expression.\<close>

definition lowers_subs ::
  "resolver \<Rightarrow> node_id set \<Rightarrow> (ast_expr \<Rightarrow> node_id list) \<Rightarrow> (ast_expr \<Rightarrow> hir_expr lower) \<Rightarrow> ast_expr \<Rightarrow> bool" where
  "lowers_subs r E f le e \<longleftrightarrow> expanded e \<and> set (expr_ids_with r f e) \<subseteq> E \<and>
     (\<forall>x. (x, e) \<in> sub_expr\<^sup>+ \<longrightarrow> set (f x) \<subseteq> E \<longrightarrow> lowers_expr r E (f x) (le x))"

lemma subs_trans: "lowers_subs r E f le e \<Longrightarrow> (x, e) \<in> sub_expr\<^sup>+ \<Longrightarrow> set (f x) \<subseteq> E \<Longrightarrow> lowers_expr r E (f x) (le x)"
  by (simp add: lowers_subs_def)

lemma subs_expanded: "lowers_subs r E f le e \<Longrightarrow> expanded e"
  by (simp add: lowers_subs_def)

lemma subs_kind: "lowers_subs r E f le e \<Longrightarrow> kind_expanded (expr_kind e)"
  by (simp add: lowers_subs_def expanded_kind)

lemma subs_ids: "lowers_subs r E f le e \<Longrightarrow> set (expr_ids_with r f e) \<subseteq> E"
  by (simp add: lowers_subs_def)

lemma subs_one:
  "lowers_subs r E f le e \<Longrightarrow> x \<in> set_ast_expr_kind (expr_kind e) \<Longrightarrow> set (f x) \<subseteq> E \<Longrightarrow> lowers_expr r E (f x) (le x)"
  by (rule subs_trans [OF _ sub_exprI])

lemma subs_map:
  assumes "lowers_subs r E f le e" and "set xs \<subseteq> set_ast_expr_kind (expr_kind e)" and "set (concat (map f xs)) \<subseteq> E"
  shows "lowers r E (concat (map f xs)) (10 * length (concat (map f xs))) {#} (\<lambda>ys. mset (concat (map hir_ids ys)))
    (lower_map le xs)"
  by (rule lowers_map) (use subs_one [OF assms(1)] assms(2,3) in auto)

lemma subs_opt:
  assumes "lowers_subs r E f le e" and "set_option x \<subseteq> set_ast_expr_kind (expr_kind e)" and "set (opt_ids f x) \<subseteq> E"
  shows "lowers r E (opt_ids f x) (10 * length (opt_ids f x)) {#} (\<lambda>y. mset (opt_hir_ids hir_ids y)) (lower_opt le x)"
  by (rule lowers_expr_opt) (use subs_one [OF assms(1)] assms(2,3) in \<open>auto simp: opt_ids_def\<close>)

lemma subs_block:
  assumes "lowers_subs r E f le e" and "set_ast_block b \<subseteq> set_ast_expr_kind (expr_kind e)" and "block_expanded b"
    and "set (block_ids r f b) \<subseteq> E"
  shows "lowers_block r E (block_ids r f b) 0 (lower_block r le b t)"
  by (rule lowers_lower_block) (use subs_one [OF assms(1)] assms(2-4) in auto)

text \<open>The last step of \<open>lower_expr\<close>, after kinds with one, two and no subexpressions.\<close>

abbreviation finish_expr :: "ast_expr \<Rightarrow> hir_expr hir_expr_kind lower \<Rightarrow> hir_expr lower" where
  "finish_expr e m \<equiv> lower_bind m (\<lambda>kind. lower_bind (lower_node_id (expr_id e)) (\<lambda>i.
     lower_return (hir_expr.Expr i kind (expr_span e) (expr_attrs e))))"

lemma lowers_finish: "lowers_kind r E N K m \<Longrightarrow> K \<le> 10 \<Longrightarrow> lowers_expr r E (N @ [expr_id e]) (finish_expr e m)"
  by (rule lowers_expr_finish)

lemma step_one:
  assumes "lowers_subs r E f le e" and "x \<in> set_ast_expr_kind (expr_kind e)" and "set (f x) \<subseteq> E"
    and "\<And>y. kind_hir_ids hir_ids (g y) = hir_ids y"
  shows "lowers_expr r E (f x @ [expr_id e]) (finish_expr e (lower_bind (le x) (\<lambda>y. lower_return (g y))))"
proof -
  have "lowers_kind r E (f x) 0 (lower_bind (le x) (\<lambda>y. lower_return (g y)))"
    by (rule lowers_weaken, rule lowers_seq [OF subs_one [OF assms(1-3)]], rule lowers_done) (simp_all add: assms(4))
  from lowers_finish [OF this] show ?thesis by simp
qed

lemma step_two:
  assumes subs: "lowers_subs r E f le e" and "x \<in> set_ast_expr_kind (expr_kind e)" and "y \<in> set_ast_expr_kind (expr_kind e)"
    and "set (f x @ f y) \<subseteq> E" and g: "\<And>x y. mset (kind_hir_ids hir_ids (g x y)) = mset (hir_ids x) + mset (hir_ids y)"
  shows "lowers_expr r E ((f x @ f y) @ [expr_id e])
    (finish_expr e (lower_bind (le x) (\<lambda>x. lower_bind (le y) (\<lambda>y. lower_return (g x y)))))"
proof -
  have x: "lowers_expr r E (f x) (le x)" and y: "lowers_expr r E (f y) (le y)" using subs_one [OF subs] assms(2-4) by auto
  have "lowers_kind r E (f x @ f y) 0 (lower_bind (le x) (\<lambda>x. lower_bind (le y) (\<lambda>y. lower_return (g x y))))"
    by (rule lowers_weaken, rule lowers_seq [OF x], rule lowers_seq [OF y], rule lowers_done) (simp_all add: g)
  from lowers_finish [OF this] show ?thesis by simp
qed

lemma step_leaf:
  assumes "kind_hir_ids hir_ids k = []"
  shows "lowers_expr r E ([] @ [expr_id e]) (finish_expr e (lower_return k))"
proof -
  have "lowers_kind r E [] 0 (lower_return k)" using assms by (simp add: lowers_done)
  from lowers_finish [OF this] show ?thesis by simp
qed

lemmas step_defs = lower_expr_with_def expr_ids_with_def Let_def

lemma lowers_step_operators:
  assumes subs: "lowers_subs r E f le e"
    and kind: "case expr_kind e of Box _ \<Rightarrow> True | Unary _ _ \<Rightarrow> True
      | AddrOf _ _ \<Rightarrow> True | Field _ _ \<Rightarrow> True | Binary _ _ _ \<Rightarrow> True
      | Assign _ _ \<Rightarrow> True | AssignOp _ _ _ \<Rightarrow> True | Index _ _ \<Rightarrow> True
      | Lock \<Rightarrow> True | Unlock \<Rightarrow> True | Err \<Rightarrow> True | Lit _ \<Rightarrow> True
      | _ \<Rightarrow> False"
  shows "lowers_expr r E (expr_ids_with r f e) (lower_expr_with r le e)"
proof (cases "expr_kind e")
  case (Box x)
  then show ?thesis using step_one [OF subs, of x hir_expr_kind.Box] subs_ids [OF subs] by (simp add: step_defs)
next
  case (Unary op x)
  then show ?thesis using step_one [OF subs, of x "hir_expr_kind.Unary (lower_unop op)"] subs_ids [OF subs] by (simp add: step_defs)
next
  case (AddrOf m x)
  then show ?thesis using step_one [OF subs, of x "hir_expr_kind.AddrOf (lower_mutability m)"] subs_ids [OF subs] by (simp add: step_defs)
next
  case (Field x n)
  then show ?thesis using step_one [OF subs, of x "\<lambda>y. hir_expr_kind.Field y n"] subs_ids [OF subs] by (simp add: step_defs)
next
  case (Binary op x y)
  then show ?thesis using step_two [OF subs, of x y "hir_expr_kind.Binary (lower_binop op)"] subs_ids [OF subs] by (simp add: step_defs)
next
  case (Assign x y)
  then show ?thesis using step_two [OF subs, of x y hir_expr_kind.Assign] subs_ids [OF subs] by (simp add: step_defs)
next
  case (AssignOp op x y)
  then show ?thesis using step_two [OF subs, of x y "hir_expr_kind.AssignOp (lower_binop op)"] subs_ids [OF subs] by (simp add: step_defs)
next
  case (Index x y)
  then show ?thesis using step_two [OF subs, of x y hir_expr_kind.Index] subs_ids [OF subs] by (simp add: step_defs)
next
  case Lock
  then show ?thesis using step_leaf [where e = e, of hir_expr_kind.Lock] by (simp add: step_defs)
next
  case Unlock
  then show ?thesis using step_leaf [where e = e, of hir_expr_kind.Unlock] by (simp add: step_defs)
next
  case Err
  then show ?thesis using step_leaf [where e = e, of hir_expr_kind.Err] by (simp add: step_defs)
next
  case (Lit l)
  then show ?thesis using step_leaf [where e = e, of "hir_expr_kind.Lit \<lparr>lit_kind = lit_kind l, lit_span = lit_span l\<rparr>"] by (simp add: step_defs)
qed (use kind in simp_all)

lemma lowers_step_lists:
  assumes subs: "lowers_subs r E f le e"
    and kind: "case expr_kind e of Array _ \<Rightarrow> True | Tup _ \<Rightarrow> True | Call _ _ \<Rightarrow> True
      | Match _ _ \<Rightarrow> True | _ \<Rightarrow> False"
  shows "lowers_expr r E (expr_ids_with r f e) (lower_expr_with r le e)"
proof (cases "expr_kind e")
  case (Array xs)
  then have xs: "lowers r E (concat (map f xs)) (10 * length (concat (map f xs))) {#} (\<lambda>ys. mset (concat (map hir_ids ys))) (lower_map le xs)"
    using subs_ids [OF subs] by (intro subs_map [OF subs]) (auto simp: step_defs)
  have "lowers_kind r E (concat (map f xs)) 0 (lower_bind (lower_map le xs) (\<lambda>xs. lower_return (hir_expr_kind.Array xs)))"
    by (rule lowers_weaken, rule lowers_seq [OF xs], rule lowers_done) simp_all
  from lowers_finish [where e = e, OF this] Array show ?thesis by (simp add: step_defs)
next
  case (Tup xs)
  then have xs: "lowers r E (concat (map f xs)) (10 * length (concat (map f xs))) {#} (\<lambda>ys. mset (concat (map hir_ids ys))) (lower_map le xs)"
    using subs_ids [OF subs] by (intro subs_map [OF subs]) (auto simp: step_defs)
  have "lowers_kind r E (concat (map f xs)) 0 (lower_bind (lower_map le xs) (\<lambda>xs. lower_return (hir_expr_kind.Tup xs)))"
    by (rule lowers_weaken, rule lowers_seq [OF xs], rule lowers_done) simp_all
  from lowers_finish [where e = e, OF this] Tup show ?thesis by (simp add: step_defs)
next
  case (Call x xs)
  then have xs: "lowers r E (concat (map f xs)) (10 * length (concat (map f xs))) {#} (\<lambda>ys. mset (concat (map hir_ids ys))) (lower_map le xs)"
    and x: "lowers_expr r E (f x) (le x)"
    using subs_ids [OF subs] by (intro subs_map [OF subs] subs_one [OF subs]; auto simp: step_defs)+
  have "lowers_kind r E (f x @ concat (map f xs)) 0
      (lower_bind (le x) (\<lambda>f. lower_bind (lower_map le xs) (\<lambda>args. lower_return (hir_expr_kind.Call f args))))"
    by (rule lowers_weaken, rule lowers_seq [OF x], rule lowers_seq [OF xs], rule lowers_done) simp_all
  from lowers_finish [where e = e, OF this] Call show ?thesis by (simp add: step_defs)
next
  case (Match x arms)
  then have x: "lowers_expr r E (f x) (le x)" using subs_ids [OF subs] by (intro subs_one [OF subs]) (auto simp: step_defs)
  have arms: "lowers r E (concat (map (arm_ids r f) arms)) (10 * length (concat (map (arm_ids r f) arms))) {#}
      (\<lambda>ys. mset (concat (map (arm_hir_ids hir_ids) ys))) (lower_map (lower_arm r le) arms)"
    by (rule lowers_map, rule lowers_lower_arm)
      (use Match subs_ids [OF subs] subs_kind [OF subs] subs_one [OF subs] in \<open>auto simp: step_defs kind_expanded_def list_all_iff arm_ids_def\<close>)
  have "lowers_kind r E (f x @ concat (map (arm_ids r f) arms)) 0 (lower_bind (le x) (\<lambda>x.
      lower_bind (lower_map (lower_arm r le) arms) (\<lambda>arms. lower_return (hir_expr_kind.Match x arms NormalMatch))))"
    by (rule lowers_weaken, rule lowers_seq [OF x], rule lowers_seq [OF arms], rule lowers_done) simp_all
  from lowers_finish [where e = e, OF this] Match show ?thesis by (simp add: step_defs)
qed (use kind in simp_all)

lemma lowers_step_jumps:
  assumes subs: "lowers_subs r E f le e"
    and labels: "\<And>i j. i \<in> E \<Longrightarrow> get_label_res r i = Some j \<Longrightarrow> j \<in> E"
    and kind: "case expr_kind e of Path _ \<Rightarrow> True | Continue _ \<Rightarrow> True
      | Break _ _ \<Rightarrow> True | Ret _ \<Rightarrow> True | Paren _ \<Rightarrow> True
      | _ \<Rightarrow> False"
  shows "lowers_expr r E (expr_ids_with r f e) (lower_expr_with r le e)"
proof (cases "expr_kind e")
  case (Path p)
  have "lowers_kind r E (map segment_id (segments p)) 0
      (lower_bind (lower_qpath r (expr_id e) p) (\<lambda>q. lower_return (hir_expr_kind.Path q)))"
    by (rule lowers_weaken, rule lowers_seq [OF lowers_qpath], rule lowers_done) simp_all
  from lowers_finish [where e = e, OF this] Path show ?thesis by (simp add: step_defs)
next
  case (Continue l)
  then have i: "expr_id e \<in> E" using subs_ids [OF subs] by (simp add: step_defs)
  have "lowers_kind r E [] 0 (lower_bind (lower_jump_destination r (expr_id e) l) (\<lambda>d. lower_return (hir_expr_kind.Continue d)))"
    by (rule lowers_weaken, rule lowers_seq [OF lowers_jump_destination [OF labels [OF i]]], assumption, rule lowers_done) simp_all
  from lowers_finish [where e = e, OF this] Continue show ?thesis by (simp add: step_defs)
next
  case (Break l x)
  then have i: "expr_id e \<in> E" using subs_ids [OF subs] by (simp add: step_defs)
  from Break have x: "lowers r E (opt_ids f x) (10 * length (opt_ids f x)) {#} (\<lambda>y. mset (opt_hir_ids hir_ids y)) (lower_opt le x)"
    using subs_ids [OF subs] by (intro subs_opt [OF subs]) (auto simp: step_defs)
  have "lowers_kind r E (opt_ids f x) 0 (lower_bind (lower_jump_destination r (expr_id e) l) (\<lambda>d.
      lower_bind (lower_opt le x) (\<lambda>x. lower_return (hir_expr_kind.Break d x))))"
    by (rule lowers_weaken, rule lowers_seq [OF lowers_jump_destination [OF labels [OF i]]], assumption, rule lowers_seq [OF x],
        rule lowers_done) simp_all
  from lowers_finish [where e = e, OF this] Break show ?thesis by (simp add: step_defs)
next
  case (Ret x)
  then have x: "lowers r E (opt_ids f x) (10 * length (opt_ids f x)) {#} (\<lambda>y. mset (opt_hir_ids hir_ids y)) (lower_opt le x)"
    using subs_ids [OF subs] by (intro subs_opt [OF subs]) (auto simp: step_defs)
  have "lowers_kind r E (opt_ids f x) 0 (lower_bind (lower_opt le x) (\<lambda>x. lower_return (hir_expr_kind.Ret x)))"
    by (rule lowers_weaken, rule lowers_seq [OF x], rule lowers_done) simp_all
  from lowers_finish [where e = e, OF this] Ret show ?thesis by (simp add: step_defs)
next
  case (Paren x)
  then have x: "lowers_expr r E (f x) (le x)" using subs_ids [OF subs] by (intro subs_one [OF subs]) (auto simp: step_defs)
  have "lowers_expr r E (f x) (lower_bind (le x) (\<lambda>ex.
      lower_return (hir_expr.Expr (hexpr_id ex) (hexpr_kind ex) (g ex) (h ex))))" for g h
  proof (rule lowers_weaken, rule lowers_seq [OF x], rule lowers_done)
    show "mset (hir_ids (hir_expr.Expr (hexpr_id y) (hexpr_kind y) (g y) (h y))) = {#} + mset (hir_ids y)" for y
      by (cases y) simp
  qed simp_all
  with Paren show ?thesis by (simp add: step_defs)
qed (use kind in simp_all)

lemma lowers_step_blocks:
  assumes subs: "lowers_subs r E f le e"
    and lock: "\<And>i k. k = Lock \<or> k = Unlock \<Longrightarrow> lowers r E [i] 0 {#} (\<lambda>h. mset (hir_ids h)) (le (Expr i k DUMMY_SP []))"
    and kind: "case expr_kind e of Block _ _ \<Rightarrow> True | TransactionBlock _ \<Rightarrow> True
      | Loop _ _ \<Rightarrow> True | _ \<Rightarrow> False"
  shows "lowers_expr r E (expr_ids_with r f e) (lower_expr_with r le e)"
proof (cases "expr_kind e")
  case (Block b l)
  then have b: "lowers_block r E (block_ids r f b) 0 (lower_block r le b (l \<noteq> None))"
    using subs_ids [OF subs] subs_kind [OF subs] by (intro subs_block [OF subs]) (auto simp: step_defs kind_expanded_def)
  have "lowers_kind r E (block_ids r f b) 0 (lower_bind (lower_block r le b (l \<noteq> None)) (\<lambda>b.
      lower_return (hir_expr_kind.Block b (lower_label l))))"
    by (rule lowers_weaken, rule lowers_seq [OF b], rule lowers_done) simp_all
  from lowers_finish [where e = e, OF this] Block show ?thesis by (simp add: step_defs)
next
  case (TransactionBlock b)
  then have b: "lowers_block r E (block_ids r f b) 0 (lower_block r le b True)"
    using subs_ids [OF subs] subs_kind [OF subs] by (intro subs_block [OF subs]) (auto simp: step_defs kind_expanded_def)
  have "lowers_kind r E (block_ids r f b) 7 (lower_expr_txn_block r le b)"
    unfolding lower_expr_txn_block_def
    by (rule lowers_weaken, rule lowers_seq [OF lowers_lower_transaction_block [OF b lock]], assumption, rule lowers_done)
      simp_all
  from lowers_finish [where e = e, OF this] TransactionBlock show ?thesis by (simp add: step_defs)
next
  case (Loop b l)
  then have b: "lowers_block r E (block_ids r f b) 0 (lower_block r le b False)"
    using subs_ids [OF subs] subs_kind [OF subs] by (intro subs_block [OF subs]) (auto simp: step_defs kind_expanded_def)
  have i: "expr_id e \<in> E" using subs_ids [OF subs] Loop by (auto simp: step_defs)
  have "lowers_kind r E (block_ids r f b) 0 (with_loop_scope (expr_id e) (lower_bind (lower_block r le b False) (\<lambda>b.
      lower_return (hir_expr_kind.Loop b (lower_label l) LoopLoop))))"
    by (rule lowers_with_loop_scope [OF _ i], rule lowers_weaken, rule lowers_seq [OF b], rule lowers_done) simp_all
  from lowers_finish [where e = e, OF this] Loop show ?thesis by (simp add: step_defs)
qed (use kind in simp_all)

lemma lowers_step_conditions:
  assumes subs: "lowers_subs r E f le e"
    and kind: "case expr_kind e of Let_expr _ _ \<Rightarrow> True | If_expr _ _ _ \<Rightarrow> True
      | While _ _ _ \<Rightarrow> True | _ \<Rightarrow> False"
  shows "lowers_expr r E (expr_ids_with r f e) (lower_expr_with r le e)"
proof (cases "expr_kind e")
  case (Let_expr p x)
  then have "lowers_expr r E (f x) (le x)" "lowers_pat r E (pat_ids r f p) (lower_pat r le p)"
    using subs_ids [OF subs] subs_kind [OF subs] subs_one [OF subs] by (auto simp: step_defs kind_expanded_def intro!: lowers_lower_pat)
  from lowers_finish [where e = e, OF lowers_lower_let [OF this, of "expr_span e"]] Let_expr show ?thesis by (simp add: step_defs)
next
  case (If_expr c b els)
  have c: "c \<in> set_ast_expr_kind (expr_kind e)" using If_expr by simp
  have "lowers_kind r E (opt_ids f els @ block_ids r f b @ cond_ids r f c) 9 (lower_expr_if r le (expr_span e) c b els)"
  proof (rule lowers_lower_if)
    show "lowers_block r E (block_ids r f b) 0 (lower_block r le b False)"
      by (rule subs_block [OF subs]) (use If_expr subs_ids [OF subs] subs_kind [OF subs] in \<open>auto simp: step_defs kind_expanded_def\<close>)
  next
    show "lowers_expr r E (f x) (le x)" if "els = Some x" for x
      by (rule subs_one [OF subs]) (use that If_expr subs_ids [OF subs] in \<open>auto simp: step_defs opt_ids_def\<close>)
  qed (rule lowers_cond_of [where w = "\<lambda>m. m", OF subs_trans [OF subs] subs_expanded [OF subs] c]; use If_expr subs_ids [OF subs] in \<open>simp add: step_defs\<close>)
  from lowers_finish [where e = e, OF this] If_expr show ?thesis by (simp add: step_defs)
next
  case (While c b l)
  then have c: "c \<in> set_ast_expr_kind (expr_kind e)" and i: "expr_id e \<in> E" using subs_ids [OF subs] by (auto simp: step_defs)
  have "lowers_kind r E (block_ids r f b @ cond_ids r f c) 10 (lower_expr_while_in_loop_scope r le (expr_span e) c b l)"
  proof (rule lowers_lower_while)
    show "lowers_block r E (block_ids r f b) 0 (lower_block r le b False)"
      by (rule subs_block [OF subs]) (use While subs_ids [OF subs] subs_kind [OF subs] in \<open>auto simp: step_defs kind_expanded_def\<close>)
  qed (rule lowers_cond_of [where w = with_loop_condition_scope, OF subs_trans [OF subs] subs_expanded [OF subs] c];
      use While subs_ids [OF subs] in \<open>simp add: step_defs lowers_with_loop_condition\<close>)
  from lowers_finish [where e = e, OF lowers_with_loop_scope [OF this i]] While show ?thesis by (simp add: step_defs)
qed (use kind in simp_all)

lemma lowers_expr_step:
  assumes subs: "lowers_subs r E f le e"
    and lock: "\<And>i k. k = Lock \<or> k = Unlock \<Longrightarrow> lowers r E [i] 0 {#} (\<lambda>h. mset (hir_ids h)) (le (Expr i k DUMMY_SP []))"
    and labels: "\<And>i j. i \<in> E \<Longrightarrow> get_label_res r i = Some j \<Longrightarrow> j \<in> E"
  shows "lowers_expr r E (expr_ids_with r f e) (lower_expr_with r le e)"
proof (cases "expr_kind e")
  case Mac
  with subs_kind [OF subs] show ?thesis by (simp add: kind_expanded_def)
qed (use lowers_step_operators [OF subs] lowers_step_lists [OF subs] lowers_step_jumps [OF subs labels]
    lowers_step_blocks [OF subs lock] lowers_step_conditions [OF subs] in \<open>simp_all only: ast_expr_kind.case simp_thms\<close>)

lemma lowers_lower_lock:
  assumes "k = Lock \<or> k = Unlock"
  shows "lowers r E [i] 0 {#} (\<lambda>h. mset (hir_ids h)) (lower_expr r (Expr i k sp as))"
proof -
  have "lowers r E [i] 0 {#} (\<lambda>h. mset (hir_ids h))
      (lower_bind (lower_node_id i) (\<lambda>h. lower_return (hir_expr.Expr h k' sp as)))" if "kind_hir_ids hir_ids k' = []" for k'
    by (rule lowers_weaken, rule lowers_seq [OF lowers_node1], rule lowers_done) (simp_all add: that)
  with assms show ?thesis by (auto simp: lower_expr.simps [of r] lower_expr_with_def lower_bind_laws)
qed

lemma lowers_lower_expr:
  assumes "expanded e" and "set (lowered_ids r e) \<subseteq> E" 
    and labels: "\<And>i j. i \<in> E \<Longrightarrow> get_label_res r i = Some j \<Longrightarrow> j \<in> E"
  shows "lowers_expr r E (lowered_ids r e) (lower_expr r e)"
  using assms(1,2)
proof (induction e rule: wf_induct [OF wf_trancl [OF wf_sub_expr]])
  case (1 e)
  show ?case
    unfolding lowered_ids.simps [of r e] lower_expr.simps [of r e]
  proof (rule lowers_expr_step)
    show "lowers_subs r E (lowered_ids r) (lower_expr r) e"
      using 1 expanded_sub [OF 1(2)] by (simp add: lowers_subs_def lowered_ids.simps [of r e])
  qed (use labels lowers_lower_lock in simp_all)
qed


section \<open>The validator of HIR numbers\<close>

text \<open>
  \<open>librustc/hir/map/hir_id_validator.rs\<close>: the walk over an item visits the numbers of its nodes; in the
  end the local numbers must be dense. The messages are reduced to what they report.
\<close>

datatype validator_error = Invalid_id hir_id | Wrong_owner hir_id nat | Not_dense nat "nat list"

record hir_id_validator =
  owner_def_index :: "nat option"
  hir_ids_seen :: "nat list"
  errors :: "validator_error list"

definition new_validator :: hir_id_validator where
  "new_validator = \<lparr>owner_def_index = None, hir_ids_seen = [], errors = []\<rparr>"

definition validator_visit_id :: "hir_id \<Rightarrow> hir_id_validator \<Rightarrow> hir_id_validator res" where
  "validator_visit_id h v =
     res_bind (unwrap (owner_def_index v)) (\<lambda>ow.
       if h = DUMMY_HIR_ID then Ok (v\<lparr>errors := errors v @ [Invalid_id h]\<rparr>)
       else let v = (if ow \<noteq> owner h then v\<lparr>errors := errors v @ [Wrong_owner h ow]\<rparr> else v)
            in Ok (v\<lparr>hir_ids_seen := List.insert (local_id h) (hir_ids_seen v)\<rparr>))"

definition validator_check ::
  "nat \<Rightarrow> (hir_id_validator \<Rightarrow> hir_id_validator res) \<Rightarrow> hir_id_validator \<Rightarrow> hir_id_validator res" where
  "validator_check def_index walk v =
     res_bind (assert_that (owner_def_index v = None)) (\<lambda>_.
     res_bind (walk (v\<lparr>owner_def_index := Some def_index\<rparr>)) (\<lambda>v.
       if def_index = 0 then Ok v
       else res_bind (unwrap (if hir_ids_seen v = [] then None else Some (Max (set (hir_ids_seen v))))) (\<lambda>m.
         if m \<noteq> length (hir_ids_seen v) - 1
         then Ok (v\<lparr>errors := errors v @ [Not_dense m (filter (\<lambda>i. i \<notin> set (hir_ids_seen v)) [0..<m + 1])]\<rparr>)
         else Ok v)))"

text \<open>The walk over the numbers of an item: those of its signature and those of its body.\<close>

definition visit_ids :: "hir_id list \<Rightarrow> hir_id_validator \<Rightarrow> hir_id_validator res" where
  "visit_ids hs v = res_for hs validator_visit_id v"

lemma visit_ids_clean:
  assumes "owner_def_index v = Some ow" and "\<forall>h\<in>set hs. h \<noteq> DUMMY_HIR_ID \<and> owner h = ow" and "distinct (hir_ids_seen v)"
  shows "\<exists>v'. visit_ids hs v = Ok v' \<and> errors v' = errors v \<and> distinct (hir_ids_seen v') \<and>
    set (hir_ids_seen v') = set (hir_ids_seen v) \<union> local_id ` set hs"
  using assms
proof (induction hs arbitrary: v)
  case (Cons h hs)
  let ?v = "v\<lparr>hir_ids_seen := List.insert (local_id h) (hir_ids_seen v)\<rparr>"
  have "validator_visit_id h v = Ok ?v" using Cons.prems by (simp add: validator_visit_id_def)
  moreover have "\<exists>v'. visit_ids hs ?v = Ok v' \<and> errors v' = errors ?v \<and> distinct (hir_ids_seen v') \<and>
      set (hir_ids_seen v') = set (hir_ids_seen ?v) \<union> local_id ` set hs"
    using Cons.prems by (intro Cons.IH) auto
  ultimately show ?case by (auto simp: visit_ids_def)
qed (simp add: visit_ids_def)

lemma validator_accepts:
  assumes "\<forall>h\<in>set hs. h \<noteq> DUMMY_HIR_ID \<and> owner h = ow" and "local_id ` set hs = {..<n}" and "0 < n"
  shows "\<exists>v. validator_check ow (visit_ids hs) new_validator = Ok v \<and> errors v = []"
proof -
  let ?v = "new_validator\<lparr>owner_def_index := Some ow\<rparr>"
  have fresh: "owner_def_index ?v = Some ow" "distinct (hir_ids_seen ?v)" "hir_ids_seen ?v = []" "errors ?v = []"
    by (simp_all add: new_validator_def)
  from visit_ids_clean [OF fresh(1) assms(1) fresh(2)] obtain v where v: "visit_ids hs ?v = Ok v" "errors v = []"
    "distinct (hir_ids_seen v)" "set (hir_ids_seen v) = {..<n}"
    unfolding fresh(3,4) assms(2) by (metis Un_empty_left list.set(1))
  have "length (hir_ids_seen v) = n" using v(3,4) distinct_card [of "hir_ids_seen v"] by simp
  moreover have "Max (set (hir_ids_seen v)) = n - 1"
    unfolding v(4) using assms(3) by (intro Max_eqI) (simp_all add: less_eq_Suc_le)
  moreover have "hir_ids_seen v \<noteq> []"
  proof
    assume "hir_ids_seen v = []"
    with v(4) have "{..<n} = {}" by simp
    with assms(3) show False by (metis lessThan_iff empty_iff)
  qed
  moreover have "owner_def_index new_validator = None" by (simp add: new_validator_def)
  ultimately show ?thesis by (simp add: validator_check_def v(1,2))
qed

section \<open>Lowered trees are valid\<close>

definition owned :: "lctx \<Rightarrow> hir_id set" where
  "owned c = {h \<in> hid c ` lowered c. owner h = cur_owner c}"

text \<open>
  The context in which an expression of the current item is lowered: its nodes are numbered by the
  session, the ones that have been visited before belong to the item, jumps and bindings mention
  nodes of the expression and bindings that have a number, and fresh numbers suffice.
\<close>

definition context_fits :: "resolver \<Rightarrow> ast_expr \<Rightarrow> lctx \<Rightarrow> bool" where
  "context_fits r e c \<longleftrightarrow> table_ok c \<and> mentions_ok r (set (lowered_ids r e)) c \<and>
     next_node_id c + 10 * length (lowered_ids r e) \<le> MAX_INDEX \<and>
     (\<forall>i\<in>set (lowered_ids r e) \<inter> lowered c. owner (hid c i) = cur_owner c)"

lemma lower_expr_returns:
  assumes "expanded e" and fits: "context_fits r e c"
  obtains h c' where "lower_expr r e c = Ok (h, c')" and "table_ok c'" and "keeps c c'"
    and "lowered c' = lowered c \<union> set (lowered_ids r e) \<union> {next_node_id c..<next_node_id c'}"
    and "mset (hir_ids h) = image_mset (hid c') (mset (lowered_ids r e @ [next_node_id c..<next_node_id c']))"
proof -
  let ?N = "lowered_ids r e"
  have c: "table_ok c" "mentions_ok r (set ?N) c" "next_node_id c + 10 * length ?N \<le> MAX_INDEX"
    using fits by (auto simp: context_fits_def)
  have labels: "j \<in> set ?N" if "i \<in> set ?N" "get_label_res r i = Some j" for i j using c(2) that by (auto simp: mentions_ok_def)
  have N: "set ?N \<subseteq> {..<next_node_id c}" using c(2) by (simp add: mentions_ok_def)
  have "lowers_expr r (set ?N) ?N (lower_expr r e)" by (rule lowers_lower_expr [OF assms(1) order_refl labels])
  from lowersE [OF this c(1,2) N c(3)] obtain h c' where c': "lower_expr r e c = Ok (h, c')" "table_ok c'" "keeps c c'"
    "set ?N \<union> {next_node_id c..<next_node_id c'} \<subseteq> lowered c'"
    "lowered c' \<subseteq> lowered c \<union> set ?N \<union> set ?N \<union> {next_node_id c..<next_node_id c'}"
    "mset (hir_ids h) = {#} + image_mset (hid c') (mset (?N @ [next_node_id c..<next_node_id c']))" by metis
  moreover have "lowered c' = lowered c \<union> set ?N \<union> {next_node_id c..<next_node_id c'}"
    using c'(4,5) keeps_lowered [OF c'(3)] by blast
  ultimately show thesis using that by simp
qed

lemma lowered_tree_valid:
  assumes "expanded e" and fits: "context_fits r e c" and d: "distinct (lowered_ids r e)"
    and pre: "set pre \<subseteq> owned c" "owned c \<subseteq> set pre \<union> hid c ` set (lowered_ids r e)"
  shows "\<exists>h c' v. lower_expr r e c = Ok (h, c') \<and> table_ok c' \<and> keeps c c' \<and> distinct (hir_ids h) \<and>
    (\<forall>i\<in>lowered c - set (lowered_ids r e). hid c i \<notin> set (hir_ids h)) \<and>
    validator_check (cur_owner c) (visit_ids (pre @ hir_ids h)) new_validator = Ok v \<and> errors v = []"
proof -
  let ?N = "lowered_ids r e"
  obtain h c' where c': "lower_expr r e c = Ok (h, c')" "table_ok c'" "keeps c c'"
    "lowered c' = lowered c \<union> set ?N \<union> {next_node_id c..<next_node_id c'}"
    "mset (hir_ids h) = image_mset (hid c') (mset (?N @ [next_node_id c..<next_node_id c']))"
    using lower_expr_returns [OF assms(1) fits] by blast
  let ?M = "?N @ [next_node_id c..<next_node_id c']"
  have inj: "inj_on (hid c') (lowered c')" using c'(2) by (simp add: table_ok_def)
  have "set ?N \<subseteq> {..<next_node_id c}" using fits by (simp add: context_fits_def mentions_ok_def)
  then have "distinct ?M" using d by auto
  moreover have "inj_on (hid c') (set ?M)" by (rule inj_on_subset [OF inj]) (auto simp: c'(4))
  ultimately have "distinct (map (hid c') ?M)" by (simp only: distinct_map simp_thms)
  then have dist: "distinct (hir_ids h)" using c'(5) mset_eq_imp_distinct_iff [of "hir_ids h" "map (hid c') ?M"] by simp
  have ids: "set (hir_ids h) = hid c' ` set ?M" using arg_cong [OF c'(5), of set_mset] by (simp add: image_Un)
  have cur: "cur_owner c' = cur_owner c" using c'(3) by (simp add: keeps_def)
  have same: "hid c' i = hid c i" if "i \<in> lowered c" for i using c'(3) that by (simp add: keeps_def)
  have other: "hid c i \<notin> set (hir_ids h)" if i: "i \<in> lowered c - set ?N" for i
  proof
    assume "hid c i \<in> set (hir_ids h)"
    then have "hid c' i \<in> hid c' ` set ?M" using same i unfolding ids by simp
    then obtain j where j: "j \<in> set ?M" "hid c' i = hid c' j" by (rule imageE) blast
    have "i \<in> lowered c'" "j \<in> lowered c'" using i j(1) by (auto simp: c'(4))
    with inj_onD [OF inj j(2)] j(1) have "i \<in> set ?M" by blast
    then show False using i lowered_bound [of c] fits by (fastforce simp: context_fits_def table_ok_def)
  qed
  have own: "owner (hid c' i) = cur_owner c" if "i \<in> set ?M" for i
  proof (cases "i \<in> lowered c")
    case True
    then have "i \<in> set ?N"
      using that lowered_bound [of c] fits by (fastforce simp: context_fits_def table_ok_def)
    with True same fits show ?thesis by (auto simp: context_fits_def)
  next
    case False
    with that c'(3,4) show ?thesis by (auto simp: keeps_def)
  qed
  have "set pre \<union> hid c' ` set ?M = owned c'"
  proof
    show "set pre \<union> hid c' ` set ?M \<subseteq> owned c'"
      using pre(1) own same cur by (force simp: owned_def c'(4))
    show "owned c' \<subseteq> set pre \<union> hid c' ` set ?M"
    proof
      fix g assume "g \<in> owned c'"
      then obtain i where i: "i \<in> lowered c'" "g = hid c' i" "owner g = cur_owner c" by (auto simp: owned_def cur)
      show "g \<in> set pre \<union> hid c' ` set ?M"
      proof (cases "i \<in> set ?M")
        case False
        then have ic: "i \<in> lowered c" using i(1) c'(4) by auto
        then have "g \<in> owned c" using i same by (auto simp: owned_def)
        then consider "g \<in> set pre" | j where "j \<in> set ?N" "g = hid c j" using pre(2) by blast
        then show ?thesis
        proof cases
          case 2
          have "j \<in> lowered c" using 2(2) i(2) ic same [OF ic] by (auto simp: lowered_def)
          with 2 same have "g = hid c' j" by simp
          with 2(1) show ?thesis by simp
        qed simp
      qed (use i in blast)
    qed
  qed
  then have all: "set (pre @ hir_ids h) = owned c'" by (simp add: ids)
  have dense: "owned c' = (\<lambda>k. \<lparr>owner = cur_owner c, local_id = k\<rparr>) ` {..<cur_counter c'}"
    using c'(2) by (simp add: table_ok_def owned_def cur)
  have "local_id ` set (pre @ hir_ids h) = {..<cur_counter c'}" unfolding all dense by (auto simp: image_image)
  moreover have "\<forall>g\<in>set (pre @ hir_ids h). g \<noteq> DUMMY_HIR_ID \<and> owner g = cur_owner c"
    unfolding all by (auto simp: owned_def lowered_def cur)
  moreover have "0 < cur_counter c'"
  proof -
    have "hir_ids h \<noteq> []" by (cases h) simp
    then have "owned c' \<noteq> {}" using all by auto
    then show ?thesis unfolding dense by auto
  qed
  ultimately obtain v where "validator_check (cur_owner c) (visit_ids (pre @ hir_ids h)) new_validator = Ok v" "errors v = []"
    using validator_accepts by metis
  with c' dist other show ?thesis by blast
qed

end
