(* ===== verification/Item_Bodies.thy ===== *)
theory Item_Bodies
  imports Lowering_Ids
begin

text \<open>
  The three stages that number the nodes of an item's expression: \<open>lower_crate\<close>
  (\<open>librustc/hir/lowering.rs\<close>) first walks over the crate with \<open>MiscCollector\<close>, which sets up the counter
  of the item and numbers its patterns, so that a use of a variable can be lowered before the pattern
  that binds it; later the expression is lowered with the item as the owner of new numbers. The
  theories before show what lowering does in a suitable context; here the context is what the
  collector leaves behind.
\<close>

section \<open>The walk over the syntax tree\<close>

text \<open>
  The visits of a walk over a tree that a visitor acts upon, in their order (\<open>libsyntax/visit.rs\<close>): a
  pattern, and a macro, for which a visitor panics by default.
\<close>

datatype visit = Visit_pat "ast_expr ast_pat" | Visit_mac

definition walk_opt :: "('a \<Rightarrow> visit list) \<Rightarrow> 'a option \<Rightarrow> visit list" where
  "walk_opt f x = (case x of None \<Rightarrow> [] | Some y \<Rightarrow> f y)"

lemma walk_opt_simps [simp]: "walk_opt f None = []" "walk_opt f (Some x) = f x"
  by (simp_all add: walk_opt_def)

lemma walk_opt_cong [fundef_cong]:
  "x = y \<Longrightarrow> (\<And>z. z \<in> set_option y \<Longrightarrow> f z = g z) \<Longrightarrow> walk_opt f x = walk_opt g y"
  by (cases y) simp_all

fun walk_pat :: "(ast_expr \<Rightarrow> visit list) \<Rightarrow> ast_expr ast_pat \<Rightarrow> visit list" where
  "walk_pat f (Pat i k sp) = Visit_pat (Pat i k sp) #
     (case k of
        ast_pat_kind.Box p \<Rightarrow> walk_pat f p
      | ast_pat_kind.Ref p _ \<Rightarrow> walk_pat f p
      | ast_pat_kind.Paren p \<Rightarrow> walk_pat f p
      | Ident _ _ sub \<Rightarrow> walk_opt (walk_pat f) sub
      | ast_pat_kind.Lit e \<Rightarrow> f e
      | Range e1 e2 _ \<Rightarrow> f e1 @ f e2
      | Wild \<Rightarrow> []
      | Rest \<Rightarrow> []
      | Tuple ps \<Rightarrow> concat (map (walk_pat f) ps)
      | Slice ps \<Rightarrow> concat (map (walk_pat f) ps)
      | ast_pat_kind.Or ps \<Rightarrow> concat (map (walk_pat f) ps)
      | ast_pat_kind.Mac \<Rightarrow> [Visit_mac])"

definition walk_local :: "(ast_expr \<Rightarrow> visit list) \<Rightarrow> ast_expr ast_local \<Rightarrow> visit list" where
  "walk_local f l = walk_pat f (alocal_pat l) @ walk_opt f (alocal_init l)"

definition walk_stmt :: "(ast_expr \<Rightarrow> visit list) \<Rightarrow> ast_expr ast_stmt \<Rightarrow> visit list" where
  "walk_stmt f s =
     (case astmt_kind s of
        ast_stmt_kind.Local l \<Rightarrow> walk_local f l
      | ast_stmt_kind.Expr e \<Rightarrow> f e
      | Semi e \<Rightarrow> f e
      | ast_stmt_kind.Mac \<Rightarrow> [Visit_mac])"

definition walk_block :: "(ast_expr \<Rightarrow> visit list) \<Rightarrow> ast_expr ast_block \<Rightarrow> visit list" where
  "walk_block f b = concat (map (walk_stmt f) (ablock_stmts b))"

definition walk_arm :: "(ast_expr \<Rightarrow> visit list) \<Rightarrow> ast_expr ast_arm \<Rightarrow> visit list" where
  "walk_arm f a = walk_pat f (aarm_pat a) @ walk_opt f (aarm_guard a) @ f (aarm_body a)"

definition walk_expr_with :: "(ast_expr \<Rightarrow> visit list) \<Rightarrow> ast_expr \<Rightarrow> visit list" where
  "walk_expr_with f e =
     (case expr_kind e of
        Box x \<Rightarrow> f x
      | Array xs \<Rightarrow> concat (map f xs)
      | Tup xs \<Rightarrow> concat (map f xs)
      | Call x xs \<Rightarrow> f x @ concat (map f xs)
      | Binary _ x y \<Rightarrow> f x @ f y
      | AddrOf _ x \<Rightarrow> f x
      | Unary _ x \<Rightarrow> f x
      | Let_expr p x \<Rightarrow> walk_pat f p @ f x
      | If_expr x b els \<Rightarrow> f x @ walk_block f b @ walk_opt f els
      | While x b _ \<Rightarrow> f x @ walk_block f b
      | Loop b _ \<Rightarrow> walk_block f b
      | Match x arms \<Rightarrow> f x @ concat (map (walk_arm f) arms)
      | Block b _ \<Rightarrow> walk_block f b
      | TransactionBlock b \<Rightarrow> walk_block f b
      | Assign x y \<Rightarrow> f x @ f y
      | AssignOp _ x y \<Rightarrow> f x @ f y
      | Field x _ \<Rightarrow> f x
      | Index x y \<Rightarrow> f x @ f y
      | Path _ \<Rightarrow> []
      | Break _ x \<Rightarrow> walk_opt f x
      | Continue _ \<Rightarrow> []
      | Ret x \<Rightarrow> walk_opt f x
      | Mac \<Rightarrow> [Visit_mac]
      | Paren x \<Rightarrow> f x
      | Lit _ \<Rightarrow> []
      | Lock \<Rightarrow> []
      | Unlock \<Rightarrow> []
      | Err \<Rightarrow> [])"

lemma walk_pat_cong:
  "(\<And>e. e \<in> set_ast_pat p \<Longrightarrow> f e = g e) \<Longrightarrow> walk_pat f p = walk_pat g p"
proof (induction p)
  case (Pat i k sp)
  have IH: "walk_pat f x = walk_pat g x" if "x \<in> set2_ast_pat_kind k" for x
    by (rule Pat.IH [OF that]) (use Pat.prems that in auto)
  show ?case using Pat.prems IH by (cases k) (auto intro!: concat_map_cong walk_opt_cong)
qed

lemma walk_stmt_cong:
  assumes "\<And>e. e \<in> set_ast_stmt s \<Longrightarrow> f e = g e"
  shows "walk_stmt f s = walk_stmt g s"
proof (cases s)
  case (Stmt i k sp)
  show ?thesis
  proof (cases k)
    case (Local l)
    then show ?thesis using assms unfolding Stmt
      by (cases l) (auto simp: walk_stmt_def walk_local_def intro!: walk_pat_cong walk_opt_cong
          arg_cong2 [where f = append])
  qed (use assms in \<open>auto simp: Stmt walk_stmt_def\<close>)
qed

lemma walk_block_cong: "(\<And>e. e \<in> set_ast_block b \<Longrightarrow> f e = g e) \<Longrightarrow> walk_block f b = walk_block g b"
  by (cases b) (auto simp: walk_block_def intro!: concat_map_cong walk_stmt_cong)

lemma walk_arm_cong: "(\<And>e. e \<in> set_ast_arm a \<Longrightarrow> f e = g e) \<Longrightarrow> walk_arm f a = walk_arm g a"
  by (cases a) (auto simp: walk_arm_def intro!: walk_pat_cong walk_opt_cong arg_cong2 [where f = append])

lemma walk_expr_with_cong [fundef_cong]:
  assumes "e = e'" and "\<And>x. (x, e') \<in> sub_expr \<Longrightarrow> f x = g x"
  shows "walk_expr_with f e = walk_expr_with g e'"
proof -
  have sub: "f x = g x" if "x \<in> set_ast_expr_kind (expr_kind e')" for x using assms(2) that by (simp add: sub_expr_def)
  show ?thesis unfolding assms(1) using sub
    by (cases "expr_kind e'") (auto simp: walk_expr_with_def
        intro!: concat_map_cong walk_pat_cong walk_block_cong walk_arm_cong walk_opt_cong arg_cong2 [where f = append])
qed

function walk_expr :: "ast_expr \<Rightarrow> visit list" where
  "walk_expr e = walk_expr_with walk_expr e"
  by pat_completeness auto

termination walk_expr
  by (relation sub_expr) (simp_all add: wf_sub_expr)

declare walk_expr.simps [simp del]

section \<open>The collector\<close>

text \<open>\<open>visit_pat\<close> of \<open>MiscCollector\<close>, with the item \<open>ow\<close> as \<open>hir_id_owner\<close>.\<close>

definition generates_node :: "ast_expr ast_pat \<Rightarrow> bool" where
  "generates_node p \<longleftrightarrow> (case pat_kind p of ast_pat_kind.Paren _ \<Rightarrow> False | Rest \<Rightarrow> False | _ \<Rightarrow> True)"

definition collector_visit :: "resolver \<Rightarrow> node_id \<Rightarrow> visit \<Rightarrow> lctx \<Rightarrow> lctx res" where
  "collector_visit r ow v c =
     (case v of
        Visit_pat p \<Rightarrow>
          (if generates_node p then res_bind (lower_node_id_with_owner r (pat_id p) ow c) (\<lambda>(h, c). Ok c) else Ok c)
      | Visit_mac \<Rightarrow> Panic (Explicit_Panic ''visit_mac disabled by default''))"

text \<open>The stages for one item whose expression is \<open>e\<close>: the collector gives the item a counter and walks over
  what is in it; then the expression is lowered in the name of the item. The item is of a kind for
  which the match in \<open>visit_item\<close> does nothing, such as a constant or a static: type definitions and
  traits, for which lifetime parameters are counted, and \<open>use\<close> items are left out. Of what \<open>walk_item\<close>
  visits only the expression is kept.\<close>

definition collect_item :: "resolver \<Rightarrow> node_id \<Rightarrow> ast_expr \<Rightarrow> hir_id lower" where
  "collect_item r ow e =
     lower_bind (allocate_hir_id_counter r ow) (\<lambda>h c.
       res_bind (res_for (walk_expr e) (collector_visit r ow) c) (\<lambda>c. Ok (h, c)))"

definition lower_item_body :: "resolver \<Rightarrow> node_id \<Rightarrow> ast_expr \<Rightarrow> (hir_id \<times> hir_expr) lower" where
  "lower_item_body r ow e =
     lower_bind (collect_item r ow e) (\<lambda>item_id.
     lower_bind (with_hir_id_owner r ow (lower_expr r e)) (\<lambda>h. lower_return (item_id, h)))"

section \<open>Collected patterns are lowered\<close>

definition numbers :: "visit list \<Rightarrow> node_id set" where
  "numbers vs = {pat_id p |p. Visit_pat p \<in> set vs \<and> generates_node p}"

text \<open>A name with a subpattern, \<open>x @ p\<close>, is always a new variable for the resolver, and never a constant;
  and no macro is left.\<close>

definition names_bind :: "resolver \<Rightarrow> visit list \<Rightarrow> bool" where
  "names_bind r vs \<longleftrightarrow> list_all (\<lambda>v.
     case v of
       Visit_pat p \<Rightarrow> (case pat_kind p of Ident _ _ (Some _) \<Rightarrow> binds r (pat_id p) | _ \<Rightarrow> True)
     | Visit_mac \<Rightarrow> False) vs"

lemma numbers_simps [simp]:
  "numbers [] = {}" "numbers (xs @ ys) = numbers xs \<union> numbers ys"
  "numbers (Visit_pat p # xs) = (if generates_node p then insert (pat_id p) (numbers xs) else numbers xs)"
  "numbers (Visit_mac # xs) = numbers xs" "numbers (concat (map f zs)) = (\<Union>z\<in>set zs. numbers (f z))"
  by (auto simp: numbers_def)

lemma names_bind_simps [simp]:
  "names_bind r []" "names_bind r (xs @ ys) \<longleftrightarrow> names_bind r xs \<and> names_bind r ys"
  "names_bind r (Visit_pat p # xs) \<longleftrightarrow>
     (case pat_kind p of Ident _ _ (Some _) \<Rightarrow> binds r (pat_id p) | _ \<Rightarrow> True) \<and> names_bind r xs"
  "\<not> names_bind r (Visit_mac # xs)"
  "names_bind r (concat (map f zs)) \<longleftrightarrow> (\<forall>z\<in>set zs. names_bind r (f z))"
  by (auto simp: names_bind_def list_all_iff)

lemma is_rest_walk: "is_rest p \<Longrightarrow> numbers (walk_pat f p) = {}"
  by (cases p; cases "pat_kind p") (auto simp: is_rest_def generates_node_def)

lemma sub_rest_walk: "sub_rest p = Some (bm, x, sub) \<Longrightarrow> numbers (walk_pat f p) \<subseteq> {pat_id p}"
  by (cases p; cases "pat_kind p") (auto simp: sub_rest_def is_rest_walk split: option.splits if_splits)

lemma slice_after_ids_cover:
  "(\<And>p. p \<in> set ps \<Longrightarrow> numbers (walk_pat f p) \<subseteq> set (g p)) \<Longrightarrow>
     (\<Union>p\<in>set ps. numbers (walk_pat f p)) \<subseteq> set (slice_after_ids g ps)"
proof (induction ps)
  case (Cons p ps)
  have "numbers (walk_pat f p) \<subseteq> set (if is_rest p then [] else case sub_rest p of Some _ \<Rightarrow> [pat_id p] | None \<Rightarrow> g p)"
    using Cons.prems [of p] is_rest_walk [of p f] sub_rest_walk [of p _ _ _ f] by (cases "sub_rest p") auto
  moreover have "(\<Union>p\<in>set ps. numbers (walk_pat f p)) \<subseteq> set (slice_after_ids g ps)"
    by (rule Cons.IH) (simp add: Cons.prems)
  ultimately show ?case by auto
qed simp

lemma slice_ids_cover:
  "(\<And>p. p \<in> set ps \<Longrightarrow> numbers (walk_pat f p) \<subseteq> set (g p)) \<Longrightarrow>
     (\<Union>p\<in>set ps. numbers (walk_pat f p)) \<subseteq> set (slice_ids r g ps)"
proof (induction ps)
  case (Cons p ps)
  have tl: "(\<Union>p\<in>set ps. numbers (walk_pat f p)) \<subseteq> set (slice_ids r g ps)"
    by (rule Cons.IH) (simp add: Cons.prems)
  have after: "(\<Union>p\<in>set ps. numbers (walk_pat f p)) \<subseteq> set (slice_after_ids g ps)"
    by (rule slice_after_ids_cover) (simp add: Cons.prems)
  have p: "numbers (walk_pat f p) \<subseteq> set (g p)" by (rule Cons.prems) simp
  show ?case
  proof (cases "is_rest p")
    case True
    with after is_rest_walk [OF this, of f] show ?thesis by auto
  next
    case False
    with tl after p sub_rest_walk [of p _ _ _ f] show ?thesis by (auto split: option.splits)
  qed
qed simp

lemma tuple_ids_cover:
  "(\<And>p. p \<in> set ps \<Longrightarrow> numbers (walk_pat f p) \<subseteq> set (g p)) \<Longrightarrow>
     (\<Union>p\<in>set ps. numbers (walk_pat f p)) \<subseteq> set (tuple_ids g ps)"
  using is_rest_walk [of _ f] by (fastforce simp: tuple_ids_def)

lemma pat_ids_cover:
  assumes "\<And>e. e \<in> set_ast_pat p \<Longrightarrow> names_bind r (f e) \<Longrightarrow> numbers (f e) \<subseteq> set (g e)"
    and "names_bind r (walk_pat f p)"
  shows "numbers (walk_pat f p) \<subseteq> set (pat_ids r g p)"
  using assms
proof (induction p)
  case (Pat i k sp)
  have IH: "numbers (walk_pat f x) \<subseteq> set (pat_ids r g x)" if "x \<in> set2_ast_pat_kind k" "names_bind r (walk_pat f x)" for x
    by (rule Pat.IH [OF that(1) _ that(2)]) (use Pat.prems(1) that in auto)
  have sub: "numbers (f e) \<subseteq> set (g e)" if "e \<in> set1_ast_pat_kind k" "names_bind r (f e)" for e
    using Pat.prems(1) that by auto
  show ?case
  proof (cases k)
    case (Tuple ps)
    with Pat.prems(2) IH have "(\<Union>p\<in>set ps. numbers (walk_pat f p)) \<subseteq> set (tuple_ids (pat_ids r g) ps)"
      by (intro tuple_ids_cover) simp
    with Tuple show ?thesis by (simp add: generates_node_def le_supI1 subset_insertI2)
  next
    case (Slice ps)
    with Pat.prems(2) IH have "(\<Union>p\<in>set ps. numbers (walk_pat f p)) \<subseteq> set (slice_ids r (pat_ids r g) ps)"
      by (intro slice_ids_cover) simp
    with Slice show ?thesis by (simp add: generates_node_def le_supI1 subset_insertI2)
  next
    case (Ident bm x s)
    with Pat.prems(2) IH show ?thesis by (cases s) (auto simp: generates_node_def)
  next
    case (Or ps)
    with Pat.prems(2) IH show ?thesis by (fastforce simp: generates_node_def)
  qed (use Pat.prems(2) IH sub in \<open>auto simp: generates_node_def\<close>)
qed


lemma opt_ids_cover:
  "(\<And>e. e \<in> set_option x \<Longrightarrow> numbers (f e) \<subseteq> set (g e)) \<Longrightarrow> numbers (walk_opt f x) \<subseteq> set (opt_ids g x)"
  by (cases x) (simp_all add: opt_ids_def)

lemma stmt_ids_cover:
  assumes sub: "\<And>e. e \<in> set_ast_stmt s \<Longrightarrow> names_bind r (f e) \<Longrightarrow> numbers (f e) \<subseteq> set (g e)"
    and ok: "names_bind r (walk_stmt f s)"
  shows "numbers (walk_stmt f s) \<subseteq> set (stmt_ids r g s)"
proof (cases s)
  case (Stmt i k sp)
  show ?thesis
  proof (cases k)
    case (Local l)
    have "numbers (walk_pat f (alocal_pat l)) \<subseteq> set (pat_ids r g (alocal_pat l))"
      using assms unfolding Stmt Local by (intro pat_ids_cover; cases l) (auto simp: walk_stmt_def walk_local_def)
    moreover have "numbers (walk_opt f (alocal_init l)) \<subseteq> set (opt_ids g (alocal_init l))"
      using assms unfolding Stmt Local by (intro opt_ids_cover; cases l) (auto simp: walk_stmt_def walk_local_def)
    ultimately show ?thesis unfolding Stmt Local by (auto simp: walk_stmt_def walk_local_def stmt_ids_def)
  qed (use assms in \<open>auto simp: Stmt walk_stmt_def stmt_ids_def\<close>)
qed

lemma stmts_ids_cover:
  assumes "\<And>s e. s \<in> set ss \<Longrightarrow> e \<in> set_ast_stmt s \<Longrightarrow> names_bind r (f e) \<Longrightarrow> numbers (f e) \<subseteq> set (g e)"
    and "\<And>s. s \<in> set ss \<Longrightarrow> names_bind r (walk_stmt f s)"
  shows "(\<Union>s\<in>set ss. numbers (walk_stmt f s)) \<subseteq> set (stmts_ids r g ss)"
  using assms
proof (induction ss rule: induct_list012)
  case (2 s)
  have "numbers (walk_stmt f s) \<subseteq> set (stmt_ids r g s)" by (rule stmt_ids_cover) (use 2 in auto)
  then show ?case using 2 by (cases s; cases "astmt_kind s") (auto simp: walk_stmt_def)
next
  case (3 s s' ss)
  have "numbers (walk_stmt f s) \<subseteq> set (stmt_ids r g s)" by (rule stmt_ids_cover) (use 3(3,4) in auto)
  moreover have "(\<Union>s\<in>set (s' # ss). numbers (walk_stmt f s)) \<subseteq> set (stmts_ids r g (s' # ss))"
    by (rule 3(2)) (use 3(3,4) in auto)
  ultimately show ?case by auto
qed simp

lemma block_ids_cover:
  assumes "\<And>e. e \<in> set_ast_block b \<Longrightarrow> names_bind r (f e) \<Longrightarrow> numbers (f e) \<subseteq> set (g e)"
    and "names_bind r (walk_block f b)"
  shows "numbers (walk_block f b) \<subseteq> set (block_ids r g b)"
  using assms stmts_ids_cover [of "ablock_stmts b" r f g] by (cases b) (auto simp: walk_block_def block_ids_def)

lemma arm_ids_cover:
  assumes "\<And>e. e \<in> set_ast_arm a \<Longrightarrow> names_bind r (f e) \<Longrightarrow> numbers (f e) \<subseteq> set (g e)"
    and "names_bind r (walk_arm f a)"
  shows "numbers (walk_arm f a) \<subseteq> set (arm_ids r g a)"
proof -
  have "numbers (walk_pat f (aarm_pat a)) \<subseteq> set (pat_ids r g (aarm_pat a))"
    using assms by (intro pat_ids_cover; cases a) (auto simp: walk_arm_def)
  moreover have "numbers (walk_opt f (aarm_guard a)) \<subseteq> set (opt_ids g (aarm_guard a))"
    using assms by (intro opt_ids_cover; cases a) (auto simp: walk_arm_def)
  moreover have "numbers (f (aarm_body a)) \<subseteq> set (g (aarm_body a))"
    using assms by (cases a) (auto simp: walk_arm_def)
  ultimately show ?thesis by (auto simp: walk_arm_def arm_ids_def)
qed

lemma walk_opt_ok: "names_bind r (walk_opt f x) \<Longrightarrow> e \<in> set_option x \<Longrightarrow> names_bind r (f e)"
  by (cases x) simp_all

text \<open>The condition of an \<open>if\<close> or \<open>while\<close>: lowering takes a \<open>let\<close> apart.\<close>

lemma cond_ids_cover:
  assumes "\<And>e. e = c \<or> e \<in> set_ast_expr_kind (expr_kind c) \<Longrightarrow> names_bind r (walk_expr e) \<Longrightarrow>
      numbers (walk_expr e) \<subseteq> set (g e)"
    and "names_bind r (walk_expr c)"
  shows "numbers (walk_expr c) \<subseteq> set (cond_ids r g c)"
proof (cases "expr_kind c")
  case (Let_expr p x)
  have walk: "walk_expr c = walk_pat walk_expr p @ walk_expr x"
    by (simp add: walk_expr.simps [of c] walk_expr_with_def Let_expr)
  have "numbers (walk_pat walk_expr p) \<subseteq> set (pat_ids r g p)"
    by (rule pat_ids_cover) (use assms Let_expr walk in auto)
  moreover have "numbers (walk_expr x) \<subseteq> set (g x)" using assms Let_expr walk by simp
  ultimately show ?thesis by (auto simp: walk cond_ids_def Let_expr)
qed (use assms in \<open>simp_all add: cond_ids_def\<close>)

lemma lowered_ids_cover: "names_bind r (walk_expr e) \<Longrightarrow> numbers (walk_expr e) \<subseteq> set (lowered_ids r e)"
proof (induction e rule: wf_induct_rule [OF wf_trancl [OF wf_sub_expr]])
  case (1 e)
  let ?f = "walk_expr" and ?g = "lowered_ids r"
  have sub: "numbers (?f x) \<subseteq> set (?g x)" if "x \<in> set_ast_expr_kind (expr_kind e)" "names_bind r (?f x)" for x
    using 1(1) [OF sub_exprI [OF that(1)] that(2)] .
  have ok: "names_bind r (walk_expr_with ?f e)" using 1(2) by (simp only: walk_expr.simps [of e])
  have blocks: "numbers (walk_block ?f b) \<subseteq> set (block_ids r ?g b)"
    if "set_ast_block b \<subseteq> set_ast_expr_kind (expr_kind e)" "names_bind r (walk_block ?f b)" for b
    by (rule block_ids_cover [OF _ that(2)]) (use sub that(1) in auto)
  have conds: "numbers (?f c) \<subseteq> set (cond_ids r ?g c)"
    if "c \<in> set_ast_expr_kind (expr_kind e)" "names_bind r (?f c)" for c
  proof (rule cond_ids_cover [OF _ that(2)])
    fix x assume "x = c \<or> x \<in> set_ast_expr_kind (expr_kind c)" and "names_bind r (?f x)"
    then show "numbers (?f x) \<subseteq> set (?g x)"
      using that(1) 1(1) [OF sub_exprI [OF that(1)]] 1(1) [OF sub_expr2I [OF _ that(1)]] by auto
  qed
  have opts: "numbers (walk_opt ?f x) \<subseteq> set (opt_ids ?g x)"
    if "set_option x \<subseteq> set_ast_expr_kind (expr_kind e)" "names_bind r (walk_opt ?f x)" for x
    by (rule opt_ids_cover [OF sub]) (use that(1) walk_opt_ok [OF that(2)] in auto)
  have arms: "numbers (walk_arm ?f a) \<subseteq> set (arm_ids r ?g a)"
    if "set_ast_arm a \<subseteq> set_ast_expr_kind (expr_kind e)" "names_bind r (walk_arm ?f a)" for a
    by (rule arm_ids_cover [OF _ that(2)]) (use sub that(1) in auto)
  have pats: "numbers (walk_pat ?f p) \<subseteq> set (pat_ids r ?g p)"
    if "set_ast_pat p \<subseteq> set_ast_expr_kind (expr_kind e)" "names_bind r (walk_pat ?f p)" for p
    by (rule pat_ids_cover [OF _ that(2)]) (use sub that(1) in auto)
  note members = subsetD [OF blocks, rotated 2] subsetD [OF opts, rotated 2] subsetD [OF pats, rotated 2]
  show ?case
    unfolding walk_expr.simps [of e] lowered_ids.simps [of r e] using ok
  proof (cases "expr_kind e")
    case (If_expr c b els)
    with ok show "numbers (walk_expr_with ?f e) \<subseteq> set (expr_ids_with r ?g e)"
      by (auto simp: walk_expr_with_def expr_ids_with_def dest!: members subsetD [OF conds, rotated 2])
  next
    case (While c b l)
    with ok show "numbers (walk_expr_with ?f e) \<subseteq> set (expr_ids_with r ?g e)"
      by (auto simp: walk_expr_with_def expr_ids_with_def dest!: members subsetD [OF conds, rotated 2])
  next
    case (Match x as)
    have "numbers (walk_arm ?f a) \<subseteq> set (arm_ids r ?g a)" if "a \<in> set as" for a
      by (rule arms) (use that Match ok in \<open>auto simp: walk_expr_with_def\<close>)
    moreover have "numbers (?f x) \<subseteq> set (?g x)" using sub Match ok by (simp add: walk_expr_with_def)
    ultimately show "numbers (walk_expr_with ?f e) \<subseteq> set (expr_ids_with r ?g e)"
      by (auto simp: walk_expr_with_def expr_ids_with_def Match)
  qed (auto simp: walk_expr_with_def expr_ids_with_def dest!: members subsetD [OF sub, rotated 2])
qed

section \<open>What the collector leaves behind\<close>

text \<open>Numbering in the name of an item is numbering in the context whose current owner is the item.\<close>

lemma with_owner_as_local:
  assumes d: "opt_def_index r ow = Some d" and k: "item_local_id_counters c ow = Some k"
    and run: "lower_node_id i (c\<lparr>current_hir_id_owner := [(d, k)]\<rparr>) = Ok (h, s)"
  shows "\<exists>k'. current_hir_id_owner s = [(d, k')] \<and> lower_node_id_with_owner r i ow c =
    Ok (h, s\<lparr>current_hir_id_owner := current_hir_id_owner c, item_local_id_counters := (item_local_id_counters c)(ow \<mapsto> k')\<rparr>)"
  using run d k
  by (auto simp: lower_node_id_def lower_node_id_with_owner_def lower_node_id_generic_def lower_bind_def alloc_local_def
      alloc_with_owner_def assert_that_def Let_def fun_upd_idem split: if_splits)

lemma owner_updates [simp]:
  "hid (c\<lparr>current_hir_id_owner := l\<rparr>) = hid c" "lowered (c\<lparr>current_hir_id_owner := l\<rparr>) = lowered c"
  "hid (c\<lparr>item_local_id_counters := m\<rparr>) = hid c" "lowered (c\<lparr>item_local_id_counters := m\<rparr>) = lowered c"
  by (auto simp: hid_def lowered_def fun_eq_iff)

definition collecting :: "node_id \<Rightarrow> nat \<Rightarrow> lctx \<Rightarrow> bool" where
  "collecting ow d c \<longleftrightarrow>
     (case item_local_id_counters c ow of None \<Rightarrow> False | Some k \<Rightarrow> table_ok (c\<lparr>current_hir_id_owner := [(d, k)]\<rparr>))"

definition collected :: "nat \<Rightarrow> node_id set \<Rightarrow> lctx \<Rightarrow> lctx \<Rightarrow> bool" where
  "collected d N c c' \<longleftrightarrow> lowered c' = lowered c \<union> N \<and> (\<forall>i\<in>lowered c. hid c' i = hid c i) \<and>
     (\<forall>i\<in>N - lowered c. owner (hid c' i) = d) \<and> next_node_id c' = next_node_id c \<and> loop_scopes c' = loop_scopes c"

lemma collected_refl [simp]: "collected d {} c c"
  by (simp add: collected_def)

lemma collected_trans: "collected d M a b \<Longrightarrow> collected d N b c \<Longrightarrow> collected d (M \<union> N) a c"
  by (auto simp: collected_def)

lemma collect_node:
  assumes d: "opt_def_index r ow = Some d" and c: "collecting ow d c" and i: "i < next_node_id c"
  shows "\<exists>c'. lower_node_id_with_owner r i ow c = Ok (hid c' i, c') \<and> collecting ow d c' \<and> collected d {i} c c'"
proof -
  from c obtain k where k: "item_local_id_counters c ow = Some k" "table_ok (c\<lparr>current_hir_id_owner := [(d, k)]\<rparr>)"
    by (auto simp: collecting_def split: option.splits)
  let ?c = "c\<lparr>current_hir_id_owner := [(d, k)]\<rparr>"
  from lower_node_id_ok [OF k(2)] i obtain s where s: "lower_node_id i ?c = Ok (hid s i, s)" "table_ok s" "keeps ?c s"
    "next_node_id s = next_node_id c" "i \<in> lowered s" "lowered s \<subseteq> insert i (lowered ?c)" by auto
  from with_owner_as_local [OF d k(1) s(1)] obtain k' where k': "current_hir_id_owner s = [(d, k')]"
    "lower_node_id_with_owner r i ow c = Ok (hid s i, s\<lparr>current_hir_id_owner := current_hir_id_owner c,
       item_local_id_counters := (item_local_id_counters c)(ow \<mapsto> k')\<rparr>)" by blast
  let ?s = "s\<lparr>current_hir_id_owner := current_hir_id_owner c, item_local_id_counters := (item_local_id_counters c)(ow \<mapsto> k')\<rparr>"
  have "table_ok (?s\<lparr>current_hir_id_owner := [(d, k')]\<rparr>)"
    using s(2) k'(1) by (simp add: table_ok_def cur_owner_def cur_counter_def)
  then have "collecting ow d ?s" by (simp add: collecting_def)
  moreover have "collected d {i} c ?s"
    using s(3-6) keeps_lowered [OF s(3)] by (auto simp: collected_def keeps_def cur_owner_def)
  ultimately show ?thesis using k'(2) by (intro exI [of _ ?s]) simp
qed

lemma collect_visits:
  assumes d: "opt_def_index r ow = Some d" and "collecting ow d c" and "numbers vs \<subseteq> {..<next_node_id c}" and "names_bind r vs"
  shows "\<exists>c'. res_for vs (collector_visit r ow) c = Ok c' \<and> collecting ow d c' \<and> collected d (numbers vs) c c'"
  using assms(2-4)
proof (induction vs arbitrary: c)
  case (Cons v vs)
  obtain p where p: "v = Visit_pat p" using Cons.prems(3) by (cases v) auto
  obtain c1 where c1: "collector_visit r ow v c = Ok c1" "collecting ow d c1"
    "collected d (if generates_node p then {pat_id p} else {}) c c1"
  proof (cases "generates_node p")
    case True
    with Cons.prems(2) p have "pat_id p < next_node_id c" by simp
    from collect_node [OF d Cons.prems(1) this] True p that show ?thesis by (auto simp: collector_visit_def)
  next
    case False
    with Cons.prems(1) p that show ?thesis by (simp add: collector_visit_def)
  qed
  have "numbers vs \<subseteq> {..<next_node_id c1}" "names_bind r vs"
    using Cons.prems c1(3) by (auto simp: p collected_def split: if_splits)
  from Cons.IH [OF c1(2) this] obtain c2 where "res_for vs (collector_visit r ow) c1 = Ok c2" "collecting ow d c2"
    "collected d (numbers vs) c1 c2" by blast
  with c1 collected_trans [OF c1(3)] show ?case by (auto simp: p)
qed simp

section \<open>The numbers of an item\<close>

text \<open>
  The context in which the collector meets an item: it has no counter yet, its nodes have no numbers
  and are pairwise different, and fresh node numbers suffice. The resolver has an index for the
  item, labels of the expression lead to expressions in it, variables to patterns that have a
  number or get one from the collector.
\<close>

definition item_fits :: "resolver \<Rightarrow> node_id \<Rightarrow> ast_expr \<Rightarrow> lctx \<Rightarrow> bool" where
  "item_fits r ow e c \<longleftrightarrow>
     item_local_id_counters c ow = None \<and> loop_scopes c = [] \<and> inj_on (hid c) (lowered c) \<and>
     length (node_id_to_hir_id c) \<le> next_node_id c \<and>
     next_node_id c + 10 * length (lowered_ids r e) \<le> MAX_INDEX \<and>
     distinct (ow # lowered_ids r e) \<and> set (ow # lowered_ids r e) \<subseteq> {..<next_node_id c} - lowered c \<and>
     (case opt_def_index r ow of None \<Rightarrow> False | Some d \<Rightarrow> \<forall>i\<in>lowered c. owner (hid c i) \<noteq> d) \<and>
     names_bind r (walk_expr e) \<and>
     (\<forall>i\<in>set (lowered_ids r e). \<forall>j. get_label_res r i = Some j \<longrightarrow> j \<in> set (lowered_ids r e)) \<and>
     (\<forall>i j. get_partial_res r i = Some (Local_res j) \<longrightarrow> j \<in> lowered c \<union> numbers (walk_expr e))"

lemma item_number:
  assumes "item_fits r ow e c" and d: "opt_def_index r ow = Some d"
  shows "\<exists>c'. allocate_hir_id_counter r ow c = Ok (\<lparr>owner = d, local_id = 0\<rparr>, c') \<and>
    hid c' ow = \<lparr>owner = d, local_id = 0\<rparr> \<and> collecting ow d c' \<and> collected d {ow} c c'"
proof -
  let ?c = "c\<lparr>item_local_id_counters := (item_local_id_counters c)(ow \<mapsto> 0)\<rparr>"
  have other: "owner (hid c i) \<noteq> d" if "i \<in> lowered c" for i using assms that by (auto simp: item_fits_def)
  have "collecting ow d ?c" "ow < next_node_id ?c"
    using assms other by (auto simp: collecting_def item_fits_def table_ok_def cur_owner_def cur_counter_def)
  from collect_node [OF d this] obtain c' where c': "lower_node_id_with_owner r ow ow ?c = Ok (hid c' ow, c')"
    "collecting ow d c'" "collected d {ow} ?c c'" by blast
  have own: "ow \<in> lowered c'" "owner (hid c' ow) = d" using c'(3) assms(1) by (auto simp: collected_def item_fits_def)
  have only: "i = ow" if "i \<in> lowered c'" "owner (hid c' i) = d" for i
  proof (rule ccontr)
    assume "i \<noteq> ow"
    with that c'(3) have "i \<in> lowered c" "owner (hid c i) = d" by (auto simp: collected_def)
    with other show False by simp
  qed
  obtain k where "{h \<in> hid c' ` lowered c'. owner h = d} = (\<lambda>k. \<lparr>owner = d, local_id = k\<rparr>) ` {..<k}"
    using c'(2) by (auto simp: collecting_def table_ok_def cur_owner_def cur_counter_def split: option.splits)
  moreover have "{h \<in> hid c' ` lowered c'. owner h = d} = {hid c' ow}" using own only by blast
  ultimately have k: "{hid c' ow} = (\<lambda>k. \<lparr>owner = d, local_id = k\<rparr>) ` {..<k}" by simp
  then have "0 < k" by (cases k) auto
  then have "\<lparr>owner = d, local_id = 0\<rparr> \<in> {hid c' ow}" unfolding k by blast
  with c' assms show ?thesis by (auto simp: allocate_hir_id_counter_def item_fits_def collected_def)
qed

lemma collect_item_ok:
  assumes fits: "item_fits r ow e c" and d: "opt_def_index r ow = Some d"
  shows "\<exists>c'. collect_item r ow e c = Ok (\<lparr>owner = d, local_id = 0\<rparr>, c') \<and> hid c' ow = \<lparr>owner = d, local_id = 0\<rparr> \<and>
    collecting ow d c' \<and> collected d (insert ow (numbers (walk_expr e))) c c'"
proof -
  from item_number [OF assms] obtain c1 where c1: "allocate_hir_id_counter r ow c = Ok (\<lparr>owner = d, local_id = 0\<rparr>, c1)"
    "hid c1 ow = \<lparr>owner = d, local_id = 0\<rparr>" "collecting ow d c1" "collected d {ow} c c1" by blast
  have ok: "names_bind r (walk_expr e)" using fits by (simp add: item_fits_def)
  have "numbers (walk_expr e) \<subseteq> {..<next_node_id c1}"
    using lowered_ids_cover [OF ok] fits c1(4) by (auto simp: item_fits_def collected_def)
  from collect_visits [OF d c1(3) this ok] obtain c2 where c2: "res_for (walk_expr e) (collector_visit r ow) c1 = Ok c2"
    "collecting ow d c2" "collected d (numbers (walk_expr e)) c1 c2" by blast
  moreover have "hid c2 ow = hid c1 ow" using c2(3) c1(4) by (simp add: collected_def)
  ultimately show ?thesis using c1 collected_trans [OF c1(4) c2(3)] by (simp add: collect_item_def lower_bind_def)
qed

lemma owner_context_fits:
  assumes fits: "item_fits r ow e c" and d: "opt_def_index r ow = Some d"
    and c': "collecting ow d c'" "collected d (insert ow (numbers (walk_expr e))) c c'" "item_local_id_counters c' ow = Some k"
  shows "context_fits r e (c'\<lparr>item_local_id_counters := m, current_hir_id_owner := l @ [(d, k)]\<rparr>)"
proof -
  let ?c = "c'\<lparr>item_local_id_counters := m, current_hir_id_owner := l @ [(d, k)]\<rparr>"
  have "table_ok ?c" using c'(1,3) by (simp add: collecting_def table_ok_def cur_owner_def cur_counter_def)
  moreover have "mentions_ok r (set (lowered_ids r e)) ?c"
    using fits c'(2) by (fastforce simp: item_fits_def collected_def mentions_ok_def)
  moreover have "owner (hid ?c i) = cur_owner ?c" if "i \<in> set (lowered_ids r e) \<inter> lowered ?c" for i
    using that fits c'(2) by (auto simp: item_fits_def collected_def cur_owner_def)
  ultimately show ?thesis using fits c'(2) by (auto simp: context_fits_def item_fits_def collected_def)
qed

lemma with_hir_id_owner_ok:
  assumes "opt_def_index r ow = Some d" and "item_local_id_counters c ow = Some k"
    and "f (c\<lparr>item_local_id_counters := (item_local_id_counters c)(ow \<mapsto> HIR_ID_COUNTER_LOCKED),
           current_hir_id_owner := current_hir_id_owner c @ [(d, k)]\<rparr>) = Ok (x, c')"
    and "current_hir_id_owner c' \<noteq> []" and "item_local_id_counters c' ow \<noteq> None"
  shows "\<exists>c''. with_hir_id_owner r ow f c = Ok (x, c'')"
  using assms by (auto simp: with_hir_id_owner_def Let_def)


text \<open>
  (C13) The numbers of an item are valid. For every tree without macros and every context that fits,
  the collector and then lowering return without a panic; the item itself has the local number 0; the
  numbers of the nodes in the HIR of its expression are pairwise different and differ from that of
  the item, although the collector has numbered the patterns before, and lowering makes up nodes for
  transaction blocks and conditions; and the validator of HIR numbers, walking over the item, reports
  no error: all numbers belong to the item and they are dense.
\<close>

theorem item_numbers_valid:
  assumes "expanded e" and fits: "item_fits r ow e c"
  shows "\<exists>item h c' v. lower_item_body r ow e c = Ok ((item, h), c') \<and> opt_def_index r ow = Some (owner item) \<and>
    local_id item = 0 \<and> distinct (item # hir_ids h) \<and>
    validator_check (owner item) (visit_ids (item # hir_ids h)) new_validator = Ok v \<and> errors v = []"
proof -
  obtain d where d: "opt_def_index r ow = Some d" using fits by (auto simp: item_fits_def split: option.splits)
  let ?item = "\<lparr>owner = d, local_id = 0\<rparr>"
  obtain c1 where c1: "collect_item r ow e c = Ok (?item, c1)" "hid c1 ow = ?item" "collecting ow d c1"
    "collected d (insert ow (numbers (walk_expr e))) c c1" using collect_item_ok [OF fits d] by blast
  obtain k where k: "item_local_id_counters c1 ow = Some k" using c1(3) by (auto simp: collecting_def split: option.splits)
  let ?c = "c1\<lparr>item_local_id_counters := (item_local_id_counters c1)(ow \<mapsto> HIR_ID_COUNTER_LOCKED),
    current_hir_id_owner := current_hir_id_owner c1 @ [(d, k)]\<rparr>"
  have cur: "cur_owner ?c = d" by (simp add: cur_owner_def)
  have ow: "ow \<in> lowered ?c - set (lowered_ids r e)" using c1(4) fits by (auto simp: collected_def item_fits_def)
  have pre: "set [?item] \<subseteq> owned ?c" using ow c1(2) by (force simp: owned_def cur)
  have all: "owned ?c \<subseteq> set [?item] \<union> hid ?c ` set (lowered_ids r e)"
  proof
    fix g assume "g \<in> owned ?c"
    then obtain i where i: "i \<in> lowered c1" "g = hid c1 i" "owner g = d" by (auto simp: owned_def cur)
    have "owner (hid c1 j) \<noteq> d" if "j \<in> lowered c" for j
      using fits d c1(4) that by (simp add: item_fits_def collected_def)
    then have "i \<notin> lowered c" using i(2,3) by blast
    then have "i = ow \<or> i \<in> numbers (walk_expr e)" using i(1) c1(4) by (auto simp: collected_def)
    moreover have "numbers (walk_expr e) \<subseteq> set (lowered_ids r e)" using lowered_ids_cover fits by (simp add: item_fits_def)
    ultimately show "g \<in> set [?item] \<union> hid ?c ` set (lowered_ids r e)" using i(2) c1(2) by auto
  qed
  have "distinct (lowered_ids r e)" using fits by (simp add: item_fits_def)
  from lowered_tree_valid [OF assms(1) owner_context_fits [OF fits d c1(3,4) k] this pre all, unfolded cur]
  obtain h c2 v where h: "lower_expr r e ?c = Ok (h, c2)" "table_ok c2" "keeps ?c c2" "distinct (hir_ids h)"
    "\<forall>i\<in>lowered ?c - set (lowered_ids r e). hid ?c i \<notin> set (hir_ids h)"
    "validator_check d (visit_ids ([?item] @ hir_ids h)) new_validator = Ok v" "errors v = []" by (elim exE conjE) rule
  have "current_hir_id_owner c2 \<noteq> []" "item_local_id_counters c2 ow \<noteq> None"
    using h(2,3) by (simp_all add: table_ok_def keeps_def)
  from with_hir_id_owner_ok [where f = "lower_expr r e", OF d k h(1) this] obtain c3 where "with_hir_id_owner r ow (lower_expr r e) c1 = Ok (h, c3)" by blast
  with c1(1) have "lower_item_body r ow e c = Ok ((?item, h), c3)"
    by (simp add: lower_item_body_def lower_bind_def lower_return_def)
  moreover have "?item \<notin> set (hir_ids h)" using h(5) ow c1(2) by force
  ultimately show ?thesis using h(4,6,7) d by auto
qed

definition demo_resolver :: resolver where
  "demo_resolver = \<lparr>get_partial_res = Map.empty(3 \<mapsto> Local_res 3, 6 \<mapsto> Local_res 3, 7 \<mapsto> Local_res 3),
     get_label_res = Map.empty, opt_def_index = Map.empty(1 \<mapsto> 4)\<rparr>"

text \<open>\<open>transaction { let x = 1; x }\<close>\<close>

definition demo_transaction :: ast_expr where
  "demo_transaction =
     (let sp = \<lparr>lo = 1, hi = 2\<rparr>; x = \<lparr>ident_name = 1, ident_span = sp\<rparr>;
          one = Expr 4 (Lit \<lparr>lit_kind = Int_lit 1 0, lit_span = sp\<rparr>) sp [];
          use_x = Expr 7 (Path \<lparr>ast_path_span = sp, segments = [\<lparr>segment_ident = x, segment_id = 6\<rparr>]\<rparr>) sp []
      in Expr 9 (TransactionBlock (ast_block.Block
           [Stmt 5 (ast_stmt_kind.Local (ast_local.Local 2 (Pat 3 (Ident (ByValue Immutable) x None) sp) (Some one) sp [])) sp,
            Stmt 10 (ast_stmt_kind.Expr use_x) sp] 8 Default sp)) sp [])"

definition demo_context :: lctx where
  "demo_context = \<lparr>next_node_id = 11, node_id_to_hir_id = [\<lparr>owner = 0, local_id = 0\<rparr>], current_hir_id_owner = [(0, 1)],
     item_local_id_counters = Map.empty, loop_scopes = [], is_in_loop_condition = False, emitted = []\<rparr>"

lemma demo_ids: "lowered_ids demo_resolver demo_transaction = [2, 3, 4, 5, 6, 7, 8, 9]"
  by (simp add: demo_transaction_def demo_resolver_def lowered_ids.simps expr_ids_with_def block_ids_def stmt_ids_def opt_ids_def Let_def)

lemma demo_lowered: "lowered demo_context = {0}"
  by (auto simp: lowered_def hid_def demo_context_def DUMMY_HIR_ID_def MAX_INDEX_def less_Suc_eq split: if_splits)

lemma demo_fits: "item_fits demo_resolver 1 demo_transaction demo_context"
proof -
  have walk: "numbers (walk_expr demo_transaction) = {3}" "names_bind demo_resolver (walk_expr demo_transaction)"
    by (simp_all add: demo_transaction_def walk_expr.simps walk_expr_with_def walk_block_def walk_stmt_def walk_local_def
        generates_node_def Let_def)
  show ?thesis
    unfolding item_fits_def demo_ids demo_lowered walk
    using walk(2) by (simp add: demo_context_def demo_resolver_def hid_def MAX_INDEX_def)
qed

theorem item_numbers_valid_witness:
  "\<exists>item h c' v. lower_item_body demo_resolver 1 demo_transaction demo_context = Ok ((item, h), c') \<and>
    opt_def_index demo_resolver 1 = Some (owner item) \<and> local_id item = 0 \<and> distinct (item # hir_ids h) \<and>
    validator_check (owner item) (visit_ids (item # hir_ids h)) new_validator = Ok v \<and> errors v = []"
proof (rule item_numbers_valid [OF _ demo_fits])
  show "expanded demo_transaction"
    by (simp add: demo_transaction_def expanded_iff kind_expanded_def block_expanded_def stmt_expanded_def pat_expanded_iff Let_def)
qed

end
