(* ===== verification/Lock_Traces.thy ===== *)
theory Lock_Traces
  imports Lowering_Ids
begin

text \<open>
  What a lowered transaction block does at run time. The runs of a HIR expression are described by
  the calls of the two lock functions they make and by the way they end; values are left out, so a
  \<open>match\<close> may take any arm and a loop may go round any number of times. A run ends normally or by a
  \<open>break\<close>, \<open>continue\<close> or \<open>return\<close>; panics, after which the stack is unwound, are left out. Lowering puts the lock and
  unlock expressions nowhere but around the bodies of transaction blocks. Hence the calls of a run
  are well bracketed, as long as no jump leaves the body of a transaction. A jump that does leave it
  passes by the unlock expression.
\<close>

section \<open>Runs of HIR expressions\<close>

datatype event = Lock_event | Unlock_event

datatype jump = Break_to "loop_id_error + hir_id" | Continue_to "loop_id_error + hir_id" | Return_jump

datatype outcome = Done | Jump jump

text \<open>The subexpressions that are evaluated, in their order. An assignment evaluates its right side first.\<close>

definition opt_parts :: "'a option \<Rightarrow> 'a list" where
  "opt_parts x = (case x of None \<Rightarrow> [] | Some y \<Rightarrow> [y])"

lemma opt_parts_simps [simp]: "opt_parts None = []" "opt_parts (Some x) = [x]" "set (opt_parts y) = set_option y"
  by (auto simp: opt_parts_def split: option.splits)

fun stmt_parts :: "'e hir_stmt \<Rightarrow> 'e list" where
  "stmt_parts (hir_stmt.Stmt _ (hir_stmt_kind.Local l) _) = opt_parts (hlocal_init l)"
| "stmt_parts (hir_stmt.Stmt _ (hir_stmt_kind.Expr e) _) = [e]"
| "stmt_parts (hir_stmt.Stmt _ (hir_stmt_kind.Semi e) _) = [e]"

definition block_parts :: "'e hir_block \<Rightarrow> 'e list" where
  "block_parts b = concat (map stmt_parts (hblock_stmts b)) @ opt_parts (hblock_expr b)"

definition arm_parts :: "'e hir_arm \<Rightarrow> 'e list" where
  "arm_parts a = opt_parts (harm_guard a) @ [harm_body a]"

fun parts :: "'e hir_expr_kind \<Rightarrow> 'e list" where
  "parts (hir_expr_kind.Box e) = [e]"
| "parts (hir_expr_kind.Array es) = es"
| "parts (hir_expr_kind.Tup es) = es"
| "parts (hir_expr_kind.Call e es) = e # es"
| "parts (hir_expr_kind.Binary _ l r) = [l, r]"
| "parts (hir_expr_kind.Unary _ e) = [e]"
| "parts (hir_expr_kind.AddrOf _ e) = [e]"
| "parts (DropTemps e) = [e]"
| "parts (hir_expr_kind.Loop b _ _) = block_parts b"
| "parts (hir_expr_kind.Match e arms _) = e # concat (map arm_parts arms)"
| "parts (hir_expr_kind.Block b _) = block_parts b"
| "parts (hir_expr_kind.Assign l r) = [r, l]"
| "parts (hir_expr_kind.AssignOp _ l r) = [r, l]"
| "parts (hir_expr_kind.Field e _) = [e]"
| "parts (hir_expr_kind.Index l r) = [l, r]"
| "parts (hir_expr_kind.Break _ x) = opt_parts x"
| "parts (hir_expr_kind.Ret x) = opt_parts x"
| "parts (hir_expr_kind.Path _) = []"
| "parts (hir_expr_kind.Continue _) = []"
| "parts (hir_expr_kind.Lit _) = []"
| "parts hir_expr_kind.Lock = []"
| "parts hir_expr_kind.Unlock = []"
| "parts hir_expr_kind.Err = []"

text \<open>The jump an expression makes after its subexpressions, and the jumps that end at an expression.\<close>

fun own_jump :: "'e hir_expr_kind \<Rightarrow> jump option" where
  "own_jump (hir_expr_kind.Break d _) = Some (Break_to (target_id d))"
| "own_jump (hir_expr_kind.Continue d) = Some (Continue_to (target_id d))"
| "own_jump (hir_expr_kind.Ret _) = Some Return_jump"
| "own_jump _ = None"

definition caught :: "hir_id \<Rightarrow> 'e hir_expr_kind \<Rightarrow> jump \<Rightarrow> bool" where
  "caught i k j \<longleftrightarrow>
     (case k of
        hir_expr_kind.Loop _ _ _ \<Rightarrow> j = Break_to (Inr i) \<or> j = Continue_to (Inr i)
      | hir_expr_kind.Block _ _ \<Rightarrow> j = Break_to (Inr i)
      | _ \<Rightarrow> False)"

text \<open>The kinds that evaluate their subexpressions one after the other and are done.\<close>

definition strict :: "'e hir_expr_kind \<Rightarrow> bool" where
  "strict k \<longleftrightarrow>
     (case k of
        hir_expr_kind.Lock \<Rightarrow> False
      | hir_expr_kind.Unlock \<Rightarrow> False
      | hir_expr_kind.Loop _ _ _ \<Rightarrow> False
      | hir_expr_kind.Match _ _ _ \<Rightarrow> False
      | _ \<Rightarrow> own_jump k = None)"

inductive run :: "hir_expr \<Rightarrow> event list \<Rightarrow> outcome \<Rightarrow> bool"
  and run_seq :: "hir_expr list \<Rightarrow> event list \<Rightarrow> outcome \<Rightarrow> bool"
  and run_arms :: "hir_expr hir_arm list \<Rightarrow> event list \<Rightarrow> outcome \<Rightarrow> bool"
where
  run_lock: "run (hir_expr.Expr i hir_expr_kind.Lock sp as) [Lock_event] Done"
| run_unlock: "run (hir_expr.Expr i hir_expr_kind.Unlock sp as) [Unlock_event] Done"
| run_strict: "strict k \<Longrightarrow> run_seq (parts k) t Done \<Longrightarrow> run (hir_expr.Expr i k sp as) t Done"
| run_jump: "own_jump k = Some j \<Longrightarrow> run_seq (parts k) t Done \<Longrightarrow> run (hir_expr.Expr i k sp as) t (Jump j)"
| run_escape: "strict k \<or> own_jump k \<noteq> None \<Longrightarrow> run_seq (parts k) t (Jump j) \<Longrightarrow> \<not> caught i k j \<Longrightarrow>
    run (hir_expr.Expr i k sp as) t (Jump j)"
| run_caught: "k = hir_expr_kind.Block b l \<Longrightarrow> run_seq (parts k) t (Jump j) \<Longrightarrow> caught i k j \<Longrightarrow>
    run (hir_expr.Expr i k sp as) t Done"
| run_lazy: "hir_binop_node bop \<in> {hir_bin_op_kind.And, hir_bin_op_kind.Or} \<Longrightarrow> run l t Done \<Longrightarrow>
    run (hir_expr.Expr i (hir_expr_kind.Binary bop l r) sp as) t Done"
| run_scrutinee: "run e t (Jump j) \<Longrightarrow> run (hir_expr.Expr i (hir_expr_kind.Match e arms src) sp as) t (Jump j)"
| run_match: "run e t Done \<Longrightarrow> run_arms arms u res \<Longrightarrow>
    run (hir_expr.Expr i (hir_expr_kind.Match e arms src) sp as) (t @ u) res"
| run_loop_again: "run_seq (block_parts b) t x \<Longrightarrow> x = Done \<or> x = Jump (Continue_to (Inr i)) \<Longrightarrow>
    run (hir_expr.Expr i (hir_expr_kind.Loop b l src) sp as) u res \<Longrightarrow>
    run (hir_expr.Expr i (hir_expr_kind.Loop b l src) sp as) (t @ u) res"
| run_loop_break: "run_seq (block_parts b) t (Jump (Break_to (Inr i))) \<Longrightarrow>
    run (hir_expr.Expr i (hir_expr_kind.Loop b l src) sp as) t Done"
| run_loop_escape: "run_seq (block_parts b) t (Jump j) \<Longrightarrow> \<not> caught i (hir_expr_kind.Loop b l src) j \<Longrightarrow>
    run (hir_expr.Expr i (hir_expr_kind.Loop b l src) sp as) t (Jump j)"
| seq_nil: "run_seq [] [] Done"
| seq_jump: "run x t (Jump j) \<Longrightarrow> run_seq (x # xs) t (Jump j)"
| seq_step: "run x t Done \<Longrightarrow> run_seq xs u res \<Longrightarrow> run_seq (x # xs) (t @ u) res"
| arms_no_match: "run_arms arms t res \<Longrightarrow> run_arms (a # arms) t res"
| arms_guard_fails: "harm_guard a = Some g \<Longrightarrow> run g t Done \<Longrightarrow> run_arms arms u res \<Longrightarrow> run_arms (a # arms) (t @ u) res"
| arms_taken: "run_seq (arm_parts a) t res \<Longrightarrow> run_arms (a # arms) t res"

inductive_cases run_lockE: "run (hir_expr.Expr i hir_expr_kind.Lock sp as) t res"
inductive_cases run_unlockE: "run (hir_expr.Expr i hir_expr_kind.Unlock sp as) t res"

section \<open>Jumps that leave an expression\<close>

lemma stmt_parts_subset: "set (stmt_parts s) \<subseteq> set_hir_stmt s"
proof (cases s rule: stmt_parts.cases)
  case (1 i l sp)
  then show ?thesis by (cases l) auto
qed auto

lemma block_parts_subset: "set (block_parts b) \<subseteq> set_hir_block b"
  using stmt_parts_subset by (cases b) (fastforce simp: block_parts_def)

lemma parts_subset: "set (parts k) \<subseteq> set_hir_expr_kind k"
proof (cases k)
  case (Match e arms src)
  have "set (arm_parts a) \<subseteq> set_hir_arm a" for a :: "'a hir_arm" by (cases a) (auto simp: arm_parts_def)
  with Match show ?thesis by fastforce
qed (auto dest: subsetD [OF block_parts_subset])

function jumps :: "hir_expr \<Rightarrow> jump list" where
  "jumps (hir_expr.Expr i k sp as) =
     filter (\<lambda>j. \<not> caught i k j) (concat (map jumps (parts k)) @ opt_parts (own_jump k))"
  by pat_completeness auto

termination jumps
proof (relation hir_sub_expr)
  show "wf hir_sub_expr" by (rule wf_hir_sub_expr)
qed (auto simp: hir_sub_expr_def dest: subsetD [OF parts_subset])

lemma jumps_parts:
  "j \<in> set (jumps x) \<Longrightarrow> x \<in> set (parts k) \<Longrightarrow> \<not> caught i k j \<Longrightarrow> j \<in> set (jumps (hir_expr.Expr i k sp as))"
  by auto

text \<open>A run that ends with a jump ends with one of these.\<close>

lemma run_jumps:
  "run e t res \<Longrightarrow> res = Jump j \<Longrightarrow> j \<in> set (jumps e)"
  "run_seq es t res \<Longrightarrow> res = Jump j \<Longrightarrow> \<exists>x\<in>set es. j \<in> set (jumps x)"
  "run_arms arms t res \<Longrightarrow> res = Jump j \<Longrightarrow> \<exists>a\<in>set arms. \<exists>x\<in>set (arm_parts a). j \<in> set (jumps x)"
proof (induction arbitrary: j and j and j rule: run_run_seq_run_arms.inducts)
  case (run_jump k j' t i sp as)
  then show ?case by (cases k) (auto simp: caught_def)
next
  case (run_loop_escape b t j i l src sp as)
  then show ?case by auto
next
  case (run_scrutinee e t j i arms src sp as)
  then show ?case by (auto simp: caught_def)
next
  case (run_match e t arms u res i src sp as)
  then show ?case by (fastforce simp: caught_def)
qed (auto simp: caught_def)

section \<open>Bracketed expressions\<close>

text \<open>
  Expressions in which the lock and unlock expressions stand around the bodies of transaction blocks
  only, and these bodies satisfy \<open>Q\<close>.
\<close>

inductive bracketed :: "(hir_expr \<Rightarrow> bool) \<Rightarrow> hir_expr \<Rightarrow> bool" for Q where
  plain: "k \<noteq> hir_expr_kind.Lock \<Longrightarrow> k \<noteq> hir_expr_kind.Unlock \<Longrightarrow> (\<And>x. x \<in> set (parts k) \<Longrightarrow> bracketed Q x) \<Longrightarrow>
    bracketed Q (hir_expr.Expr i k sp as)"
| transaction: "bracketed Q body \<Longrightarrow> Q body \<Longrightarrow>
    block_parts b = [hir_expr.Expr i1 hir_expr_kind.Lock s1 a1, body, hir_expr.Expr i2 hir_expr_kind.Unlock s2 a2] \<Longrightarrow>
    bracketed Q (hir_expr.Expr i (hir_expr_kind.Block b l) sp as)"

text \<open>The bodies of the transaction blocks of an expression.\<close>

fun transaction_body :: "hir_expr hir_expr_kind \<Rightarrow> hir_expr option" where
  "transaction_body (hir_expr_kind.Block b _) =
     (case block_parts b of
        [hir_expr.Expr _ hir_expr_kind.Lock _ _, body, hir_expr.Expr _ hir_expr_kind.Unlock _ _] \<Rightarrow> Some body
      | _ \<Rightarrow> None)"
| "transaction_body _ = None"

function transaction_bodies :: "hir_expr \<Rightarrow> hir_expr list" where
  "transaction_bodies (hir_expr.Expr i k sp as) =
     opt_parts (transaction_body k) @ concat (map transaction_bodies (parts k))"
  by pat_completeness auto

termination transaction_bodies
proof (relation hir_sub_expr)
  show "wf hir_sub_expr" by (rule wf_hir_sub_expr)
qed (auto simp: hir_sub_expr_def dest: subsetD [OF parts_subset])

lemma bracketed_bodies:
  "bracketed P e \<Longrightarrow> (\<And>x. x \<in> set (transaction_bodies e) \<Longrightarrow> Q x) \<Longrightarrow> bracketed Q e"
proof (induction rule: bracketed.induct)
  case (plain k i sp as)
  show ?case by (rule bracketed.plain [OF plain(1,2)], rule plain(4)) (use plain(5) in auto)
next
  case (transaction body b i1 s1 a1 i2 s2 a2 i l sp as)
  show ?case by (rule bracketed.transaction) (use transaction in auto)
qed

section \<open>Balanced traces\<close>

text \<open>The number of locks that are held after a trace; \<open>None\<close> if a lock is released that is not held.\<close>

fun held :: "nat \<Rightarrow> event list \<Rightarrow> nat option" where
  "held n [] = Some n"
| "held n (Lock_event # t) = held (Suc n) t"
| "held (Suc n) (Unlock_event # t) = held n t"
| "held 0 (Unlock_event # t) = None"

lemma held_append: "held n (t @ u) = Option.bind (held n t) (\<lambda>m. held m u)"
  by (induction n t rule: held.induct) auto

abbreviation sealed :: "hir_expr \<Rightarrow> bool" where
  "sealed \<equiv> bracketed (\<lambda>x. jumps x = [])"

text \<open>Sequences that run from \<open>a\<close> locks more than before to no more than before.\<close>

inductive closes :: "hir_expr list \<Rightarrow> nat \<Rightarrow> bool" where
  closes_plain: "(\<And>x. x \<in> set xs \<Longrightarrow> sealed x) \<Longrightarrow> closes xs 0"
| closes_unlock: "closes [hir_expr.Expr i hir_expr_kind.Unlock sp as] 1"
| closes_body: "sealed x \<Longrightarrow> jumps x = [] \<Longrightarrow> closes ys 1 \<Longrightarrow> closes (x # ys) 1"
| closes_lock: "closes ys 1 \<Longrightarrow> closes (hir_expr.Expr i hir_expr_kind.Lock sp as # ys) 0"

lemma sealed_closes:
  assumes "sealed (hir_expr.Expr i k sp as)" and "k \<noteq> hir_expr_kind.Lock" and "k \<noteq> hir_expr_kind.Unlock"
  shows "closes (parts k) 0"
  using assms(1)
proof (cases rule: bracketed.cases)
  case (transaction body b i1 s1 a1 i2 s2 a2 l)
  then show ?thesis by (auto intro!: closes.intros(2-4))
qed (use assms in \<open>auto intro: closes_plain\<close>)

lemma closes_ConsE:
  assumes "closes (x # xs) a"
  obtains (plain) "a = 0" and "sealed x" and "closes xs 0"
  | (unlock) i sp as where "x = hir_expr.Expr i hir_expr_kind.Unlock sp as" and "xs = []" and "a = 1"
  | (body) "a = 1" and "sealed x" and "jumps x = []" and "closes xs 1"
  | (lock) i sp as where "x = hir_expr.Expr i hir_expr_kind.Lock sp as" and "a = 0" and "closes xs 1"
  using assms
proof (cases rule: closes.cases)
  case closes_plain
  then have "sealed x" "closes xs 0" by (auto intro: closes.closes_plain)
  with closes_plain(1) show thesis by (rule plain)
qed (use unlock body lock in auto)

lemma run_lock_iff: "run (hir_expr.Expr i hir_expr_kind.Lock sp as) t res \<longleftrightarrow> t = [Lock_event] \<and> res = Done"
  by (auto simp: strict_def intro: run_lock elim: run_lockE)

lemma run_unlock_iff: "run (hir_expr.Expr i hir_expr_kind.Unlock sp as) t res \<longleftrightarrow> t = [Unlock_event] \<and> res = Done"
  by (auto simp: strict_def intro: run_unlock elim: run_unlockE)

lemma not_sealed [simp]:
  "\<not> bracketed Q (hir_expr.Expr i hir_expr_kind.Lock sp as)" "\<not> bracketed Q (hir_expr.Expr i hir_expr_kind.Unlock sp as)"
  by (auto elim: bracketed.cases)

lemma strict_not_lock: "strict k \<or> own_jump k \<noteq> None \<Longrightarrow> k \<noteq> hir_expr_kind.Lock \<and> k \<noteq> hir_expr_kind.Unlock"
  by (auto simp: strict_def)

lemma sealed_part:
  assumes "sealed (hir_expr.Expr i k sp as)" and "\<And>b l. k \<noteq> hir_expr_kind.Block b l" and "x \<in> set (parts k)"
  shows "sealed x"
  using assms by (auto elim: bracketed.cases)

lemma seq_jump_held:
  assumes "closes (x # xs) a" and "run x t (Jump j)" and IH: "\<And>n. sealed x \<Longrightarrow> held n t = Some n"
  shows "held (n + a) t = Some n"
  using assms(1)
proof (cases rule: closes_ConsE)
  case body
  with run_jumps(1) [OF assms(2)] show ?thesis by simp
qed (use assms(2) IH in \<open>auto simp: run_lock_iff run_unlock_iff\<close>)

lemma seq_step_held:
  assumes "closes (x # xs) a" and "run x t Done" and "run_seq xs u res"
    and x: "\<And>n. sealed x \<Longrightarrow> held n t = Some n" and xs: "\<And>n a. closes xs a \<Longrightarrow> held (n + a) u = Some n"
  shows "held (n + a) (t @ u) = Some n"
  using assms(1)
proof (cases rule: closes_ConsE)
  case plain
  with x xs [of 0 n] show ?thesis by (simp add: held_append)
next
  case (unlock i sp as)
  have "closes xs 0" unfolding unlock by (rule closes_plain) simp
  with unlock assms(2) xs [of 0 n] show ?thesis by (simp add: run_unlock_iff)
next
  case body
  with x xs [of 1 n] show ?thesis by (simp add: held_append)
next
  case (lock i sp as)
  with assms(2) xs [of 1 n] show ?thesis by (simp add: run_lock_iff)
qed

lemma run_held:
  "run e t res \<Longrightarrow> sealed e \<Longrightarrow> held n t = Some n"
  "run_seq es t res \<Longrightarrow> closes es a \<Longrightarrow> held (n + a) t = Some n"
  "run_arms arms t res \<Longrightarrow> (\<And>a x. a \<in> set arms \<Longrightarrow> x \<in> set (arm_parts a) \<Longrightarrow> sealed x) \<Longrightarrow> held n t = Some n"
proof (induction arbitrary: n and n a and n rule: run_run_seq_run_arms.inducts)
  case (run_strict k t i sp as)
  with sealed_closes [of i k sp as] strict_not_lock [of k] show ?case by fastforce
next
  case (run_jump k j t i sp as)
  with sealed_closes [of i k sp as] strict_not_lock [of k] show ?case by fastforce
next
  case (run_escape k t j i sp as)
  with sealed_closes [of i k sp as] strict_not_lock [of k] show ?case by fastforce
next
  case (run_caught k b l t j i sp as)
  with sealed_closes [of i k sp as] show ?case by fastforce
next
  case (run_lazy bop l t i r sp as)
  then show ?case using sealed_part by fastforce
next
  case (run_scrutinee e t j i arms src sp as)
  then show ?case using sealed_part by fastforce
next
  case (run_match e t arms u res i src sp as)
  have "sealed x" if "x \<in> set (parts (hir_expr_kind.Match e arms src))" for x
    by (rule sealed_part [OF run_match.prems _ that]) simp
  then have "held n t = Some n" "held n u = Some n" by (intro run_match.IH; fastforce)+
  then show ?case by (simp add: held_append)
next
  case (run_loop_again b t x i l src sp as u res)
  with sealed_closes [OF run_loop_again.prems] show ?case by (fastforce simp: held_append)
next
  case (run_loop_break b t i l src sp as)
  with sealed_closes [OF run_loop_break.prems] show ?case by fastforce
next
  case (run_loop_escape b t j i l src sp as)
  with sealed_closes [OF run_loop_escape.prems] show ?case by fastforce
next
  case seq_nil
  then show ?case by (auto elim: closes.cases)
next
  case (seq_jump x t j xs)
  show ?case by (rule seq_jump_held [OF seq_jump.prems seq_jump.hyps seq_jump.IH])
next
  case (seq_step x t xs u res)
  show ?case by (rule seq_step_held [OF seq_step.prems seq_step.hyps seq_step.IH])
next
  case (arms_guard_fails a g t arms u res)
  then show ?case by (fastforce simp: held_append arm_parts_def)
next
  case (arms_taken a t res arms)
  have "closes (arm_parts a) 0" by (rule closes_plain) (use arms_taken.prems in auto)
  from arms_taken.IH [OF this] show ?case by simp
qed auto

section \<open>Lowering brackets\<close>

text \<open>The results of a step of lowering, when it returns.\<close>

definition yields :: "('a \<Rightarrow> bool) \<Rightarrow> 'a lower \<Rightarrow> bool" where
  "yields P m \<longleftrightarrow> (\<forall>c x c'. m c = Ok (x, c') \<longrightarrow> P x)"

lemma yieldsD: "yields P m \<Longrightarrow> m c = Ok (x, c') \<Longrightarrow> P x"
  by (auto simp: yields_def)

lemma yields_any: "yields (\<lambda>_. True) m"
  by (simp add: yields_def)

lemma yields_return: "P x \<Longrightarrow> yields P (lower_return x)"
  by (simp add: yields_def lower_return_def)

lemma yields_bind: "yields P m \<Longrightarrow> (\<And>x. P x \<Longrightarrow> yields Q (f x)) \<Longrightarrow> yields Q (lower_bind m f)"
  unfolding yields_def lower_bind_def by (auto simp: res_bind_Ok_iff) blast

lemma yields_skip: "(\<And>x. yields Q (f x)) \<Longrightarrow> yields Q (lower_bind m f)"
  by (rule yields_bind [OF yields_any])

lemma yields_map: "(\<And>x. x \<in> set xs \<Longrightarrow> yields P (f x)) \<Longrightarrow> yields (list_all P) (lower_map f xs)"
proof (induction xs)
  case (Cons x xs)
  have "yields (list_all P) (lower_map f xs)" by (rule Cons.IH) (simp add: Cons.prems)
  with Cons.prems [of x] show ?case by (auto intro!: yields_bind [of P] yields_bind [of "list_all P"] yields_return)
qed (simp add: yields_return)

lemma yields_opt: "(\<And>x. x \<in> set_option y \<Longrightarrow> yields P (f x)) \<Longrightarrow> yields (pred_option P) (lower_opt f y)"
  by (cases y) (auto intro!: yields_bind yields_return)

lemma yields_scopes:
  "yields P f \<Longrightarrow> yields P (with_loop_scope i f)" "yields P f \<Longrightarrow> yields P (with_loop_condition_scope f)"
  by (auto simp: yields_def with_loop_scope_def with_loop_condition_scope_def res_bind_Ok_iff Let_def)

abbreviation brackets :: "hir_expr \<Rightarrow> bool" where
  "brackets \<equiv> bracketed (\<lambda>_. True)"

definition kind_brackets :: "hir_expr hir_expr_kind \<Rightarrow> bool" where
  "kind_brackets k \<longleftrightarrow> (\<forall>i sp as. brackets (hir_expr.Expr i k sp as))"

lemma brackets_relabel: "brackets (hir_expr.Expr i k sp as) \<Longrightarrow> kind_brackets k"
  unfolding kind_brackets_def by (erule bracketed.cases) (auto intro: bracketed.intros)

lemma kind_brackets_plain:
  "k \<noteq> hir_expr_kind.Lock \<Longrightarrow> k \<noteq> hir_expr_kind.Unlock \<Longrightarrow> list_all brackets (parts k) \<Longrightarrow> kind_brackets k"
  by (auto simp: kind_brackets_def list_all_iff intro: bracketed.plain)

lemma yields_finish:
  "yields kind_brackets m \<Longrightarrow> yields brackets (lower_bind m (\<lambda>k. lower_bind (lower_node_id i) (\<lambda>h.
     lower_return (hir_expr.Expr h k sp as))))"
  by (rule yields_bind, assumption, rule yields_skip, rule yields_return) (simp add: kind_brackets_def)

lemma yields_mk_expr: "kind_brackets k \<Longrightarrow> yields brackets (mk_expr sp k as)"
  unfolding mk_expr_def by (rule yields_skip, rule yields_return) (simp add: kind_brackets_def)

definition block_brackets :: "hir_expr hir_block \<Rightarrow> bool" where
  "block_brackets b \<longleftrightarrow> list_all brackets (block_parts b)"

lemma block_kinds:
  "block_brackets b \<Longrightarrow> kind_brackets (hir_expr_kind.Block b l)" "block_brackets b \<Longrightarrow> kind_brackets (hir_expr_kind.Loop b l s)"
  by (auto simp: block_brackets_def intro: kind_brackets_plain)

lemma yields_expr_block: "block_brackets b \<Longrightarrow> yields brackets (expr_block b as)"
  unfolding expr_block_def by (rule yields_mk_expr) (rule block_kinds)

subsection \<open>Statements and blocks\<close>

lemma yields_local:
  assumes "yields (pred_option brackets) (lower_opt le (alocal_init l))"
  shows "yields (\<lambda>l. list_all brackets (opt_parts (hlocal_init l))) (lower_local r le l)"
  unfolding lower_local_def
  by (rule yields_skip, rule yields_skip, rule yields_skip, rule yields_bind [OF assms], rule yields_return)
    (simp add: list_all_iff pred_option_def)

lemma yields_stmt:
  assumes "\<And>e. e \<in> set_ast_stmt s \<Longrightarrow> yields brackets (le e)"
  shows "yields (list_all (\<lambda>s. list_all brackets (stmt_parts s))) (lower_stmt r le s)"
proof (cases s)
  case (Stmt i k sp)
  have node: "yields (list_all (\<lambda>s. list_all brackets (stmt_parts s)))
        (lower_bind m (\<lambda>kind. lower_bind (lower_node_id i) (\<lambda>h. lower_return [hir_stmt.Stmt h kind sp])))"
    if "yields (\<lambda>k. \<forall>i sp. list_all brackets (stmt_parts (hir_stmt.Stmt i k sp))) m" for m
    by (rule yields_bind [OF that], rule yields_skip, rule yields_return) simp
  show ?thesis
  proof (cases k)
    case (Local l)
    have "yields (pred_option brackets) (lower_opt le (alocal_init l))"
      by (rule yields_opt) (use assms Stmt Local in \<open>cases l; auto\<close>)
    then have "yields (\<lambda>k. \<forall>i sp. list_all brackets (stmt_parts (hir_stmt.Stmt i k sp)))
        (lower_bind (lower_local r le l) (\<lambda>l. lower_return (hir_stmt_kind.Local l)))"
      by (intro yields_bind [OF yields_local]) (auto intro: yields_return)
    from node [OF this] show ?thesis by (simp add: Stmt Local lower_stmt_def)
  next
    case (Expr e)
    then have "yields (\<lambda>k. \<forall>i sp. list_all brackets (stmt_parts (hir_stmt.Stmt i k sp)))
        (lower_bind (le e) (\<lambda>e. lower_return (hir_stmt_kind.Expr e)))"
      using assms Stmt by (intro yields_bind [of brackets]) (auto intro: yields_return)
    from node [OF this] show ?thesis by (simp add: Stmt Expr lower_stmt_def)
  next
    case (Semi e)
    then have "yields (\<lambda>k. \<forall>i sp. list_all brackets (stmt_parts (hir_stmt.Stmt i k sp)))
        (lower_bind (le e) (\<lambda>e. lower_return (hir_stmt_kind.Semi e)))"
      using assms Stmt by (intro yields_bind [of brackets]) (auto intro: yields_return)
    from node [OF this] show ?thesis by (simp add: Stmt Semi lower_stmt_def)
  qed (simp add: Stmt lower_stmt_def yields_def lower_bind_def lower_panic_def)
qed

lemma list_all_concat_map: "list_all P (concat (map f xs)) \<longleftrightarrow> list_all (\<lambda>x. list_all P (f x)) xs"
  by (induction xs) simp_all

lemma yields_stmts:
  assumes "\<And>s e. s \<in> set ss \<Longrightarrow> e \<in> set_ast_stmt s \<Longrightarrow> yields brackets (le e)"
  shows "yields (\<lambda>(stmts, x). list_all brackets (concat (map stmt_parts stmts) @ opt_parts x)) (lower_stmts r le ss)"
  using assms
proof (induction ss rule: induct_list012)
  case (2 s)
  let ?P = "\<lambda>(stmts, x). list_all brackets (concat (map stmt_parts stmts) @ opt_parts x)"
  have "yields ?P (lower_bind (lower_stmt r le s) (\<lambda>stmts. lower_return (stmts, None)))"
    by (rule yields_bind [OF yields_stmt]) (use 2 in \<open>auto intro!: yields_return simp: list_all_concat_map\<close>)
  moreover have "yields ?P (lower_bind (le e) (\<lambda>e. lower_return ([], Some e)))" if "astmt_kind s = ast_stmt_kind.Expr e" for e
    by (rule yields_bind [of brackets]) (use 2 that in \<open>cases s; auto intro!: yields_return\<close>)+
  ultimately show ?case by (cases "astmt_kind s") simp_all
next
  case (3 s s' ss)
  have "yields (list_all (\<lambda>s. list_all brackets (stmt_parts s))) (lower_stmt r le s)"
    by (rule yields_stmt) (use 3(3) in auto)
  moreover have "yields (\<lambda>(stmts, x). list_all brackets (concat (map stmt_parts stmts) @ opt_parts x))
      (lower_stmts r le (s' # ss))" by (rule 3(2)) (use 3(3) in auto)
  ultimately show ?case
    unfolding lower_stmts.simps
    by (elim yields_bind) (auto intro!: yields_return simp: list_all_concat_map)
qed (simp add: yields_return)

lemma yields_block:
  assumes "\<And>e. e \<in> set_ast_block b \<Longrightarrow> yields brackets (le e)"
  shows "yields block_brackets (lower_block r le b t)"
proof -
  have "yields (\<lambda>(stmts, x). list_all brackets (concat (map stmt_parts stmts) @ opt_parts x)) (lower_stmts r le (ablock_stmts b))"
    by (rule yields_stmts) (use assms in \<open>cases b; auto\<close>)
  then show ?thesis unfolding lower_block_def
    by (rule yields_bind) (auto intro!: yields_skip yields_return simp: block_brackets_def block_parts_def)
qed

lemma yields_block_expr:
  "(\<And>e. e \<in> set_ast_block b \<Longrightarrow> yields brackets (le e)) \<Longrightarrow> yields brackets (lower_block_expr r le b)"
  unfolding lower_block_expr_def by (rule yields_bind [OF yields_block yields_expr_block])

subsection \<open>Transaction blocks\<close>

lemma lower_lock_stmt:
  assumes "\<And>i. yields (\<lambda>x. hexpr_kind x = k') (le (Expr i k DUMMY_SP []))"
  shows "yields (\<lambda>ss. \<exists>i1 i2 s1 a1 s2. ss = [hir_stmt.Stmt i1 (hir_stmt_kind.Expr (hir_expr.Expr i2 k' s1 a1)) s2])
    (lower_stmt r le (Stmt j (ast_stmt_kind.Expr (Expr i k DUMMY_SP [])) DUMMY_SP))"
proof -
  have "yields (\<lambda>x. \<exists>i2 s1 a1. x = hir_stmt_kind.Expr (hir_expr.Expr i2 k' s1 a1))
      (lower_bind (le (Expr i k DUMMY_SP [])) (\<lambda>e. lower_return (hir_stmt_kind.Expr e)))"
    by (rule yields_bind [OF assms], rule yields_return) (metis hir_expr.collapse)
  then show ?thesis unfolding lower_stmt_def ast_stmt.sel ast_stmt_kind.case
    by (rule yields_bind) (auto intro!: yields_skip yields_return)
qed

text \<open>The block that a transaction block becomes: the lock, the body and the unlock.\<close>

definition transaction_shape :: "(hir_expr \<Rightarrow> bool) \<Rightarrow> hir_expr hir_block \<Rightarrow> bool" where
  "transaction_shape P b \<longleftrightarrow> (\<exists>i1 s1 a1 body i2 s2 a2. P body \<and>
     block_parts b = [hir_expr.Expr i1 hir_expr_kind.Lock s1 a1, body, hir_expr.Expr i2 hir_expr_kind.Unlock s2 a2])"

lemma yields_bind2:
  "yields P (lower_bind m f) \<Longrightarrow> (\<And>y. P y \<Longrightarrow> yields Q (g y)) \<Longrightarrow> yields Q (lower_bind m (\<lambda>x. lower_bind (f x) g))"
  unfolding lower_bind_assoc [symmetric] by (rule yields_bind)

lemma yields_transaction_block:
  assumes body: "yields P (lower_bind (lower_block r le b t) (\<lambda>bb. expr_block bb []))"
    and lock: "\<And>i. yields (\<lambda>x. hexpr_kind x = hir_expr_kind.Lock) (le (Expr i Lock DUMMY_SP []))"
    and unlock: "\<And>i. yields (\<lambda>x. hexpr_kind x = hir_expr_kind.Unlock) (le (Expr i Unlock DUMMY_SP []))"
  shows "yields (transaction_shape P) (lower_transaction_block r le b t)"
proof -
  have stmt: "yields (\<lambda>s. \<exists>i sp. s = hir_stmt.Stmt i (hir_stmt_kind.Expr x) sp) (stmt_expr sp x)" for sp x
    unfolding stmt_expr_def mk_stmt_def by (rule yields_skip, rule yields_return) blast
  show ?thesis
    unfolding lower_transaction_block_def Let_def
    by (rule yields_skip, rule yields_skip, rule yields_bind [OF lower_lock_stmt [where le = le, OF lock]],
        rule yields_bind2 [OF body], rule yields_bind [OF stmt], rule yields_skip, rule yields_skip,
        rule yields_bind [OF lower_lock_stmt [where le = le, OF unlock]], rule yields_skip, rule yields_return)
      (auto simp: transaction_shape_def block_parts_def)
qed

subsection \<open>Expressions\<close>

lemma yields_arm:
  assumes "yields (pred_option brackets) (lower_opt le (aarm_guard a))" and "yields brackets (le (aarm_body a))"
  shows "yields (\<lambda>a. list_all brackets (arm_parts a)) (lower_arm r le a)"
  unfolding lower_arm_def
  by (rule yields_skip, rule yields_skip, rule yields_bind [OF assms(1)], rule yields_bind [OF assms(2)], rule yields_return)
    (auto simp: arm_parts_def list_all_iff pred_option_def)

lemma yields_mk_arm: "brackets e \<Longrightarrow> yields (\<lambda>a. list_all brackets (arm_parts a)) (mk_arm p e)"
  unfolding mk_arm_def by (rule yields_skip, rule yields_return) (simp add: arm_parts_def)

lemma yields_block_all:
  "list_all brackets (concat (map stmt_parts ss) @ opt_parts x) \<Longrightarrow> yields block_brackets (block_all sp ss x)"
  unfolding block_all_def by (rule yields_skip, rule yields_return) (simp add: block_brackets_def block_parts_def)

lemma yields_simple:
  "yields brackets (expr_bool sp v)" "yields brackets (expr_break r sp as)"
  "brackets e \<Longrightarrow> yields brackets (expr_drop_temps sp e as)" "yields brackets (expr_block_empty sp)"
  unfolding expr_bool_def expr_block_empty_def expr_break_def expr_drop_temps_def
  by (auto intro!: yields_mk_expr kind_brackets_plain intro: yields_skip)
    (rule yields_bind [OF yields_block_all yields_expr_block], simp)

text \<open>The condition of an \<open>if\<close> or \<open>while\<close>, lowered inside \<open>w\<close>.\<close>

lemma yields_cond:
  assumes "\<And>x. x = cond \<or> x \<in> set_ast_expr_kind (expr_kind cond) \<Longrightarrow> yields brackets (w (le x))"
  shows "yields (\<lambda>(_, x, _). brackets x)
    (case expr_kind cond of
       Let_expr p x \<Rightarrow> lower_bind (w (le x)) (\<lambda>x. lower_bind (lower_pat r le p) (\<lambda>p. lower_return (p, x, d1)))
     | _ \<Rightarrow> lower_bind (w (le cond)) (\<lambda>cond. lower_bind (expr_drop_temps (hexpr_span cond) cond []) (\<lambda>cond.
           lower_bind (pat_bool sp True) (\<lambda>p. lower_return (p, cond, d2)))))"
proof (cases "\<exists>p x. expr_kind cond = Let_expr p x")
  case True
  then obtain p x where c: "expr_kind cond = Let_expr p x" by blast
  show ?thesis unfolding c ast_expr_kind.case
    by (rule yields_bind [OF assms]) (auto simp: c intro!: yields_skip yields_return)
next
  case False
  have "yields (\<lambda>(_, x, _). brackets x) (lower_bind (w (le cond)) (\<lambda>cond. lower_bind (expr_drop_temps (hexpr_span cond) cond []) (\<lambda>cond.
           lower_bind (pat_bool sp True) (\<lambda>p. lower_return (p, cond, d2)))))"
    by (rule yields_bind [OF assms], simp, rule yields_bind [OF yields_simple(3)], assumption, rule yields_skip, rule yields_return) simp
  with False show ?thesis by (cases "expr_kind cond") auto
qed

lemma kind_brackets_match:
  "brackets e \<Longrightarrow> list_all (\<lambda>a. list_all brackets (arm_parts a)) arms \<Longrightarrow> kind_brackets (hir_expr_kind.Match e arms src)"
  by (rule kind_brackets_plain) (simp_all add: list_all_concat_map)

lemma yields_let:
  assumes "yields brackets (le x)"
  shows "yields kind_brackets (lower_expr_let r le sp p x)"
  unfolding lower_expr_let_def
  by (rule yields_skip, rule yields_bind [OF assms], rule yields_skip, rule yields_bind [OF yields_simple(1)],
      rule yields_bind [OF yields_mk_arm], assumption, rule yields_skip, rule yields_bind [OF yields_simple(1)],
      rule yields_bind [OF yields_mk_arm], assumption, rule yields_return, rule kind_brackets_match) simp_all

lemma yields_if:
  assumes cond: "\<And>x. x = cond \<or> x \<in> set_ast_expr_kind (expr_kind cond) \<Longrightarrow> yields brackets (le x)"
    and b: "\<And>x. x \<in> set_ast_block b \<Longrightarrow> yields brackets (le x)" and els: "\<And>x. x \<in> set_option els \<Longrightarrow> yields brackets (le x)"
  shows "yields kind_brackets (lower_expr_if r le sp cond b els)"
proof -
  have els: "yields (\<lambda>(x, _). brackets x) (case els of
      None \<Rightarrow> lower_bind (expr_block_empty sp) (\<lambda>e. lower_return (e, False))
    | Some els \<Rightarrow> lower_bind (le els) (\<lambda>e. lower_return (e, True)))"
    using els by (cases els) (auto intro!: yields_bind [of brackets] yields_return yields_simple)
  note cond = yields_cond [where w = "\<lambda>m. m", OF cond]
  show ?thesis
    unfolding lower_expr_if_def
    by (rule yields_skip, rule yields_bind [OF els], clarify, rule yields_bind [OF yields_mk_arm], assumption,
        rule yields_bind [OF yields_block_expr [OF b]], assumption, rule yields_bind [OF cond], assumption, clarify,
        rule yields_bind [OF yields_mk_arm], assumption, rule yields_return, rule kind_brackets_match) simp_all
qed

lemma yields_while:
  assumes cond: "\<And>x. x = cond \<or> x \<in> set_ast_expr_kind (expr_kind cond) \<Longrightarrow> yields brackets (le x)"
    and b: "\<And>x. x \<in> set_ast_block b \<Longrightarrow> yields brackets (le x)"
  shows "yields kind_brackets (lower_expr_while_in_loop_scope r le sp cond b l)"
proof -
  note cond = yields_cond [where w = with_loop_condition_scope, OF yields_scopes(2) [OF cond]]
  have match: "yields brackets (expr_match sp x arms src)"
    if "brackets x" "list_all (\<lambda>a. list_all brackets (arm_parts a)) arms" for sp x arms src
    unfolding expr_match_def by (rule yields_mk_expr) (rule kind_brackets_match [OF that])
  have block: "yields block_brackets (block_expr x)" if "brackets x" for x
    unfolding block_expr_def by (rule yields_block_all) (simp add: that)
  show ?thesis
    unfolding lower_expr_while_in_loop_scope_def
    by (rule yields_skip, rule yields_bind [OF yields_simple(2)], rule yields_bind [OF yields_mk_arm], assumption,
        rule yields_bind [OF yields_block_expr [OF b]], assumption, rule yields_bind [OF cond], assumption, clarify,
        rule yields_bind [OF yields_mk_arm], assumption, rule yields_bind [OF match], assumption, simp,
        rule yields_bind [OF block], assumption, rule yields_return, rule block_kinds)
qed

text \<open>The lock and unlock expressions are made by lowering and are not in the tree before.\<close>

inductive lock_free :: "ast_expr \<Rightarrow> bool" where
  "k \<noteq> Lock \<Longrightarrow> k \<noteq> Unlock \<Longrightarrow> (\<And>x. x \<in> set_ast_expr_kind k \<Longrightarrow> lock_free x) \<Longrightarrow> lock_free (Expr i k sp as)"

inductive_simps lock_free_iff: "lock_free (Expr i k sp as)"

lemma lock_free_sub: "lock_free e \<Longrightarrow> (x, e) \<in> sub_expr\<^sup>+ \<Longrightarrow> lock_free x"
proof (induction rule: lock_free.induct)
  case (1 k i sp as)
  from \<open>(x, Expr i k sp as) \<in> sub_expr\<^sup>+\<close> show ?case
    by (rule tranclE) (use 1 in \<open>auto simp: sub_expr_def\<close>)
qed

text \<open>What is known of the recursive calls.\<close>

definition yields_subs :: "(ast_expr \<Rightarrow> hir_expr lower) \<Rightarrow> ast_expr \<Rightarrow> bool" where
  "yields_subs le e \<longleftrightarrow> (\<forall>x. (x, e) \<in> sub_expr\<^sup>+ \<longrightarrow> yields brackets (le x))"

lemma yields_sub:
  assumes le: "yields_subs le e" and "x \<in> set_ast_expr_kind (expr_kind e)"
  shows "yields brackets (le x)"
  using assms by (auto simp: yields_subs_def sub_expr_def)

lemma yields_sub2:
  assumes le: "yields_subs le e"
    and "y \<in> set_ast_expr_kind (expr_kind e)" and "x = y \<or> x \<in> set_ast_expr_kind (expr_kind y)"
  shows "yields brackets (le x)"
proof -
  have "(y, e) \<in> sub_expr" using assms(2) by (simp add: sub_expr_def)
  moreover have "x = y \<or> (x, y) \<in> sub_expr" using assms(3) by (simp add: sub_expr_def)
  ultimately have "(x, e) \<in> sub_expr\<^sup>+" by auto
  with le show ?thesis by (simp add: yields_subs_def)
qed

lemma yields_sub_opt:
  assumes le: "yields_subs le e" and "set_option x \<subseteq> set_ast_expr_kind (expr_kind e)"
  shows "yields (pred_option brackets) (lower_opt le x)"
  by (rule yields_opt) (use yields_sub [OF le] assms(2) in auto)

lemma yields_sub_map:
  assumes le: "yields_subs le e" and "set xs \<subseteq> set_ast_expr_kind (expr_kind e)"
  shows "yields (list_all brackets) (lower_map le xs)"
  by (rule yields_map) (use yields_sub [OF le] assms(2) in auto)

text \<open>Kinds that lowering keeps as they are, with lowered operands.\<close>

lemma yields_step_operators:
  assumes le: "yields_subs le e"
    and kind: "expr_kind e \<noteq> Lock" "expr_kind e \<noteq> Unlock"
      "case expr_kind e of Let_expr _ _ \<Rightarrow> False | If_expr _ _ _ \<Rightarrow> False | While _ _ _ \<Rightarrow> False | Loop _ _ \<Rightarrow> False
       | Match _ _ \<Rightarrow> False | Block _ _ \<Rightarrow> False | TransactionBlock _ \<Rightarrow> False | Paren _ \<Rightarrow> False | _ \<Rightarrow> True"
  shows "yields brackets (lower_expr_with r le e)"
proof -
  have one: "yields kind_brackets (lower_bind (le x) (\<lambda>y. lower_return (g y)))"
    if "x \<in> set_ast_expr_kind (expr_kind e)" "\<And>y. brackets y \<Longrightarrow> kind_brackets (g y)" for x g
    by (rule yields_bind [OF yields_sub [OF le that(1)]], rule yields_return, rule that(2))
  have two: "yields kind_brackets (lower_bind (le x) (\<lambda>x'. lower_bind (le y) (\<lambda>y'. lower_return (g x' y'))))"
    if "x \<in> set_ast_expr_kind (expr_kind e)" "y \<in> set_ast_expr_kind (expr_kind e)"
      "\<And>x y. brackets x \<Longrightarrow> brackets y \<Longrightarrow> kind_brackets (g x y)" for x y g
    by (rule yields_bind [OF yields_sub [OF le that(1)]], rule yields_bind [OF yields_sub [OF le that(2)]],
        rule yields_return, rule that(3))
  show ?thesis
  proof (cases "expr_kind e")
    case (Array xs)
    then show ?thesis unfolding lower_expr_with_def
      by (auto intro!: yields_finish yields_bind [OF yields_sub_map [OF le]] yields_return kind_brackets_plain)
  next
    case (Tup xs)
    then show ?thesis unfolding lower_expr_with_def
      by (auto intro!: yields_finish yields_bind [OF yields_sub_map [OF le]] yields_return kind_brackets_plain)
  next
    case (Call x xs)
    then show ?thesis unfolding lower_expr_with_def
      by (auto intro!: yields_finish yields_bind [OF yields_sub [OF le]] yields_bind [OF yields_sub_map [OF le]] yields_return kind_brackets_plain)
  next
    case (Break l x)
    have "yields kind_brackets (lower_bind (lower_jump_destination r (expr_id e) l) (\<lambda>d.
        lower_bind (lower_opt le x) (\<lambda>x. lower_return (hir_expr_kind.Break d x))))"
      by (rule yields_skip, rule yields_bind [OF yields_sub_opt [OF le]])
        (use Break in \<open>auto intro!: yields_return kind_brackets_plain simp: list_all_iff pred_option_def\<close>)
    with Break show ?thesis unfolding lower_expr_with_def by (auto intro!: yields_finish)
  next
    case (Ret x)
    then show ?thesis unfolding lower_expr_with_def
      by (auto intro!: yields_finish yields_bind [OF yields_sub_opt [OF le]] yields_return kind_brackets_plain simp: list_all_iff pred_option_def)
  next
    case (Path p)
    then show ?thesis unfolding lower_expr_with_def
      by (auto intro!: yields_finish yields_skip [of kind_brackets] yields_return kind_brackets_plain)
  next
    case (Continue l)
    then show ?thesis unfolding lower_expr_with_def
      by (auto intro!: yields_finish yields_skip [of kind_brackets] yields_return kind_brackets_plain)
  next
    case Mac
    then show ?thesis by (simp add: lower_expr_with_def yields_def lower_panic_def)
  qed (use kind in \<open>auto simp: lower_expr_with_def intro!: one two kind_brackets_plain yields_finish yields_return\<close>)
qed

text \<open>Kinds with blocks, arms and patterns.\<close>

lemma yields_step_blocks:
  assumes le: "yields_subs le e"
    and lock: "\<And>i. yields (\<lambda>x. hexpr_kind x = hir_expr_kind.Lock) (le (Expr i Lock DUMMY_SP []))"
    and unlock: "\<And>i. yields (\<lambda>x. hexpr_kind x = hir_expr_kind.Unlock) (le (Expr i Unlock DUMMY_SP []))"
    and kind: "case expr_kind e of Let_expr _ _ \<Rightarrow> True | If_expr _ _ _ \<Rightarrow> True | While _ _ _ \<Rightarrow> True | Loop _ _ \<Rightarrow> True
       | Match _ _ \<Rightarrow> True | Block _ _ \<Rightarrow> True | TransactionBlock _ \<Rightarrow> True | Paren _ \<Rightarrow> True | _ \<Rightarrow> False"
  shows "yields brackets (lower_expr_with r le e)"
proof (cases "expr_kind e")
  case (Let_expr p x)
  then show ?thesis unfolding lower_expr_with_def by (auto intro!: yields_finish yields_let yields_sub [OF le])
next
  case (If_expr c b els)
  have "yields kind_brackets (lower_expr_if r le (expr_span e) c b els)"
    by (rule yields_if) (use If_expr yields_sub [OF le] yields_sub2 [OF le, of c] in auto)
  with If_expr show ?thesis unfolding lower_expr_with_def by (auto intro!: yields_finish)
next
  case (While c b l)
  have "yields kind_brackets (lower_expr_while_in_loop_scope r le (expr_span e) c b l)"
    by (rule yields_while) (use While yields_sub [OF le] yields_sub2 [OF le, of c] in auto)
  with While show ?thesis unfolding lower_expr_with_def by (auto intro!: yields_finish yields_scopes)
next
  case (Loop b l)
  then show ?thesis unfolding lower_expr_with_def
    by (auto intro!: yields_finish yields_scopes yields_bind [OF yields_block] yields_sub [OF le] yields_return block_kinds)
next
  case (Match x arms)
  have arm: "yields (\<lambda>a. list_all brackets (arm_parts a)) (lower_arm r le a)" if "a \<in> set arms" for a
  proof -
    have "set_ast_arm a \<subseteq> set_ast_expr_kind (expr_kind e)" using that Match by auto
    then show ?thesis by (cases a) (auto intro!: yields_arm yields_sub_opt [OF le] yields_sub [OF le])
  qed
  have "yields (list_all (\<lambda>a. list_all brackets (arm_parts a))) (lower_map (lower_arm r le) arms)"
    by (rule yields_map) (rule arm)
  with Match yields_sub [OF le] show ?thesis unfolding lower_expr_with_def
    by (auto intro!: yields_finish yields_bind [OF yields_sub [OF le]] yields_return kind_brackets_match elim!: yields_bind)
next
  case (Block b l)
  then show ?thesis unfolding lower_expr_with_def
    by (auto intro!: yields_finish yields_bind [OF yields_block] yields_sub [OF le] yields_return block_kinds)
next
  case (TransactionBlock b)
  have "yields brackets (lower_bind (lower_block r le b True) (\<lambda>bb. expr_block bb []))"
    by (rule yields_bind [OF yields_block yields_expr_block]) (use TransactionBlock yields_sub [OF le] in auto)
  note block = yields_transaction_block [OF this lock unlock]
  have "yields kind_brackets (lower_expr_txn_block r le b)" unfolding lower_expr_txn_block_def
    by (rule yields_bind [OF block], rule yields_return)
      (auto simp: transaction_shape_def kind_brackets_def intro: bracketed.transaction)
  with TransactionBlock show ?thesis unfolding lower_expr_with_def by (auto intro!: yields_finish)
next
  case (Paren x)
  have "yields brackets (lower_bind (le x) (\<lambda>ex. let sp = (if span_contains (expr_span e) (hexpr_span ex) then expr_span e else hexpr_span ex)
      in lower_return (hir_expr.Expr (hexpr_id ex) (hexpr_kind ex) sp (expr_attrs e @ hexpr_attrs ex))))"
  proof (rule yields_bind [OF yields_sub [OF le]])
    show "x \<in> set_ast_expr_kind (expr_kind e)" by (simp add: Paren)
  next
    fix y assume "brackets y"
    then have "kind_brackets (hexpr_kind y)" by (cases y) (auto dest: brackets_relabel)
    then show "yields brackets (let sp = (if span_contains (expr_span e) (hexpr_span y) then expr_span e else hexpr_span y)
      in lower_return (hir_expr.Expr (hexpr_id y) (hexpr_kind y) sp (expr_attrs e @ hexpr_attrs y)))"
      by (simp add: Let_def yields_return kind_brackets_def)
  qed
  with Paren show ?thesis by (simp add: lower_expr_with_def)
qed (use kind in simp_all)

lemma yields_expr_step:
  assumes le: "yields_subs le e"
    and lock: "\<And>i. yields (\<lambda>x. hexpr_kind x = hir_expr_kind.Lock) (le (Expr i Lock DUMMY_SP []))"
    and unlock: "\<And>i. yields (\<lambda>x. hexpr_kind x = hir_expr_kind.Unlock) (le (Expr i Unlock DUMMY_SP []))"
    and e: "expr_kind e \<noteq> Lock" "expr_kind e \<noteq> Unlock"
  shows "yields brackets (lower_expr_with r le e)"
  using yields_step_operators [OF le e] yields_step_blocks [OF le lock unlock]
  by (cases "expr_kind e") (simp_all only: ast_expr_kind.case simp_thms)

lemma yields_lock:
  "yields (\<lambda>x. hexpr_kind x = hir_expr_kind.Lock) (lower_expr r (Expr i Lock sp as))"
  "yields (\<lambda>x. hexpr_kind x = hir_expr_kind.Unlock) (lower_expr r (Expr i Unlock sp as))"
  unfolding lower_expr.simps [of r "Expr i Lock sp as"] lower_expr.simps [of r "Expr i Unlock sp as"] lower_expr_with_def
  by (auto simp: yields_def lower_bind_def lower_return_def res_bind_Ok_iff)

lemma lower_expr_brackets: "lock_free e \<Longrightarrow> yields brackets (lower_expr r e)"
proof (induction e rule: wf_induct_rule [OF wf_trancl [OF wf_sub_expr]])
  case (1 e)
  have "expr_kind e \<noteq> Lock" "expr_kind e \<noteq> Unlock" using 1(2) by (auto elim: lock_free.cases)
  then show ?case
    unfolding lower_expr.simps [of r e] using 1 lock_free_sub [OF 1(2)]
    by (intro yields_expr_step yields_lock) (simp_all add: yields_subs_def)
qed

section \<open>Transactions hold their lock\<close>

lemma lowered_transaction:
  assumes "lower_expr r (Expr i (TransactionBlock b) sp as) c = Ok (h, c')"
    and "yields P (lower_bind (lower_block r (lower_expr r) b True) (\<lambda>bb. expr_block bb []))"
  shows "\<exists>k. hexpr_kind h = hir_expr_kind.Block k None \<and> transaction_shape P k"
proof -
  have "yields (\<lambda>k. \<exists>b. k = hir_expr_kind.Block b None \<and> transaction_shape P b) (lower_expr_txn_block r (lower_expr r) b)"
    unfolding lower_expr_txn_block_def
    by (rule yields_bind [OF yields_transaction_block [OF assms(2) yields_lock]], rule yields_return) blast
  then have "yields (\<lambda>h. \<exists>b. hexpr_kind h = hir_expr_kind.Block b None \<and> transaction_shape P b)
      (lower_expr r (Expr i (TransactionBlock b) sp as))"
    unfolding lower_expr.simps [of r "Expr i (TransactionBlock b) sp as"] lower_expr_with_def Let_def ast_expr.sel ast_expr_kind.case
    by (rule yields_bind) (auto intro!: yields_skip yields_return)
  from yieldsD [OF this assms(1)] show ?thesis .
qed

lemma transaction_shape_body: "transaction_shape P b \<Longrightarrow> \<exists>body. transaction_body (hir_expr_kind.Block b l) = Some body \<and> P body"
  by (auto simp: transaction_shape_def)

text \<open>
  (C11) A run of a lowered expression gives back every lock it takes. For every tree that lowering
  accepts, and every run of the HIR it returns that ends normally or by a jump (runs that panic and
  unwind are not described by \<open>run\<close>): if no jump leaves the body
  of a transaction block, then the calls of the two lock functions are well bracketed, also for nested
  transactions and for transactions in loops. No lock is given back that is not held, and in the end
  as many locks are held as in the beginning.
\<close>

theorem transactions_balanced:
  assumes "lower_expr r e c = Ok (h, c')" and "lock_free e" and "\<forall>b\<in>set (transaction_bodies h). jumps b = []"
    and "run h t res"
  shows "held n t = Some n"
proof (rule run_held(1) [OF assms(4)])
  have "brackets h" by (rule yieldsD [OF lower_expr_brackets [OF assms(2)] assms(1)])
  then show "sealed h" by (rule bracketed_bodies) (use assms(3) in blast)
qed

text \<open>
  (C12) A jump out of a transaction keeps the lock. Lowering makes of every transaction block the lock, the
  body and the unlock; a run of the body that ends with a \<open>return\<close>, or with a \<open>break\<close> or \<open>continue\<close> of a
  loop around the transaction, is a run of the whole transaction block that takes the lock and passes
  by the unlock.
\<close>

theorem jumps_keep_lock:
  assumes "lower_expr r (Expr i (TransactionBlock b) sp as) c = Ok (h, c')"
  shows "\<exists>body. transaction_body (hexpr_kind h) = Some body \<and>
    (\<forall>t j. run body t (Jump j) \<longrightarrow> j \<noteq> Break_to (Inr (hexpr_id h)) \<longrightarrow> run h (Lock_event # t) (Jump j))"
proof -
  from lowered_transaction [OF assms yields_any] obtain k i1 s1 a1 body i2 s2 a2
    where h: "hexpr_kind h = hir_expr_kind.Block k None"
      "block_parts k = [hir_expr.Expr i1 hir_expr_kind.Lock s1 a1, body, hir_expr.Expr i2 hir_expr_kind.Unlock s2 a2]"
    by (auto simp: transaction_shape_def)
  have "run h (Lock_event # t) (Jump j)" if "run body t (Jump j)" "j \<noteq> Break_to (Inr (hexpr_id h))" for t j
  proof -
    have "run_seq (parts (hexpr_kind h)) ([Lock_event] @ t) (Jump j)"
      unfolding h parts.simps by (intro seq_step run_lock seq_jump that(1))
    with that(2) h(1) show ?thesis by (cases h) (auto simp: strict_def caught_def intro: run_escape)
  qed
  with h show ?thesis by auto
qed

subsection \<open>A transaction with one statement\<close>

definition no_names :: resolver where
  "no_names = \<lparr>get_partial_res = Map.empty, get_label_res = Map.empty, opt_def_index = Map.empty\<rparr>"

definition start_context :: lctx where
  "start_context = \<lparr>next_node_id = 5, node_id_to_hir_id = [], current_hir_id_owner = [(1, 0)],
     item_local_id_counters = Map.empty, loop_scopes = [], is_in_loop_condition = False, emitted = []\<rparr>"

definition some_span :: span where
  "some_span = \<lparr>lo = 1, hi = 2\<rparr>"

definition one_statement :: "ast_expr ast_expr_kind \<Rightarrow> ast_expr ast_block" where
  "one_statement k = ast_block.Block [Stmt 2 (Semi (Expr 3 k some_span [])) some_span] 4 Default some_span"

definition small_transaction :: "ast_expr ast_expr_kind \<Rightarrow> ast_expr" where
  "small_transaction k = Expr 1 (TransactionBlock (one_statement k)) some_span []"

lemma small_transaction_lowers:
  assumes "k = Ret None \<or> k = Lit l"
  shows "\<exists>h c. lower_expr no_names (small_transaction k) start_context = Ok (h, c)"
proof -
  have ids: "lowered_ids no_names (small_transaction k) = [3, 2, 4, 1]" using assms
    by (auto simp: small_transaction_def one_statement_def lowered_ids.simps expr_ids_with_def block_ids_def stmt_ids_def
        opt_ids_def Let_def)
  have "lowered start_context = {}" by (simp add: lowered_def hid_def start_context_def)
  then have "context_fits no_names (small_transaction k) start_context" unfolding context_fits_def ids table_ok_def
    by (simp add: mentions_ok_def start_context_def no_names_def cur_owner_def cur_counter_def MAX_INDEX_def)
  moreover have "expanded (small_transaction k)" using assms
    by (auto simp: small_transaction_def one_statement_def expanded_iff kind_expanded_def block_expanded_def stmt_expanded_def Let_def)
  ultimately show ?thesis using lower_expr_returns by metis
qed

lemma small_transaction_body:
  assumes "lower_expr r (small_transaction k) c = Ok (h, c')"
    and "\<And>le. lower_expr_with r le (Expr 3 k some_span []) =
      lower_bind (lower_node_id 3) (\<lambda>i. lower_return (hir_expr.Expr i k' some_span []))"
  shows "\<exists>b i b' x. transaction_body (hexpr_kind h) = Some b \<and> hexpr_kind h = hir_expr_kind.Block x None \<and>
    hexpr_kind b = hir_expr_kind.Block b' None \<and> block_parts b' = [hir_expr.Expr i k' some_span []]"
proof -
  let ?P = "\<lambda>b. \<exists>i b'. hexpr_kind b = hir_expr_kind.Block b' None \<and> block_parts b' = [hir_expr.Expr i k' some_span []]"
  have "yields ?P (lower_bind (lower_block r (lower_expr r) (one_statement k) True) (\<lambda>bb. expr_block bb []))"
    using assms(2) by (auto simp: one_statement_def lower_block_def lower_stmt_def lower_expr.simps [of r "Expr 3 k some_span []"] Let_def
        lower_bind_laws expr_block_def mk_expr_def block_parts_def intro!: yields_skip yields_return)
  from lowered_transaction [OF assms(1) [unfolded small_transaction_def] this] transaction_shape_body show ?thesis by fastforce
qed

theorem jumps_keep_lock_witness:
  "\<exists>h c. lower_expr no_names (small_transaction (Ret None)) start_context = Ok (h, c) \<and>
    run h [Lock_event] (Jump Return_jump)"
proof -
  obtain h c where h: "lower_expr no_names (small_transaction (Ret None)) start_context = Ok (h, c)"
    using small_transaction_lowers by blast
  obtain b i b' where b: "transaction_body (hexpr_kind h) = Some b" "hexpr_kind b = hir_expr_kind.Block b' None"
    "block_parts b' = [hir_expr.Expr i (hir_expr_kind.Ret None) some_span []]"
    using small_transaction_body [OF h, where k' = "hir_expr_kind.Ret None"]
    by (auto simp: lower_expr_with_def lower_bind_laws)
  have "run (hir_expr.Expr i (hir_expr_kind.Ret None) some_span []) [] (Jump Return_jump)"
    by (rule run_jump) (auto intro: seq_nil)
  then have "run b [] (Jump Return_jump)"
    using b(2,3) by (cases b) (auto simp: strict_def caught_def intro!: run_escape seq_jump)
  with b(1) jumps_keep_lock [OF h [unfolded small_transaction_def]] h show ?thesis by force
qed

theorem transactions_balanced_witness:
  "\<exists>h c. lower_expr no_names (small_transaction (Lit \<lparr>lit_kind = Bool_lit True, lit_span = DUMMY_SP\<rparr>)) start_context = Ok (h, c) \<and>
    (\<forall>b\<in>set (transaction_bodies h). jumps b = []) \<and> run h [Lock_event, Unlock_event] Done \<and>
    held 0 [Lock_event, Unlock_event] = Some 0"
proof -
  let ?l = "\<lparr>lit_kind = Bool_lit True, lit_span = DUMMY_SP\<rparr>"
  obtain h c where h: "lower_expr no_names (small_transaction (Lit ?l)) start_context = Ok (h, c)"
    using small_transaction_lowers by blast
  obtain b i b' x where b: "transaction_body (hexpr_kind h) = Some b" "hexpr_kind h = hir_expr_kind.Block x None"
    "hexpr_kind b = hir_expr_kind.Block b' None" "block_parts b' = [hir_expr.Expr i (hir_expr_kind.Lit ?l) some_span []]"
    using small_transaction_body [OF h, where k' = "hir_expr_kind.Lit ?l"]
    by (auto simp: lower_expr_with_def lower_bind_laws)
  from b(1,2) obtain i1 s1 a1 i2 s2 a2 where x: "block_parts x = [hir_expr.Expr i1 hir_expr_kind.Lock s1 a1, b,
      hir_expr.Expr i2 hir_expr_kind.Unlock s2 a2]"
    by (auto split: list.splits hir_expr.splits hir_expr_kind.splits)
  have jumps: "\<forall>b\<in>set (transaction_bodies h). jumps b = []"
    using b x by (cases h; cases b) auto
  have "run b [] Done"
  proof -
    have "run (hir_expr.Expr i (hir_expr_kind.Lit ?l) some_span []) [] Done"
      by (rule run_strict) (simp_all add: strict_def seq_nil)
    from seq_step [OF this seq_nil] have "run_seq (parts (hexpr_kind b)) [] Done" by (simp add: b)
    then show ?thesis using b(3) by (cases b) (auto simp: strict_def intro!: run_strict)
  qed
  from seq_step [OF run_lock seq_step [OF this seq_step [OF run_unlock seq_nil]]]
  have "run_seq (parts (hexpr_kind h)) [Lock_event, Unlock_event] Done" by (simp add: b(2) x)
  then have run: "run h [Lock_event, Unlock_event] Done" using b(2) by (cases h) (auto simp: strict_def intro!: run_strict)
  have "lock_free (small_transaction (Lit ?l))"
    by (simp add: small_transaction_def one_statement_def lock_free_iff Let_def)
  from transactions_balanced [OF h this jumps run] h jumps run show ?thesis by blast
qed

end
